(* ===== verification/Prelude.thy ===== *)
theory Prelude
  imports Main "HOL-Library.Word" "HOL-Library.Multiset"
begin

text \<open>
  Shared vocabulary of the development: bytes, the C conversions between integer
  types that the sources rely on, the faults a C program can run into (an assertion that
  fails, a NULL pointer, an index outside an array, a division by zero, a read of memory
  that was never written), the result type \<open>'a cres\<close> of an operation that may fault,
  the errno values the sources compare against, and the generic lemmas on lists that
  several components use.
\<close>

section \<open>Bytes and C integers\<close>

type_synonym byte = "8 word"
type_synonym u16 = "16 word"
type_synonym u32 = "32 word"

text \<open>
  Conversions to a signed type of \<open>w\<close> bits, two's complement, as gcc performs them;
  \<open>c_int\<close> is the 32-bit \<open>int\<close> and \<open>c_short\<close> the 16-bit \<open>short\<close> of the
  Linux targets. \<open>c_size\<close> is the conversion to the 64-bit \<open>size_t\<close>.
\<close>

definition c_signed :: "nat \<Rightarrow> int \<Rightarrow> int" where
  "c_signed w x = (x + 2 ^ (w - 1)) mod 2 ^ w - 2 ^ (w - 1)"

definition c_int :: "int \<Rightarrow> int" where
  "c_int x = c_signed 32 x"

definition c_short :: "int \<Rightarrow> int" where
  "c_short x = c_signed 16 x"

definition c_size :: "int \<Rightarrow> nat" where
  "c_size x = nat (x mod 2 ^ 64)"

abbreviation (input) INT_MAX :: int where
  "INT_MAX \<equiv> 2147483647"

abbreviation (input) INT_MIN :: int where
  "INT_MIN \<equiv> - 2147483648"

section \<open>Faults and results\<close>

datatype fault =
    Assert_Fail
  | Null_Deref
  | Out_Of_Bounds
  | Div_By_Zero
  | Uninit_Read
  | Bad_Free
  | Use_After_Free

type_synonym 'a cres = "fault + 'a"

definition cbind :: "'a cres \<Rightarrow> ('a \<Rightarrow> 'b cres) \<Rightarrow> 'b cres" where
  "cbind r f = (case r of Inl e \<Rightarrow> Inl e | Inr x \<Rightarrow> f x)"

definition isOk :: "'a cres \<Rightarrow> bool" where
  "isOk r = (case r of Inl _ \<Rightarrow> False | Inr _ \<Rightarrow> True)"

text \<open>An access to an array cell: a fault when the index is outside the array.\<close>

definition aget :: "'a list \<Rightarrow> int \<Rightarrow> 'a cres" where
  "aget xs i = (if 0 \<le> i \<and> i < int (length xs) then Inr (xs ! nat i) else Inl Out_Of_Bounds)"

definition aset :: "'a list \<Rightarrow> int \<Rightarrow> 'a \<Rightarrow> 'a list cres" where
  "aset xs i v = (if 0 \<le> i \<and> i < int (length xs) then Inr (xs[nat i := v]) else Inl Out_Of_Bounds)"

text \<open>The remainder operator of C: the sign of the dividend, undefined for divisor 0.\<close>

definition c_rem :: "int \<Rightarrow> int \<Rightarrow> int cres" where
  "c_rem a b = (if b = 0 then Inl Div_By_Zero else Inr (sgn a * (\<bar>a\<bar> mod \<bar>b\<bar>)))"

section \<open>errno\<close>

text \<open>The numeric values of Linux, as the table \<open>lib/inc/ename.c.inc\<close> lists them.\<close>

abbreviation (input) EPERM :: nat where "EPERM \<equiv> 1"
abbreviation (input) EINTR :: nat where "EINTR \<equiv> 4"
abbreviation (input) EAGAIN :: nat where "EAGAIN \<equiv> 11"
abbreviation (input) EINVAL :: nat where "EINVAL \<equiv> 22"
abbreviation (input) EPIPE :: nat where "EPIPE \<equiv> 32"
abbreviation (input) EMSGSIZE :: nat where "EMSGSIZE \<equiv> 90"

section \<open>Lemma collections\<close>

named_theorems cres_simps \<open>equations that evaluate faults and results\<close>

lemma cbind_simps [simp, cres_simps]:
  "cbind (Inl e) f = Inl e" "cbind (Inr x) f = f x"
  by (simp_all add: cbind_def)

lemma isOk_simps [simp, cres_simps]: "isOk (Inl e) = False" "isOk (Inr x) = True"
  by (simp_all add: isOk_def)

lemma isOk_iff: "isOk r \<longleftrightarrow> (\<exists>x. r = Inr x)"
  by (cases r) auto

lemma cbind_cong [fundef_cong]:
  "r = r' \<Longrightarrow> (\<And>x. r' = Inr x \<Longrightarrow> f x = g x) \<Longrightarrow> cbind r f = cbind r' g"
  by (cases r') simp_all

lemma cbind_Inr_iff [simp]: "cbind r f = Inr y \<longleftrightarrow> (\<exists>x. r = Inr x \<and> f x = Inr y)"
  by (cases r) auto

lemma aget_ok [cres_simps]: "0 \<le> i \<Longrightarrow> i < int (length xs) \<Longrightarrow> aget xs i = Inr (xs ! nat i)"
  by (simp add: aget_def)

lemma aset_ok [cres_simps]: "0 \<le> i \<Longrightarrow> i < int (length xs) \<Longrightarrow> aset xs i v = Inr (xs[nat i := v])"
  by (simp add: aset_def)

lemma c_rem_nonneg [cres_simps]: "0 \<le> a \<Longrightarrow> 0 < b \<Longrightarrow> c_rem a b = Inr (a mod b)"
  by (auto simp: c_rem_def sgn_if)

lemma c_int_id [simp]: "INT_MIN \<le> x \<Longrightarrow> x \<le> INT_MAX \<Longrightarrow> c_int x = x"
  by (simp add: c_int_def c_signed_def)

lemma c_int_range: "INT_MIN \<le> c_int x \<and> c_int x \<le> INT_MAX"
proof -
  have "0 \<le> (x + 2147483648) mod 4294967296" "(x + 2147483648) mod 4294967296 < 4294967296"
    by simp_all
  then show ?thesis by (simp add: c_int_def c_signed_def)
qed

lemma c_size_id [simp]: "0 \<le> x \<Longrightarrow> x < 2 ^ 64 \<Longrightarrow> c_size x = nat x"
  by (simp add: c_size_def)

section \<open>Words\<close>

lemma unat_ucast_wider:
  fixes w :: "'a::len word"
  assumes "LENGTH('a) \<le> LENGTH('b)"
  shows "unat (ucast w :: 'b::len word) = unat w"
proof -
  have "unat w < 2 ^ LENGTH('b)"
    using unsigned_less [of w] assms by (metis less_le_trans one_le_numeral power_increasing)
  then show ?thesis by (simp add: unsigned_ucast_eq take_bit_nat_eq_self)
qed

lemma uint_ucast_wider:
  fixes w :: "'a::len word"
  assumes "LENGTH('a) \<le> LENGTH('b)"
  shows "uint (ucast w :: 'b::len word) = uint w"
  using unat_ucast_wider [OF assms, of w] by (metis uint_nat)

lemma unat_byte [simp]: "unat (x::byte) < 256"
  using unsigned_less [of x] by simp

lemma uint_byte [simp]: "uint (x::byte) < 256"
  using unsigned_less [of x] by simp

section \<open>Lists\<close>

lemma drop_take_Suc: "i < length xs \<Longrightarrow> drop i xs = xs ! i # drop (Suc i) xs"
  by (rule Cons_nth_drop_Suc [symmetric])

lemma nth_mod_update:
  assumes "i < n" and "j < n" and "i \<noteq> j"
  shows "xs[i := v] ! j = xs ! j"
  using assms by simp

lemma mod_add_neq:
  fixes h d n :: nat
  assumes "0 < d" and "d < n" and "h < n"
  shows "(h + d) mod n \<noteq> h"
proof (cases "h + d < n")
  case True
  then show ?thesis using assms(1) by simp
next
  case False
  then have "(h + d) mod n = h + d - n" using assms by (simp add: mod_if)
  then show ?thesis using assms False by arith
qed

lemma filter_remove1_distinct:
  "distinct (map f xs) \<Longrightarrow> x \<in> set xs \<Longrightarrow> filter (\<lambda>y. f y \<noteq> f x) xs = remove1 x xs"
proof (induction xs)
  case Nil
  then show ?case by simp
next
  case (Cons a xs)
  show ?case
  proof (cases "a = x")
    case True
    with Cons.prems have "f x \<notin> f ` set xs" by simp
    then have "\<forall>y\<in>set xs. f y \<noteq> f x" by (metis imageI)
    with True show ?thesis by (simp add: filter_id_conv)
  next
    case False
    with Cons.prems have "f a \<noteq> f x" by (metis distinct.simps(2) image_eqI list.set_map list.simps(9) set_ConsD)
    with False Cons show ?thesis by simp
  qed
qed

text \<open>The values of \<open>f\<close> on the entries of a table that satisfy \<open>P\<close>, counted with multiplicity.\<close>

definition picks :: "('a \<Rightarrow> bool) \<Rightarrow> ('a \<Rightarrow> 'b) \<Rightarrow> 'a list \<Rightarrow> 'b multiset" where
  "picks P f xs = mset (map f (filter P xs))"

lemma picks_simps [simp]:
  "picks P f [] = {#}"
  "picks P f (x # xs) = (if P x then add_mset (f x) (picks P f xs) else picks P f xs)"
  "picks P f (xs @ ys) = picks P f xs + picks P f ys"
  by (simp_all add: picks_def)

lemma in_picks: "y \<in># picks P f xs \<longleftrightarrow> (\<exists>x\<in>set xs. P x \<and> f x = y)"
  by (auto simp: picks_def)

lemma size_picks: "size (picks P f xs) = length (filter P xs)"
  by (induction xs) simp_all

lemma picks_replicate [simp]: "\<not> P x \<Longrightarrow> picks P f (replicate n x) = {#}"
  by (induction n) simp_all

lemma picks_update:
  assumes "i < length xs"
  shows "picks P f (xs[i := v]) + (if P (xs ! i) then {#f (xs ! i)#} else {#})
    = picks P f xs + (if P v then {#f v#} else {#})"
proof -
  from assms obtain ys x zs where "xs = ys @ x # zs" "length ys = i"
    by (metis id_take_nth_drop length_take min.absorb2 order_less_imp_le)
  then show ?thesis by auto
qed

section \<open>Ring buffers\<close>

text \<open>
  The window of \<open>c\<close> consecutive cells of a circular buffer \<open>xs\<close> from index \<open>h\<close>. The
  array queue and the task queue of the thread pool are both read through it.
\<close>

definition ring :: "'a list \<Rightarrow> nat \<Rightarrow> nat \<Rightarrow> 'a list" where
  "ring xs h c = map (\<lambda>k. xs ! ((h + k) mod length xs)) [0..<c]"

lemma length_ring [simp]: "length (ring xs h c) = c"
  by (simp add: ring_def)

lemma ring_0 [simp]: "ring xs h 0 = []"
  by (simp add: ring_def)

lemma ring_push:
  assumes h: "h < length xs" and c: "c < length xs"
  shows "ring (xs[(h + c) mod length xs := v]) h (Suc c) = ring xs h c @ [v]"
proof -
  let ?n = "length xs"
  have "xs[(h + c) mod ?n := v] ! ((h + k) mod ?n) = xs ! ((h + k) mod ?n)" if less: "k < c" for k
  proof -
    obtain d where d: "k + d = c" "0 < d" using less_imp_add_positive [OF less] by auto
    have "((h + k) mod ?n + d) mod ?n \<noteq> (h + k) mod ?n"
    proof (rule mod_add_neq)
      show "0 < d" by (rule d(2))
      show "d < ?n" using d(1) c by linarith
      show "(h + k) mod ?n < ?n" using c by (intro mod_less_divisor) linarith
    qed
    then have "(h + c) mod ?n \<noteq> (h + k) mod ?n"
      using d(1) by (simp add: mod_add_left_eq add.assoc)
    then show ?thesis by simp
  qed
  moreover have "(h + c) mod ?n < ?n" using h by (intro mod_less_divisor) auto
  ultimately show ?thesis by (simp add: ring_def)
qed

lemma ring_pop:
  assumes "h < length xs"
  shows "ring xs h (Suc c) = xs ! h # ring xs (Suc h mod length xs) c"
proof -
  have "[0..<Suc c] = 0 # map Suc [0..<c]" by (simp add: map_Suc_upt upt_conv_Cons)
  moreover have "(h + Suc k) mod length xs = (Suc h mod length xs + k) mod length xs" for k
    by (simp add: mod_add_left_eq)
  ultimately show ?thesis using assms by (simp add: ring_def o_def del: upt_Suc)
qed

text \<open>The C idiom that advances an index of a ring: compare with the size and reset to 0.\<close>

lemma wrap_index: "i < n \<Longrightarrow> (if Suc i = n then 0 else Suc i) = Suc i mod (n::nat)"
  by auto

end
