(* ===== verification/CrcCore.thy ===== *)
theory CrcCore
  imports Prelude
begin

text \<open>
  The bit-by-bit definition of a reflected CRC, which the table-driven routines of
  \<open>crc/crc16.c\<close> and \<open>crc/crc32.c\<close> are compared with, and the interface
  \<open>reflected_crc\<close>: a table whose entry \<open>i\<close> is eight shift steps of \<open>i\<close> turns
  one table lookup into eight shift steps of the register.
\<close>

unbundle bit_operations_syntax

section \<open>The bitwise reference\<close>

definition crc_step :: "'a::len word \<Rightarrow> 'a word \<Rightarrow> 'a word" where
  "crc_step poly x = (if bit x 0 then drop_bit 1 x XOR poly else drop_bit 1 x)"

fun crc_steps :: "'a::len word \<Rightarrow> nat \<Rightarrow> 'a word \<Rightarrow> 'a word" where
  "crc_steps poly 0 x = x"
| "crc_steps poly (Suc n) x = crc_steps poly n (crc_step poly x)"

definition crc_byte :: "'a::len word \<Rightarrow> 'a word \<Rightarrow> byte \<Rightarrow> 'a word" where
  "crc_byte poly crc b = crc_steps poly 8 (crc XOR ucast b)"

definition crc_bytes :: "'a::len word \<Rightarrow> 'a word \<Rightarrow> byte list \<Rightarrow> 'a word" where
  "crc_bytes poly crc bs = foldl (crc_byte poly) crc bs"

lemma crc_bytes_Nil [simp]: "crc_bytes poly crc [] = crc"
  by (simp add: crc_bytes_def)

lemma crc_bytes_Cons [simp]: "crc_bytes poly crc (b # bs) = crc_bytes poly (crc_byte poly crc b) bs"
  by (simp add: crc_bytes_def)

lemma crc_bytes_append: "crc_bytes poly crc (as @ bs) = crc_bytes poly (crc_bytes poly crc as) bs"
  by (simp add: crc_bytes_def)

section \<open>Linearity over exclusive or\<close>

lemma odd_xor_word: "odd ((x::'a::len word) XOR y) \<longleftrightarrow> (odd x \<noteq> odd y)"
  by (auto simp flip: bit_0 simp: bit_xor_iff)

lemma crc_step_xor: "crc_step poly (x XOR y) = crc_step poly x XOR crc_step poly y"
  by (rule bit_eqI) (auto simp: crc_step_def bit_0 odd_xor_word bit_simps)

lemma crc_steps_xor: "crc_steps poly n (x XOR y) = crc_steps poly n x XOR crc_steps poly n y"
  by (induction n arbitrary: x y) (simp_all add: crc_step_xor)

lemma crc_steps_even:
  "(\<And>k. k < n \<Longrightarrow> \<not> bit x k) \<Longrightarrow> crc_steps poly n x = drop_bit n x"
proof (induction n arbitrary: x)
  case 0
  then show ?case by simp
next
  case (Suc n)
  from Suc.prems [of 0] have "\<not> odd x" by (simp add: bit_0)
  then have step: "crc_step poly x = drop_bit 1 x" by (simp add: crc_step_def bit_0)
  have "crc_steps poly n (drop_bit 1 x) = drop_bit n (drop_bit 1 x)"
    by (rule Suc.IH) (use Suc.prems in \<open>simp add: bit_simps\<close>)
  with step show ?case by (simp add: drop_bit_drop_bit)
qed

lemma low_high_split:
  fixes x :: "'a::len word"
  shows "x = (x AND mask n) XOR push_bit n (drop_bit n x)"
  by (rule bit_eqI) (auto simp: bit_simps)

lemma crc_steps_split:
  "crc_steps poly n x = crc_steps poly n (x AND mask n) XOR drop_bit n x"
proof -
  have "crc_steps poly n (push_bit n (drop_bit n x)) = drop_bit n (push_bit n (drop_bit n x))"
    by (rule crc_steps_even) (simp add: bit_simps)
  also have "\<dots> = drop_bit n x"
    by (rule bit_eqI) (auto simp: bit_simps dest: bit_imp_le_length)
  finally have high: "crc_steps poly n (push_bit n (drop_bit n x)) = drop_bit n x" .
  have "crc_steps poly n x = crc_steps poly n ((x AND mask n) XOR push_bit n (drop_bit n x))"
    by (subst low_high_split [of x n]) (rule refl)
  with high show ?thesis by (simp add: crc_steps_xor)
qed

text \<open>When the register's low byte equals the input byte, the byte only shifts the register.\<close>

lemma crc_byte_low:
  fixes x :: "'a::len word"
  assumes "8 \<le> LENGTH('a)"
  shows "crc_byte poly x (ucast x) = drop_bit 8 x"
proof -
  let ?y = "x XOR ucast (ucast x :: byte)"
  have "crc_steps poly 8 ?y = drop_bit 8 ?y"
    by (rule crc_steps_even) (use assms in \<open>auto simp: bit_simps\<close>)
  also have "\<dots> = drop_bit 8 x"
    by (rule bit_eqI) (auto simp: bit_simps)
  finally show ?thesis by (simp add: crc_byte_def)
qed

lemma crc_steps_add: "crc_steps poly (m + n) x = crc_steps poly n (crc_steps poly m x)"
  by (induction m arbitrary: x) simp_all

text \<open>
  Feeding the low byte of a word \<open>w\<close> and keeping the rest of \<open>w\<close> aside is the same as
  adding the whole of \<open>w\<close> to the register first.
\<close>

lemma crc_steps_feed:
  fixes x w :: "'a::len word"
  assumes "8 \<le> LENGTH('a)"
  shows "crc_steps poly 8 (x XOR w) = crc_byte poly x (ucast w) XOR drop_bit 8 w"
proof -
  let ?b = "ucast (ucast w :: byte) :: 'a word"
  have "x XOR w = (x XOR ?b) XOR (w XOR ?b)"
    by (metis xor.assoc xor.commute xor.right_neutral xor_self_eq)
  then have "crc_steps poly 8 (x XOR w) = crc_steps poly 8 (x XOR ?b) XOR crc_steps poly 8 (w XOR ?b)"
    by (simp only: crc_steps_xor)
  with crc_byte_low [OF assms, of poly w] show ?thesis by (simp add: crc_byte_def)
qed

section \<open>Injectivity\<close>

text \<open>
  A step loses no information when the polynomial has its top bit set: that bit of the
  result says which branch was taken.
\<close>

lemma crc_step_zero:
  assumes top: "bit poly (LENGTH('a) - 1)" and z: "crc_step poly (x::'a::len word) = 0"
  shows "x = 0"
proof (cases "odd x")
  case True
  then have "bit (crc_step poly x) (LENGTH('a) - 1)"
    using top by (auto simp: crc_step_def bit_0 bit_simps dest: bit_imp_le_length)
  with z show ?thesis by simp
next
  case False
  then have d: "drop_bit 1 x = 0" using z by (simp add: crc_step_def bit_0)
  show ?thesis
  proof (rule bit_eqI)
    fix n
    show "bit x n = bit 0 n"
    proof (cases n)
      case 0
      with False show ?thesis by (simp add: bit_0)
    next
      case (Suc m)
      from d have "\<not> bit (drop_bit 1 x) m" by simp
      with Suc show ?thesis by (simp add: bit_simps)
    qed
  qed
qed

lemma crc_steps_zero:
  assumes top: "bit poly (LENGTH('a) - 1)"
  shows "crc_steps poly n (x::'a::len word) = 0 \<Longrightarrow> x = 0"
  by (induction n arbitrary: x) (auto dest: crc_step_zero [OF top])

lemma word_xor_eq_0: "(x::'a::len word) XOR y = 0 \<longleftrightarrow> x = y"
  by (metis xor.assoc xor.left_neutral xor_self_eq)

lemma crc_steps_inj:
  assumes top: "bit poly (LENGTH('a) - 1)"
  shows "crc_steps poly n (x::'a::len word) = crc_steps poly n y \<longleftrightarrow> x = y"
  using crc_steps_zero [OF top, of n "x XOR y"] by (auto simp: crc_steps_xor word_xor_eq_0)

section \<open>Checking a table\<close>

text \<open>
  Since a step is linear, a table is right when its entry 0 is 0, its entries at the powers
  of two are right, and each upper half is the lower half with the entry at the power added.
\<close>

lemma of_nat_xor_exp:
  assumes "i < 2 ^ k"
  shows "(word_of_nat (2 ^ k + i) :: 'a::len word) = word_of_nat (2 ^ k) XOR word_of_nat i"
proof -
  have "\<not> bit i k" using assms by (simp add: bit_nat_iff not_le bit_iff_odd)
  then have "2 ^ k + i = (2 ^ k XOR i :: nat)"
    by (intro disjunctive_add_eq_xor bit_eqI) (auto simp: bit_simps)
  then show ?thesis by (simp only: of_nat_xor_eq)
qed

fun crc_build :: "'a::len word list \<Rightarrow> 'a word list" where
  "crc_build [] = [0]"
| "crc_build (b # bs) = (let t = crc_build bs in t @ map (\<lambda>x. b XOR x) t)"

definition crc_basis :: "'a::len word \<Rightarrow> 'a word list" where
  "crc_basis poly = map (\<lambda>k. crc_steps poly 8 (2 ^ k)) [7, 6, 5, 4, 3, 2, 1, 0]"

lemma crc_steps_8:
  "crc_steps poly 8 x = crc_step poly (crc_step poly (crc_step poly (crc_step poly
     (crc_step poly (crc_step poly (crc_step poly (crc_step poly x)))))))"
  by (simp add: eval_nat_numeral)

lemma length_crc_build [simp]: "length (crc_build bs) = 2 ^ length bs"
  by (induction bs) (simp_all add: Let_def)

lemma crc_build_nth:
  "i < 2 ^ n \<Longrightarrow>
   crc_build (map (\<lambda>k. crc_steps poly m (2 ^ k)) (rev [0..<n])) ! i = crc_steps poly m (word_of_nat i)"
proof (induction n arbitrary: i)
  case 0
  have "crc_steps poly m 0 = 0" using crc_steps_even [of m 0 poly] by simp
  with 0 show ?case by simp
next
  case (Suc n)
  show ?case
  proof (cases "i < 2 ^ n")
    case True
    with Suc.IH [OF True] show ?thesis by (simp add: Let_def nth_append)
  next
    case False
    then obtain j where j: "i = 2 ^ n + j" "j < 2 ^ n"
      using Suc.prems by (metis add_less_cancel_left le_add_diff_inverse mult_2 not_le power_Suc)
    with Suc.IH [OF j(2)] of_nat_xor_exp [OF j(2), where 'a='a] show ?thesis
      by (simp add: Let_def nth_append flip: crc_steps_xor)
  qed
qed

lemma crc_build_entry:
  assumes "table = crc_build (crc_basis poly)" and "i < 256"
  shows "table ! i = crc_steps poly 8 (word_of_nat i)"
proof -
  have "crc_basis poly = map (\<lambda>k. crc_steps poly 8 (2 ^ k)) (rev [0..<8])"
    by (simp add: crc_basis_def upt_rec)
  with assms crc_build_nth [of i 8 poly 8] show ?thesis by simp
qed

section \<open>The table interface\<close>

locale reflected_crc =
  fixes poly :: "'a::len word" and table :: "'a word list"
  assumes table_entry: "\<And>i. i < 256 \<Longrightarrow> table ! i = crc_steps poly 8 (word_of_nat i)"
    and table_length: "length table = 256"
    and wide: "8 \<le> LENGTH('a)"
    and top_bit: "bit poly (LENGTH('a) - 1)"
begin

lemma mask8: "(mask 8 :: 'a word) = 255"
  by (simp add: mask_eq_exp_minus_1)

lemma index_bound: "unat ((x::'a word) AND 255) < 256"
proof -
  have "x AND mask 8 = take_bit 8 x" by (simp add: take_bit_eq_mask ac_simps)
  then have "unat (x AND mask 8) = take_bit 8 (unat x)" by (simp add: unsigned_take_bit_eq)
  then have "unat (x AND 255) = take_bit 8 (unat x)" by (simp add: mask8)
  then show ?thesis using take_bit_nat_less_exp [of 8 "unat x"] by simp
qed

lemma index_bound_int: "uint ((x::'a word) AND 255) < 256"
proof -
  have "int (unat (x AND 255)) = uint (x AND 255)" by simp
  with index_bound [of x] show ?thesis by linarith
qed

lemma table_update: "table ! unat (x AND 255) XOR drop_bit 8 x = crc_steps poly 8 x"
  using crc_steps_split [of poly 8 x] index_bound [of x] by (simp add: table_entry mask8)

lemma byte_inj: "crc_byte poly x b = crc_byte poly y b \<longleftrightarrow> x = y"
  unfolding crc_byte_def crc_steps_inj [OF top_bit]
  by (metis xor.assoc xor.right_neutral xor_self_eq)

lemma byte_inj2: "crc_byte poly x b = crc_byte poly x c \<longleftrightarrow> b = c"
proof -
  have "(ucast b :: 'a word) = ucast c \<Longrightarrow> b = c"
  proof -
    assume eq: "(ucast b :: 'a word) = ucast c"
    have "bit b n = bit c n" if "n < 8" for n
    proof -
      have "bit (ucast b :: 'a word) n = bit (ucast c :: 'a word) n" using eq by simp
      then show ?thesis using that wide by (simp add: bit_simps)
    qed
    then show ?thesis by (intro bit_word_eqI) simp
  qed
  then show ?thesis
    unfolding crc_byte_def crc_steps_inj [OF top_bit]
    by (metis xor.assoc xor.left_neutral xor_self_eq)
qed

lemma bytes_inj: "crc_bytes poly x bs = crc_bytes poly y bs \<longleftrightarrow> x = y"
  by (induction bs arbitrary: x y) (simp_all add: byte_inj)

lemma detects_one_byte:
  assumes "b \<noteq> c"
  shows "crc_bytes poly x (as @ b # bs) \<noteq> crc_bytes poly x (as @ c # bs)"
  using assms by (simp add: crc_bytes_append bytes_inj byte_inj2)

end

end
