(* ===== verification/Crc16.thy ===== *)
theory Crc16
  imports CrcCore
begin

text \<open>
  \<open>crc/crc16.c\<close>: the table-driven CRC-16 over a frame (two 256-byte tables, one for
  each half of the register), shown equal to the bitwise CRC with the reflected polynomial
  \<open>0xA001\<close> and the initial register \<open>0xFFFF\<close>. The frame is a list of bytes; reading
  past its end is a fault, as is the lookup in a table outside its 256 entries.
\<close>

unbundle bit_operations_syntax

definition arr_crc_hi :: "byte list" where
  "arr_crc_hi =
    [0x00, 0xC1, 0x81, 0x40, 0x01, 0xC0, 0x80, 0x41, 0x01, 0xC0, 0x80, 0x41,
     0x00, 0xC1, 0x81, 0x40, 0x01, 0xC0, 0x80, 0x41, 0x00, 0xC1, 0x81, 0x40,
     0x00, 0xC1, 0x81, 0x40, 0x01, 0xC0, 0x80, 0x41, 0x01, 0xC0, 0x80, 0x41,
     0x00, 0xC1, 0x81, 0x40, 0x00, 0xC1, 0x81, 0x40, 0x01, 0xC0, 0x80, 0x41,
     0x00, 0xC1, 0x81, 0x40, 0x01, 0xC0, 0x80, 0x41, 0x01, 0xC0, 0x80, 0x41,
     0x00, 0xC1, 0x81, 0x40, 0x01, 0xC0, 0x80, 0x41, 0x00, 0xC1, 0x81, 0x40,
     0x00, 0xC1, 0x81, 0x40, 0x01, 0xC0, 0x80, 0x41, 0x00, 0xC1, 0x81, 0x40,
     0x01, 0xC0, 0x80, 0x41, 0x01, 0xC0, 0x80, 0x41, 0x00, 0xC1, 0x81, 0x40,
     0x00, 0xC1, 0x81, 0x40, 0x01, 0xC0, 0x80, 0x41, 0x01, 0xC0, 0x80, 0x41,
     0x00, 0xC1, 0x81, 0x40, 0x01, 0xC0, 0x80, 0x41, 0x00, 0xC1, 0x81, 0x40,
     0x00, 0xC1, 0x81, 0x40, 0x01, 0xC0, 0x80, 0x41, 0x01, 0xC0, 0x80, 0x41,
     0x00, 0xC1, 0x81, 0x40, 0x00, 0xC1, 0x81, 0x40, 0x01, 0xC0, 0x80, 0x41,
     0x00, 0xC1, 0x81, 0x40, 0x01, 0xC0, 0x80, 0x41, 0x01, 0xC0, 0x80, 0x41,
     0x00, 0xC1, 0x81, 0x40, 0x00, 0xC1, 0x81, 0x40, 0x01, 0xC0, 0x80, 0x41,
     0x01, 0xC0, 0x80, 0x41, 0x00, 0xC1, 0x81, 0x40, 0x01, 0xC0, 0x80, 0x41,
     0x00, 0xC1, 0x81, 0x40, 0x00, 0xC1, 0x81, 0x40, 0x01, 0xC0, 0x80, 0x41,
     0x00, 0xC1, 0x81, 0x40, 0x01, 0xC0, 0x80, 0x41, 0x01, 0xC0, 0x80, 0x41,
     0x00, 0xC1, 0x81, 0x40, 0x01, 0xC0, 0x80, 0x41, 0x00, 0xC1, 0x81, 0x40,
     0x00, 0xC1, 0x81, 0x40, 0x01, 0xC0, 0x80, 0x41, 0x01, 0xC0, 0x80, 0x41,
     0x00, 0xC1, 0x81, 0x40, 0x00, 0xC1, 0x81, 0x40, 0x01, 0xC0, 0x80, 0x41,
     0x00, 0xC1, 0x81, 0x40, 0x01, 0xC0, 0x80, 0x41, 0x01, 0xC0, 0x80, 0x41,
     0x00, 0xC1, 0x81, 0x40]"

definition arr_crc_lo :: "byte list" where
  "arr_crc_lo =
    [0x00, 0xC0, 0xC1, 0x01, 0xC3, 0x03, 0x02, 0xC2, 0xC6, 0x06, 0x07, 0xC7,
     0x05, 0xC5, 0xC4, 0x04, 0xCC, 0x0C, 0x0D, 0xCD, 0x0F, 0xCF, 0xCE, 0x0E,
     0x0A, 0xCA, 0xCB, 0x0B, 0xC9, 0x09, 0x08, 0xC8, 0xD8, 0x18, 0x19, 0xD9,
     0x1B, 0xDB, 0xDA, 0x1A, 0x1E, 0xDE, 0xDF, 0x1F, 0xDD, 0x1D, 0x1C, 0xDC,
     0x14, 0xD4, 0xD5, 0x15, 0xD7, 0x17, 0x16, 0xD6, 0xD2, 0x12, 0x13, 0xD3,
     0x11, 0xD1, 0xD0, 0x10, 0xF0, 0x30, 0x31, 0xF1, 0x33, 0xF3, 0xF2, 0x32,
     0x36, 0xF6, 0xF7, 0x37, 0xF5, 0x35, 0x34, 0xF4, 0x3C, 0xFC, 0xFD, 0x3D,
     0xFF, 0x3F, 0x3E, 0xFE, 0xFA, 0x3A, 0x3B, 0xFB, 0x39, 0xF9, 0xF8, 0x38,
     0x28, 0xE8, 0xE9, 0x29, 0xEB, 0x2B, 0x2A, 0xEA, 0xEE, 0x2E, 0x2F, 0xEF,
     0x2D, 0xED, 0xEC, 0x2C, 0xE4, 0x24, 0x25, 0xE5, 0x27, 0xE7, 0xE6, 0x26,
     0x22, 0xE2, 0xE3, 0x23, 0xE1, 0x21, 0x20, 0xE0, 0xA0, 0x60, 0x61, 0xA1,
     0x63, 0xA3, 0xA2, 0x62, 0x66, 0xA6, 0xA7, 0x67, 0xA5, 0x65, 0x64, 0xA4,
     0x6C, 0xAC, 0xAD, 0x6D, 0xAF, 0x6F, 0x6E, 0xAE, 0xAA, 0x6A, 0x6B, 0xAB,
     0x69, 0xA9, 0xA8, 0x68, 0x78, 0xB8, 0xB9, 0x79, 0xBB, 0x7B, 0x7A, 0xBA,
     0xBE, 0x7E, 0x7F, 0xBF, 0x7D, 0xBD, 0xBC, 0x7C, 0xB4, 0x74, 0x75, 0xB5,
     0x77, 0xB7, 0xB6, 0x76, 0x72, 0xB2, 0xB3, 0x73, 0xB1, 0x71, 0x70, 0xB0,
     0x50, 0x90, 0x91, 0x51, 0x93, 0x53, 0x52, 0x92, 0x96, 0x56, 0x57, 0x97,
     0x55, 0x95, 0x94, 0x54, 0x9C, 0x5C, 0x5D, 0x9D, 0x5F, 0x9F, 0x9E, 0x5E,
     0x5A, 0x9A, 0x9B, 0x5B, 0x99, 0x59, 0x58, 0x98, 0x88, 0x48, 0x49, 0x89,
     0x4B, 0x8B, 0x8A, 0x4A, 0x4E, 0x8E, 0x8F, 0x4F, 0x8D, 0x4D, 0x4C, 0x8C,
     0x44, 0x84, 0x85, 0x45, 0x87, 0x47, 0x46, 0x86, 0x82, 0x42, 0x43, 0x83,
     0x41, 0x81, 0x80, 0x40]"

section \<open>The routine\<close>

text \<open>
  \<open>while (len--)\<close>: one byte of the frame per round. The index \<open>crc_lo ^ *pframe\<close>
  has type \<open>uint32_t\<close>.
\<close>

fun crc16_loop :: "byte list \<Rightarrow> nat \<Rightarrow> byte \<Rightarrow> byte \<Rightarrow> (byte \<times> byte) cres" where
  "crc16_loop pframe 0 crc_hi crc_lo = Inr (crc_hi, crc_lo)"
| "crc16_loop [] (Suc len) crc_hi crc_lo = Inl Out_Of_Bounds"
| "crc16_loop (p # pframe) (Suc len) crc_hi crc_lo =
     (let index = (ucast (crc_lo XOR p) :: u32) in
      cbind (aget arr_crc_hi (uint index)) (\<lambda>h.
      cbind (aget arr_crc_lo (uint index)) (\<lambda>l.
      crc16_loop pframe len l (crc_hi XOR h))))"

definition CRC16 :: "byte list \<Rightarrow> u16 \<Rightarrow> u16 cres" where
  "CRC16 pframe len =
     cbind (crc16_loop pframe (unat len) 0xFF 0xFF) (\<lambda>(crc_hi, crc_lo).
       Inr (push_bit 8 (ucast crc_hi) OR ucast crc_lo))"

section \<open>The tables\<close>

definition crc16_join :: "byte \<Rightarrow> byte \<Rightarrow> u16" where
  "crc16_join h l = push_bit 8 (ucast h) OR ucast l"

definition crc16_table :: "u16 list" where
  "crc16_table = map2 crc16_join arr_crc_lo arr_crc_hi"

lemma length_arr_crc [simp]: "length arr_crc_hi = 256" "length arr_crc_lo = 256"
  by (simp_all add: arr_crc_hi_def arr_crc_lo_def)

lemma length_crc16_table: "length crc16_table = 256"
  by (simp add: crc16_table_def)

lemma crc16_basis: "crc_basis (0xA001 :: u16) = [0xA001, 0xF001, 0xD801, 0xCC01, 0xC601, 0xC301, 0xC181, 0xC0C1]"
  by (simp add: crc_basis_def crc_steps_8 crc_step_def)

lemma crc16_table_build: "crc16_table = crc_build (crc_basis 0xA001)"
  by (simp add: crc16_basis crc16_table_def arr_crc_hi_def arr_crc_lo_def crc16_join_def)

interpretation crc16: reflected_crc "0xA001 :: u16" crc16_table
  by unfold_locales (simp_all add: crc_build_entry [OF crc16_table_build] length_crc16_table)

section \<open>The routine computes the bitwise CRC\<close>

lemma crc16_join_low: "crc16_join h l AND 255 = ucast l"
  unfolding crc16.mask8 [symmetric]
  by (rule bit_eqI) (auto simp: crc16_join_def bit_simps dest: bit_imp_le_length)

lemma crc16_join_high: "drop_bit 8 (crc16_join h l) = ucast h"
  by (rule bit_eqI) (auto simp: crc16_join_def bit_simps dest: bit_imp_le_length)

lemma crc16_join_byte: "ucast (crc16_join h l) = l"
  by (rule bit_eqI) (auto simp: crc16_join_def bit_simps dest: bit_imp_le_length)

lemma crc16_join_xor: "crc16_join h l XOR ucast p = crc16_join h (l XOR p)"
  by (rule bit_eqI) (auto simp: crc16_join_def bit_simps dest: bit_imp_le_length)

lemma crc16_table_nth:
  "i < 256 \<Longrightarrow> crc16_table ! i = crc16_join (arr_crc_lo ! i) (arr_crc_hi ! i)"
  by (simp add: crc16_table_def)

lemma crc16_round:
  "crc16_join (arr_crc_lo ! unat (l XOR p)) (h XOR arr_crc_hi ! unat (l XOR p))
     = crc_byte 0xA001 (crc16_join h l) p"
proof -
  let ?i = "l XOR p"
  have "unat (crc16_join h ?i AND 255) = unat ?i"
    by (simp add: crc16_join_low unat_ucast_wider)
  then have "crc_steps 0xA001 8 (crc16_join h ?i)
      = crc16_join (arr_crc_lo ! unat ?i) (arr_crc_hi ! unat ?i) XOR ucast h"
    using crc16.table_update [of "crc16_join h ?i"] by (simp add: crc16_table_nth crc16_join_high)
  moreover have "crc16_join a b XOR ucast h = crc16_join a (h XOR b)" for a b
    by (metis crc16_join_xor xor.commute)
  ultimately show ?thesis
    by (simp only: crc_byte_def crc16_join_xor)
qed

lemma crc16_loop_Cons:
  "crc16_loop (p # pframe) (Suc len) h l
     = crc16_loop pframe len (arr_crc_lo ! unat (l XOR p)) (h XOR arr_crc_hi ! unat (l XOR p))"
  by (simp add: Let_def aget_ok uint_ucast_wider)

lemma crc16_loop_bits:
  "len \<le> length pframe \<Longrightarrow>
   \<exists>h' l'. crc16_loop pframe len h l = Inr (h', l') \<and>
     crc16_join h' l' = crc_bytes 0xA001 (crc16_join h l) (take len pframe)"
proof (induction pframe arbitrary: len h l)
  case Nil
  then show ?case by simp
next
  case (Cons p pframe)
  show ?case
  proof (cases len)
    case 0
    then show ?thesis by simp
  next
    case (Suc n)
    with Cons.prems Cons.IH [of n] show ?thesis
      by (simp add: crc16_loop_Cons flip: crc16_round del: crc16_loop.simps)
  qed
qed

lemma crc16_loop_short: "length pframe < len \<Longrightarrow> crc16_loop pframe len h l = Inl Out_Of_Bounds"
proof (induction pframe arbitrary: len h l)
  case Nil
  then show ?case by (cases len) simp_all
next
  case (Cons p pframe)
  then show ?case by (cases len) (simp_all add: crc16_loop_Cons del: crc16_loop.simps(3))
qed

lemma crc16_start: "crc16_join 0xFF 0xFF = 0xFFFF"
  by (simp add: crc16_join_def)

lemma CRC16_bits:
  assumes "unat len \<le> length pframe"
  shows "CRC16 pframe len = Inr (crc_bytes 0xA001 0xFFFF (take (unat len) pframe))"
proof -
  obtain h l where "crc16_loop pframe (unat len) 0xFF 0xFF = Inr (h, l)"
    and "crc16_join h l = crc_bytes 0xA001 0xFFFF (take (unat len) pframe)"
    using crc16_loop_bits [OF assms, of "0xFF" "0xFF"] by (auto simp: crc16_start)
  then show ?thesis by (simp add: CRC16_def crc16_join_def)
qed

lemma unat_of_length: "n < 2 ^ LENGTH('a) \<Longrightarrow> unat (word_of_nat n :: 'a::len word) = n"
  by (simp add: unsigned_of_nat take_bit_nat_eq_self)

lemma CRC16_whole:
  "length bs < 65536 \<Longrightarrow> CRC16 bs (word_of_nat (length bs)) = Inr (crc_bytes 0xA001 0xFFFF bs)"
  using CRC16_bits [of "word_of_nat (length bs)" bs] by (simp add: unat_of_length)

section \<open>Properties\<close>

text \<open>
  C24. \<open>CRC16\<close> is total on every frame that holds at least \<open>len\<close> bytes, and returns the
  bitwise reflected CRC of the first \<open>len\<close> of them (polynomial \<open>0xA001\<close>, start value
  \<open>0xFFFF\<close>, no final inversion: the Modbus CRC); on a shorter frame it reads past the end.
\<close>
theorem CRC16_correct:
  "CRC16 pframe len =
     (if unat len \<le> length pframe
      then Inr (crc_bytes 0xA001 0xFFFF (take (unat len) pframe))
      else Inl Out_Of_Bounds)"
  by (simp add: CRC16_bits) (simp add: CRC16_def crc16_loop_short)

text \<open>
  A receiver that runs \<open>CRC16\<close> over a frame followed by the two bytes of its CRC,
  low byte first, obtains 0.
\<close>
theorem CRC16_residue:
  assumes "length bs + 2 < 65536" and "CRC16 bs (word_of_nat (length bs)) = Inr crc"
  shows "CRC16 (bs @ [ucast crc, ucast (drop_bit 8 crc)]) (word_of_nat (length bs + 2)) = Inr 0"
proof -
  have crc: "crc = crc_bytes 0xA001 0xFFFF bs" using assms by (simp add: CRC16_whole)
  let ?ext = "bs @ [ucast crc, ucast (drop_bit 8 crc)]"
  have "drop_bit 8 (drop_bit 8 crc) = 0"
    by (rule bit_eqI) (auto simp: bit_simps dest: bit_imp_le_length)
  then have "crc_bytes 0xA001 0xFFFF ?ext = (0 :: u16)"
    by (simp add: crc_bytes_append crc [symmetric] crc_byte_low)
  with CRC16_whole [of ?ext] assms(1) show ?thesis by simp
qed

theorem CRC16_residue_witness:
  "CRC16 [0x01, 0x03, 0x40, 0x21] 4 = Inr 0"
proof -
  have "CRC16 [0x01, 0x03] (word_of_nat (length [0x01, 0x03 :: byte])) = Inr 0x2140"
    by (subst CRC16_whole) (simp_all add: crc_byte_def crc_steps_8 crc_step_def)
  then have "CRC16 [0x01, 0x03, 0x2140, 0x21] 4 = Inr 0"
    using CRC16_residue [of "[0x01, 0x03]" "0x2140"] by simp
  moreover have "(0x2140 :: byte) = 0x40" by simp
  ultimately show ?thesis by (simp only:)
qed

text \<open>
  Two frames of the same length that differ in exactly one byte have different CRCs.
\<close>
theorem CRC16_detects_one_byte:
  assumes "length (as @ b # bs) < 65536" and "b \<noteq> c"
  shows "CRC16 (as @ b # bs) (word_of_nat (length (as @ b # bs)))
         \<noteq> CRC16 (as @ c # bs) (word_of_nat (length (as @ c # bs)))"
  using assms crc16.detects_one_byte [of b c "0xFFFF" as bs]
    CRC16_whole [of "as @ b # bs"] CRC16_whole [of "as @ c # bs"] by simp

theorem CRC16_detects_one_byte_witness:
  "CRC16 [1, 2, 3] 3 \<noteq> CRC16 [1, 7, 3] 3"
  using CRC16_detects_one_byte [of "[1]" 2 "[3]" 7] by simp

end
