(* ===== verification/Crc32.thy ===== *)
theory Crc32
  imports CrcCore
begin

text \<open>
  \<open>crc/crc32.c\<close>: the table-driven CRC-32 with the reflected polynomial \<open>0xEDB88320\<close>,
  the register inverted on entry and on exit, and the previous CRC as a parameter so that a
  message can be checked in parts. The length is a signed 32-bit integer: a negative length
  runs the loop zero times.
\<close>

unbundle bit_operations_syntax

definition Crc32Tab :: "u32 list" where
  "Crc32Tab =
    [0x00000000, 0x77073096, 0xEE0E612C, 0x990951BA, 0x076DC419, 0x706AF48F, 0xE963A535, 0x9E6495A3,
     0x0EDB8832, 0x79DCB8A4, 0xE0D5E91E, 0x97D2D988, 0x09B64C2B, 0x7EB17CBD, 0xE7B82D07, 0x90BF1D91,
     0x1DB71064, 0x6AB020F2, 0xF3B97148, 0x84BE41DE, 0x1ADAD47D, 0x6DDDE4EB, 0xF4D4B551, 0x83D385C7,
     0x136C9856, 0x646BA8C0, 0xFD62F97A, 0x8A65C9EC, 0x14015C4F, 0x63066CD9, 0xFA0F3D63, 0x8D080DF5,
     0x3B6E20C8, 0x4C69105E, 0xD56041E4, 0xA2677172, 0x3C03E4D1, 0x4B04D447, 0xD20D85FD, 0xA50AB56B,
     0x35B5A8FA, 0x42B2986C, 0xDBBBC9D6, 0xACBCF940, 0x32D86CE3, 0x45DF5C75, 0xDCD60DCF, 0xABD13D59,
     0x26D930AC, 0x51DE003A, 0xC8D75180, 0xBFD06116, 0x21B4F4B5, 0x56B3C423, 0xCFBA9599, 0xB8BDA50F,
     0x2802B89E, 0x5F058808, 0xC60CD9B2, 0xB10BE924, 0x2F6F7C87, 0x58684C11, 0xC1611DAB, 0xB6662D3D,
     0x76DC4190, 0x01DB7106, 0x98D220BC, 0xEFD5102A, 0x71B18589, 0x06B6B51F, 0x9FBFE4A5, 0xE8B8D433,
     0x7807C9A2, 0x0F00F934, 0x9609A88E, 0xE10E9818, 0x7F6A0DBB, 0x086D3D2D, 0x91646C97, 0xE6635C01,
     0x6B6B51F4, 0x1C6C6162, 0x856530D8, 0xF262004E, 0x6C0695ED, 0x1B01A57B, 0x8208F4C1, 0xF50FC457,
     0x65B0D9C6, 0x12B7E950, 0x8BBEB8EA, 0xFCB9887C, 0x62DD1DDF, 0x15DA2D49, 0x8CD37CF3, 0xFBD44C65,
     0x4DB26158, 0x3AB551CE, 0xA3BC0074, 0xD4BB30E2, 0x4ADFA541, 0x3DD895D7, 0xA4D1C46D, 0xD3D6F4FB,
     0x4369E96A, 0x346ED9FC, 0xAD678846, 0xDA60B8D0, 0x44042D73, 0x33031DE5, 0xAA0A4C5F, 0xDD0D7CC9,
     0x5005713C, 0x270241AA, 0xBE0B1010, 0xC90C2086, 0x5768B525, 0x206F85B3, 0xB966D409, 0xCE61E49F,
     0x5EDEF90E, 0x29D9C998, 0xB0D09822, 0xC7D7A8B4, 0x59B33D17, 0x2EB40D81, 0xB7BD5C3B, 0xC0BA6CAD,
     0xEDB88320, 0x9ABFB3B6, 0x03B6E20C, 0x74B1D29A, 0xEAD54739, 0x9DD277AF, 0x04DB2615, 0x73DC1683,
     0xE3630B12, 0x94643B84, 0x0D6D6A3E, 0x7A6A5AA8, 0xE40ECF0B, 0x9309FF9D, 0x0A00AE27, 0x7D079EB1,
     0xF00F9344, 0x8708A3D2, 0x1E01F268, 0x6906C2FE, 0xF762575D, 0x806567CB, 0x196C3671, 0x6E6B06E7,
     0xFED41B76, 0x89D32BE0, 0x10DA7A5A, 0x67DD4ACC, 0xF9B9DF6F, 0x8EBEEFF9, 0x17B7BE43, 0x60B08ED5,
     0xD6D6A3E8, 0xA1D1937E, 0x38D8C2C4, 0x4FDFF252, 0xD1BB67F1, 0xA6BC5767, 0x3FB506DD, 0x48B2364B,
     0xD80D2BDA, 0xAF0A1B4C, 0x36034AF6, 0x41047A60, 0xDF60EFC3, 0xA867DF55, 0x316E8EEF, 0x4669BE79,
     0xCB61B38C, 0xBC66831A, 0x256FD2A0, 0x5268E236, 0xCC0C7795, 0xBB0B4703, 0x220216B9, 0x5505262F,
     0xC5BA3BBE, 0xB2BD0B28, 0x2BB45A92, 0x5CB36A04, 0xC2D7FFA7, 0xB5D0CF31, 0x2CD99E8B, 0x5BDEAE1D,
     0x9B64C2B0, 0xEC63F226, 0x756AA39C, 0x026D930A, 0x9C0906A9, 0xEB0E363F, 0x72076785, 0x05005713,
     0x95BF4A82, 0xE2B87A14, 0x7BB12BAE, 0x0CB61B38, 0x92D28E9B, 0xE5D5BE0D, 0x7CDCEFB7, 0x0BDBDF21,
     0x86D3D2D4, 0xF1D4E242, 0x68DDB3F8, 0x1FDA836E, 0x81BE16CD, 0xF6B9265B, 0x6FB077E1, 0x18B74777,
     0x88085AE6, 0xFF0F6A70, 0x66063BCA, 0x11010B5C, 0x8F659EFF, 0xF862AE69, 0x616BFFD3, 0x166CCF45,
     0xA00AE278, 0xD70DD2EE, 0x4E048354, 0x3903B3C2, 0xA7672661, 0xD06016F7, 0x4969474D, 0x3E6E77DB,
     0xAED16A4A, 0xD9D65ADC, 0x40DF0B66, 0x37D83BF0, 0xA9BCAE53, 0xDEBB9EC5, 0x47B2CF7F, 0x30B5FFE9,
     0xBDBDF21C, 0xCABAC28A, 0x53B39330, 0x24B4A3A6, 0xBAD03605, 0xCDD70693, 0x54DE5729, 0x23D967BF,
     0xB3667A2E, 0xC4614AB8, 0x5D681B02, 0x2A6F2B94, 0xB40BBE37, 0xC30C8EA1, 0x5A05DF1B, 0x2D02EF8D]"

section \<open>The routine\<close>

text \<open>The body of the \<open>for\<close> loop and the loop, as a countdown of the rounds left.\<close>

definition crc32_round :: "u32 \<Rightarrow> byte \<Rightarrow> u32 cres" where
  "crc32_round crc32 b =
     cbind (aget Crc32Tab (uint ((crc32 XOR ucast b) AND 0xFF))) (\<lambda>t.
       Inr (t XOR (drop_bit 8 crc32 AND 0x00FFFFFF)))"

fun crc32_loop :: "byte list \<Rightarrow> nat \<Rightarrow> u32 \<Rightarrow> u32 cres" where
  "crc32_loop data 0 crc32 = Inr crc32"
| "crc32_loop [] (Suc n) crc32 = Inl Out_Of_Bounds"
| "crc32_loop (b # data) (Suc n) crc32 = cbind (crc32_round crc32 b) (crc32_loop data n)"

definition CRC32 :: "byte list \<Rightarrow> u32 \<Rightarrow> u32 \<Rightarrow> u32 cres" where
  "CRC32 data data_len crc32 =
     cbind (crc32_loop data (nat (sint data_len)) (crc32 XOR 0xFFFFFFFF)) (\<lambda>c.
       Inr (c XOR 0xFFFFFFFF))"

section \<open>The table\<close>

lemma length_Crc32Tab [simp]: "length Crc32Tab = 256"
  by (simp add: Crc32Tab_def)

lemma crc32_basis: "crc_basis (0xEDB88320 :: u32) = [0xEDB88320, 0x76DC4190, 0x3B6E20C8, 0x1DB71064, 0x0EDB8832, 0x076DC419, 0xEE0E612C, 0x77073096]"
  by (simp add: crc_basis_def crc_steps_8 crc_step_def)

lemma Crc32Tab_build: "Crc32Tab = crc_build (crc_basis 0xEDB88320)"
  by (simp add: crc32_basis Crc32Tab_def)

interpretation crc32: reflected_crc "0xEDB88320 :: u32" Crc32Tab
  by unfold_locales (simp_all add: crc_build_entry [OF Crc32Tab_build])

section \<open>The routine computes the bitwise CRC\<close>

lemma crc32_round_bits: "crc32_round c b = Inr (crc_byte 0xEDB88320 c b)"
proof -
  let ?x = "c XOR ucast b"
  have "drop_bit 8 c AND mask 24 = drop_bit 8 ?x"
    by (rule bit_eqI) (auto simp: bit_simps dest: bit_imp_le_length)
  moreover have "(mask 24 :: u32) = 0x00FFFFFF" by (simp add: mask_eq_exp_minus_1)
  ultimately have "drop_bit 8 c AND 0x00FFFFFF = drop_bit 8 ?x" by (simp only:)
  moreover have "uint (?x AND 255) < 256"
    by (rule crc32.index_bound_int)
  ultimately show ?thesis
    using crc32.table_update [of ?x]
    by (simp add: crc32_round_def aget_ok crc_byte_def)
qed

lemma crc32_loop_bits:
  "n \<le> length data \<Longrightarrow> crc32_loop data n c = Inr (crc_bytes 0xEDB88320 c (take n data))"
  by (induction data n c rule: crc32_loop.induct) (simp_all add: crc32_round_bits)

lemma crc32_loop_short: "length data < n \<Longrightarrow> crc32_loop data n c = Inl Out_Of_Bounds"
  by (induction data n c rule: crc32_loop.induct) (simp_all add: crc32_round_bits)

lemma xor_ones: "x XOR 0xFFFFFFFF = NOT (x :: u32)"
proof -
  have "(0xFFFFFFFF :: u32) = - 1" by simp
  then show ?thesis by (simp only:) (rule bit_eqI, simp add: bit_simps)
qed

lemma CRC32_bits:
  "CRC32 data data_len crc =
     (if nat (sint data_len) \<le> length data
      then Inr (NOT (crc_bytes 0xEDB88320 (NOT crc) (take (nat (sint data_len)) data)))
      else Inl Out_Of_Bounds)"
  by (simp add: CRC32_def crc32_loop_bits crc32_loop_short xor_ones)

lemma sint_of_length: "n < 2 ^ 31 \<Longrightarrow> sint (word_of_nat n :: u32) = int n"
  by (simp add: signed_of_nat signed_take_bit_int_eq_self)

lemma CRC32_whole:
  assumes "length bs < 2 ^ 31"
  shows "CRC32 bs (word_of_nat (length bs)) crc = Inr (NOT (crc_bytes 0xEDB88320 (NOT crc) bs))"
  unfolding CRC32_bits sint_of_length [OF assms] by simp

text \<open>Feeding the four bytes of a word, least significant first.\<close>

lemma crc_steps_32: "crc_steps poly 32 y
    = crc_steps poly 8 (crc_steps poly 8 (crc_steps poly 8 (crc_steps poly 8 y)))"
  using crc_steps_add [of poly 8 24 y] crc_steps_add [of poly 8 16 "crc_steps poly 8 y"]
    crc_steps_add [of poly 8 8 "crc_steps poly 8 (crc_steps poly 8 y)"] by simp

lemma crc32_feed_word:
  "crc_bytes poly x [ucast w, ucast (drop_bit 8 w), ucast (drop_bit 16 w), ucast (drop_bit 24 w)]
     = crc_steps poly 32 (x XOR (w :: u32))"
proof -
  have "drop_bit 32 w = 0" by (rule bit_eqI) (auto simp: bit_simps dest: bit_imp_le_length)
  then show ?thesis by (simp add: crc_steps_32 crc_steps_feed)
qed

lemma crc32_residue_const: "crc_steps (0xEDB88320 :: u32) 32 0xFFFFFFFF = 0xDEBB20E3"
  by (simp add: crc_steps_32 crc_steps_8 crc_step_def)

section \<open>Properties\<close>

text \<open>
  C25. \<open>CRC32\<close> returns the bitwise reflected CRC of the first \<open>data_len\<close> bytes, the
  register being inverted before and after; a negative length leaves the CRC unchanged, and a
  length beyond the buffer reads past its end.
\<close>
theorem CRC32_correct:
  "CRC32 data data_len crc =
     (if nat (sint data_len) \<le> length data
      then Inr (NOT (crc_bytes 0xEDB88320 (NOT crc) (take (nat (sint data_len)) data)))
      else Inl Out_Of_Bounds)"
  by (rule CRC32_bits)

text \<open>
  The CRC of a message can be computed in pieces: the CRC of the first piece, passed as the
  start value for the second, gives the CRC of the whole.
\<close>
theorem CRC32_incremental:
  assumes "length (as @ bs) < 2 ^ 31" and "CRC32 as (word_of_nat (length as)) crc = Inr c"
  shows "CRC32 bs (word_of_nat (length bs)) c = CRC32 (as @ bs) (word_of_nat (length (as @ bs))) crc"
proof -
  have "c = NOT (crc_bytes 0xEDB88320 (NOT crc) as)"
    using assms CRC32_whole [of as crc] by simp
  then show ?thesis
    using assms(1) CRC32_whole [of bs c] CRC32_whole [of "as @ bs" crc] by (simp add: crc_bytes_append)
qed

theorem CRC32_incremental_witness:
  "CRC32 [3, 4] 2 (NOT (crc_bytes 0xEDB88320 (NOT 0) [1, 2])) = CRC32 [1, 2, 3, 4] 4 0"
proof -
  have "CRC32 [1, 2] (word_of_nat (length [1, 2 :: byte])) 0
      = Inr (NOT (crc_bytes 0xEDB88320 (NOT 0) [1, 2]))"
    by (rule CRC32_whole) simp
  from CRC32_incremental [OF _ this, of "[3, 4]"] show ?thesis by simp
qed

text \<open>
  A sender that appends the four bytes of the CRC, least significant first, produces a message
  whose CRC is the constant \<open>0x2144DF1C\<close>, whatever the data: the check a receiver makes.
\<close>
theorem CRC32_residue:
  assumes "length data + 4 < 2 ^ 31" and "CRC32 data (word_of_nat (length data)) 0 = Inr crc"
  shows "CRC32 (data @ [ucast crc, ucast (drop_bit 8 crc), ucast (drop_bit 16 crc),
             ucast (drop_bit 24 crc)]) (word_of_nat (length data + 4)) 0 = Inr 0x2144DF1C"
proof -
  let ?P = "0xEDB88320 :: u32" and ?w = "[ucast crc, ucast (drop_bit 8 crc), ucast (drop_bit 16 crc),
             ucast (drop_bit 24 crc)] :: byte list"
  have "crc = NOT (crc_bytes ?P (NOT 0) data)"
    using assms CRC32_whole [of data 0] by simp
  then have reg: "crc_bytes ?P (NOT 0) data = NOT crc" by simp
  have ones: "NOT crc XOR crc = 0xFFFFFFFF"
  proof -
    have "NOT crc XOR crc = - 1" by (rule bit_eqI) (simp add: bit_simps)
    then show ?thesis by simp
  qed
  have final: "crc_bytes ?P (NOT 0) (data @ ?w) = 0xDEBB20E3"
    by (simp only: crc_bytes_append reg crc32_feed_word ones crc32_residue_const)
  have len: "length (data @ ?w) = length data + 4" by simp
  have "NOT 0xDEBB20E3 = (0x2144DF1C :: u32)" by simp
  with CRC32_whole [of "data @ ?w" 0] assms(1) show ?thesis
    by (simp only: len final)
qed

theorem CRC32_residue_witness:
  "CRC32 [0x61, 0x43, 0xBE, 0xB7, 0xE8] 5 0 = Inr 0x2144DF1C"
proof -
  have "CRC32 [0x61] (word_of_nat (length [0x61 :: byte])) 0 = Inr 0xE8B7BE43"
    by (subst CRC32_whole) (simp_all add: crc_byte_def crc_steps_8 crc_step_def)
  then have "CRC32 [0x61, 0xE8B7BE43, 0xE8B7BE, 0xE8B7, 0xE8] 5 0 = Inr 0x2144DF1C"
    using CRC32_residue [of "[0x61]" "0xE8B7BE43"] by simp
  moreover have "(0xE8B7BE43 :: byte) = 0x43" "(0xE8B7BE :: byte) = 0xBE" "(0xE8B7 :: byte) = 0xB7"
    by simp_all
  ultimately show ?thesis by (simp only:)
qed

text \<open>
  Two messages of the same length that differ in exactly one byte have different CRCs, for
  every start value.
\<close>
theorem CRC32_detects_one_byte:
  assumes "length (as @ b # bs) < 2 ^ 31" and "b \<noteq> c"
  shows "CRC32 (as @ b # bs) (word_of_nat (length (as @ b # bs))) crc
         \<noteq> CRC32 (as @ c # bs) (word_of_nat (length (as @ c # bs))) crc"
  using assms CRC32_whole [of "as @ b # bs" crc] CRC32_whole [of "as @ c # bs" crc]
    crc32.detects_one_byte [OF assms(2), of "NOT crc" as bs] by simp

theorem CRC32_detects_one_byte_witness:
  "CRC32 [1, 2, 3] 3 0 \<noteq> CRC32 [1, 9, 3] 3 0"
  using CRC32_detects_one_byte [of "[1]" 2 "[3]" 9 0] by simp

end
