(* ===== verification/QueueSpec.thy ===== *)
theory QueueSpec
  imports Prelude
begin

text \<open>
  The contract of a first-in first-out queue as the clients of this repository use one: an
  enqueue that may refuse, a dequeue that may find nothing, neither of which faults on a valid
  queue. The contract is stated against the list of the elements waiting. It is interpreted
  on the array queue and the linked queue (\<open>dataStruct/queue\<close>) and on the task queue of the
  thread pool (\<open>IOModels/epoll/epollTcpServer\<close>).
\<close>

section \<open>Programs that use a queue\<close>

datatype 'a qop = Put 'a | Take

text \<open>
  A run of a list of operations returns the last queue, the elements that were accepted and
  the elements that were delivered, both in order.
\<close>

fun queue_run ::
    "('q \<Rightarrow> 'a \<Rightarrow> ('q \<times> bool) cres) \<Rightarrow> ('q \<Rightarrow> ('q \<times> 'a option) cres) \<Rightarrow> 'q \<Rightarrow> 'a qop list
     \<Rightarrow> ('q \<times> 'a list \<times> 'a list) cres" where
  "queue_run enq deq q [] = Inr (q, [], [])"
| "queue_run enq deq q (Put x # ops) =
     cbind (enq q x) (\<lambda>(q', ok). cbind (queue_run enq deq q' ops) (\<lambda>(q'', acc, out).
       Inr (q'', if ok then x # acc else acc, out)))"
| "queue_run enq deq q (Take # ops) =
     cbind (deq q) (\<lambda>(q', r). cbind (queue_run enq deq q' ops) (\<lambda>(q'', acc, out).
       Inr (q'', acc, case r of None \<Rightarrow> out | Some x \<Rightarrow> x # out)))"

section \<open>The contract\<close>

locale fifo =
  fixes enq :: "'q \<Rightarrow> 'a \<Rightarrow> ('q \<times> bool) cres"
    and deq :: "'q \<Rightarrow> ('q \<times> 'a option) cres"
    and contents :: "'q \<Rightarrow> 'a list"
    and valid :: "'q \<Rightarrow> bool"
  assumes enq_law: "valid q \<Longrightarrow> \<exists>q' ok. enq q x = Inr (q', ok) \<and> valid q' \<and>
      contents q' = (if ok then contents q @ [x] else contents q)"
    and deq_law: "valid q \<Longrightarrow> \<exists>q'. valid q' \<and>
      (case contents q of [] \<Rightarrow> deq q = Inr (q', None) \<and> contents q' = []
       | x # xs \<Rightarrow> deq q = Inr (q', Some x) \<and> contents q' = xs)"
begin

lemma enqE:
  assumes "valid q"
  obtains q' ok where "enq q x = Inr (q', ok)" "valid q'"
    "contents q' = (if ok then contents q @ [x] else contents q)"
  using enq_law [OF assms] by blast

lemma deqE:
  assumes "valid q"
  obtains (Empty) q' where "deq q = Inr (q', None)" "valid q'" "contents q = []" "contents q' = []"
  | (Item) q' x xs where "deq q = Inr (q', Some x)" "valid q'" "contents q = x # xs"
      "contents q' = xs"
proof (cases "contents q")
  case Nil
  then show ?thesis using deq_law [OF assms] Empty by auto
next
  case (Cons x xs)
  then show ?thesis using deq_law [OF assms] Item by auto
qed

text \<open>No operation of a run faults, and elements leave in the order they were accepted.\<close>

lemma run_fifo:
  "valid q \<Longrightarrow> \<exists>q' acc out. queue_run enq deq q ops = Inr (q', acc, out) \<and> valid q' \<and>
     contents q @ acc = out @ contents q'"
proof (induction ops arbitrary: q)
  case Nil
  then show ?case by simp
next
  case (Cons a ops)
  show ?case
  proof (cases a)
    case (Put x)
    obtain q' ok where e: "enq q x = Inr (q', ok)" "valid q'"
      "contents q' = (if ok then contents q @ [x] else contents q)"
      using enqE [OF Cons.prems] by metis
    from Cons.IH [OF e(2)] e(1,3) Put show ?thesis by fastforce
  next
    case Take
    from Cons.prems show ?thesis
    proof (cases rule: deqE)
      case (Empty q')
      with Cons.IH [of q'] Take show ?thesis by fastforce
    next
      case (Item q' x xs)
      with Cons.IH [of q'] Take show ?thesis by fastforce
    qed
  qed
qed

lemma run_drains:
  assumes "valid q"
  shows "\<exists>q'. queue_run enq deq q (replicate (length (contents q)) Take) = Inr (q', [], contents q)
     \<and> valid q' \<and> contents q' = []"
  using assms
proof (induction "contents q" arbitrary: q)
  case Nil
  then show ?case by simp
next
  case (Cons x xs)
  from Cons.prems Cons.hyps(2) obtain q' where
    d: "deq q = Inr (q', Some x)" "valid q'" "contents q' = xs"
    by (metis deqE list.distinct(1) list.inject)
  with Cons.hyps(1) [of q'] Cons.hyps(2) [symmetric] show ?case by force
qed

end

section \<open>Queues with a fixed capacity\<close>

locale bounded_fifo = fifo enq deq contents valid
  for enq :: "'q \<Rightarrow> 'a \<Rightarrow> ('q \<times> bool) cres"
    and deq :: "'q \<Rightarrow> ('q \<times> 'a option) cres"
    and contents :: "'q \<Rightarrow> 'a list"
    and valid :: "'q \<Rightarrow> bool" +
  fixes capacity :: "'q \<Rightarrow> nat"
  assumes enq_capacity: "valid q \<Longrightarrow> enq q x = Inr (q', ok) \<Longrightarrow>
      ok = (length (contents q) < capacity q) \<and> capacity q' = capacity q"
    and fits: "valid q \<Longrightarrow> length (contents q) \<le> capacity q"
begin

lemma fill:
  "valid q \<Longrightarrow> \<exists>q'. queue_run enq deq q (map Put xs)
      = Inr (q', take (capacity q - length (contents q)) xs, []) \<and> valid q' \<and>
        contents q' = contents q @ take (capacity q - length (contents q)) xs"
proof (induction xs arbitrary: q)
  case Nil
  then show ?case by simp
next
  case (Cons x xs)
  obtain q' ok where e: "enq q x = Inr (q', ok)" "valid q'"
    "contents q' = (if ok then contents q @ [x] else contents q)"
    using enqE [OF Cons.prems] by metis
  note c = enq_capacity [OF Cons.prems e(1)]
  show ?case
  proof (cases ok)
    case True
    with c have "capacity q - length (contents q) = Suc (capacity q' - length (contents q'))"
      using e(3) True by (simp add: Suc_diff_Suc)
    with True e Cons.IH [OF e(2)] show ?thesis by fastforce
  next
    case False
    with c have "capacity q - length (contents q) = 0" "capacity q' - length (contents q') = 0"
      using e(3) by simp_all
    with False e Cons.IH [OF e(2)] show ?thesis by fastforce
  qed
qed

end

end
