(* ===== verification/QueueArray.thy ===== *)
theory QueueArray
  imports QueueSpec
begin

text \<open>
  The array queue of \<open>dataStruct/queue/src/queueArray.c\<close>: a circular buffer of \<open>QLen\<close>
  cells of which \<open>QLen - 1\<close> are usable, with \<open>head\<close> the next cell to read and \<open>tail\<close>
  the next cell to write. A cell that was never written is \<open>None\<close>, and \<open>item\<close> is \<open>None\<close>
  when the pointer is NULL: \<open>InitQueue\<close> does not check \<open>malloc\<close>. A NULL argument of an
  operation is \<open>None\<close>. The indices are C \<open>int\<close>s kept as integers: under the invariant they
  never leave the range \<open>0 ..< QLen\<close>.
\<close>

section \<open>The data\<close>

record QItem =
  qi_id :: int

record Queue =
  qa_head :: int
  qa_tail :: int
  qa_item :: "QItem option list option"
  qa_QLen :: int

section \<open>The operations\<close>

text \<open>
  \<open>malloc\<close> answers for a number of bytes whether the block is granted; its size is the
  C product of \<open>sizeof(QItem) = 4\<close> and the signed \<open>QLen\<close>, converted to \<open>size_t\<close>.
\<close>

definition InitQueue_arr :: "(nat \<Rightarrow> bool) \<Rightarrow> Queue option \<Rightarrow> (Queue \<times> bool) cres" where
  "InitQueue_arr malloc Q = (case Q of None \<Rightarrow> Inl Assert_Fail | Some q \<Rightarrow>
     (let n = c_size (4 * qa_QLen q);
          block = (if malloc n then Some (replicate (n div 4) None) else None)
      in Inr (q\<lparr>qa_item := block, qa_head := 0, qa_tail := 0\<rparr>, True)))"

definition QueueEmpty_arr :: "Queue option \<Rightarrow> bool cres" where
  "QueueEmpty_arr Q = (case Q of None \<Rightarrow> Inl Assert_Fail | Some q \<Rightarrow>
     Inr (qa_head q = qa_tail q))"

definition QueueFull_arr :: "Queue option \<Rightarrow> bool cres" where
  "QueueFull_arr Q = (case Q of None \<Rightarrow> Inl Assert_Fail | Some q \<Rightarrow>
     cbind (c_rem (qa_tail q + 1) (qa_QLen q)) (\<lambda>t. Inr (t = qa_head q)))"

text \<open>Reading and writing the field \<open>id\<close> of a cell through the pointer \<open>item\<close>.\<close>

definition qa_store :: "Queue \<Rightarrow> int \<Rightarrow> int \<Rightarrow> Queue cres" where
  "qa_store q i v = (case qa_item q of None \<Rightarrow> Inl Null_Deref | Some xs \<Rightarrow>
     cbind (aset xs i (Some \<lparr>qi_id = v\<rparr>)) (\<lambda>xs'. Inr (q\<lparr>qa_item := Some xs'\<rparr>)))"

definition qa_load :: "Queue \<Rightarrow> int \<Rightarrow> int cres" where
  "qa_load q i = (case qa_item q of None \<Rightarrow> Inl Null_Deref | Some xs \<Rightarrow>
     cbind (aget xs i) (\<lambda>c. case c of None \<Rightarrow> Inl Uninit_Read | Some it \<Rightarrow> Inr (qi_id it)))"

definition EnQueue_arr :: "Queue option \<Rightarrow> QItem option \<Rightarrow> (Queue \<times> bool) cres" where
  "EnQueue_arr Q Item = (case Q of None \<Rightarrow> Inl Assert_Fail | Some q \<Rightarrow>
     (case Item of None \<Rightarrow> Inl Assert_Fail | Some it \<Rightarrow>
       cbind (QueueFull_arr Q) (\<lambda>full.
         if \<not> full then
           cbind (qa_store q (qa_tail q) (qi_id it)) (\<lambda>q1.
           cbind (c_rem (qa_tail q1 + 1) (qa_QLen q1)) (\<lambda>t.
             Inr (q1\<lparr>qa_tail := t\<rparr>, True)))
         else Inr (q, False))))"

text \<open>\<open>DeQueue\<close> writes the item it removed through its second argument.\<close>

definition DeQueue_arr :: "Queue option \<Rightarrow> QItem option \<Rightarrow> (Queue \<times> QItem \<times> bool) cres" where
  "DeQueue_arr Q Item = (case Q of None \<Rightarrow> Inl Assert_Fail | Some q \<Rightarrow>
     (case Item of None \<Rightarrow> Inl Assert_Fail | Some it \<Rightarrow>
       cbind (QueueEmpty_arr Q) (\<lambda>empty.
         if \<not> empty then
           cbind (qa_load q (qa_head q)) (\<lambda>v.
           cbind (c_rem (qa_head q + 1) (qa_QLen q)) (\<lambda>h.
             Inr (q\<lparr>qa_head := h\<rparr>, it\<lparr>qi_id := v\<rparr>, True)))
         else Inr (q, it, False))))"

section \<open>Invariant and contents\<close>

definition qa_count :: "Queue \<Rightarrow> nat" where
  "qa_count q = nat ((qa_tail q - qa_head q) mod qa_QLen q)"

definition qa_cells :: "Queue \<Rightarrow> QItem option list" where
  "qa_cells q = (case qa_item q of None \<Rightarrow> [] | Some xs \<Rightarrow> ring xs (nat (qa_head q)) (qa_count q))"

definition qa_valid :: "Queue \<Rightarrow> bool" where
  "qa_valid q \<longleftrightarrow> (\<exists>xs. qa_item q = Some xs \<and> int (length xs) = qa_QLen q) \<and>
     0 \<le> qa_head q \<and> qa_head q < qa_QLen q \<and> 0 \<le> qa_tail q \<and> qa_tail q < qa_QLen q \<and>
     None \<notin> set (qa_cells q)"

definition qa_contents :: "Queue \<Rightarrow> int list" where
  "qa_contents q = map (\<lambda>c. qi_id (the c)) (qa_cells q)"

definition qa_capacity :: "Queue \<Rightarrow> nat" where
  "qa_capacity q = nat (qa_QLen q - 1)"

text \<open>The two operations as the contract of a queue has them.\<close>

definition qa_enq :: "Queue \<Rightarrow> int \<Rightarrow> (Queue \<times> bool) cres" where
  "qa_enq q x = EnQueue_arr (Some q) (Some \<lparr>qi_id = x\<rparr>)"

definition qa_deq :: "Queue \<Rightarrow> (Queue \<times> int option) cres" where
  "qa_deq q = cbind (DeQueue_arr (Some q) (Some \<lparr>qi_id = 0\<rparr>)) (\<lambda>(q', it, ok).
     Inr (q', if ok then Some (qi_id it) else None))"

section \<open>Index arithmetic\<close>

text \<open>A valid queue in natural numbers: its cells, head and count.\<close>

lemma qa_validE:
  assumes "qa_valid q"
  obtains xs h c where "qa_item q = Some xs" "h < length xs" "c < length xs"
    "qa_QLen q = int (length xs)" "qa_head q = int h" "qa_tail q = int ((h + c) mod length xs)"
    "qa_count q = c" "None \<notin> set (ring xs h c)" "qa_cells q = ring xs h c"
proof -
  obtain xs where xs: "qa_item q = Some xs" "int (length xs) = qa_QLen q"
    using assms by (auto simp: qa_valid_def)
  define h where "h = nat (qa_head q)"
  define c where "c = qa_count q"
  have pos: "0 < qa_QLen q" using assms by (auto simp: qa_valid_def)
  then have c: "int c = (qa_tail q - qa_head q) mod qa_QLen q"
    by (simp add: c_def qa_count_def)
  have h: "qa_head q = int h" "h < length xs"
    using assms xs by (auto simp: qa_valid_def h_def)
  have "int ((h + c) mod length xs) = (qa_head q + (qa_tail q - qa_head q) mod qa_QLen q) mod qa_QLen q"
    by (simp add: zmod_int h c xs)
  also have "\<dots> = qa_tail q mod qa_QLen q" by (simp add: mod_add_right_eq)
  also have "\<dots> = qa_tail q" using assms by (simp add: qa_valid_def)
  finally have tail: "qa_tail q = int ((h + c) mod length xs)" by simp
  have "int c < int (length xs)" using c pos xs by simp
  then have "c < length xs" by simp
  moreover have "qa_cells q = ring xs h c" by (simp add: qa_cells_def xs h c_def)
  ultimately show thesis using that xs h tail assms by (auto simp: c_def qa_valid_def)
qed

text \<open>And back: how a state with given indices reads.\<close>

lemma qa_count_of:
  assumes "h < n" "c < n" "qa_head q = int h" "qa_tail q = int ((h + c) mod n)" "qa_QLen q = int n"
  shows "qa_count q = c"
proof -
  have "(qa_tail q - qa_head q) mod qa_QLen q = (int h + int c - int h) mod int n"
    using assms by (simp add: zmod_int mod_diff_left_eq)
  with assms(2) show ?thesis by (simp add: qa_count_def)
qed

lemma qa_validI:
  assumes "h < length xs" "c < length xs" "qa_item q = Some xs" "qa_QLen q = int (length xs)"
    "qa_head q = int h" "qa_tail q = int ((h + c) mod length xs)" "None \<notin> set (ring xs h c)"
  shows "qa_valid q" and "qa_cells q = ring xs h c"
proof -
  have count: "qa_count q = c" by (rule qa_count_of) (use assms in auto)
  then show cells: "qa_cells q = ring xs h c" by (simp add: qa_cells_def assms)
  have "(h + c) mod length xs < length xs" using assms(1) by (intro mod_less_divisor) linarith
  with cells assms show "qa_valid q" by (auto simp: qa_valid_def)
qed

lemma mod_shift_eq:
  fixes h c n :: nat
  assumes "h < n" "c < n"
  shows "Suc ((h + c) mod n) mod n = h \<longleftrightarrow> Suc c = n"
proof
  assume "Suc c = n"
  then have "Suc ((h + c) mod n) mod n = (h + n) mod n" by (metis add_Suc_right mod_Suc_eq)
  with assms show "Suc ((h + c) mod n) mod n = h" by simp
next
  assume eq: "Suc ((h + c) mod n) mod n = h"
  show "Suc c = n"
  proof (rule ccontr)
    assume "Suc c \<noteq> n"
    then have "(h + Suc c) mod n \<noteq> h" using assms by (intro mod_add_neq) auto
    with eq show False by (simp add: mod_Suc_eq)
  qed
qed

lemma int_succ_mod: "(int i + 1) mod int n = int (Suc i mod n)"
  by (simp only: zmod_int of_nat_Suc add.commute)

lemma c_rem_succ: "i < n \<Longrightarrow> c_rem (int i + 1) (int n) = Inr (int (Suc i mod n))"
  by (simp add: c_rem_nonneg int_succ_mod)

section \<open>The operations on a valid queue\<close>

lemma QueueFull_valid:
  assumes "qa_valid q"
  shows "QueueFull_arr (Some q) = Inr (length (qa_contents q) = qa_capacity q)"
proof -
  from assms obtain xs h c where v: "h < length xs" "c < length xs"
    "qa_QLen q = int (length xs)" "qa_head q = int h" "qa_tail q = int ((h + c) mod length xs)"
    "qa_cells q = ring xs h c" by (rule qa_validE)
  have "(qa_tail q + 1) mod qa_QLen q = int (Suc ((h + c) mod length xs) mod length xs)"
    by (simp only: v int_succ_mod)
  then have "((qa_tail q + 1) mod qa_QLen q = qa_head q) = (Suc c = length xs)"
    using mod_shift_eq [OF v(1,2)] by (simp add: v)
  moreover have "qa_capacity q = length xs - 1" "length (qa_contents q) = c"
    by (simp_all add: qa_contents_def qa_capacity_def v nat_diff_distrib')
  then have "(Suc c = length xs) = (length (qa_contents q) = qa_capacity q)"
    using v(2) by linarith
  moreover have "0 < qa_QLen q" using v(2,3) by linarith
  ultimately show ?thesis
    by (simp add: QueueFull_arr_def c_rem_nonneg v(5))
qed

lemma QueueEmpty_valid:
  assumes "qa_valid q"
  shows "QueueEmpty_arr (Some q) = Inr (qa_contents q = [])"
proof -
  from assms obtain xs h c where v: "h < length xs" "c < length xs"
    "qa_QLen q = int (length xs)" "qa_head q = int h" "qa_tail q = int ((h + c) mod length xs)"
    "qa_cells q = ring xs h c" by (rule qa_validE)
  have "(h = (h + c) mod length xs) = (c = 0)"
    using mod_add_neq [of c "length xs" h] v(1,2) by (cases "c = 0") auto
  moreover have "(qa_contents q = []) = (c = 0)"
    by (simp add: qa_contents_def v flip: length_0_conv)
  ultimately show ?thesis by (simp add: QueueEmpty_arr_def v)
qed

lemma qa_contents_fits: "qa_valid q \<Longrightarrow> length (qa_contents q) \<le> qa_capacity q"
  by (erule qa_validE) (simp add: qa_contents_def qa_capacity_def)

lemma qa_enq_full:
  assumes "qa_valid q" "length (qa_contents q) = qa_capacity q"
  shows "qa_enq q x = Inr (q, False)"
  using assms by (simp add: qa_enq_def EnQueue_arr_def QueueFull_valid)

lemma qa_enq_room:
  assumes "qa_valid q" "length (qa_contents q) < qa_capacity q"
  shows "\<exists>q'. qa_enq q x = Inr (q', True) \<and> qa_valid q' \<and> qa_contents q' = qa_contents q @ [x]
           \<and> qa_QLen q' = qa_QLen q"
proof -
  from assms(1) obtain xs h c where v: "qa_item q = Some xs" "h < length xs" "c < length xs"
    "qa_QLen q = int (length xs)" "qa_head q = int h" "qa_tail q = int ((h + c) mod length xs)"
    "None \<notin> set (ring xs h c)" "qa_cells q = ring xs h c" by (rule qa_validE)
  have room: "Suc c < length xs"
    using assms(2) v(3) by (simp add: qa_contents_def qa_capacity_def v)
  let ?t = "(h + c) mod length xs" and ?it = "Some \<lparr>qi_id = x\<rparr>"
  let ?q = "q\<lparr>qa_item := Some (xs[?t := ?it]), qa_tail := int (Suc ?t mod length xs)\<rparr>"
  have t: "?t < length xs" using v(2) by (intro mod_less_divisor) linarith
  have "c_rem (int ?t + 1) (int (length xs)) = Inr (int (Suc ?t mod length xs))"
    using t by (rule c_rem_succ)
  then have run: "qa_enq q x = Inr (?q, True)"
    using assms t by (simp add: qa_enq_def EnQueue_arr_def QueueFull_valid qa_store_def aset_ok v)
  have "Suc ?t mod length xs = (h + Suc c) mod length xs" by (simp add: mod_Suc_eq)
  moreover have "ring (xs[?t := ?it]) h (Suc c) = ring xs h c @ [?it]"
    by (rule ring_push [OF v(2,3)])
  ultimately have "qa_valid ?q" "qa_cells ?q = ring xs h c @ [?it]"
    using qa_validI [of h "xs[?t := ?it]" "Suc c" ?q] v room by simp_all
  with run show ?thesis by (auto simp: qa_contents_def v)
qed

lemma qa_deq_empty:
  assumes "qa_valid q" "qa_contents q = []"
  shows "qa_deq q = Inr (q, None)"
  using assms by (simp add: qa_deq_def DeQueue_arr_def QueueEmpty_valid)

lemma qa_deq_item:
  assumes "qa_valid q" "qa_contents q = x # rest"
  shows "\<exists>q'. qa_deq q = Inr (q', Some x) \<and> qa_valid q' \<and> qa_contents q' = rest"
proof -
  from assms(1) obtain xs h c where v: "qa_item q = Some xs" "h < length xs" "c < length xs"
    "qa_QLen q = int (length xs)" "qa_head q = int h" "qa_tail q = int ((h + c) mod length xs)"
    "None \<notin> set (ring xs h c)" "qa_cells q = ring xs h c" by (rule qa_validE)
  obtain d where d: "c = Suc d"
    using assms(2) by (cases c) (simp_all add: qa_contents_def v)
  let ?h = "Suc h mod length xs"
  note pop = ring_pop [OF v(2), of d]
  from v(7) obtain it where it: "xs ! h = Some it" "None \<notin> set (ring xs ?h d)"
    by (cases "xs ! h") (auto simp: d pop)
  have x: "qi_id it = x" "map (\<lambda>c. qi_id (the c)) (ring xs ?h d) = rest"
    using assms(2) by (simp_all add: qa_contents_def v(8) d pop it)
  let ?q = "q\<lparr>qa_head := int ?h\<rparr>"
  have "c_rem (int h + 1) (int (length xs)) = Inr (int ?h)"
    using v(2) by (rule c_rem_succ)
  then have run: "qa_deq q = Inr (?q, Some x)"
    using assms v(2) x
    by (simp add: qa_deq_def DeQueue_arr_def QueueEmpty_valid qa_load_def aget_ok v(1,4,5) it)
  have "(h + c) mod length xs = (?h + d) mod length xs" by (simp add: d mod_add_left_eq)
  moreover have "?h < length xs" using v(2) by (intro mod_less_divisor) linarith
  ultimately have "qa_valid ?q" "qa_cells ?q = ring xs ?h d"
    using qa_validI [of ?h xs d ?q] v it d by simp_all
  with run x show ?thesis by (auto simp: qa_contents_def)
qed

section \<open>The contract holds\<close>

interpretation qa: bounded_fifo qa_enq qa_deq qa_contents qa_valid qa_capacity
proof unfold_locales
  fix q x
  assume v: "qa_valid q"
  show "\<exists>q' ok. qa_enq q x = Inr (q', ok) \<and> qa_valid q' \<and>
      qa_contents q' = (if ok then qa_contents q @ [x] else qa_contents q)"
  proof (cases "length (qa_contents q) = qa_capacity q")
    case True
    with qa_enq_full [OF v] v show ?thesis by auto
  next
    case False
    with qa_contents_fits [OF v] have "length (qa_contents q) < qa_capacity q" by simp
    with qa_enq_room [OF v] show ?thesis by fastforce
  qed
  show "\<exists>q'. qa_valid q' \<and> (case qa_contents q of
        [] \<Rightarrow> qa_deq q = Inr (q', None) \<and> qa_contents q' = []
      | x # xs \<Rightarrow> qa_deq q = Inr (q', Some x) \<and> qa_contents q' = xs)"
    using qa_deq_empty [OF v] qa_deq_item [OF v] v by (cases "qa_contents q") auto
  show "length (qa_contents q) \<le> qa_capacity q" by (rule qa_contents_fits [OF v])
next
  fix q x q' ok
  assume v: "qa_valid q" and e: "qa_enq q x = Inr (q', ok)"
  then show "ok = (length (qa_contents q) < qa_capacity q) \<and> qa_capacity q' = qa_capacity q"
    using qa_enq_full [OF v, of x] qa_enq_room [OF v, of x] qa_contents_fits [OF v]
    by (cases "length (qa_contents q) = qa_capacity q") (auto simp: qa_capacity_def)
qed

section \<open>Properties\<close>

lemma qa_fresh:
  assumes "0 < qa_QLen q" "qa_QLen q \<le> INT_MAX" "malloc (nat (4 * qa_QLen q))"
    and "InitQueue_arr malloc (Some q) = Inr (q', ok)"
  shows "ok \<and> qa_valid q' \<and> qa_contents q' = [] \<and> qa_capacity q' = nat (qa_QLen q - 1)"
proof -
  have n: "c_size (4 * qa_QLen q) = nat (4 * qa_QLen q)" using assms by (simp add: c_size_id)
  have "nat (4 * qa_QLen q) div 4 = nat (qa_QLen q)" using assms(1) by (simp add: nat_mult_distrib)
  then have q': "q' = q\<lparr>qa_item := Some (replicate (nat (qa_QLen q)) None), qa_head := 0, qa_tail := 0\<rparr>"
    and ok: ok using assms n by (simp_all add: InitQueue_arr_def Let_def)
  have "qa_valid q'" "qa_cells q' = []"
    using qa_validI [of 0 "replicate (nat (qa_QLen q)) None" 0 q'] assms(1) by (simp_all add: q')
  with ok show ?thesis by (simp add: qa_contents_def qa_capacity_def q')
qed

text \<open>
  An array queue initialised with a positive length and a granted allocation is a faithful
  first-in first-out queue: no sequence of \<open>EnQueue\<close> and \<open>DeQueue\<close> calls faults (no index
  leaves the array, no cell is read before it was written), and the elements delivered, followed
  by those still in the queue, are exactly the elements accepted, in order.
\<close>
theorem queue_array_fifo:
  assumes "0 < qa_QLen q" "qa_QLen q \<le> 2147483647" "malloc (nat (4 * qa_QLen q))"
    and "InitQueue_arr malloc (Some q) = Inr (q0, True)"
  shows "\<exists>q' acc out. queue_run qa_enq qa_deq q0 ops = Inr (q', acc, out) \<and> acc = out @ qa_contents q'"
proof -
  from qa_fresh [OF assms] have "qa_valid q0" "qa_contents q0 = []" by simp_all
  with qa.run_fifo [of q0 ops] show ?thesis by force
qed

definition qa_example :: Queue where
  "qa_example = \<lparr>qa_head = 0, qa_tail = 0, qa_item = Some [None, None, None], qa_QLen = 3\<rparr>"

lemma qa_example_init: "InitQueue_arr (\<lambda>_. True) (Some qa_example) = Inr (qa_example, True)"
  by (simp add: InitQueue_arr_def qa_example_def c_size_def numeral_3_eq_3)

theorem queue_array_fifo_witness:
  "\<exists>q' acc out. queue_run qa_enq qa_deq qa_example [Put 7, Put 8, Put 9, Take]
      = Inr (q', acc, out) \<and> acc = out @ qa_contents q'"
  by (rule queue_array_fifo [OF _ _ _ qa_example_init]) (simp_all add: qa_example_def)

text \<open>
  Filling a fresh queue accepts exactly \<open>QLen - 1\<close> elements, the first ones offered: one cell
  always stays unused, as the header's comment says.
\<close>
theorem queue_array_capacity:
  assumes "0 < qa_QLen q" "qa_QLen q \<le> 2147483647" "malloc (nat (4 * qa_QLen q))"
    and "InitQueue_arr malloc (Some q) = Inr (q0, True)"
  shows "\<exists>q'. queue_run qa_enq qa_deq q0 (map Put xs) = Inr (q', take (nat (qa_QLen q - 1)) xs, [])
           \<and> qa_contents q' = take (nat (qa_QLen q - 1)) xs"
proof -
  from qa_fresh [OF assms] have "qa_valid q0" "qa_contents q0 = []"
    "qa_capacity q0 = nat (qa_QLen q - 1)" by simp_all
  with qa.fill [of q0 xs] show ?thesis by auto
qed

theorem queue_array_capacity_witness:
  "\<exists>q'. queue_run qa_enq qa_deq qa_example (map Put [4, 5, 6]) = Inr (q', [4, 5], []) \<and>
     qa_contents q' = [4, 5]"
  using queue_array_capacity [OF _ _ _ qa_example_init, of "[4, 5, 6]"]
  by (simp add: qa_example_def)

text \<open>
  Draining a valid queue delivers its contents in order and leaves it empty.
\<close>
theorem queue_array_drain:
  assumes "qa_valid q"
  shows "\<exists>q'. queue_run qa_enq qa_deq q (replicate (length (qa_contents q)) Take)
            = Inr (q', [], qa_contents q) \<and> qa_valid q' \<and> qa_contents q' = []"
  using assms by (rule qa.run_drains)

theorem queue_array_drain_witness:
  "\<exists>q'. queue_run qa_enq qa_deq qa_example (replicate (length (qa_contents qa_example)) Take)
            = Inr (q', [], qa_contents qa_example) \<and> qa_valid q' \<and> qa_contents q' = []"
  by (rule queue_array_drain) (use qa_fresh [OF _ _ _ qa_example_init] in \<open>simp add: qa_example_def\<close>)

text \<open>
  \<open>InitQueue\<close> reports success also when \<open>malloc\<close> returns NULL, and the first
  \<open>EnQueue\<close> on that queue dereferences the NULL pointer; with a length of 0 it divides by zero.
\<close>
theorem queue_array_unchecked_init:
  "InitQueue_arr (\<lambda>_. False) (Some q) =
     Inr (q\<lparr>qa_item := None, qa_head := 0, qa_tail := 0\<rparr>, True) \<and>
   (qa_QLen q > 1 \<longrightarrow> qa_enq (q\<lparr>qa_item := None, qa_head := 0, qa_tail := 0\<rparr>) x = Inl Null_Deref) \<and>
   (qa_QLen q = 0 \<longrightarrow> qa_enq (q\<lparr>qa_item := None, qa_head := 0, qa_tail := 0\<rparr>) x = Inl Div_By_Zero)"
  by (auto simp: InitQueue_arr_def Let_def qa_enq_def EnQueue_arr_def QueueFull_arr_def
      c_rem_def qa_store_def)

theorem queue_array_unchecked_init_witness:
  "qa_enq \<lparr>qa_head = 0, qa_tail = 0, qa_item = None, qa_QLen = 3\<rparr> 5 = Inl Null_Deref"
  using queue_array_unchecked_init [of qa_example 5] by (simp add: qa_example_def)

end
