(* ===== verification/CHeap.thy ===== *)
theory CHeap
  imports Prelude
begin

text \<open>
  A C heap for structs of one type: live blocks by address, and the allocator as an oracle
  that is asked, at the \<open>k\<close>-th call and with the blocks then live, for the address it
  returns (\<open>None\<close> when it returns NULL). The one law of \<open>malloc\<close> used is \<open>heap_ok\<close>: a
  block it returns is not one that is still live. Loads, stores and frees through a pointer
  fault when the pointer is NULL, was never assigned, or points to no live block.
\<close>

datatype ptr = NULL | Ptr nat | Junk

record 'n heap =
  h_cells :: "nat \<Rightarrow> 'n option"
  h_calls :: nat
  h_malloc :: "nat \<Rightarrow> (nat \<Rightarrow> 'n option) \<Rightarrow> nat option"

definition heap_ok :: "'n heap \<Rightarrow> bool" where
  "heap_ok h \<longleftrightarrow> (\<forall>k m a. h_malloc h k m = Some a \<longrightarrow> m a = None)"

definition halloc :: "'n heap \<Rightarrow> 'n \<Rightarrow> 'n heap \<times> ptr" where
  "halloc h init = (case h_malloc h (h_calls h) (h_cells h) of
       None \<Rightarrow> (h\<lparr>h_calls := Suc (h_calls h)\<rparr>, NULL)
     | Some a \<Rightarrow> (h\<lparr>h_calls := Suc (h_calls h), h_cells := (h_cells h)(a \<mapsto> init)\<rparr>, Ptr a))"

definition hload :: "'n heap \<Rightarrow> ptr \<Rightarrow> 'n cres" where
  "hload h p = (case p of NULL \<Rightarrow> Inl Null_Deref | Junk \<Rightarrow> Inl Uninit_Read
     | Ptr a \<Rightarrow> (case h_cells h a of None \<Rightarrow> Inl Out_Of_Bounds | Some n \<Rightarrow> Inr n))"

definition hstore :: "'n heap \<Rightarrow> ptr \<Rightarrow> ('n \<Rightarrow> 'n) \<Rightarrow> 'n heap cres" where
  "hstore h p f = (case p of NULL \<Rightarrow> Inl Null_Deref | Junk \<Rightarrow> Inl Uninit_Read
     | Ptr a \<Rightarrow> (case h_cells h a of None \<Rightarrow> Inl Out_Of_Bounds
               | Some n \<Rightarrow> Inr (h\<lparr>h_cells := (h_cells h)(a \<mapsto> f n)\<rparr>)))"

definition hfree :: "'n heap \<Rightarrow> ptr \<Rightarrow> 'n heap cres" where
  "hfree h p = (case p of NULL \<Rightarrow> Inr h | Junk \<Rightarrow> Inl Bad_Free
     | Ptr a \<Rightarrow> (case h_cells h a of None \<Rightarrow> Inl Bad_Free
               | Some n \<Rightarrow> Inr (h\<lparr>h_cells := (h_cells h)(a := None)\<rparr>)))"

lemma hload_Ptr [cres_simps]: "h_cells h a = Some n \<Longrightarrow> hload h (Ptr a) = Inr n"
  by (simp add: hload_def)

lemma hstore_Ptr [cres_simps]:
  "h_cells h a = Some n \<Longrightarrow> hstore h (Ptr a) f = Inr (h\<lparr>h_cells := (h_cells h)(a \<mapsto> f n)\<rparr>)"
  by (simp add: hstore_def)

lemma hfree_Ptr [cres_simps]:
  "h_cells h a = Some n \<Longrightarrow> hfree h (Ptr a) = Inr (h\<lparr>h_cells := (h_cells h)(a := None)\<rparr>)"
  by (simp add: hfree_def)

lemma hload_NULL [simp]: "hload h NULL = Inl Null_Deref"
  by (simp add: hload_def)

lemma heap_ok_update [simp]: "heap_ok (h\<lparr>h_cells := m\<rparr>) = heap_ok h"
  "heap_ok (h\<lparr>h_calls := k\<rparr>) = heap_ok h"
  by (simp_all add: heap_ok_def)

lemma halloc_cases:
  assumes "heap_ok h"
  obtains (Fail) "halloc h init = (h\<lparr>h_calls := Suc (h_calls h)\<rparr>, NULL)"
  | (Block) a where "h_cells h a = None"
      "halloc h init = (h\<lparr>h_calls := Suc (h_calls h), h_cells := (h_cells h)(a \<mapsto> init)\<rparr>, Ptr a)"
proof (cases "h_malloc h (h_calls h) (h_cells h)")
  case None
  then show ?thesis using Fail by (simp add: halloc_def)
next
  case (Some a)
  then have "h_cells h a = None" using assms by (auto simp: heap_ok_def)
  with Some Block show ?thesis by (simp add: halloc_def)
qed

text \<open>An allocator that always grants the lowest address it has not used yet.\<close>

definition bump_heap :: "'n heap" where
  "bump_heap = \<lparr>h_cells = (\<lambda>_. None), h_calls = 0,
     h_malloc = (\<lambda>k m. if m (Suc k) = None then Some (Suc k) else None)\<rparr>"

lemma heap_ok_bump: "heap_ok bump_heap"
  by (simp add: heap_ok_def bump_heap_def)

end
