(* ===== verification/QueueLinkList.thy ===== *)
theory QueueLinkList
  imports QueueSpec CHeap
begin

text \<open>
  The linked queue of \<open>dataStruct/queue/src/queueLinkList.c\<close>: a chain of nodes from a dummy
  node at \<open>head\<close> to the last node at \<open>tail\<close>; the elements are the nodes after the dummy.
  The nodes live in the heap of \<open>CHeap\<close>, so that a use of a freed node, a double free and a
  leak are visible. A field that was not written since \<open>malloc\<close> is \<open>None\<close> or \<open>Junk\<close>.
\<close>

section \<open>The data\<close>

record QNode =
  qn_id :: "int option"
  qn_next :: ptr

record LQueue =
  lq_head :: ptr
  lq_tail :: ptr
  lq_heap :: "QNode heap"

definition fresh_node :: QNode where
  "fresh_node = \<lparr>qn_id = None, qn_next = Junk\<rparr>"

section \<open>The operations\<close>

text \<open>
  The pointer arguments \<open>Q\<close> and \<open>node\<close> are \<open>None\<close> for NULL; of the node passed in, only
  \<open>id\<close> is read or written.
\<close>

definition InitQueue_lnk :: "LQueue option \<Rightarrow> (LQueue \<times> bool) cres" where
  "InitQueue_lnk Q = (case Q of None \<Rightarrow> Inl Assert_Fail | Some q \<Rightarrow>
     (let (h, p) = halloc (lq_heap q) fresh_node;
          q1 = q\<lparr>lq_heap := h, lq_head := p, lq_tail := p\<rparr>
      in if p = NULL then Inr (q1, False)
         else cbind (hstore h (lq_tail q1) (\<lambda>n. n\<lparr>qn_next := NULL\<rparr>)) (\<lambda>h'.
              Inr (q1\<lparr>lq_heap := h'\<rparr>, True))))"

definition isEmpty_lnk :: "LQueue option \<Rightarrow> bool cres" where
  "isEmpty_lnk Q = (case Q of None \<Rightarrow> Inl Assert_Fail | Some q \<Rightarrow>
     Inr (lq_tail q = lq_head q))"

definition EnQueue_lnk :: "LQueue option \<Rightarrow> int option \<Rightarrow> (LQueue \<times> bool) cres" where
  "EnQueue_lnk Q node = (case Q of None \<Rightarrow> Inl Assert_Fail | Some q \<Rightarrow>
     (case node of None \<Rightarrow> Inl Assert_Fail | Some v \<Rightarrow>
       (let (h, p) = halloc (lq_heap q) fresh_node in
        cbind (hstore h (lq_tail q) (\<lambda>n. n\<lparr>qn_next := p\<rparr>)) (\<lambda>h1.
        if p = NULL then Inr (q\<lparr>lq_heap := h1\<rparr>, False)
        else
          cbind (hload h1 (lq_tail q)) (\<lambda>t.
          let tail = qn_next t in
          cbind (hstore h1 tail (\<lambda>n. n\<lparr>qn_next := NULL\<rparr>)) (\<lambda>h2.
          cbind (hstore h2 tail (\<lambda>n. n\<lparr>qn_id := Some v\<rparr>)) (\<lambda>h3.
            Inr (q\<lparr>lq_heap := h3, lq_tail := tail\<rparr>, True))))))))"

definition DeQueue_lnk :: "LQueue option \<Rightarrow> int option \<Rightarrow> (LQueue \<times> int \<times> bool) cres" where
  "DeQueue_lnk Q node = (case Q of None \<Rightarrow> Inl Assert_Fail | Some q \<Rightarrow>
     (case node of None \<Rightarrow> Inl Assert_Fail | Some v \<Rightarrow>
       cbind (isEmpty_lnk Q) (\<lambda>empty.
       if \<not> empty then
         cbind (hload (lq_heap q) (lq_head q)) (\<lambda>hd_node.
         let temp = qn_next hd_node in
         cbind (hload (lq_heap q) temp) (\<lambda>tn.
         case qn_id tn of None \<Rightarrow> Inl Uninit_Read | Some x \<Rightarrow>
         let q1 = (if lq_tail q = temp then q\<lparr>lq_tail := lq_head q\<rparr> else q) in
         cbind (hstore (lq_heap q1) (lq_head q1) (\<lambda>n. n\<lparr>qn_next := qn_next tn\<rparr>)) (\<lambda>h1.
         cbind (hfree h1 temp) (\<lambda>h2.
           Inr (q1\<lparr>lq_heap := h2\<rparr>, x, True)))))
       else Inr (q, v, False))))"

section \<open>Chains\<close>

text \<open>\<open>chain m as\<close>: the nodes at the addresses \<open>as\<close> are linked in this order, the last to NULL.\<close>

fun chain :: "(nat \<Rightarrow> QNode option) \<Rightarrow> nat list \<Rightarrow> bool" where
  "chain m [] = True"
| "chain m [a] = (\<exists>n. m a = Some n \<and> qn_next n = NULL)"
| "chain m (a # b # as) = ((\<exists>n. m a = Some n \<and> qn_next n = Ptr b) \<and> chain m (b # as))"

lemma chain_live: "chain m as \<Longrightarrow> a \<in> set as \<Longrightarrow> \<exists>n. m a = Some n"
  by (induction m as rule: chain.induct) auto

lemma chain_upd: "a \<notin> set as \<Longrightarrow> chain (m(a := x)) as = chain m as"
  by (induction m as rule: chain.induct) auto

lemma chain_tl: "chain m (a # as) \<Longrightarrow> chain m as"
  by (cases as) auto

lemma chain_snoc:
  assumes "chain m as" "as \<noteq> []" "distinct (as @ [b])" "m (last as) = Some n"
  shows "chain (m(b \<mapsto> \<lparr>qn_id = x, qn_next = NULL\<rparr>, last as \<mapsto> n\<lparr>qn_next := Ptr b\<rparr>)) (as @ [b])"
  using assms
proof (induction m as rule: chain.induct)
  case (3 m a c as)
  then have "a \<noteq> b" "a \<noteq> last (c # as)" by (auto dest: last_in_set)
  with 3 show ?case by auto
qed auto

lemma chain_last: "chain m as \<Longrightarrow> as \<noteq> [] \<Longrightarrow> \<exists>n. m (last as) = Some n \<and> qn_next n = NULL"
  by (induction m as rule: chain.induct) auto

section \<open>Representation\<close>

definition node_id :: "QNode option \<Rightarrow> int" where
  "node_id c = the (qn_id (the c))"

definition lq_rep :: "LQueue \<Rightarrow> nat list \<Rightarrow> bool" where
  "lq_rep q as \<longleftrightarrow> as \<noteq> [] \<and> lq_head q = Ptr (hd as) \<and> lq_tail q = Ptr (last as) \<and> distinct as \<and>
     chain (h_cells (lq_heap q)) as \<and> dom (h_cells (lq_heap q)) = set as \<and>
     (\<forall>a\<in>set (tl as). qn_id (the (h_cells (lq_heap q) a)) \<noteq> None) \<and> heap_ok (lq_heap q)"

definition lq_valid :: "LQueue \<Rightarrow> bool" where
  "lq_valid q \<longleftrightarrow> (\<exists>as. lq_rep q as)"

text \<open>The elements, read by following the links: \<open>None\<close> when the links do not end.\<close>

partial_function (option) walk :: "(nat \<Rightarrow> QNode option) \<Rightarrow> ptr \<Rightarrow> int list option" where
  "walk m p = (case p of Ptr a \<Rightarrow>
       Option.bind (walk m (qn_next (the (m a)))) (\<lambda>xs. Some (node_id (m a) # xs))
     | NULL \<Rightarrow> Some [] | Junk \<Rightarrow> None)"

definition lq_contents :: "LQueue \<Rightarrow> int list" where
  "lq_contents q = (case lq_head q of Ptr a \<Rightarrow>
       the (walk (h_cells (lq_heap q)) (qn_next (the (h_cells (lq_heap q) a)))) | _ \<Rightarrow> [])"

lemma walk_simps [simp]:
  "walk m NULL = Some []"
  "walk m (Ptr a) = Option.bind (walk m (qn_next (the (m a)))) (\<lambda>xs. Some (node_id (m a) # xs))"
  by (subst walk.simps; simp)+

lemma walk_chain: "chain m (a # as) \<Longrightarrow> walk m (Ptr a) = Some (map (\<lambda>b. node_id (m b)) (a # as))"
proof (induction as arbitrary: a)
  case Nil
  then show ?case by auto
next
  case (Cons b as)
  then obtain n where "m a = Some n" "qn_next n = Ptr b" "chain m (b # as)" by auto
  with Cons.IH [of b] show ?case by (simp del: walk_simps(2) add: walk_simps(2) [of m a])
qed

lemma lq_contents_rep:
  assumes "lq_rep q as"
  shows "lq_contents q = map (\<lambda>b. node_id (h_cells (lq_heap q) b)) (tl as)"
proof -
  let ?m = "h_cells (lq_heap q)"
  obtain a bs where as: "as = a # bs" using assms by (cases as) (auto simp: lq_rep_def)
  show ?thesis
  proof (cases bs)
    case Nil
    with assms as show ?thesis by (auto simp: lq_rep_def lq_contents_def)
  next
    case (Cons b cs)
    with assms as obtain n where "?m a = Some n" "qn_next n = Ptr b" "chain ?m (b # cs)"
      "lq_head q = Ptr a"
      by (auto simp: lq_rep_def)
    with walk_chain [of ?m b cs] as Cons show ?thesis
      by (simp del: walk_simps(2) add: lq_contents_def)
  qed
qed

section \<open>The operations on a valid queue\<close>

definition lq_enq :: "LQueue \<Rightarrow> int \<Rightarrow> (LQueue \<times> bool) cres" where
  "lq_enq q x = EnQueue_lnk (Some q) (Some x)"

definition lq_deq :: "LQueue \<Rightarrow> (LQueue \<times> int option) cres" where
  "lq_deq q = cbind (DeQueue_lnk (Some q) (Some 0)) (\<lambda>(q', x, ok).
     Inr (q', if ok then Some x else None))"

lemma node_id_link [simp]: "node_id (Some (n\<lparr>qn_next := p\<rparr>)) = node_id (Some n)"
  by (simp add: node_id_def)

lemma lq_repD:
  assumes "lq_rep q as"
  shows "as \<noteq> []" "lq_head q = Ptr (hd as)" "lq_tail q = Ptr (last as)" "distinct as"
    "chain (h_cells (lq_heap q)) as" "dom (h_cells (lq_heap q)) = set as" "heap_ok (lq_heap q)"
    "a \<in> set (tl as) \<Longrightarrow> qn_id (the (h_cells (lq_heap q) a)) \<noteq> None"
  using assms by (auto simp: lq_rep_def)

lemma enq_fail:
  assumes rep: "lq_rep q as" and alloc: "halloc (lq_heap q) fresh_node = (h, NULL)"
    and h: "h = (lq_heap q)\<lparr>h_calls := k\<rparr>"
  shows "\<exists>q'. lq_enq q x = Inr (q', False) \<and> lq_rep q' as \<and> lq_contents q' = lq_contents q"
proof -
  note r = lq_repD [OF rep]
  let ?m = "h_cells (lq_heap q)" and ?l = "last as"
  obtain n where n: "?m ?l = Some n" "qn_next n = NULL" using chain_last [OF r(5,1)] by blast
  then have same: "?m(?l \<mapsto> n\<lparr>qn_next := NULL\<rparr>) = ?m" by (auto simp: fun_eq_iff)
  let ?q = "q\<lparr>lq_heap := h\<lparr>h_cells := ?m\<rparr>\<rparr>"
  have "lq_enq q x = Inr (?q, False)"
    using n same by (simp add: lq_enq_def EnQueue_lnk_def alloc hstore_Ptr r(3) h)
  moreover have "lq_rep ?q as" using rep by (simp add: lq_rep_def h)
  moreover from this rep have "lq_contents ?q = lq_contents q"
    by (simp add: lq_contents_rep h)
  ultimately show ?thesis by blast
qed

lemma enq_block:
  assumes rep: "lq_rep q as" and b: "h_cells (lq_heap q) b = None"
    and alloc: "halloc (lq_heap q) fresh_node = (h, Ptr b)"
    and h: "h = (lq_heap q)\<lparr>h_calls := k, h_cells := (h_cells (lq_heap q))(b \<mapsto> fresh_node)\<rparr>"
  shows "\<exists>q'. lq_enq q x = Inr (q', True) \<and> lq_rep q' (as @ [b]) \<and>
           lq_contents q' = lq_contents q @ [x]"
proof -
  note r = lq_repD [OF rep]
  let ?m = "h_cells (lq_heap q)" and ?l = "last as"
  obtain n where n: "?m ?l = Some n" using chain_last [OF r(5,1)] by blast
  let ?m' = "?m(b \<mapsto> \<lparr>qn_id = Some x, qn_next = NULL\<rparr>, ?l \<mapsto> n\<lparr>qn_next := Ptr b\<rparr>)"
  have "b \<notin> set as" using b r(6) by (metis domIff)
  then have lb: "?l \<noteq> b" using r(1) last_in_set by fastforce
  let ?q = "q\<lparr>lq_heap := h\<lparr>h_cells := ?m'\<rparr>, lq_tail := Ptr b\<rparr>"
  have "lq_enq q x = Inr (?q, True)"
    using n lb by (simp add: lq_enq_def EnQueue_lnk_def alloc [unfolded fresh_node_def] hstore_Ptr
        hload_Ptr r(3) h fresh_node_def Let_def) (auto simp: fun_eq_iff)
  moreover have "lq_rep ?q (as @ [b])"
  proof -
    have "chain (?m') (as @ [b])"
      by (rule chain_snoc [OF r(5,1) _ n]) (use r(4) \<open>b \<notin> set as\<close> in simp)
    moreover have "dom (?m') = set (as @ [b])" using r(1,6) last_in_set by auto
    moreover have "qn_id (the (?m' a)) \<noteq> None" if "a \<in> set (tl (as @ [b]))" for a
      using that r(1) r(8) [of a] n \<open>b \<notin> set as\<close> by (auto simp: tl_append split: list.splits)
    ultimately show ?thesis
      using r \<open>b \<notin> set as\<close> by (auto simp: lq_rep_def h)
  qed
  moreover from this have "lq_contents ?q = lq_contents q @ [x]"
    using rep n lb \<open>b \<notin> set as\<close> r(1)
    by (cases as) (auto simp: lq_contents_rep h node_id_def)
  ultimately show ?thesis by blast
qed

lemma deq_empty:
  assumes "lq_rep q [a]"
  shows "lq_deq q = Inr (q, None)" "lq_contents q = []"
  using lq_repD(2,3) [OF assms] lq_contents_rep [OF assms]
  by (simp_all add: lq_deq_def DeQueue_lnk_def isEmpty_lnk_def)

lemma deq_item:
  assumes rep: "lq_rep q (a # b # as)"
  shows "\<exists>q' x. lq_deq q = Inr (q', Some x) \<and> lq_rep q' (a # as) \<and>
           lq_contents q = x # lq_contents q'"
proof -
  note r = lq_repD [OF rep]
  let ?m = "h_cells (lq_heap q)"
  obtain na where na: "?m a = Some na" "qn_next na = Ptr b" using r(5) by auto
  obtain nb where nb: "?m b = Some nb" using r(5) chain_live [of ?m "a # b # as" b] by auto
  obtain x where x: "qn_id nb = Some x" using r(8) [of b] nb by auto
  have ab: "a \<noteq> b" "a \<notin> set as" "b \<notin> set as" "distinct as" using r(4) by auto
  let ?m' = "?m(a \<mapsto> na\<lparr>qn_next := qn_next nb\<rparr>, b := None)"
  let ?q = "q\<lparr>lq_tail := Ptr (last (a # as)), lq_heap := (lq_heap q)\<lparr>h_cells := ?m'\<rparr>\<rparr>"
  have tail: "(if lq_tail q = Ptr b then Ptr a else lq_tail q) = Ptr (last (a # as))"
    using r(3) ab last_in_set [of as] by auto
  have run: "lq_deq q = Inr (?q, Some x)"
    using tail ab r(2) na nb x last_in_set [of as]
    by (auto simp: lq_deq_def DeQueue_lnk_def isEmpty_lnk_def r(3) hload_Ptr hstore_Ptr hfree_Ptr
        Let_def)
  have "chain ?m' (a # as)"
  proof (cases as)
    case Nil
    with r(5) nb ab show ?thesis by auto
  next
    case (Cons c cs)
    with r(5) nb have "qn_next nb = Ptr c" "chain ?m (c # cs)" by auto
    with Cons ab show ?thesis by (auto simp: chain_upd)
  qed
  moreover have "dom ?m' = set (a # as)" using r(6) ab by auto
  moreover have "qn_id (the (?m' c)) \<noteq> None" if "c \<in> set as" for c
    using that r(8) [of c] ab by auto
  ultimately have rep': "lq_rep ?q (a # as)"
    using r ab by (auto simp: lq_rep_def)
  moreover have "lq_contents q = x # lq_contents ?q"
    using ab nb x lq_contents_rep [OF rep'] by (auto simp: lq_contents_rep [OF rep] node_id_def)
  ultimately show ?thesis using run by blast
qed

interpretation lq: fifo lq_enq lq_deq lq_contents lq_valid
proof unfold_locales
  fix q x
  assume "lq_valid q"
  then obtain as where rep: "lq_rep q as" by (auto simp: lq_valid_def)
  show "\<exists>q' ok. lq_enq q x = Inr (q', ok) \<and> lq_valid q' \<and>
      lq_contents q' = (if ok then lq_contents q @ [x] else lq_contents q)"
  proof (rule halloc_cases [OF lq_repD(7) [OF rep], of fresh_node])
    assume "halloc (lq_heap q) fresh_node
      = ((lq_heap q)\<lparr>h_calls := Suc (h_calls (lq_heap q))\<rparr>, NULL)"
    from enq_fail [OF rep this refl] show ?thesis unfolding lq_valid_def by fastforce
  next
    fix a
    assume "h_cells (lq_heap q) a = None" and
      "halloc (lq_heap q) fresh_node = ((lq_heap q)\<lparr>h_calls := Suc (h_calls (lq_heap q)),
         h_cells := (h_cells (lq_heap q))(a \<mapsto> fresh_node)\<rparr>, Ptr a)"
    from enq_block [OF rep this refl] show ?thesis unfolding lq_valid_def by fastforce
  qed
  show "\<exists>q'. lq_valid q' \<and> (case lq_contents q of
        [] \<Rightarrow> lq_deq q = Inr (q', None) \<and> lq_contents q' = []
      | x # xs \<Rightarrow> lq_deq q = Inr (q', Some x) \<and> lq_contents q' = xs)"
  proof (cases as)
    case Nil
    with lq_repD(1) [OF rep] show ?thesis by simp
  next
    case (Cons a bs)
    show ?thesis
    proof (cases bs)
      case Nil
      with Cons rep deq_empty [of q a] show ?thesis by (auto simp: lq_valid_def)
    next
      case (Cons b cs)
      with \<open>as = a # bs\<close> rep deq_item [of q a b cs] show ?thesis
        unfolding lq_valid_def by fastforce
    qed
  qed
qed

section \<open>Properties\<close>

lemma lq_init:
  assumes "lq_heap q = h" "heap_ok h" "h_cells h = (\<lambda>_. None)"
    and "InitQueue_lnk (Some q) = Inr (q', True)"
  shows "\<exists>a. lq_rep q' [a]"
proof (rule halloc_cases [OF assms(2), of fresh_node])
  assume "halloc h fresh_node = (h\<lparr>h_calls := Suc (h_calls h)\<rparr>, NULL)"
  with assms show ?thesis by (simp add: InitQueue_lnk_def)
next
  fix a
  assume "halloc h fresh_node
    = (h\<lparr>h_calls := Suc (h_calls h), h_cells := (h_cells h)(a \<mapsto> fresh_node)\<rparr>, Ptr a)"
  with assms show ?thesis
    by (auto simp: InitQueue_lnk_def hstore_Ptr lq_rep_def)
qed

text \<open>
  C23. The linked queue, whatever allocations \<open>malloc\<close> grants or refuses, is a faithful first-in
  first-out queue: no sequence of operations dereferences NULL, a freed node or an unset field, or
  frees twice, and the elements delivered, followed by those still queued, are exactly the
  elements accepted, in order.
\<close>
theorem queue_link_fifo:
  assumes "heap_ok (lq_heap q)" "h_cells (lq_heap q) = (\<lambda>_. None)"
    and "InitQueue_lnk (Some q) = Inr (q0, True)"
  shows "\<exists>q' acc out. queue_run lq_enq lq_deq q0 ops = Inr (q', acc, out) \<and> acc = out @ lq_contents q'"
proof -
  from lq_init [OF refl assms] obtain a where rep: "lq_rep q0 [a]" by blast
  then have "lq_valid q0" "lq_contents q0 = []" by (auto simp: lq_valid_def deq_empty)
  with lq.run_fifo [of q0 ops] show ?thesis by force
qed

definition lq_example :: LQueue where
  "lq_example = \<lparr>lq_head = Junk, lq_tail = Junk, lq_heap = bump_heap\<rparr>"

definition lq_example0 :: LQueue where
  "lq_example0 = \<lparr>lq_head = Ptr 1, lq_tail = Ptr 1, lq_heap = bump_heap\<lparr>h_calls := 1,
     h_cells := [1 \<mapsto> \<lparr>qn_id = None, qn_next = NULL\<rparr>]\<rparr>\<rparr>"

lemma lq_example_init: "InitQueue_lnk (Some lq_example) = Inr (lq_example0, True)"
  by (simp add: InitQueue_lnk_def lq_example_def lq_example0_def halloc_def bump_heap_def
      hstore_def fresh_node_def)

theorem queue_link_fifo_witness:
  "\<exists>q' acc out. queue_run lq_enq lq_deq lq_example0 [Put 7, Take, Take, Put 8]
      = Inr (q', acc, out) \<and> acc = out @ lq_contents q'"
  by (rule queue_link_fifo [OF _ _ lq_example_init]) (simp_all add: lq_example_def heap_ok_bump, simp_all add: bump_heap_def)

text \<open>
  No node leaks: in a queue reached by any run of operations, the live blocks of the heap are
  exactly the dummy node and one node per element, so draining the queue returns every node but
  the dummy to the allocator.
\<close>
theorem queue_link_no_leak:
  assumes "heap_ok (lq_heap q)" "h_cells (lq_heap q) = (\<lambda>_. None)"
    and "InitQueue_lnk (Some q) = Inr (q0, True)"
    and "queue_run lq_enq lq_deq q0 ops = Inr (q', acc, out)"
  shows "card (dom (h_cells (lq_heap q'))) = Suc (length (lq_contents q'))"
proof -
  from lq_init [OF refl assms(1-3)] have "lq_valid q0" by (auto simp: lq_valid_def)
  with lq.run_fifo [of q0 ops] assms(4) have "lq_valid q'" by auto
  then obtain as where rep: "lq_rep q' as" by (auto simp: lq_valid_def)
  then have "card (dom (h_cells (lq_heap q'))) = length as"
    using lq_repD(4,6) [OF rep] by (simp add: distinct_card)
  with lq_contents_rep [OF rep] lq_repD(1) [OF rep] show ?thesis by simp
qed

theorem queue_link_no_leak_witness:
  "card (dom (h_cells (lq_heap lq_example0))) = Suc (length (lq_contents lq_example0))"
  by (rule queue_link_no_leak [OF _ _ lq_example_init, of "[]" _ "[]" "[]"])
     (simp_all add: lq_example_def heap_ok_bump, simp_all add: bump_heap_def)

end
