(* ===== verification/ThreadPool.thy ===== *)
theory ThreadPool
  imports QueueSpec
begin

text \<open>
  The data and the critical sections of \<open>IOModels/epoll/epollTcpServer/src/threadpool.c\<close>:
  the pool with its circular task queue, \<open>threadpool_create\<close> up to the point where threads
  are started, \<open>threadpool_add\<close>, the two halves of \<open>threadpool_destroy\<close>,
  \<open>threadpool_free\<close>, and what a worker decides while it holds the lock. Each call into
  pthreads or \<open>malloc\<close> that can fail is an argument that says whether it succeeded. How
  the threads interleave is the subject of \<open>ThreadPoolConc\<close>.
\<close>

section \<open>Constants and data\<close>

definition MAX_THREADS :: int where "MAX_THREADS = 64"
definition MAX_QUEUE :: int where "MAX_QUEUE = 65536"

definition threadpool_invalid :: int where "threadpool_invalid = -1"
definition threadpool_lock_failure :: int where "threadpool_lock_failure = -2"
definition threadpool_queue_full :: int where "threadpool_queue_full = -3"
definition threadpool_shutdown :: int where "threadpool_shutdown = -4"
definition threadpool_thread_failure :: int where "threadpool_thread_failure = -5"

definition threadpool_graceful :: u32 where "threadpool_graceful = 1"

definition immediate_shutdown :: int where "immediate_shutdown = 1"
definition graceful_shutdown :: int where "graceful_shutdown = 2"

lemmas threadpool_codes = threadpool_invalid_def threadpool_lock_failure_def
  threadpool_queue_full_def threadpool_shutdown_def threadpool_thread_failure_def
  threadpool_graceful_def immediate_shutdown_def graceful_shutdown_def

record ('f, 'a) threadpool_task_t =
  tt_function :: 'f
  tt_argument :: 'a

record ('f, 'a) threadpool_t =
  tp_queue :: "('f, 'a) threadpool_task_t option list"
  tp_thread_count :: int
  tp_queue_size :: int
  tp_head :: int
  tp_tail :: int
  tp_count :: int
  tp_shutdown :: int
  tp_started :: int

section \<open>Creation and release\<close>

text \<open>
  The blocks \<open>threadpool_create\<close> asks for, and which of the calls of its first part succeed.
\<close>

datatype block = Pool_Block | Threads_Block | Queue_Block

record create_env =
  ce_pool :: bool
  ce_threads :: bool
  ce_queue :: bool
  ce_mutex :: bool
  ce_cond :: bool

text \<open>
  \<open>threadpool_free\<close> on a pool with the given \<open>started\<close>, allocated arrays and initialised
  mutex and condition variable: \<open>None\<close> for the return value \<open>-1\<close>, else the blocks that stay
  allocated. Locking a mutex, or destroying a mutex or condition variable, that was never
  initialised is a fault.
\<close>

definition threadpool_free :: "int \<Rightarrow> create_env \<Rightarrow> block list option cres" where
  "threadpool_free started env =
     (if started > 0 then Inr None
      else if ce_threads env then
        (if ce_mutex env \<and> ce_cond env then Inr (Some []) else Inl Uninit_Read)
      else Inr (Some (if ce_queue env then [Queue_Block] else [])))"

datatype ('f, 'a) create_outcome =
    Create_Null "block list"                \<comment> \<open>returns NULL; the blocks left allocated\<close>
  | Create_Start "('f, 'a) threadpool_t"    \<comment> \<open>goes on to start the worker threads\<close>

definition threadpool_create ::
    "create_env \<Rightarrow> int \<Rightarrow> int \<Rightarrow> ('f, 'a) create_outcome cres" where
  "threadpool_create env thread_count queue_size =
     (if thread_count \<le> 0 \<or> thread_count > MAX_THREADS \<or> queue_size \<le> 0 \<or> queue_size > MAX_QUEUE
      then Inr (Create_Null [])
      else if \<not> ce_pool env then Inr (Create_Null [])
      else if \<not> ce_mutex env \<or> \<not> ce_cond env \<or> \<not> ce_threads env \<or> \<not> ce_queue env
      then cbind (threadpool_free 0 env) (\<lambda>r. case r of
             None \<Rightarrow> Inr (Create_Null [Pool_Block]) | Some leaked \<Rightarrow> Inr (Create_Null leaked))
      else Inr (Create_Start \<lparr>tp_queue = replicate (nat queue_size) None, tp_thread_count = 0,
             tp_queue_size = queue_size, tp_head = 0, tp_tail = 0, tp_count = 0,
             tp_shutdown = 0, tp_started = 0\<rparr>))"

section \<open>Adding a task\<close>

text \<open>
  The critical section of \<open>threadpool_add\<close>: the error code, the pool, and whether the
  condition variable was signalled.
\<close>

definition add_section ::
    "bool \<Rightarrow> ('f, 'a) threadpool_task_t \<Rightarrow> ('f, 'a) threadpool_t
     \<Rightarrow> (int \<times> ('f, 'a) threadpool_t \<times> bool) cres" where
  "add_section signal_ok task pool =
     (let next = tp_tail pool + 1;
          next = (if next = tp_queue_size pool then 0 else next)
      in if tp_count pool = tp_queue_size pool then Inr (threadpool_queue_full, pool, False)
         else if tp_shutdown pool \<noteq> 0 then Inr (threadpool_shutdown, pool, False)
         else cbind (aset (tp_queue pool) (tp_tail pool) (Some task)) (\<lambda>q.
           let pool' = pool\<lparr>tp_queue := q, tp_tail := next, tp_count := tp_count pool + 1\<rparr>
           in if signal_ok then Inr (0, pool', True)
              else Inr (threadpool_lock_failure, pool', False)))"

text \<open>
  The whole call: the code returned, the pool after it, whether the condition was signalled,
  and whether the mutex is still held on return.
\<close>

record add_result =
  ar_err :: int
  ar_signalled :: bool
  ar_held :: bool

definition threadpool_add ::
    "bool \<Rightarrow> bool \<Rightarrow> bool \<Rightarrow> ('f, 'a) threadpool_t option \<Rightarrow> 'f option \<Rightarrow> 'a
     \<Rightarrow> (add_result \<times> ('f, 'a) threadpool_t option) cres" where
  "threadpool_add lock_ok signal_ok unlock_ok pool fn arg =
     (case pool of None \<Rightarrow>
        Inr (\<lparr>ar_err = threadpool_invalid, ar_signalled = False, ar_held = False\<rparr>, pool)
      | Some p \<Rightarrow> (case fn of None \<Rightarrow>
        Inr (\<lparr>ar_err = threadpool_invalid, ar_signalled = False, ar_held = False\<rparr>, pool)
      | Some f \<Rightarrow>
        if \<not> lock_ok then
          Inr (\<lparr>ar_err = threadpool_lock_failure, ar_signalled = False, ar_held = False\<rparr>, pool)
        else cbind (add_section signal_ok \<lparr>tt_function = f, tt_argument = arg\<rparr> p)
          (\<lambda>(err, p', signalled).
            Inr (\<lparr>ar_err = (if unlock_ok then err else threadpool_lock_failure),
                  ar_signalled = signalled, ar_held = \<not> unlock_ok\<rparr>, Some p'))))"

section \<open>The worker\<close>

text \<open>The three ways out of the worker's critical section, and taking a task off the queue.\<close>

definition must_wait :: "('f, 'a) threadpool_t \<Rightarrow> bool" where
  "must_wait pool \<longleftrightarrow> tp_count pool = 0 \<and> tp_shutdown pool = 0"

definition must_exit :: "('f, 'a) threadpool_t \<Rightarrow> bool" where
  "must_exit pool \<longleftrightarrow> tp_shutdown pool = immediate_shutdown \<or>
     (tp_shutdown pool = graceful_shutdown \<and> tp_count pool = 0)"

definition grab_task ::
    "('f, 'a) threadpool_t \<Rightarrow> (('f, 'a) threadpool_task_t \<times> ('f, 'a) threadpool_t) cres" where
  "grab_task pool =
     cbind (aget (tp_queue pool) (tp_head pool)) (\<lambda>c. case c of None \<Rightarrow> Inl Uninit_Read
     | Some task \<Rightarrow>
       let head = tp_head pool + 1;
           head = (if head = tp_queue_size pool then 0 else head)
       in Inr (task, pool\<lparr>tp_head := head, tp_count := tp_count pool - 1\<rparr>))"

definition worker_exit :: "('f, 'a) threadpool_t \<Rightarrow> ('f, 'a) threadpool_t" where
  "worker_exit pool = pool\<lparr>tp_started := tp_started pool - 1\<rparr>"

section \<open>Destroying the pool\<close>

text \<open>
  The locked part of \<open>threadpool_destroy\<close>: the error code so far, the pool, whether the
  workers were woken, and whether the mutex is still held. Both error exits leave the
  \<open>do\<close> block with the mutex locked.
\<close>

record destroy_result =
  dr_err :: int
  dr_woken :: bool
  dr_held :: bool

definition destroy_section ::
    "bool \<Rightarrow> bool \<Rightarrow> u32 \<Rightarrow> ('f, 'a) threadpool_t \<Rightarrow> destroy_result \<times> ('f, 'a) threadpool_t" where
  "destroy_section broadcast_ok unlock_ok flags pool =
     (if tp_shutdown pool \<noteq> 0 then
        (\<lparr>dr_err = threadpool_shutdown, dr_woken = False, dr_held = True\<rparr>, pool)
      else
        (let pool' = pool\<lparr>tp_shutdown := (if and flags threadpool_graceful \<noteq> 0
                            then graceful_shutdown else immediate_shutdown)\<rparr>
         in if \<not> broadcast_ok then
              (\<lparr>dr_err = threadpool_lock_failure, dr_woken = False, dr_held = True\<rparr>, pool')
            else if \<not> unlock_ok then
              (\<lparr>dr_err = threadpool_lock_failure, dr_woken = True, dr_held = True\<rparr>, pool')
            else (\<lparr>dr_err = 0, dr_woken = True, dr_held = False\<rparr>, pool')))"

section \<open>The task queue\<close>

definition pending :: "('f, 'a) threadpool_t \<Rightarrow> ('f, 'a) threadpool_task_t list" where
  "pending pool = map the (ring (tp_queue pool) (nat (tp_head pool)) (nat (tp_count pool)))"

definition pool_ok :: "('f, 'a) threadpool_t \<Rightarrow> bool" where
  "pool_ok pool \<longleftrightarrow> 0 < tp_queue_size pool \<and> int (length (tp_queue pool)) = tp_queue_size pool \<and>
     0 \<le> tp_head pool \<and> tp_head pool < tp_queue_size pool \<and>
     0 \<le> tp_count pool \<and> tp_count pool \<le> tp_queue_size pool \<and>
     tp_tail pool = (tp_head pool + tp_count pool) mod tp_queue_size pool \<and>
     None \<notin> set (ring (tp_queue pool) (nat (tp_head pool)) (nat (tp_count pool)))"

lemma pool_okE:
  assumes "pool_ok p"
  obtains h c where "h < length (tp_queue p)" "c \<le> length (tp_queue p)"
    "tp_queue_size p = int (length (tp_queue p))" "tp_head p = int h" "tp_count p = int c"
    "tp_tail p = int ((h + c) mod length (tp_queue p))" "None \<notin> set (ring (tp_queue p) h c)"
    "pending p = map the (ring (tp_queue p) h c)"
proof -
  let ?h = "nat (tp_head p)" and ?c = "nat (tp_count p)"
  have "tp_tail p = int ((?h + ?c) mod length (tp_queue p))"
    using assms by (simp add: pool_ok_def zmod_int)
  with assms that [of ?h ?c] show thesis
    by (auto simp: pool_ok_def pending_def)
qed

lemma pool_okI:
  assumes "h < length (tp_queue p)" "c \<le> length (tp_queue p)"
    "tp_queue_size p = int (length (tp_queue p))" "tp_head p = int h" "tp_count p = int c"
    "tp_tail p = int ((h + c) mod length (tp_queue p))" "None \<notin> set (ring (tp_queue p) h c)"
  shows "pool_ok p" "pending p = map the (ring (tp_queue p) h c)"
  using assms by (auto simp: pool_ok_def pending_def zmod_int)

lemma length_pending: "pool_ok p \<Longrightarrow> int (length (pending p)) = tp_count p"
  by (simp add: pool_ok_def pending_def)

lemma wrap_int: "i < n \<Longrightarrow> (if int i + 1 = int n then 0 else int i + 1) = int (Suc i mod n)"
  by (cases "Suc i = n") auto

lemma add_section_ok:
  assumes ok: "pool_ok p" and room: "tp_count p \<noteq> tp_queue_size p" and up: "tp_shutdown p = 0"
  shows "\<exists>p'. (\<forall>s. add_section s t p = Inr (if s then 0 else threadpool_lock_failure, p', s)) \<and>
           pool_ok p' \<and> pending p' = pending p @ [t] \<and> tp_count p' = tp_count p + 1 \<and>
           tp_shutdown p' = 0 \<and> tp_queue_size p' = tp_queue_size p \<and>
           tp_started p' = tp_started p \<and> tp_thread_count p' = tp_thread_count p"
proof -
  let ?n = "length (tp_queue p)"
  from ok obtain h c where v: "h < ?n" "c \<le> ?n"
    "tp_queue_size p = int ?n" "tp_head p = int h" "tp_count p = int c"
    "tp_tail p = int ((h + c) mod ?n)" "None \<notin> set (ring (tp_queue p) h c)"
    "pending p = map the (ring (tp_queue p) h c)" by (rule pool_okE)
  let ?t = "(h + c) mod ?n"
  have c: "c < ?n" using room v by simp
  have t: "?t < ?n" using v(1) by (intro mod_less_divisor) linarith
  let ?p = "p\<lparr>tp_queue := (tp_queue p)[?t := Some t], tp_tail := int (Suc ?t mod ?n),
      tp_count := tp_count p + 1\<rparr>"
  have run: "add_section s t p = Inr (if s then 0 else threadpool_lock_failure, ?p, s)" for s
  proof -
    have "(if tp_tail p + 1 = tp_queue_size p then 0 else tp_tail p + 1) = int (Suc ?t mod ?n)"
      using wrap_int [OF t] by (simp only: v(3,6))
    moreover have "aset (tp_queue p) (tp_tail p) (Some t) = Inr ((tp_queue p)[?t := Some t])"
      using t by (simp add: aset_ok v(6))
    ultimately show ?thesis using room up by (simp add: add_section_def Let_def)
  qed
  have push: "ring ((tp_queue p)[?t := Some t]) h (Suc c) = ring (tp_queue p) h c @ [Some t]"
    by (rule ring_push [OF v(1) c])
  have "Suc ?t mod ?n = (h + Suc c) mod ?n" by (simp add: mod_Suc_eq)
  then have "pool_ok ?p" "pending ?p = pending p @ [t]"
    using pool_okI [of h ?p "Suc c"] v c push by simp_all
  with run up show ?thesis by (intro exI [of _ ?p]) auto
qed

lemma add_section_full:
  "tp_count p = tp_queue_size p \<Longrightarrow> add_section s t p = Inr (threadpool_queue_full, p, False)"
  by (simp add: add_section_def Let_def)

lemma add_section_down:
  "tp_count p \<noteq> tp_queue_size p \<Longrightarrow> tp_shutdown p \<noteq> 0 \<Longrightarrow>
   add_section s t p = Inr (threadpool_shutdown, p, False)"
  by (simp add: add_section_def Let_def)

lemma grab_task_ok:
  assumes ok: "pool_ok p" and some: "tp_count p \<noteq> 0"
  shows "\<exists>t p'. grab_task p = Inr (t, p') \<and> pool_ok p' \<and> pending p = t # pending p' \<and>
           tp_count p' = tp_count p - 1 \<and> tp_shutdown p' = tp_shutdown p \<and>
           tp_queue_size p' = tp_queue_size p \<and> tp_started p' = tp_started p \<and>
           tp_thread_count p' = tp_thread_count p"
proof -
  let ?n = "length (tp_queue p)"
  from ok obtain h c where v: "h < ?n" "c \<le> ?n"
    "tp_queue_size p = int ?n" "tp_head p = int h" "tp_count p = int c"
    "tp_tail p = int ((h + c) mod ?n)" "None \<notin> set (ring (tp_queue p) h c)"
    "pending p = map the (ring (tp_queue p) h c)" by (rule pool_okE)
  obtain d where d: "c = Suc d" using some v(5) by (cases c) auto
  let ?h = "Suc h mod ?n"
  note pop = ring_pop [OF v(1), of d]
  obtain t where t: "tp_queue p ! h = Some t" "None \<notin> set (ring (tp_queue p) ?h d)"
    using v(7) by (cases "tp_queue p ! h") (auto simp: d pop)
  let ?p = "p\<lparr>tp_head := int ?h, tp_count := int d\<rparr>"
  have wrap: "(if tp_head p + 1 = tp_queue_size p then 0 else tp_head p + 1) = int ?h"
    using wrap_int [OF v(1)] by (simp only: v(3,4))
  have "aget (tp_queue p) (tp_head p) = Inr (Some t)"
    using v(1) by (simp add: aget_ok v(4) t(1))
  moreover have "tp_count p - 1 = int d" using d v(5) by simp
  ultimately have run: "grab_task p = Inr (t, ?p)"
    unfolding grab_task_def Let_def wrap by simp
  have "(h + c) mod ?n = (?h + d) mod ?n" by (simp add: d mod_add_left_eq)
  moreover have "?h < ?n" using v(1) by (intro mod_less_divisor) linarith
  ultimately have "pool_ok ?p" "pending ?p = map the (ring (tp_queue p) ?h d)"
    using pool_okI [of ?h ?p d] v t d by simp_all
  moreover have "pending p = t # map the (ring (tp_queue p) ?h d)"
    by (simp add: v(8) d pop t)
  ultimately show ?thesis using run d v(5) by auto
qed

section \<open>The contract holds\<close>

text \<open>
  The task queue as its two clients use it: \<open>threadpool_add\<close> with calls into pthreads that
  succeed, and a worker that looks at the queue under the lock and takes a task if it may.
\<close>

definition pool_enq ::
    "('f, 'a) threadpool_t \<Rightarrow> ('f, 'a) threadpool_task_t \<Rightarrow> (('f, 'a) threadpool_t \<times> bool) cres" where
  "pool_enq p t = cbind (add_section True t p) (\<lambda>(err, p', signalled). Inr (p', err = 0))"

definition pool_deq ::
    "('f, 'a) threadpool_t
     \<Rightarrow> (('f, 'a) threadpool_t \<times> ('f, 'a) threadpool_task_t option) cres" where
  "pool_deq p = (if must_wait p \<or> must_exit p then Inr (p, None)
     else cbind (grab_task p) (\<lambda>(t, p'). Inr (p', Some t)))"

definition pool_open :: "('f, 'a) threadpool_t \<Rightarrow> bool" where
  "pool_open p \<longleftrightarrow> pool_ok p \<and> tp_shutdown p = 0"

definition pool_capacity :: "('f, 'a) threadpool_t \<Rightarrow> nat" where
  "pool_capacity p = nat (tp_queue_size p)"

lemma pool_full_iff:
  "pool_ok p \<Longrightarrow> length (pending p) < pool_capacity p \<longleftrightarrow> tp_count p \<noteq> tp_queue_size p"
  using length_pending [of p] by (auto simp: pool_ok_def pool_capacity_def)

lemma pool_enq_room:
  assumes "pool_open p" "tp_count p \<noteq> tp_queue_size p"
  shows "\<exists>p'. pool_enq p t = Inr (p', True) \<and> pool_open p' \<and> pending p' = pending p @ [t] \<and>
           pool_capacity p' = pool_capacity p"
  using add_section_ok [of p t] assms
  by (fastforce simp: pool_open_def pool_enq_def pool_capacity_def)

lemma pool_enq_full: "tp_count p = tp_queue_size p \<Longrightarrow> pool_enq p t = Inr (p, False)"
  by (simp add: pool_enq_def add_section_full threadpool_codes)

lemma pending_Nil_iff: "pool_ok p \<Longrightarrow> pending p = [] \<longleftrightarrow> tp_count p = 0"
  by (metis length_pending length_0_conv of_nat_0_eq_iff)

lemma pool_deq_empty: "pool_open p \<Longrightarrow> pending p = [] \<Longrightarrow> pool_deq p = Inr (p, None)"
  by (simp add: pool_deq_def must_wait_def pool_open_def pending_Nil_iff)

lemma pool_deq_item:
  assumes "pool_open p" "pending p = t # ts"
  shows "\<exists>p'. pool_deq p = Inr (p', Some t) \<and> pool_open p' \<and> pending p' = ts"
proof -
  from assms have ok: "pool_ok p" "tp_shutdown p = 0" "tp_count p \<noteq> 0"
    using pending_Nil_iff [of p] by (auto simp: pool_open_def)
  from grab_task_ok [OF ok(1,3)] assms(2) ok show ?thesis
    by (auto simp: pool_deq_def must_wait_def must_exit_def pool_open_def threadpool_codes)
qed

interpretation tq: bounded_fifo
  "pool_enq :: ('f, 'a) threadpool_t \<Rightarrow> ('f, 'a) threadpool_task_t \<Rightarrow> _"
  pool_deq pending pool_open pool_capacity
proof unfold_locales
  fix p :: "('f, 'a) threadpool_t" and t
  assume v: "pool_open p"
  then have ok: "pool_ok p" by (simp add: pool_open_def)
  show "\<exists>p' ok. pool_enq p t = Inr (p', ok) \<and> pool_open p' \<and>
      pending p' = (if ok then pending p @ [t] else pending p)"
    using pool_enq_room [OF v, of t] pool_enq_full [of p t] v
    by (cases "tp_count p = tp_queue_size p") auto
  show "\<exists>p'. pool_open p' \<and> (case pending p of
        [] \<Rightarrow> pool_deq p = Inr (p', None) \<and> pending p' = []
      | x # xs \<Rightarrow> pool_deq p = Inr (p', Some x) \<and> pending p' = xs)"
    using pool_deq_empty [OF v] pool_deq_item [OF v] v by (cases "pending p") auto
  show "length (pending p) \<le> pool_capacity p"
    using length_pending [OF ok] ok by (auto simp: pool_ok_def pool_capacity_def)
next
  fix p :: "('f, 'a) threadpool_t" and t p' ok
  assume v: "pool_open p" and e: "pool_enq p t = Inr (p', ok)"
  then show "ok = (length (pending p) < pool_capacity p) \<and> pool_capacity p' = pool_capacity p"
    using pool_enq_room [OF v, of t] pool_enq_full [of p t] pool_full_iff [of p]
    by (cases "tp_count p = tp_queue_size p") (auto simp: pool_open_def)
qed

section \<open>Properties\<close>

lemma create_start_open:
  assumes "threadpool_create env n qsize = Inr (Create_Start p)"
  shows "pool_open p \<and> pending p = [] \<and> pool_capacity p = nat qsize \<and> 0 < qsize \<and>
     tp_started p = 0 \<and> tp_thread_count p = 0 \<and> 0 < n \<and> n \<le> MAX_THREADS"
proof -
  from assms have sz: "0 < qsize" "0 < n" "n \<le> MAX_THREADS" and p: "p = \<lparr>tp_queue = replicate (nat qsize) None,
      tp_thread_count = 0, tp_queue_size = qsize, tp_head = 0, tp_tail = 0, tp_count = 0,
      tp_shutdown = 0, tp_started = 0\<rparr>"
    by (auto simp: threadpool_create_def split: if_splits option.splits)
  then show ?thesis
    using pool_okI [of 0 p 0] by (simp add: pool_open_def pool_capacity_def)
qed

text \<open>
  C6. Tasks leave the pool's queue in the order they entered it: on a pool that
  \<open>threadpool_create\<close> has set up, no sequence of \<open>threadpool_add\<close> critical sections and
  worker looks at the queue faults, the tasks handed to workers followed by those still pending
  are exactly the tasks accepted, and an uninterrupted run of adds accepts \<open>queue_size\<close> of them.
\<close>
theorem pool_queue_fifo:
  assumes "threadpool_create env n qsize = Inr (Create_Start p)"
  shows "(\<exists>p' acc out. queue_run pool_enq pool_deq p ops = Inr (p', acc, out) \<and>
           acc = out @ pending p') \<and>
         (\<exists>p'. queue_run pool_enq pool_deq p (map Put ts) = Inr (p', take (nat qsize) ts, []))"
  using tq.run_fifo [of p ops] tq.fill [of p ts] create_start_open [OF assms] by (intro conjI) force+

definition all_ok :: create_env where
  "all_ok = \<lparr>ce_pool = True, ce_threads = True, ce_queue = True, ce_mutex = True, ce_cond = True\<rparr>"

definition fresh_pool :: "int \<Rightarrow> ('f, 'a) threadpool_t" where
  "fresh_pool qsize = \<lparr>tp_queue = replicate (nat qsize) None, tp_thread_count = 0,
     tp_queue_size = qsize, tp_head = 0, tp_tail = 0, tp_count = 0, tp_shutdown = 0, tp_started = 0\<rparr>"

lemma create_all_ok:
  "0 < n \<Longrightarrow> n \<le> 64 \<Longrightarrow> 0 < qsize \<Longrightarrow> qsize \<le> 65536 \<Longrightarrow>
   threadpool_create all_ok n qsize = Inr (Create_Start (fresh_pool qsize))"
  by (simp add: threadpool_create_def all_ok_def fresh_pool_def MAX_THREADS_def MAX_QUEUE_def)

theorem pool_queue_fifo_witness:
  "\<exists>p'. queue_run pool_enq pool_deq (fresh_pool 2 :: (nat, nat) threadpool_t)
      (map Put [\<lparr>tt_function = 1, tt_argument = 7\<rparr>, \<lparr>tt_function = 1, tt_argument = 8\<rparr>,
         \<lparr>tt_function = 1, tt_argument = 9\<rparr>])
    = Inr (p', [\<lparr>tt_function = 1, tt_argument = 7\<rparr>, \<lparr>tt_function = 1, tt_argument = 8\<rparr>], [])"
  using pool_queue_fifo [where p = "fresh_pool 2 :: (nat, nat) threadpool_t",
      OF create_all_ok [of 4 2], of _ "[\<lparr>tt_function = 1, tt_argument = 7\<rparr>, \<lparr>tt_function = 1, tt_argument = 8\<rparr>,
         \<lparr>tt_function = 1, tt_argument = 9\<rparr>]"]
  by (simp add: numeral_2_eq_2 del: queue_run.simps)

text \<open>
  What \<open>threadpool_add\<close> returns. A NULL pool or function is refused with
  \<open>threadpool_invalid\<close>, a lock that cannot be taken with \<open>threadpool_lock_failure\<close>, both with
  the pool untouched; a full queue is reported before a shutdown is; a call whose signal fails
  reports \<open>threadpool_lock_failure\<close> although its task stays in the queue; and a pool that is
  not full and not shutting down takes the task at its end.
\<close>
theorem threadpool_add_codes:
  assumes "pool_ok p"
  shows "threadpool_add l s u None fn a
           = Inr (\<lparr>ar_err = -1, ar_signalled = False, ar_held = False\<rparr>, None) \<and>
         threadpool_add l s u (Some p) None a
           = Inr (\<lparr>ar_err = -1, ar_signalled = False, ar_held = False\<rparr>, Some p) \<and>
         threadpool_add False s u (Some p) (Some f) a
           = Inr (\<lparr>ar_err = -2, ar_signalled = False, ar_held = False\<rparr>, Some p) \<and>
         (\<exists>r p'. threadpool_add True s True (Some p) (Some f) a = Inr (r, Some p') \<and>
           \<not> ar_held r \<and> pool_ok p' \<and> (ar_signalled r \<longleftrightarrow> ar_err r = 0) \<and>
           ar_err r = (if tp_count p = tp_queue_size p then -3 else if tp_shutdown p \<noteq> 0 then -4
                       else if s then 0 else -2) \<and>
           pending p' = (if tp_count p = tp_queue_size p \<or> tp_shutdown p \<noteq> 0 then pending p
                         else pending p @ [\<lparr>tt_function = f, tt_argument = a\<rparr>]))"
proof -
  let ?t = "\<lparr>tt_function = f, tt_argument = a\<rparr>"
  consider (Full) "tp_count p = tp_queue_size p"
    | (Down) "tp_count p \<noteq> tp_queue_size p" "tp_shutdown p \<noteq> 0"
    | (Room) "tp_count p \<noteq> tp_queue_size p" "tp_shutdown p = 0" by blast
  then show ?thesis
  proof cases
    case Room
    from add_section_ok [OF assms Room, of ?t] obtain p' where
      a: "\<And>s. add_section s ?t p = Inr (if s then 0 else threadpool_lock_failure, p', s)"
        "pool_ok p'" "pending p' = pending p @ [?t]" by blast
    with Room show ?thesis
      by (simp add: threadpool_add_def threadpool_codes split: option.splits)
  qed (use assms in \<open>simp_all add: threadpool_add_def threadpool_codes add_section_full
      add_section_down split: option.splits\<close>)
qed

theorem threadpool_add_codes_witness:
  "\<exists>r p'. threadpool_add True True True (Some (fresh_pool 2)) (Some (1::nat)) (7::nat)
      = Inr (r, Some p') \<and> ar_err r = 0 \<and> pending p' = [\<lparr>tt_function = 1, tt_argument = 7\<rparr>]"
proof -
  have "pool_open (fresh_pool 2 :: (nat, nat) threadpool_t) \<and>
      pending (fresh_pool 2 :: (nat, nat) threadpool_t) = []"
    using create_start_open [where p = "fresh_pool 2 :: (nat, nat) threadpool_t",
      OF create_all_ok [of 4 2]] by simp
  with threadpool_add_codes [of "fresh_pool 2" True True True None 7 1] show ?thesis
    by (fastforce simp: pool_open_def fresh_pool_def)
qed

text \<open>
  Failed creation. When an allocation or an initialisation fails, \<open>threadpool_create\<close>
  returns NULL, except that it faults when the threads array was allocated but the mutex or the
  condition variable could not be initialised: \<open>threadpool_free\<close> then locks and destroys them
  (its comment claims the array is allocated after they are initialised). When only the threads
  array is missing, the task array that was allocated is never freed.
\<close>
theorem threadpool_create_failure:
  assumes "0 < n" "n \<le> 64" "0 < qsize" "qsize \<le> 65536" "ce_pool env"
    and "\<not> (ce_mutex env \<and> ce_cond env \<and> ce_threads env \<and> ce_queue env)"
  shows "threadpool_create env n qsize =
    (if ce_threads env \<and> \<not> (ce_mutex env \<and> ce_cond env) then Inl Uninit_Read
     else Inr (Create_Null (if \<not> ce_threads env \<and> ce_queue env then [Queue_Block] else [])))"
  using assms by (auto simp: threadpool_create_def threadpool_free_def MAX_THREADS_def MAX_QUEUE_def)

theorem threadpool_create_failure_witness:
  "threadpool_create (all_ok\<lparr>ce_cond := False\<rparr>) 4 2
     = (Inl Uninit_Read :: (nat, nat) create_outcome cres) \<and>
   threadpool_create (all_ok\<lparr>ce_threads := False\<rparr>) 4 2 = Inr (Create_Null [Queue_Block] :: (nat, nat) create_outcome)"
  using threadpool_create_failure [of 4 2 "all_ok\<lparr>ce_cond := False\<rparr>"]
    threadpool_create_failure [of 4 2 "all_ok\<lparr>ce_threads := False\<rparr>"] by (simp_all add: all_ok_def)

end
