(* ===== verification/ThreadPoolConc.thy ===== *)
theory ThreadPoolConc
  imports ThreadPool
begin

text \<open>
  The threads of \<open>threadpool.c\<close> interleaved: the thread that calls \<open>threadpool_create\<close> and
  later \<open>threadpool_destroy\<close>, the workers running \<open>threadpool_thread\<close>, and callers of
  \<open>threadpool_add\<close>. A state holds the pool, the owner of its mutex, and where every thread
  stands; an event is one step of one thread between two synchronisation points. Code that runs
  with the mutex held is one event, since every other access to the same fields waits for the
  mutex. Three ghost lists record the tasks accepted, taken off the queue, and finished.

  What is assumed of pthreads: a mutex has one owner, \<open>pthread_cond_signal\<close> wakes a waiting
  thread if there is one, \<open>pthread_cond_broadcast\<close> wakes all, a wait may return without cause,
  and a \<open>pthread_join\<close> that returns 0 returns after the thread has ended. The lock, signal and
  unlock of \<open>threadpool_add\<close> succeed, as they do on an initialised mutex and condition variable
  (what the function does when they fail is in \<open>threadpool_add\<close> of the theory ThreadPool); those of
  \<open>threadpool_destroy\<close> may fail. Clients call
  \<open>threadpool_add\<close> only after \<open>threadpool_create\<close> returned and before
  \<open>threadpool_destroy\<close> did.
\<close>

section \<open>States\<close>

datatype owner = By_Worker nat | By_Caller

datatype ('f, 'a) wpc =
    W_Start                                 \<comment> \<open>about to lock at the top of its loop\<close>
  | W_Check                                 \<comment> \<open>holds the mutex\<close>
  | W_Wait                                  \<comment> \<open>inside \<open>pthread_cond_wait\<close>\<close>
  | W_Woken                                 \<comment> \<open>woken, about to take the mutex again\<close>
  | W_Run "('f, 'a) threadpool_task_t"      \<comment> \<open>runs a task, without the mutex\<close>
  | W_Exit

datatype mpc =
    M_Create nat          \<comment> \<open>so many threads still to start\<close>
  | M_Count nat           \<comment> \<open>a thread was started and is not counted yet\<close>
  | M_Abort               \<comment> \<open>a thread could not be started: calls \<open>threadpool_destroy(pool, 0)\<close>\<close>
  | M_Ready               \<comment> \<open>\<open>threadpool_create\<close> has returned the pool\<close>
  | M_Join nat bool       \<comment> \<open>in the joining loop of \<open>threadpool_destroy\<close>: index, error so far\<close>
  | M_Done                \<comment> \<open>\<open>threadpool_destroy\<close> has returned\<close>

record ('f, 'a) psys =
  sy_pool :: "('f, 'a) threadpool_t"
  sy_lock :: "owner option"
  sy_workers :: "('f, 'a) wpc list"
  sy_main :: mpc
  sy_freed :: bool
  sy_accepted :: "('f, 'a) threadpool_task_t list"
  sy_grabbed :: "('f, 'a) threadpool_task_t list"
  sy_finished :: "('f, 'a) threadpool_task_t list"

definition start_sys :: "nat \<Rightarrow> ('f, 'a) threadpool_t \<Rightarrow> ('f, 'a) psys" where
  "start_sys n p = \<lparr>sy_pool = p, sy_lock = None, sy_workers = [], sy_main = M_Create n,
     sy_freed = False, sy_accepted = [], sy_grabbed = [], sy_finished = []\<rparr>"

section \<open>Events\<close>

datatype ('f, 'a) event =
    Ev_Lock nat | Ev_Check nat | Ev_Done nat | Ev_Spurious nat
  | Ev_Add 'f 'a "nat option"
  | Ev_Create bool | Ev_Count
  | Ev_Destroy u32 bool bool
  | Ev_Destroy_Again u32
  | Ev_Join bool | Ev_Free

text \<open>
  Each event maps a state to \<open>None\<close> when the thread cannot take the step now, and otherwise to
  the state after it or a fault.
\<close>

definition set_worker :: "nat \<Rightarrow> ('f, 'a) wpc \<Rightarrow> ('f, 'a) psys \<Rightarrow> ('f, 'a) psys" where
  "set_worker i w s = s\<lparr>sy_workers := (sy_workers s)[i := w]\<rparr>"

definition worker_at :: "('f, 'a) psys \<Rightarrow> nat \<Rightarrow> ('f, 'a) wpc option" where
  "worker_at s i = (if i < length (sy_workers s) then Some (sy_workers s ! i) else None)"

definition joining :: "mpc \<Rightarrow> bool" where
  "joining m = (case m of M_Join i err \<Rightarrow> True | _ \<Rightarrow> False)"

text \<open>Taking the mutex, at the top of the loop or inside \<open>pthread_cond_wait\<close>.\<close>

definition ev_lock :: "nat \<Rightarrow> ('f, 'a) psys \<Rightarrow> ('f, 'a) psys cres option" where
  "ev_lock i s =
     (if worker_at s i \<in> {Some W_Start, Some W_Woken} then
        (if sy_freed s then Some (Inl Use_After_Free)
         else if sy_lock s = None
              then Some (Inr (set_worker i W_Check (s\<lparr>sy_lock := Some (By_Worker i)\<rparr>)))
              else None)
      else None)"

text \<open>From the while condition to the wait, to the end of the thread, or to the unlock.\<close>

definition ev_check :: "nat \<Rightarrow> ('f, 'a) psys \<Rightarrow> ('f, 'a) psys cres option" where
  "ev_check i s =
     (if worker_at s i = Some W_Check then
        (if sy_freed s then Some (Inl Use_After_Free)
         else if must_wait (sy_pool s) then Some (Inr (set_worker i W_Wait (s\<lparr>sy_lock := None\<rparr>)))
         else if must_exit (sy_pool s)
              then Some (Inr (set_worker i W_Exit
                     (s\<lparr>sy_lock := None, sy_pool := worker_exit (sy_pool s)\<rparr>)))
         else Some (cbind (grab_task (sy_pool s)) (\<lambda>(task, p).
                Inr (set_worker i (W_Run task) (s\<lparr>sy_lock := None, sy_pool := p,
                       sy_grabbed := sy_grabbed s @ [task]\<rparr>)))))
      else None)"

definition ev_done :: "nat \<Rightarrow> ('f, 'a) psys \<Rightarrow> ('f, 'a) psys cres option" where
  "ev_done i s = (case worker_at s i of
       Some (W_Run task) \<Rightarrow>
         Some (Inr (set_worker i W_Start (s\<lparr>sy_finished := sy_finished s @ [task]\<rparr>)))
     | _ \<Rightarrow> None)"

definition ev_spurious :: "nat \<Rightarrow> ('f, 'a) psys \<Rightarrow> ('f, 'a) psys cres option" where
  "ev_spurious i s = (if worker_at s i = Some W_Wait then Some (Inr (set_worker i W_Woken s)) else None)"

text \<open>A call of \<open>threadpool_add\<close>; the last argument is the waiting thread the signal wakes.\<close>

definition ev_add :: "'f \<Rightarrow> 'a \<Rightarrow> nat option \<Rightarrow> ('f, 'a) psys \<Rightarrow> ('f, 'a) psys cres option" where
  "ev_add f a wake s =
     (if (sy_main s = M_Ready \<or> joining (sy_main s)) \<and> sy_lock s = None then
        (case threadpool_add True True True (Some (sy_pool s)) (Some f) a of
           Inl e \<Rightarrow> Some (Inl e)
         | Inr (r, p) \<Rightarrow>
             let s' = s\<lparr>sy_pool := (case p of None \<Rightarrow> sy_pool s | Some p' \<Rightarrow> p'),
                   sy_accepted := (if ar_err r = 0
                     then sy_accepted s @ [\<lparr>tt_function = f, tt_argument = a\<rparr>] else sy_accepted s)\<rparr>
             in case wake of
                  None \<Rightarrow> (if ar_signalled r \<and> W_Wait \<in> set (sy_workers s) then None else Some (Inr s'))
                | Some i \<Rightarrow> (if ar_signalled r \<and> worker_at s i = Some W_Wait
                            then Some (Inr (set_worker i W_Woken s')) else None))
      else None)"

text \<open>\<open>pthread_create\<close> in the loop of \<open>threadpool_create\<close>, and the two increments after it.\<close>

definition ev_create :: "bool \<Rightarrow> ('f, 'a) psys \<Rightarrow> ('f, 'a) psys cres option" where
  "ev_create ok s = (case sy_main s of
       M_Create (Suc k) \<Rightarrow>
         Some (Inr (if ok then s\<lparr>sy_workers := sy_workers s @ [W_Start], sy_main := M_Count k\<rparr>
                    else s\<lparr>sy_main := M_Abort\<rparr>))
     | _ \<Rightarrow> None)"

definition ev_count :: "('f, 'a) psys \<Rightarrow> ('f, 'a) psys cres option" where
  "ev_count s = (case sy_main s of
       M_Count k \<Rightarrow> Some (Inr (s\<lparr>
         sy_pool := (sy_pool s)\<lparr>tp_thread_count := tp_thread_count (sy_pool s) + 1,
                                tp_started := tp_started (sy_pool s) + 1\<rparr>,
         sy_main := (if k = 0 then M_Ready else M_Create k)\<rparr>))
     | _ \<Rightarrow> None)"

text \<open>
  \<open>threadpool_destroy\<close>: the locked part, then the joins, then \<open>threadpool_free\<close>, which takes
  the mutex once more. \<open>ev_destroy_again\<close> is a second call while the first one is joining.
\<close>

definition wake_all :: "('f, 'a) wpc list \<Rightarrow> ('f, 'a) wpc list" where
  "wake_all ws = map (\<lambda>w. if w = W_Wait then W_Woken else w) ws"

definition ev_destroy :: "u32 \<Rightarrow> bool \<Rightarrow> bool \<Rightarrow> ('f, 'a) psys \<Rightarrow> ('f, 'a) psys cres option" where
  "ev_destroy flags broadcast_ok unlock_ok s =
     (if (sy_main s = M_Ready \<or> sy_main s = M_Abort \<and> flags = 0) \<and> sy_lock s = None then
        (let (r, p) = destroy_section broadcast_ok unlock_ok flags (sy_pool s)
         in Some (Inr (s\<lparr>sy_pool := p,
              sy_workers := (if dr_woken r then wake_all (sy_workers s) else sy_workers s),
              sy_lock := (if dr_held r then Some By_Caller else None),
              sy_main := (if dr_err r = 0 then M_Join 0 False else M_Done)\<rparr>)))
      else None)"

definition ev_destroy_again :: "u32 \<Rightarrow> ('f, 'a) psys \<Rightarrow> ('f, 'a) psys cres option" where
  "ev_destroy_again flags s =
     (if joining (sy_main s) \<and> sy_lock s = None then
        (let (r, p) = destroy_section True True flags (sy_pool s)
         in Some (Inr (s\<lparr>sy_pool := p,
              sy_workers := (if dr_woken r then wake_all (sy_workers s) else sy_workers s),
              sy_lock := (if dr_held r then Some By_Caller else None)\<rparr>)))
      else None)"

definition ev_join :: "bool \<Rightarrow> ('f, 'a) psys \<Rightarrow> ('f, 'a) psys cres option" where
  "ev_join ok s = (case sy_main s of
       M_Join i err \<Rightarrow>
         (if int i < tp_thread_count (sy_pool s) then
            (if \<not> ok then Some (Inr (s\<lparr>sy_main := M_Join (Suc i) True\<rparr>))
             else if worker_at s i = Some W_Exit then Some (Inr (s\<lparr>sy_main := M_Join (Suc i) err\<rparr>))
             else None)
          else None)
     | _ \<Rightarrow> None)"

definition ev_free :: "('f, 'a) psys \<Rightarrow> ('f, 'a) psys cres option" where
  "ev_free s = (case sy_main s of
       M_Join i err \<Rightarrow>
         (if int i < tp_thread_count (sy_pool s) then None
          else if err then Some (Inr (s\<lparr>sy_main := M_Done\<rparr>))
          else (case threadpool_free (tp_started (sy_pool s)) all_ok of
              Inl e \<Rightarrow> Some (Inl e)
            | Inr None \<Rightarrow> Some (Inr (s\<lparr>sy_main := M_Done\<rparr>))
            | Inr (Some leaked) \<Rightarrow>
                (if sy_lock s = None then Some (Inr (s\<lparr>sy_main := M_Done, sy_freed := True\<rparr>))
                 else None)))
     | _ \<Rightarrow> None)"

fun pool_exec :: "('f, 'a) event \<Rightarrow> ('f, 'a) psys \<Rightarrow> ('f, 'a) psys cres option" where
  "pool_exec (Ev_Lock i) s = ev_lock i s"
| "pool_exec (Ev_Check i) s = ev_check i s"
| "pool_exec (Ev_Done i) s = ev_done i s"
| "pool_exec (Ev_Spurious i) s = ev_spurious i s"
| "pool_exec (Ev_Add f a wake) s = ev_add f a wake s"
| "pool_exec (Ev_Create ok) s = ev_create ok s"
| "pool_exec Ev_Count s = ev_count s"
| "pool_exec (Ev_Destroy flags b u) s = ev_destroy flags b u s"
| "pool_exec (Ev_Destroy_Again flags) s = ev_destroy_again flags s"
| "pool_exec (Ev_Join ok) s = ev_join ok s"
| "pool_exec Ev_Free s = ev_free s"

text \<open>The states a pool of \<open>n\<close> threads and \<open>size\<close> task slots can reach.\<close>

inductive pool_step :: "('f, 'a) psys \<Rightarrow> ('f, 'a) event \<Rightarrow> ('f, 'a) psys \<Rightarrow> bool" where
  exec: "pool_exec e s = Some (Inr s') \<Longrightarrow> pool_step s e s'"

inductive_simps pool_step_iff: "pool_step s e s'"

inductive pool_reach :: "nat \<Rightarrow> int \<Rightarrow> ('f, 'a) psys \<Rightarrow> bool" for n :: nat and qsize :: int where
  start: "threadpool_create env (int n) qsize = Inr (Create_Start p) \<Longrightarrow>
    pool_reach n qsize (start_sys n p)"
| step: "pool_reach n qsize s \<Longrightarrow> pool_step s e s' \<Longrightarrow> pool_reach n qsize s'"

text \<open>Running a list of events, to follow one schedule.\<close>

fun pool_run :: "('f, 'a) event list \<Rightarrow> ('f, 'a) psys \<Rightarrow> ('f, 'a) psys cres option" where
  "pool_run [] s = Some (Inr s)"
| "pool_run (e # es) s = (case pool_exec e s of
     None \<Rightarrow> None | Some (Inl f) \<Rightarrow> Some (Inl f) | Some (Inr s') \<Rightarrow> pool_run es s')"

section \<open>The invariant\<close>

definition alive :: "('f, 'a) wpc list \<Rightarrow> int" where
  "alive ws = int (length (filter (\<lambda>w. w \<noteq> W_Exit) ws))"

fun task_of :: "('f, 'a) wpc \<Rightarrow> ('f, 'a) threadpool_task_t list" where
  "task_of (W_Run t) = [t]"
| "task_of _ = []"

definition running :: "('f, 'a) wpc list \<Rightarrow> ('f, 'a) threadpool_task_t multiset" where
  "running ws = mset (concat (map task_of ws))"

definition uncounted :: "mpc \<Rightarrow> int" where
  "uncounted m = (case m of M_Count k \<Rightarrow> 1 | _ \<Rightarrow> 0)"

definition inv_lock :: "('f, 'a) psys \<Rightarrow> bool" where
  "inv_lock s \<longleftrightarrow> (\<forall>i < length (sy_workers s).
       sy_workers s ! i = W_Check \<longleftrightarrow> sy_lock s = Some (By_Worker i)) \<and>
     (\<forall>i. sy_lock s = Some (By_Worker i) \<longrightarrow> i < length (sy_workers s)) \<and>
     (sy_lock s = Some By_Caller \<longrightarrow> joining (sy_main s) \<or> sy_main s = M_Done)"

definition inv_count :: "('f, 'a) psys \<Rightarrow> bool" where
  "inv_count s \<longleftrightarrow> pool_ok (sy_pool s) \<and>
     tp_thread_count (sy_pool s) = int (length (sy_workers s)) - uncounted (sy_main s) \<and>
     tp_started (sy_pool s) = alive (sy_workers s) - uncounted (sy_main s)"

definition inv_tasks :: "('f, 'a) psys \<Rightarrow> bool" where
  "inv_tasks s \<longleftrightarrow> sy_accepted s = sy_grabbed s @ pending (sy_pool s) \<and>
     mset (sy_grabbed s) = mset (sy_finished s) + running (sy_workers s)"

definition inv_wake :: "('f, 'a) psys \<Rightarrow> bool" where
  "inv_wake s \<longleftrightarrow>
     (tp_shutdown (sy_pool s) = 0 \<and> tp_count (sy_pool s) > 0 \<and> sy_workers s \<noteq> []
        \<longrightarrow> (\<exists>w\<in>set (sy_workers s). w \<noteq> W_Wait)) \<and>
     (tp_shutdown (sy_pool s) \<noteq> 0 \<and> sy_lock s \<noteq> Some By_Caller \<longrightarrow> W_Wait \<notin> set (sy_workers s)) \<and>
     (W_Exit \<in> set (sy_workers s) \<longrightarrow> tp_shutdown (sy_pool s) \<noteq> 0 \<and>
        (tp_shutdown (sy_pool s) = graceful_shutdown \<longrightarrow> tp_count (sy_pool s) = 0))"

definition inv_main :: "('f, 'a) psys \<Rightarrow> bool" where
  "inv_main s \<longleftrightarrow>
     tp_shutdown (sy_pool s) \<in> {0, immediate_shutdown, graceful_shutdown} \<and>
     (tp_shutdown (sy_pool s) \<noteq> 0 \<longleftrightarrow> joining (sy_main s) \<or> sy_main s = M_Done) \<and>
     (sy_freed s \<longrightarrow> sy_main s = M_Done \<and> set (sy_workers s) \<subseteq> {W_Exit})"

definition inv_join :: "('f, 'a) psys \<Rightarrow> bool" where
  "inv_join s \<longleftrightarrow> (\<forall>i. sy_main s = M_Join i False \<longrightarrow> i \<le> length (sy_workers s) \<and>
     (\<forall>j<i. sy_workers s ! j = W_Exit))"

definition pool_inv :: "('f, 'a) psys \<Rightarrow> bool" where
  "pool_inv s \<longleftrightarrow> inv_lock s \<and> inv_count s \<and> inv_tasks s \<and> inv_wake s \<and> inv_main s \<and> inv_join s"

lemmas pool_inv_defs = inv_lock_def inv_count_def inv_tasks_def inv_wake_def inv_main_def inv_join_def

section \<open>Preservation\<close>

lemma pending_fields [simp]:
  "pending (p\<lparr>tp_started := x\<rparr>) = pending p" "pending (p\<lparr>tp_thread_count := x\<rparr>) = pending p"
  "pending (p\<lparr>tp_shutdown := x\<rparr>) = pending p"
  by (simp_all add: pending_def)

lemma pool_ok_fields [simp]:
  "pool_ok (p\<lparr>tp_started := x\<rparr>) = pool_ok p" "pool_ok (p\<lparr>tp_thread_count := x\<rparr>) = pool_ok p"
  "pool_ok (p\<lparr>tp_shutdown := x\<rparr>) = pool_ok p"
  by (simp_all add: pool_ok_def)

lemma alive_simps [simp]:
  "alive [] = 0" "alive (w # ws) = (if w = W_Exit then 0 else 1) + alive ws"
  "alive (ws @ ws') = alive ws + alive ws'"
  by (simp_all add: alive_def)

lemma running_simps [simp]:
  "running [] = {#}" "running (w # ws) = mset (task_of w) + running ws"
  "running (ws @ ws') = running ws + running ws'"
  by (simp_all add: running_def)

lemma alive_nonneg: "0 \<le> alive ws"
  by (simp add: alive_def)

lemma alive_0_iff: "alive ws = 0 \<longleftrightarrow> set ws \<subseteq> {W_Exit}"
  by (auto simp: alive_def filter_empty_conv)

lemma alive_update:
  assumes "i < length ws"
  shows "alive (ws[i := w]) = alive ws - (if ws ! i = W_Exit then 0 else 1) + (if w = W_Exit then 0 else 1)"
proof -
  from assms obtain xs v ys where "ws = xs @ v # ys" "length xs = i"
    by (metis id_take_nth_drop length_take min.absorb2 order_less_imp_le)
  then show ?thesis by auto
qed

lemma running_update:
  assumes "i < length ws"
  shows "running (ws[i := w]) + mset (task_of (ws ! i)) = running ws + mset (task_of w)"
proof -
  from assms obtain xs v ys where "ws = xs @ v # ys" "length xs = i"
    by (metis id_take_nth_drop length_take min.absorb2 order_less_imp_le)
  then show ?thesis by auto
qed

lemma in_update: "v \<in> set (ws[i := w]) \<Longrightarrow> v \<noteq> w \<Longrightarrow> v \<in> set ws"
  using set_update_subset_insert [of ws i w] by auto

lemma worker_at_iff: "worker_at s i = Some w \<longleftrightarrow> i < length (sy_workers s) \<and> sy_workers s ! i = w"
  by (simp add: worker_at_def)

lemma set_worker_fields [simp]:
  "sy_pool (set_worker i w s) = sy_pool s" "sy_lock (set_worker i w s) = sy_lock s"
  "sy_main (set_worker i w s) = sy_main s" "sy_freed (set_worker i w s) = sy_freed s"
  "sy_accepted (set_worker i w s) = sy_accepted s" "sy_grabbed (set_worker i w s) = sy_grabbed s"
  "sy_finished (set_worker i w s) = sy_finished s"
  "sy_workers (set_worker i w s) = (sy_workers s)[i := w]"
  by (simp_all add: set_worker_def)

lemma joining_iff: "joining m \<longleftrightarrow> (\<exists>i e. m = M_Join i e)"
  by (simp add: joining_def split: mpc.split)

lemma joining_simps [simp]:
  "joining (M_Join i e)" "\<not> joining M_Done" "\<not> joining M_Ready" "\<not> joining M_Abort"
  "\<not> joining (M_Create k)" "\<not> joining (M_Count k)"
  by (simp_all add: joining_def)

lemma uncounted_simps [simp]:
  "uncounted (M_Join i e) = 0" "uncounted M_Done = 0" "uncounted M_Ready = 0" "uncounted M_Abort = 0"
  "uncounted (M_Create k) = 0" "uncounted (M_Count k) = 1"
  by (simp_all add: uncounted_def)

text \<open>A live worker means the pool has not been freed.\<close>

lemma inv_not_freed:
  assumes "pool_inv s" "worker_at s i = Some w" "w \<noteq> W_Exit"
  shows "\<not> sy_freed s"
proof
  assume "sy_freed s"
  with assms(1) have "set (sy_workers s) \<subseteq> {W_Exit}" by (simp add: pool_inv_def inv_main_def)
  with assms(2,3) show False by (auto simp: worker_at_iff dest: nth_mem)
qed

text \<open>
  What a step of worker \<open>i\<close> has to establish. The parts of the invariant that only speak of
  live workers follow from the worker having been live before the step.
\<close>

lemma worker_step_inv:
  assumes inv: "pool_inv s" and at: "worker_at s i = Some v" "v \<noteq> W_Exit"
    and ws: "sy_workers s' = (sy_workers s)[i := w]" and main: "sy_main s' = sy_main s"
    and freed: "sy_freed s' = sy_freed s"
    and lock: "inv_lock s'" and tasks: "inv_tasks s'" and wake: "inv_wake s'"
    and pool: "pool_ok (sy_pool s')" "tp_thread_count (sy_pool s') = tp_thread_count (sy_pool s)"
      "tp_shutdown (sy_pool s') = tp_shutdown (sy_pool s)"
      "tp_started (sy_pool s') = tp_started (sy_pool s) - (if w = W_Exit then 1 else 0)"
  shows "pool_inv s'"
proof -
  from at have i: "i < length (sy_workers s)" "sy_workers s ! i = v" by (simp_all add: worker_at_iff)
  have "inv_count s'"
    using inv pool at i by (simp add: pool_inv_def inv_count_def ws alive_update main)
  moreover have "inv_main s'"
    using inv pool main freed inv_not_freed [OF inv at]
    by (simp add: pool_inv_def inv_main_def)
  moreover have "inv_join s'"
    unfolding inv_join_def
  proof (intro allI impI)
    fix k assume "sy_main s' = M_Join k False"
    with main have "sy_main s = M_Join k False" by simp
    with inv have k: "k \<le> length (sy_workers s)" "\<forall>j<k. sy_workers s ! j = W_Exit"
      unfolding pool_inv_def inv_join_def by blast+
    with i at(2) have "\<not> i < k" by auto
    with k show "k \<le> length (sy_workers s') \<and> (\<forall>j<k. sy_workers s' ! j = W_Exit)"
      by (simp add: ws)
  qed
  ultimately show ?thesis using lock tasks wake by (simp add: pool_inv_def)
qed

lemma pool_invD:
  assumes "pool_inv s"
  shows "inv_lock s" "inv_count s" "inv_tasks s" "inv_wake s" "inv_main s" "inv_join s"
    "pool_ok (sy_pool s)"
  using assms by (simp_all add: pool_inv_def inv_count_def)

lemma inv_lock_update:
  assumes "inv_lock s" "i < length (sy_workers s)" "sy_workers s' = (sy_workers s)[i := w]"
    "sy_main s' = sy_main s" "w = W_Check \<longleftrightarrow> sy_lock s' = Some (By_Worker i)"
    "\<And>j. j \<noteq> i \<Longrightarrow> sy_lock s' = Some (By_Worker j) \<longleftrightarrow> sy_lock s = Some (By_Worker j)"
    "sy_lock s' = Some By_Caller \<Longrightarrow> sy_lock s = Some By_Caller"
  shows "inv_lock s'"
proof -
  have "sy_workers s' ! j = W_Check \<longleftrightarrow> sy_lock s' = Some (By_Worker j)"
    if "j < length (sy_workers s)" for j
    using assms(1,2,5,6) that by (cases "j = i") (simp_all add: inv_lock_def assms(3))
  moreover have "j < length (sy_workers s')" if "sy_lock s' = Some (By_Worker j)" for j
  proof (cases "j = i")
    case False
    from assms(6) [OF False] that have "sy_lock s = Some (By_Worker j)" by blast
    with assms(1) show ?thesis by (simp add: inv_lock_def assms(3))
  qed (simp add: assms(2,3))
  ultimately show ?thesis
    using assms(1,4,7) by (simp add: inv_lock_def assms(3))
qed

lemma inv_wake_update:
  assumes inv: "inv_wake s" and i: "i < length (sy_workers s)"
    and ws: "sy_workers s' = (sy_workers s)[i := w]"
    and p: "tp_shutdown (sy_pool s') = tp_shutdown (sy_pool s)"
      "tp_count (sy_pool s) = 0 \<Longrightarrow> tp_count (sy_pool s') = 0"
      "w = W_Wait \<Longrightarrow> tp_shutdown (sy_pool s') = 0 \<and> tp_count (sy_pool s') = 0"
      "w = W_Exit \<Longrightarrow> tp_shutdown (sy_pool s') \<noteq> 0 \<and>
         (tp_shutdown (sy_pool s') = graceful_shutdown \<longrightarrow> tp_count (sy_pool s') = 0)"
      "sy_lock s = Some By_Caller \<Longrightarrow> sy_lock s' = Some By_Caller"
  shows "inv_wake s'"
proof -
  have "w \<in> set (sy_workers s')" unfolding ws by (rule set_update_memI [OF i])
  moreover have "W_Wait \<in> set (sy_workers s') \<Longrightarrow> w \<noteq> W_Wait \<Longrightarrow> W_Wait \<in> set (sy_workers s)"
    "W_Exit \<in> set (sy_workers s') \<Longrightarrow> w \<noteq> W_Exit \<Longrightarrow> W_Exit \<in> set (sy_workers s)"
    unfolding ws by (auto dest: in_update)
  ultimately show ?thesis
    using inv p unfolding inv_wake_def by (cases "w = W_Wait"; cases "w = W_Exit") auto
qed

lemma ev_lock_inv:
  assumes inv: "pool_inv s" and ex: "ev_lock i s = Some r"
  shows "\<exists>s'. r = Inr s' \<and> pool_inv s'"
proof -
  note D = pool_invD [OF inv]
  from ex obtain v where v: "worker_at s i = Some v" "v = W_Start \<or> v = W_Woken"
    by (auto simp: ev_lock_def split: if_splits)
  then have live: "v \<noteq> W_Exit" by auto
  let ?s = "set_worker i W_Check (s\<lparr>sy_lock := Some (By_Worker i)\<rparr>)"
  have r: "r = Inr ?s" and free: "sy_lock s = None"
    using ex inv_not_freed [OF inv v(1) live] by (auto simp: ev_lock_def split: if_splits)
  from v have i: "i < length (sy_workers s)" "sy_workers s ! i = v" by (simp_all add: worker_at_iff)
  have "running ((sy_workers s)[i := W_Check]) = running (sy_workers s)"
    using running_update [OF i(1), of W_Check] v(2) i(2) by auto
  then have "inv_tasks ?s" using D(3) by (simp add: inv_tasks_def)
  moreover have "inv_lock ?s"
    using free by (intro inv_lock_update [OF D(1) i(1)]) auto
  moreover have "inv_wake ?s"
    using free by (intro inv_wake_update [OF D(4) i(1), where w = W_Check]) simp_all
  ultimately have "pool_inv ?s"
    using D(7) by (intro worker_step_inv [OF inv v(1) live, where w = W_Check]) simp_all
  with r show ?thesis by simp
qed

lemma ev_done_inv:
  assumes inv: "pool_inv s" and ex: "ev_done i s = Some r"
  shows "\<exists>s'. r = Inr s' \<and> pool_inv s'"
proof -
  note D = pool_invD [OF inv]
  from ex obtain t where v: "worker_at s i = Some (W_Run t)"
    and r: "r = Inr (set_worker i W_Start (s\<lparr>sy_finished := sy_finished s @ [t]\<rparr>))" (is "_ = Inr ?s")
    by (auto simp: ev_done_def split: option.splits wpc.splits)
  from v have i: "i < length (sy_workers s)" "sy_workers s ! i = W_Run t" by (simp_all add: worker_at_iff)
  have "running (sy_workers s) = add_mset t (running ((sy_workers s)[i := W_Start]))"
    using running_update [OF i(1), of W_Start] i(2) by simp
  then have "inv_tasks ?s" using D(3) by (simp add: inv_tasks_def)
  moreover have "inv_lock ?s"
    using D(1) i by (intro inv_lock_update [OF D(1) i(1), where w = W_Start]) (auto simp: inv_lock_def)
  moreover have "inv_wake ?s"
    by (intro inv_wake_update [OF D(4) i(1), where w = W_Start]) simp_all
  ultimately have "pool_inv ?s"
    using D(7) by (intro worker_step_inv [OF inv v, where w = W_Start]) simp_all
  with r show ?thesis by simp
qed

lemma ev_spurious_inv:
  assumes inv: "pool_inv s" and ex: "ev_spurious i s = Some r"
  shows "\<exists>s'. r = Inr s' \<and> pool_inv s'"
proof -
  note D = pool_invD [OF inv]
  from ex have v: "worker_at s i = Some W_Wait" and r: "r = Inr (set_worker i W_Woken s)" (is "_ = Inr ?s")
    by (auto simp: ev_spurious_def split: if_splits)
  from v have i: "i < length (sy_workers s)" "sy_workers s ! i = W_Wait" by (simp_all add: worker_at_iff)
  have "running ((sy_workers s)[i := W_Woken]) = running (sy_workers s)"
    using running_update [OF i(1), of W_Woken] i(2) by auto
  then have "inv_tasks ?s" using D(3) by (simp add: inv_tasks_def)
  moreover have "inv_lock ?s"
    using D(1) i by (intro inv_lock_update [OF D(1) i(1), where w = W_Woken]) (auto simp: inv_lock_def)
  moreover have "inv_wake ?s"
    by (intro inv_wake_update [OF D(4) i(1), where w = W_Woken]) simp_all
  ultimately have "pool_inv ?s"
    using D(7) by (intro worker_step_inv [OF inv v, where w = W_Woken]) simp_all
  with r show ?thesis by simp
qed

lemma ev_check_inv:
  assumes inv: "pool_inv s" and ex: "ev_check i s = Some r"
  shows "\<exists>s'. r = Inr s' \<and> pool_inv s'"
proof -
  note D = pool_invD [OF inv]
  let ?p = "sy_pool s"
  from ex have v: "worker_at s i = Some W_Check" by (auto simp: ev_check_def split: if_splits)
  then have i: "i < length (sy_workers s)" "sy_workers s ! i = W_Check" by (simp_all add: worker_at_iff)
  then have held: "sy_lock s = Some (By_Worker i)" using D(1) by (simp add: inv_lock_def)
  have run: "running ((sy_workers s)[i := w]) = running (sy_workers s) + mset (task_of w)" for w
    using running_update [OF i(1), of w] i(2) by simp
  have lock: "inv_lock s'" if "sy_workers s' = (sy_workers s)[i := w]" "sy_main s' = sy_main s"
      "w \<noteq> W_Check" "sy_lock s' = None" for s' w
    using that held by (intro inv_lock_update [OF D(1) i(1), where w = w]) auto
  have live: "\<not> sy_freed s" by (rule inv_not_freed [OF inv v]) simp
  consider (Wait) "must_wait ?p" | (Exit) "\<not> must_wait ?p" "must_exit ?p"
    | (Grab) "\<not> must_wait ?p" "\<not> must_exit ?p" by blast
  then show ?thesis
  proof cases
    case Wait
    let ?s = "set_worker i W_Wait (s\<lparr>sy_lock := None\<rparr>)"
    have "inv_wake ?s" using Wait held
      by (intro inv_wake_update [OF D(4) i(1), where w = W_Wait]) (simp_all add: must_wait_def)
    moreover have "inv_tasks ?s" using D(3) by (simp add: inv_tasks_def run)
    ultimately have "pool_inv ?s"
      using D(7) lock by (intro worker_step_inv [OF inv v, where w = W_Wait]) simp_all
    then show ?thesis using ex v live Wait by (auto simp: ev_check_def)
  next
    case Exit
    let ?s = "set_worker i W_Exit (s\<lparr>sy_lock := None, sy_pool := worker_exit ?p\<rparr>)"
    have "inv_wake ?s" using Exit held D(4)
      by (intro inv_wake_update [OF D(4) i(1), where w = W_Exit])
        (auto simp: worker_exit_def must_exit_def threadpool_codes)
    moreover have "inv_tasks ?s" using D(3) by (simp add: inv_tasks_def run worker_exit_def)
    ultimately have "pool_inv ?s"
      using D(7) lock by (intro worker_step_inv [OF inv v, where w = W_Exit]) (simp_all add: worker_exit_def)
    then show ?thesis using ex v live Exit by (auto simp: ev_check_def)
  next
    case Grab
    have "tp_count ?p \<noteq> 0"
      using Grab D(5) by (auto simp: must_wait_def must_exit_def inv_main_def)
    from grab_task_ok [OF D(7) this] obtain t p' where g: "grab_task ?p = Inr (t, p')" "pool_ok p'"
      "pending ?p = t # pending p'" "tp_count p' = tp_count ?p - 1" "tp_shutdown p' = tp_shutdown ?p"
      "tp_started p' = tp_started ?p" "tp_thread_count p' = tp_thread_count ?p" by metis
    let ?s = "set_worker i (W_Run t)
       (s\<lparr>sy_lock := None, sy_pool := p', sy_grabbed := sy_grabbed s @ [t]\<rparr>)"
    have "inv_wake ?s" using held g \<open>tp_count ?p \<noteq> 0\<close>
      by (intro inv_wake_update [OF D(4) i(1), where w = "W_Run t"]) simp_all
    moreover have "inv_tasks ?s" using D(3) g(3) by (simp add: inv_tasks_def run)
    ultimately have "pool_inv ?s"
      using g lock by (intro worker_step_inv [OF inv v, where w = "W_Run t"]) simp_all
    then show ?thesis using ex v live Grab g(1) by (auto simp: ev_check_def)
  qed
qed

text \<open>Adding a task: nothing but the queue changes, and a waiting worker may wake.\<close>

lemma add_inv:
  assumes inv: "pool_inv s" and free: "sy_lock s = None" and main: "sy_main s = M_Ready \<or> joining (sy_main s)"
    and p: "pool_ok p'" "tp_shutdown p' = tp_shutdown (sy_pool s)"
      "tp_started p' = tp_started (sy_pool s)" "tp_thread_count p' = tp_thread_count (sy_pool s)"
    and acc: "acc = sy_grabbed s @ pending p'"
    and cnt: "tp_count p' = tp_count (sy_pool s) \<or> tp_shutdown p' = 0 \<and> W_Wait \<notin> set (sy_workers s)"
  shows "pool_inv (s\<lparr>sy_pool := p', sy_accepted := acc\<rparr>)" (is "pool_inv ?s")
proof -
  note D = pool_invD [OF inv]
  have "inv_lock ?s" using D(1) by (simp add: inv_lock_def)
  moreover have "inv_count ?s" using D(2) p by (simp add: inv_count_def)
  moreover have "inv_tasks ?s" using D(3) acc by (simp add: inv_tasks_def)
  moreover have "inv_main ?s" using D(5) p by (simp add: inv_main_def)
  moreover have "inv_join ?s" using D(6) by (simp add: inv_join_def)
  moreover have "\<exists>w\<in>set ws. w \<noteq> W_Wait" if "ws \<noteq> []" "W_Wait \<notin> set ws" for ws :: "('a, 'b) wpc list"
    using that by (metis list.set_sel(1))
  then have "inv_wake ?s" using D(4) cnt p(2) by (auto simp: inv_wake_def)
  ultimately show ?thesis by (simp add: pool_inv_def)
qed

lemma add_wake_inv:
  assumes inv: "pool_inv s" and v: "worker_at s i = Some W_Wait" and free: "sy_lock s = None"
    and p: "pool_ok p'" "tp_shutdown p' = 0" "tp_shutdown (sy_pool s) = 0"
      "tp_started p' = tp_started (sy_pool s)" "tp_thread_count p' = tp_thread_count (sy_pool s)"
    and acc: "acc = sy_grabbed s @ pending p'"
  shows "pool_inv (set_worker i W_Woken (s\<lparr>sy_pool := p', sy_accepted := acc\<rparr>))" (is "pool_inv ?s")
proof -
  note D = pool_invD [OF inv]
  from v have i: "i < length (sy_workers s)" "sy_workers s ! i = W_Wait" by (simp_all add: worker_at_iff)
  have "running ((sy_workers s)[i := W_Woken]) = running (sy_workers s)"
    using running_update [OF i(1), of W_Woken] i(2) by auto
  then have "inv_tasks ?s" using D(3) acc by (simp add: inv_tasks_def)
  moreover have "inv_lock ?s"
    using free by (intro inv_lock_update [OF D(1) i(1), where w = W_Woken]) simp_all
  moreover have "W_Woken \<in> set ((sy_workers s)[i := W_Woken])" by (rule set_update_memI [OF i(1)])
  then have "inv_wake ?s" using D(4) p by (auto simp: inv_wake_def dest: in_update)
  ultimately show ?thesis
    using p by (intro worker_step_inv [OF inv v, where w = W_Woken]) simp_all
qed

lemma ev_add_inv:
  assumes inv: "pool_inv s" and ex: "ev_add f a wake s = Some r"
  shows "\<exists>s'. r = Inr s' \<and> pool_inv s'"
proof -
  note D = pool_invD [OF inv]
  let ?p = "sy_pool s" and ?t = "\<lparr>tt_function = f, tt_argument = a\<rparr>"
  from ex have main: "sy_main s = M_Ready \<or> joining (sy_main s)" and free: "sy_lock s = None"
    by (auto simp: ev_add_def split: if_splits)
  have acc: "sy_accepted s = sy_grabbed s @ pending ?p" using D(3) by (simp add: inv_tasks_def)
  show ?thesis
  proof (cases "tp_count ?p \<noteq> tp_queue_size ?p \<and> tp_shutdown ?p = 0")
    case True
    then have room: "tp_count ?p \<noteq> tp_queue_size ?p" and up: "tp_shutdown ?p = 0" by simp_all
    from add_section_ok [OF D(7) room up, of ?t] obtain p' where
      a: "\<And>s. add_section s ?t ?p = Inr (if s then 0 else threadpool_lock_failure, p', s)"
        "pool_ok p'" "pending p' = pending ?p @ [?t]" "tp_shutdown p' = 0"
        "tp_started p' = tp_started ?p" "tp_thread_count p' = tp_thread_count ?p" by blast
    then have acc': "sy_accepted s @ [?t] = sy_grabbed s @ pending p'" by (simp add: acc)
    have call: "threadpool_add True True True (Some ?p) (Some f) a
        = Inr (\<lparr>ar_err = 0, ar_signalled = True, ar_held = False\<rparr>, Some p')"
      by (simp add: threadpool_add_def a(1))
    show ?thesis
    proof (cases wake)
      case None
      with ex call have "W_Wait \<notin> set (sy_workers s)"
        "r = Inr (s\<lparr>sy_pool := p', sy_accepted := sy_accepted s @ [?t]\<rparr>)"
        by (auto simp: ev_add_def split: if_splits)
      with add_inv [OF inv free main a(2) _ a(5,6) acc'] a(4) up show ?thesis by simp
    next
      case (Some i)
      with ex call have "worker_at s i = Some W_Wait"
        "r = Inr (set_worker i W_Woken (s\<lparr>sy_pool := p', sy_accepted := sy_accepted s @ [?t]\<rparr>))"
        by (auto simp: ev_add_def worker_at_iff Let_def split: if_splits)
      with add_wake_inv [OF inv _ free a(2,4) up a(5,6) acc'] show ?thesis by simp
    qed
  next
    case False
    then have "\<exists>e. e \<noteq> 0 \<and> add_section True ?t ?p = Inr (e, ?p, False)"
      by (cases "tp_count ?p = tp_queue_size ?p")
        (auto simp: add_section_full add_section_down threadpool_codes)
    then have "r = Inr (s\<lparr>sy_pool := ?p, sy_accepted := sy_accepted s\<rparr>)"
      using ex by (auto simp: ev_add_def threadpool_add_def split: if_splits option.splits)
    with add_inv [OF inv free main D(7) _ _ _ acc] show ?thesis by simp
  qed
qed

text \<open>Creation: the workers started and not yet counted account for the difference.\<close>

lemma inv_lock_snoc:
  "inv_lock s \<Longrightarrow> sy_lock s \<noteq> Some By_Caller \<Longrightarrow>
   inv_lock (s\<lparr>sy_workers := sy_workers s @ [W_Start], sy_main := m\<rparr>)"
  by (auto simp: inv_lock_def nth_append less_Suc_eq)

lemma not_joining_not_caller:
  "pool_inv s \<Longrightarrow> \<not> joining (sy_main s) \<Longrightarrow> sy_main s \<noteq> M_Done \<Longrightarrow>
   sy_lock s \<noteq> Some By_Caller \<and> tp_shutdown (sy_pool s) = 0 \<and> \<not> sy_freed s"
  by (auto simp: pool_inv_def inv_lock_def inv_main_def)

lemma ev_create_inv:
  assumes inv: "pool_inv s" and ex: "ev_create ok s = Some r"
  shows "\<exists>s'. r = Inr s' \<and> pool_inv s'"
proof -
  note D = pool_invD [OF inv]
  from ex obtain k where m: "sy_main s = M_Create (Suc k)"
    and r: "r = Inr (if ok then s\<lparr>sy_workers := sy_workers s @ [W_Start], sy_main := M_Count k\<rparr>
                    else s\<lparr>sy_main := M_Abort\<rparr>)"
    by (auto simp: ev_create_def split: mpc.splits nat.splits)
  have free: "sy_lock s \<noteq> Some By_Caller" "tp_shutdown (sy_pool s) = 0" "\<not> sy_freed s"
    using not_joining_not_caller [OF inv] m by auto
  show ?thesis
  proof (cases ok)
    case True
    let ?s = "s\<lparr>sy_workers := sy_workers s @ [W_Start], sy_main := M_Count k\<rparr>"
    have "inv_lock ?s" by (rule inv_lock_snoc [OF D(1) free(1)])
    moreover have "inv_wake ?s" using D(4) free by (auto simp: inv_wake_def)
    moreover have "inv_count ?s" "inv_tasks ?s" "inv_main ?s" "inv_join ?s"
      using D m free by (simp_all add: inv_count_def inv_tasks_def inv_main_def inv_join_def)
    ultimately show ?thesis using True r by (simp add: pool_inv_def)
  next
    case False
    let ?s = "s\<lparr>sy_main := M_Abort\<rparr>"
    have "inv_lock ?s" "inv_wake ?s" using D(1,4) free by (simp_all add: inv_lock_def inv_wake_def)
    moreover have "inv_count ?s" "inv_tasks ?s" "inv_main ?s" "inv_join ?s"
      using D m free by (simp_all add: inv_count_def inv_tasks_def inv_main_def inv_join_def)
    ultimately show ?thesis using False r by (simp add: pool_inv_def)
  qed
qed

lemma ev_count_inv:
  assumes inv: "pool_inv s" and ex: "ev_count s = Some r"
  shows "\<exists>s'. r = Inr s' \<and> pool_inv s'"
proof -
  note D = pool_invD [OF inv]
  from ex obtain k where m: "sy_main s = M_Count k"
    and r: "r = Inr (s\<lparr>sy_pool := (sy_pool s)\<lparr>tp_thread_count := tp_thread_count (sy_pool s) + 1,
                                tp_started := tp_started (sy_pool s) + 1\<rparr>,
                       sy_main := (if k = 0 then M_Ready else M_Create k)\<rparr>)" (is "_ = Inr ?s")
    by (auto simp: ev_count_def split: mpc.splits)
  have free: "sy_lock s \<noteq> Some By_Caller" "tp_shutdown (sy_pool s) = 0" "\<not> sy_freed s"
    using not_joining_not_caller [OF inv] m by auto
  have "inv_lock ?s" using D(1) free by (simp add: inv_lock_def)
  moreover have "inv_wake ?s" using D(4) free by (simp add: inv_wake_def)
  moreover have "inv_tasks ?s" "inv_join ?s" using D(3) by (simp_all add: inv_tasks_def inv_join_def)
  moreover have "inv_count ?s" "inv_main ?s"
    using D(2,5) m free by (simp_all add: inv_count_def inv_main_def)
  ultimately show ?thesis using r by (simp add: pool_inv_def)
qed

section \<open>Destruction\<close>

lemma wake_all_simps [simp]:
  "length (wake_all ws) = length ws" "alive (wake_all ws) = alive ws" "running (wake_all ws) = running ws"
  "W_Wait \<notin> set (wake_all ws)"
proof -
  show "alive (wake_all ws) = alive ws" by (induction ws) (auto simp: wake_all_def)
  show "running (wake_all ws) = running ws" by (induction ws) (auto simp: wake_all_def)
qed (auto simp: wake_all_def)

lemma wake_all_nth:
  "i < length ws \<Longrightarrow> (wake_all ws ! i = W_Check) = (ws ! i = W_Check)"
  "i < length ws \<Longrightarrow> (wake_all ws ! i = W_Exit) = (ws ! i = W_Exit)"
  by (simp_all add: wake_all_def)

lemma wake_all_Exit: "W_Exit \<in> set (wake_all ws) \<longleftrightarrow> W_Exit \<in> set ws"
  by (auto simp: wake_all_def image_iff)

lemma destroy_section_up:
  assumes "tp_shutdown p = 0"
  obtains r how where "destroy_section b u flags p = (r, p\<lparr>tp_shutdown := how\<rparr>)"
    "how \<in> {immediate_shutdown, graceful_shutdown}"
    "dr_err r = 0 \<longleftrightarrow> b \<and> u" "dr_held r \<longleftrightarrow> \<not> (b \<and> u)" "dr_woken r \<longleftrightarrow> b"
proof -
  let ?how = "if and flags threadpool_graceful \<noteq> 0 then graceful_shutdown else immediate_shutdown"
  show thesis
    using assms that [of "fst (destroy_section b u flags p)" ?how]
    by (simp add: destroy_section_def Let_def threadpool_codes)
qed

lemma destroy_section_down:
  "tp_shutdown p \<noteq> 0 \<Longrightarrow> destroy_section b u flags p =
     (\<lparr>dr_err = threadpool_shutdown, dr_woken = False, dr_held = True\<rparr>, p)"
  by (simp add: destroy_section_def)

lemma ev_destroy_inv:
  assumes inv: "pool_inv s" and ex: "ev_destroy flags b u s = Some r"
  shows "\<exists>s'. r = Inr s' \<and> pool_inv s'"
proof -
  note D = pool_invD [OF inv]
  from ex have g: "sy_main s = M_Ready \<or> sy_main s = M_Abort \<and> flags = 0" and free: "sy_lock s = None"
    by (auto simp: ev_destroy_def split: if_splits)
  then have m: "sy_main s = M_Ready \<or> sy_main s = M_Abort" by blast
  then have up: "tp_shutdown (sy_pool s) = 0" "\<not> sy_freed s"
    using not_joining_not_caller [OF inv] by auto
  obtain d how where d: "destroy_section b u flags (sy_pool s) = (d, (sy_pool s)\<lparr>tp_shutdown := how\<rparr>)"
    "how \<in> {immediate_shutdown, graceful_shutdown}"
    "dr_err d = 0 \<longleftrightarrow> b \<and> u" "dr_held d \<longleftrightarrow> \<not> (b \<and> u)" "dr_woken d \<longleftrightarrow> b"
    by (rule destroy_section_up [OF up(1), of b u flags])
  let ?s = "s\<lparr>sy_pool := (sy_pool s)\<lparr>tp_shutdown := how\<rparr>,
     sy_workers := (if b then wake_all (sy_workers s) else sy_workers s),
     sy_lock := (if b \<and> u then None else Some By_Caller),
     sy_main := (if b \<and> u then M_Join 0 False else M_Done)\<rparr>"
  have "ev_destroy flags b u s = Some (Inr ?s)"
    unfolding ev_destroy_def d(1) using g free d(3-5) by simp
  then have r: "r = Inr ?s" using ex by simp
  have how: "how \<noteq> 0" using d(2) by (auto simp: threadpool_codes)
  have "W_Exit \<notin> set (sy_workers s)" using D(4) up by (auto simp: inv_wake_def)
  then have "inv_wake ?s" using how by (auto simp: inv_wake_def wake_all_Exit)
  moreover have "inv_lock ?s" using D(1) free by (auto simp: inv_lock_def wake_all_nth)
  moreover have "inv_count ?s" "inv_tasks ?s"
    using D(2,3) m by (auto simp: inv_count_def inv_tasks_def)
  moreover have "inv_main ?s" "inv_join ?s"
    using d(2) how up by (auto simp: inv_main_def inv_join_def)
  ultimately show ?thesis using r by (simp add: pool_inv_def)
qed

lemma ev_destroy_again_inv:
  assumes inv: "pool_inv s" and ex: "ev_destroy_again flags s = Some r"
  shows "r = Inr (s\<lparr>sy_lock := Some By_Caller\<rparr>) \<and> pool_inv (s\<lparr>sy_lock := Some By_Caller\<rparr>)"
proof -
  note D = pool_invD [OF inv]
  from ex have m: "joining (sy_main s)" and free: "sy_lock s = None"
    by (auto simp: ev_destroy_again_def split: if_splits)
  then have "tp_shutdown (sy_pool s) \<noteq> 0" using D(5) by (simp add: inv_main_def)
  then have "r = Inr (s\<lparr>sy_lock := Some By_Caller\<rparr>)"
    using ex m free by (simp add: ev_destroy_again_def destroy_section_down)
  moreover have "inv_lock (s\<lparr>sy_lock := Some By_Caller\<rparr>)" "inv_wake (s\<lparr>sy_lock := Some By_Caller\<rparr>)"
    using D(1,4) m free by (auto simp: inv_lock_def inv_wake_def)
  ultimately show ?thesis using D
    by (simp add: pool_inv_def inv_count_def inv_tasks_def inv_main_def inv_join_def)
qed

lemma ev_join_inv:
  assumes inv: "pool_inv s" and ex: "ev_join ok s = Some r"
  shows "\<exists>s'. r = Inr s' \<and> pool_inv s'"
proof -
  note D = pool_invD [OF inv]
  from ex obtain i err where m: "sy_main s = M_Join i err" and i: "int i < tp_thread_count (sy_pool s)"
    by (auto simp: ev_join_def split: mpc.splits if_splits)
  have n: "tp_thread_count (sy_pool s) = int (length (sy_workers s))" using D(2) m by (simp add: inv_count_def)
  from ex m i obtain err' where r: "r = Inr (s\<lparr>sy_main := M_Join (Suc i) err'\<rparr>)" (is "_ = Inr ?s")
    and e: "\<not> err' \<Longrightarrow> \<not> err \<and> worker_at s i = Some W_Exit"
    by (auto simp: ev_join_def split: if_splits)
  have "inv_join ?s"
    using D(6) m e i n by (auto simp: inv_join_def worker_at_iff less_Suc_eq)
  moreover have "inv_main ?s" using D(5) m by (auto simp: inv_main_def)
  moreover have "inv_lock ?s" "inv_wake ?s" "inv_count ?s" "inv_tasks ?s"
    using D(1-4) m by (simp_all add: inv_lock_def inv_wake_def inv_count_def inv_tasks_def)
  ultimately show ?thesis using r by (simp add: pool_inv_def)
qed

lemma threadpool_free_all_ok:
  "threadpool_free n all_ok = Inr (if n > 0 then None else Some [])"
  by (simp add: threadpool_free_def all_ok_def)

lemma ev_free_inv:
  assumes inv: "pool_inv s" and ex: "ev_free s = Some r"
  shows "\<exists>s'. r = Inr s' \<and> pool_inv s'"
proof -
  note D = pool_invD [OF inv]
  from ex obtain i err where m: "sy_main s = M_Join i err" and i: "\<not> int i < tp_thread_count (sy_pool s)"
    by (auto simp: ev_free_def split: mpc.splits if_splits)
  have n: "tp_started (sy_pool s) = alive (sy_workers s)" using D(2) m by (simp add: inv_count_def)
  define f where "f \<longleftrightarrow> \<not> err \<and> \<not> tp_started (sy_pool s) > 0"
  let ?s = "s\<lparr>sy_main := M_Done, sy_freed := f\<rparr>"
  have "\<not> sy_freed s" using D(5) m by (auto simp: inv_main_def)
  then have "s\<lparr>sy_main := M_Done\<rparr> = s\<lparr>sy_main := M_Done, sy_freed := False\<rparr>" by (cases s) simp
  then have r: "r = Inr ?s"
    using ex m i by (auto simp: ev_free_def threadpool_free_all_ok f_def split: if_splits)
  have f: "f \<Longrightarrow> \<not> tp_started (sy_pool s) > 0" by (simp add: f_def)
  have "f \<Longrightarrow> set (sy_workers s) \<subseteq> {W_Exit}"
    using f n alive_nonneg [of "sy_workers s"] by (simp flip: alive_0_iff)
  then have "inv_main ?s" using D(5) m by (auto simp: inv_main_def)
  moreover have "inv_lock ?s" "inv_wake ?s" "inv_count ?s" "inv_tasks ?s" "inv_join ?s"
    using D m by (simp_all add: inv_lock_def inv_wake_def inv_count_def inv_tasks_def inv_join_def)
  ultimately show ?thesis using r by (simp add: pool_inv_def)
qed

section \<open>Reachable states\<close>

lemma exec_inv:
  assumes "pool_inv s" and ex: "pool_exec e s = Some r"
  shows "\<exists>s'. r = Inr s' \<and> pool_inv s'"
proof (cases e)
  case (Ev_Destroy_Again flags)
  with ex ev_destroy_again_inv [OF assms(1)] show ?thesis by auto
qed (use ex ev_lock_inv [OF assms(1)] ev_check_inv [OF assms(1)] ev_done_inv [OF assms(1)]
    ev_spurious_inv [OF assms(1)] ev_add_inv [OF assms(1)] ev_create_inv [OF assms(1)]
    ev_count_inv [OF assms(1)] ev_destroy_inv [OF assms(1)] ev_join_inv [OF assms(1)]
    ev_free_inv [OF assms(1)] in simp_all)

lemma start_inv:
  assumes "threadpool_create env (int n) qsize = Inr (Create_Start p)"
  shows "pool_inv (start_sys n p)"
  using create_start_open [OF assms]
  by (simp add: pool_inv_def pool_inv_defs start_sys_def pool_open_def)

lemma reach_inv: "pool_reach n qsize s \<Longrightarrow> pool_inv s"
proof (induction rule: pool_reach.induct)
  case (start env p)
  then show ?case by (rule start_inv)
next
  case (step s e s')
  from step.hyps(2) have "pool_exec e s = Some (Inr s')" by (simp add: pool_step_iff)
  with exec_inv [OF step.IH] show ?case by fastforce
qed

end
