(* ===== verification/ThreadPoolProps.thy ===== *)
theory ThreadPoolProps
  imports ThreadPoolConc
begin

text \<open>
  What the interleaved thread pool guarantees in every reachable state: no step faults, tasks are
  neither lost, duplicated nor reordered, a pool that is being destroyed always gets there, and
  what happens when \<open>threadpool_destroy\<close> leaves its mutex locked.
\<close>

section \<open>Runs\<close>

lemma reach_run:
  "pool_reach n qsize s \<Longrightarrow> pool_run es s = Some (Inr s') \<Longrightarrow> pool_reach n qsize s'"
proof (induction es arbitrary: s)
  case Nil
  then show ?case by simp
next
  case (Cons e es)
  then obtain t where t: "pool_exec e s = Some (Inr t)" "pool_run es t = Some (Inr s')"
    by (auto split: option.splits sum.splits)
  with Cons.prems(1) have "pool_reach n qsize t" by (auto intro: pool_reach.step pool_step.exec)
  with t(2) Cons.IH show ?case by blast
qed

text \<open>A pool of one worker and two slots, from its creation on.\<close>

definition one_worker :: "(nat, nat) psys" where
  "one_worker = start_sys 1 (fresh_pool 2)"

lemma one_worker_reach: "pool_reach 1 2 one_worker"
  unfolding one_worker_def by (rule pool_reach.start [of all_ok]) (simp add: create_all_ok)

lemmas run_simps = one_worker_def start_sys_def fresh_pool_def ev_lock_def ev_check_def ev_done_def
  ev_spurious_def ev_add_def ev_create_def ev_count_def ev_destroy_def ev_destroy_again_def
  ev_join_def ev_free_def worker_at_def set_worker_def must_wait_def must_exit_def grab_task_def
  worker_exit_def threadpool_add_def add_section_def destroy_section_def threadpool_codes
  wake_all_def Let_def aget_def aset_def threadpool_free_all_ok numeral_2_eq_2

section \<open>Safety\<close>

text \<open>
  C5. No thread of the pool ever faults: in no interleaving does a worker touch the pool after it
  was freed, read a task slot that was not filled, or index outside the task array.
\<close>
theorem pool_no_fault:
  assumes "pool_reach n qsize s"
  shows "pool_exec e s \<noteq> Some (Inl f)"
proof
  assume "pool_exec e s = Some (Inl f)"
  from exec_inv [OF reach_inv [OF assms] this] show False by simp
qed

theorem pool_no_fault_witness: "pool_exec (Ev_Check 0) one_worker \<noteq> Some (Inl Uninit_Read)"
  by (rule pool_no_fault [OF one_worker_reach])

text \<open>
  C1. The task ledger. The tasks accepted are, in order, those handed to workers followed by those
  pending; every task handed out is either finished or being run by exactly one worker; at most
  one worker is in its critical section; and the pool's counters are right: \<open>started\<close> is the
  number of workers that have not exited and \<open>count\<close> the number of pending tasks, once the
  creating thread has counted the last worker.
\<close>
theorem pool_ledger:
  assumes "pool_reach n qsize s"
  shows "sy_accepted s = sy_grabbed s @ pending (sy_pool s) \<and>
    mset (sy_grabbed s) = mset (sy_finished s) + running (sy_workers s) \<and>
    (\<forall>i j. worker_at s i = Some W_Check \<and> worker_at s j = Some W_Check \<longrightarrow> i = j) \<and>
    tp_count (sy_pool s) = int (length (pending (sy_pool s))) \<and>
    tp_started (sy_pool s) = alive (sy_workers s) - uncounted (sy_main s)"
proof -
  note D = pool_invD [OF reach_inv [OF assms]]
  have "i = j" if "worker_at s i = Some W_Check" "worker_at s j = Some W_Check" for i j
  proof -
    from that D(1) have "sy_lock s = Some (By_Worker i)" "sy_lock s = Some (By_Worker j)"
      by (auto simp: inv_lock_def worker_at_iff)
    then show ?thesis by simp
  qed
  then show ?thesis
    using D(2,3) length_pending [OF D(7)] by (auto simp: inv_tasks_def inv_count_def)
qed

text \<open>The schedule of one task: start the worker, add the task, run it, shut down, join, free.\<close>

definition one_task :: "(nat, nat) event list" where
  "one_task = [Ev_Create True, Ev_Count, Ev_Lock 0, Ev_Check 0, Ev_Add 5 7 (Some 0), Ev_Lock 0,
     Ev_Check 0, Ev_Destroy 1 True True, Ev_Done 0, Ev_Lock 0, Ev_Check 0, Ev_Join True, Ev_Free]"

definition one_task_end :: "(nat, nat) psys" where
  "one_task_end = \<lparr>sy_pool = \<lparr>tp_queue = [Some \<lparr>tt_function = 5, tt_argument = 7\<rparr>, None],
      tp_thread_count = 1, tp_queue_size = 2, tp_head = 1, tp_tail = 1, tp_count = 0,
      tp_shutdown = 2, tp_started = 0\<rparr>, sy_lock = None, sy_workers = [W_Exit], sy_main = M_Done,
     sy_freed = True, sy_accepted = [\<lparr>tt_function = 5, tt_argument = 7\<rparr>],
     sy_grabbed = [\<lparr>tt_function = 5, tt_argument = 7\<rparr>],
     sy_finished = [\<lparr>tt_function = 5, tt_argument = 7\<rparr>]\<rparr>"

lemma one_task_run: "pool_run one_task one_worker = Some (Inr one_task_end)"
  by (simp add: one_task_def one_task_end_def run_simps)

lemma one_task_reach: "pool_reach 1 2 one_task_end"
  using reach_run [OF one_worker_reach one_task_run] .

theorem pool_ledger_witness:
  "sy_accepted one_task_end = sy_grabbed one_task_end @ pending (sy_pool one_task_end)"
  using pool_ledger [OF one_task_reach] by blast

text \<open>
  C3. When the pool has been freed every worker has exited, and the kind of shutdown decides what
  became of the tasks: after a graceful one exactly the accepted tasks were run, after an
  immediate one exactly those accepted and not left in the queue.
\<close>
theorem pool_freed_outcome:
  assumes "pool_reach n qsize s" and "sy_freed s"
  shows "set (sy_workers s) \<subseteq> {W_Exit} \<and>
    mset (sy_accepted s) = mset (sy_finished s) + mset (pending (sy_pool s)) \<and>
    (tp_shutdown (sy_pool s) = graceful_shutdown \<and> sy_workers s \<noteq> []
       \<longrightarrow> pending (sy_pool s) = [] \<and> mset (sy_finished s) = mset (sy_accepted s))"
proof -
  note D = pool_invD [OF reach_inv [OF assms(1)]]
  have exited: "set (sy_workers s) \<subseteq> {W_Exit}" using D(5) assms(2) by (simp add: inv_main_def)
  then have "running (sy_workers s) = {#}"
    by (induction "sy_workers s") (auto simp: running_def)
  then have ledger: "mset (sy_accepted s) = mset (sy_finished s) + mset (pending (sy_pool s))"
    using D(3) by (simp add: inv_tasks_def)
  moreover have "pending (sy_pool s) = []"
    if "tp_shutdown (sy_pool s) = graceful_shutdown" "sy_workers s \<noteq> []"
  proof -
    from exited that(2) have "W_Exit \<in> set (sy_workers s)" by (cases "sy_workers s") auto
    with D(4) that(1) have "tp_count (sy_pool s) = 0" by (simp add: inv_wake_def)
    then show ?thesis using pending_Nil_iff [OF D(7)] by simp
  qed
  ultimately show ?thesis using exited by auto
qed

theorem pool_freed_outcome_witness:
  "mset (sy_finished one_task_end) = mset (sy_accepted one_task_end)"
  using pool_freed_outcome [OF one_task_reach]
  by (simp add: one_task_end_def threadpool_codes)

section \<open>A mutex left locked\<close>

lemma stuck_step:
  assumes inv: "pool_inv s" and held: "sy_lock s = Some By_Caller"
    and ex: "pool_exec e s = Some (Inr s')"
  shows "sy_lock s' = Some By_Caller \<and> sy_freed s' = sy_freed s \<and>
    sy_grabbed s' = sy_grabbed s \<and> sy_accepted s' = sy_accepted s \<and>
    (\<forall>i. worker_at s' i = Some W_Exit \<longleftrightarrow> worker_at s i = Some W_Exit)"
proof -
  have main: "joining (sy_main s) \<or> sy_main s = M_Done"
    using pool_invD(1) [OF inv] held by (simp add: inv_lock_def)
  have nocheck: "worker_at s i \<noteq> Some W_Check" for i
    using pool_invD(1) [OF inv] held by (auto simp: inv_lock_def worker_at_iff)
  show ?thesis
    using ex main held nocheck
    by (cases e)
      (auto simp: ev_lock_def ev_check_def ev_done_def ev_spurious_def ev_add_def ev_create_def
        ev_count_def ev_destroy_def ev_destroy_again_def ev_join_def ev_free_def
        threadpool_free_all_ok worker_at_def nth_list_update
        split: if_splits option.splits wpc.splits mpc.splits nat.splits)
qed

text \<open>
  Both error exits of the locked part of \<open>threadpool_destroy\<close> return with the mutex held:
  a second call while the first is joining, or a broadcast that fails. From then on nothing
  moves: no task is taken or accepted any more, no worker exits, and the pool is never freed, so
  the first call waits for ever for the workers that have not exited.
\<close>
theorem pool_destroy_leaks_lock:
  assumes "pool_reach n qsize s" and "sy_lock s = Some By_Caller"
    and "pool_run es s = Some (Inr s')"
  shows "sy_lock s' = Some By_Caller \<and> sy_freed s' = sy_freed s \<and>
    sy_grabbed s' = sy_grabbed s \<and> sy_accepted s' = sy_accepted s \<and>
    (\<forall>i. worker_at s' i = Some W_Exit \<longleftrightarrow> worker_at s i = Some W_Exit)"
  using reach_inv [OF assms(1)] assms(2,3)
proof (induction es arbitrary: s)
  case Nil
  then show ?case by simp
next
  case (Cons e es)
  then obtain t where t: "pool_exec e s = Some (Inr t)" "pool_run es t = Some (Inr s')"
    by (auto split: option.splits sum.splits)
  have "pool_inv t" using exec_inv [OF Cons.prems(1) t(1)] by simp
  with Cons.IH [of t] stuck_step [OF Cons.prems(1,2) t(1)] t(2) show ?case by simp
qed

lemma not_freed_before:
  assumes "pool_inv s" "joining (sy_main s) \<or> sy_main s = M_Ready \<or> sy_main s = M_Abort"
  shows "\<not> sy_freed s"
  using pool_invD(5) [OF assms(1)] assms(2) by (auto simp: inv_main_def)

text \<open>Which calls leave the mutex locked, and that the pool has not been freed then.\<close>

lemma leak_origin:
  assumes inv: "pool_inv s" and "sy_lock s \<noteq> Some By_Caller"
    and ex: "pool_exec e s = Some (Inr s')" and held: "sy_lock s' = Some By_Caller"
  shows "((\<exists>flags. e = Ev_Destroy_Again flags) \<or> (\<exists>flags b u. e = Ev_Destroy flags b u \<and> \<not> (b \<and> u))) \<and>
    \<not> sy_freed s'"
proof -
  note D = pool_invD(5) [OF inv]
  have "(\<exists>flags. e = Ev_Destroy_Again flags) \<or> (\<exists>flags b u. e = Ev_Destroy flags b u)"
    using ex held assms(2)
    by (cases e)
      (auto simp: ev_lock_def ev_check_def ev_done_def ev_spurious_def ev_add_def ev_create_def
        ev_count_def ev_join_def ev_free_def threadpool_free_all_ok cbind_def Let_def
        split: if_splits option.splits wpc.splits mpc.splits nat.splits sum.splits prod.splits)
  then show ?thesis
  proof (elim disjE exE)
    fix flags assume e: "e = Ev_Destroy_Again flags"
    with ex have "joining (sy_main s)" "sy_freed s' = sy_freed s"
      by (auto simp: ev_destroy_again_def Let_def split: if_splits prod.splits)
    with not_freed_before [OF inv] e show ?thesis by auto
  next
    fix flags b u assume e: "e = Ev_Destroy flags b u"
    with ex have m: "sy_main s = M_Ready \<or> sy_main s = M_Abort" "sy_freed s' = sy_freed s"
      by (auto simp: ev_destroy_def Let_def split: if_splits prod.splits)
    with D have "tp_shutdown (sy_pool s) = 0" by (auto simp: inv_main_def)
    with ex held e have "\<not> (b \<and> u)"
      by (auto simp: ev_destroy_def destroy_section_def Let_def split: if_splits)
    with not_freed_before [OF inv] m e show ?thesis by auto
  qed
qed

lemma leaked_not_freed:
  "pool_reach n qsize s \<Longrightarrow> sy_lock s = Some By_Caller \<Longrightarrow> \<not> sy_freed s"
proof (induction rule: pool_reach.induct)
  case (start env p)
  then show ?case by (simp add: start_sys_def)
next
  case (step s e s')
  from step.hyps(2) have ex: "pool_exec e s = Some (Inr s')" by (simp add: pool_step_iff)
  note inv = reach_inv [OF step.hyps(1)]
  show ?case
  proof (cases "sy_lock s = Some By_Caller")
    case True
    with stuck_step [OF inv True ex] step.IH show ?thesis by simp
  next
    case False
    from leak_origin [OF inv False ex step.prems] show ?thesis by blast
  qed
qed

definition destroyed_twice :: "(nat, nat) psys" where
  "destroyed_twice = \<lparr>sy_pool = \<lparr>tp_queue = [None, None], tp_thread_count = 1, tp_queue_size = 2,
      tp_head = 0, tp_tail = 0, tp_count = 0, tp_shutdown = 1, tp_started = 1\<rparr>,
     sy_lock = Some By_Caller, sy_workers = [W_Woken], sy_main = M_Join 0 False, sy_freed = False,
     sy_accepted = [], sy_grabbed = [], sy_finished = []\<rparr>"

lemma destroyed_twice_reach: "pool_reach 1 2 destroyed_twice"
  by (rule reach_run [OF one_worker_reach, where es = "[Ev_Create True, Ev_Count, Ev_Lock 0,
      Ev_Check 0, Ev_Destroy 0 True True, Ev_Destroy_Again 0]"])
    (simp add: destroyed_twice_def run_simps)

lemma destroyed_twice_run: "pool_run [Ev_Join False, Ev_Free] destroyed_twice =
    Some (Inr (destroyed_twice\<lparr>sy_main := M_Done\<rparr>))"
  by (simp add: destroyed_twice_def run_simps)

theorem pool_destroy_leaks_lock_witness:
  "\<not> sy_freed (destroyed_twice\<lparr>sy_main := M_Done\<rparr>)"
  using pool_destroy_leaks_lock [OF destroyed_twice_reach _ destroyed_twice_run]
  by (simp add: destroyed_twice_def)

section \<open>Progress\<close>

text \<open>The steps that workers and the joining thread take by themselves.\<close>

fun closing :: "('f, 'a) event \<Rightarrow> bool" where
  "closing (Ev_Lock i) = True"
| "closing (Ev_Check i) = True"
| "closing (Ev_Done i) = True"
| "closing (Ev_Join ok) = ok"
| "closing Ev_Free = True"
| "closing _ = False"

lemma lock_enabled:
  assumes "pool_inv s" "worker_at s i = Some w" "w = W_Start \<or> w = W_Woken" "sy_lock s = None"
  shows "\<exists>s'. pool_exec (Ev_Lock i) s = Some (Inr s')"
proof -
  from assms(3) have "w \<noteq> W_Exit" by auto
  from inv_not_freed [OF assms(1,2) this] assms(2-4) show ?thesis by (auto simp: ev_lock_def)
qed

lemma check_enabled:
  assumes "pool_inv s" "sy_lock s = Some (By_Worker i)"
  shows "\<exists>s'. pool_exec (Ev_Check i) s = Some (Inr s')"
proof -
  from assms have "worker_at s i = Some W_Check"
    by (auto simp: pool_inv_def inv_lock_def worker_at_def)
  then obtain r where "ev_check i s = Some r" by (cases "ev_check i s") (auto simp: ev_check_def split: if_splits)
  with ev_check_inv [OF assms(1) this] show ?thesis by auto
qed

text \<open>A worker that neither waits nor has exited can always move, unless a caller kept the mutex.\<close>

lemma worker_enabled:
  assumes inv: "pool_inv s" and w: "worker_at s i = Some w" "w \<noteq> W_Wait" "w \<noteq> W_Exit"
    and lock: "sy_lock s \<noteq> Some By_Caller"
  shows "\<exists>e s'. closing e \<and> pool_exec e s = Some (Inr s')"
proof (cases "sy_lock s")
  case None
  with inv w have "w \<noteq> W_Check" by (auto simp: pool_inv_def inv_lock_def worker_at_iff)
  with w consider (Start) "w = W_Start \<or> w = W_Woken" | (Run) t where "w = W_Run t"
    by (cases w) auto
  then show ?thesis
  proof cases
    case Start
    from lock_enabled [OF inv w(1) this None] show ?thesis
      by (meson closing.simps(1))
  next
    case Run
    with w(1) have "\<exists>s'. pool_exec (Ev_Done i) s = Some (Inr s')" by (simp add: ev_done_def)
    then show ?thesis by (meson closing.simps(3))
  qed
next
  case (Some ow)
  with lock obtain j where "sy_lock s = Some (By_Worker j)" by (cases ow) auto
  from check_enabled [OF inv this] show ?thesis by (meson closing.simps(2))
qed

lemma pool_can_move:
  assumes inv: "pool_inv s" and "sy_lock s \<noteq> Some By_Caller"
    and "joining (sy_main s) \<or> tp_count (sy_pool s) > 0 \<and> sy_workers s \<noteq> [] \<and> sy_main s \<noteq> M_Done"
  shows "\<exists>e s'. closing e \<and> pool_exec e s = Some (Inr s')"
proof (cases "\<exists>i w. worker_at s i = Some w \<and> w \<noteq> W_Wait \<and> w \<noteq> W_Exit")
  case True
  with worker_enabled [OF inv _ _ _ assms(2)] show ?thesis by blast
next
  case False
  note D = pool_invD [OF inv]
  have all: "w = W_Wait \<or> w = W_Exit" if w: "w \<in> set (sy_workers s)" for w
  proof -
    from w obtain i where "worker_at s i = Some w" by (auto simp: worker_at_iff in_set_conv_nth)
    with False show ?thesis by blast
  qed
  have "joining (sy_main s)"
  proof (rule ccontr)
    assume no: "\<not> joining (sy_main s)"
    with assms(3) have c: "tp_count (sy_pool s) > 0" "sy_workers s \<noteq> []" "sy_main s \<noteq> M_Done" by auto
    with D(5) no have "tp_shutdown (sy_pool s) = 0" by (auto simp: inv_main_def)
    with D(4) c all show False by (auto simp: inv_wake_def)
  qed
  then obtain i err where m: "sy_main s = M_Join i err" by (auto simp: joining_iff)
  then have "tp_shutdown (sy_pool s) \<noteq> 0" using D(5) by (auto simp: inv_main_def)
  then have exited: "set (sy_workers s) \<subseteq> {W_Exit}"
    using D(4) assms(2) all by (auto simp: inv_wake_def)
  have n: "tp_thread_count (sy_pool s) = int (length (sy_workers s))"
    "tp_started (sy_pool s) = alive (sy_workers s)" using D(2) m by (simp_all add: inv_count_def)
  show ?thesis
  proof (cases "i < length (sy_workers s)")
    case True
    with exited have "worker_at s i = Some W_Exit" by (auto simp: worker_at_iff dest: nth_mem)
    with True m n(1) have "pool_exec (Ev_Join True) s = Some (Inr (s\<lparr>sy_main := M_Join (Suc i) err\<rparr>))"
      by (simp add: ev_join_def)
    then show ?thesis by (intro exI [of _ "Ev_Join True"]) simp
  next
    case False
    have "sy_lock s = None"
    proof (cases "sy_lock s")
      case (Some ow)
      then obtain j where "ow = By_Worker j" using assms(2) by (cases ow) auto
      with Some D(1) have "j < length (sy_workers s)" "sy_workers s ! j = W_Check"
        by (auto simp: inv_lock_def)
      then show ?thesis using exited by (auto dest: nth_mem)
    qed
    moreover have "tp_started (sy_pool s) = 0" using n(2) exited by (simp add: alive_0_iff)
    ultimately have "pool_exec Ev_Free s = Some (Inr (if err then s\<lparr>sy_main := M_Done\<rparr>
        else s\<lparr>sy_main := M_Done, sy_freed := True\<rparr>))"
      using False m n(1) by (simp add: ev_free_def threadpool_free_all_ok del: not_less)
    then show ?thesis by (intro exI [of _ Ev_Free]) simp
  qed
qed





section \<open>Termination of the shutdown\<close>

text \<open>
  A bound on the steps left after shutdown: a worker that exits, checks, is about to lock or runs
  a task has at most 0, 1, 2 or 3 steps before its next look at the queue, a pending task adds
  at most 4, and the joining thread has one step per worker and one to free the pool.
\<close>

fun weight :: "('f, 'a) wpc \<Rightarrow> nat" where
  "weight W_Exit = 0"
| "weight W_Check = 1"
| "weight W_Start = 2"
| "weight W_Woken = 2"
| "weight W_Wait = 3"
| "weight (W_Run t) = 3"

definition join_left :: "mpc \<Rightarrow> nat \<Rightarrow> nat" where
  "join_left m n = (case m of M_Join i err \<Rightarrow> Suc (n - i) | _ \<Rightarrow> 0)"

definition shutdown_bound :: "('f, 'a) psys \<Rightarrow> nat" where
  "shutdown_bound s = sum_list (map weight (sy_workers s)) + 4 * length (pending (sy_pool s))
     + join_left (sy_main s) (length (sy_workers s))"

lemma weight_update:
  assumes "i < length ws" "weight w + k < weight (ws ! i) + l"
  shows "sum_list (map weight (ws[i := w])) + k < sum_list (map weight ws) + l"
proof -
  from assms(1) obtain xs v ys where ws: "ws = xs @ v # ys" "length xs = i"
    by (metis id_take_nth_drop length_take min.absorb2 order_less_imp_le)
  with assms(2) show ?thesis by (simp add: nth_append list_update_append)
qed

lemma closing_decreases:
  assumes inv: "pool_inv s" and down: "tp_shutdown (sy_pool s) \<noteq> 0"
    and e: "closing e" "pool_exec e s = Some (Inr s')"
  shows "shutdown_bound s' < shutdown_bound s"
proof -
  note D = pool_invD [OF inv]
  from e(1) consider (Lock) i where "e = Ev_Lock i" | (Check) i where "e = Ev_Check i"
    | (Done) i where "e = Ev_Done i" | (Join) "e = Ev_Join True" | (Free) "e = Ev_Free"
    by (cases e rule: closing.cases) auto
  then show ?thesis
  proof cases
    case Lock
    with e(2) have i: "i < length (sy_workers s)" "weight (sy_workers s ! i) = 2"
      and s': "s' = set_worker i W_Check (s\<lparr>sy_lock := Some (By_Worker i)\<rparr>)"
      by (auto simp: ev_lock_def worker_at_def split: if_splits)
    from weight_update [OF i(1), of W_Check 0 0] i(2) show ?thesis
      by (simp add: shutdown_bound_def s')
  next
    case Done
    with e(2) obtain t where i: "i < length (sy_workers s)" "sy_workers s ! i = W_Run t"
      and s': "s' = set_worker i W_Start (s\<lparr>sy_finished := sy_finished s @ [t]\<rparr>)"
      by (auto simp: ev_done_def worker_at_def split: if_splits wpc.splits)
    from weight_update [OF i(1), of W_Start 0 0] i(2) show ?thesis
      by (simp add: shutdown_bound_def s')
  next
    case Check
    with e(2) have v: "worker_at s i = Some W_Check" by (auto simp: ev_check_def split: if_splits)
    then have i: "i < length (sy_workers s)" "sy_workers s ! i = W_Check" by (simp_all add: worker_at_iff)
    have live: "\<not> sy_freed s" by (rule inv_not_freed [OF inv v]) simp
    have nw: "\<not> must_wait (sy_pool s)" using down by (simp add: must_wait_def)
    show ?thesis
    proof (cases "must_exit (sy_pool s)")
      case True
      then have "s' = set_worker i W_Exit (s\<lparr>sy_lock := None, sy_pool := worker_exit (sy_pool s)\<rparr>)"
        using Check e(2) v live nw by (simp add: ev_check_def)
      with weight_update [OF i(1), of W_Exit 0 0] i(2) show ?thesis
        by (simp add: shutdown_bound_def worker_exit_def)
    next
      case False
      then have "tp_count (sy_pool s) \<noteq> 0"
        using D(5) down by (auto simp: must_exit_def inv_main_def)
      from grab_task_ok [OF D(7) this] obtain t p' where g: "grab_task (sy_pool s) = Inr (t, p')"
        "pending (sy_pool s) = t # pending p'" by metis
      then have "s' = set_worker i (W_Run t) (s\<lparr>sy_lock := None, sy_pool := p',
          sy_grabbed := sy_grabbed s @ [t]\<rparr>)"
        using Check e(2) v live nw False by (simp add: ev_check_def)
      with weight_update [OF i(1), of "W_Run t" 0 4] i(2) g(2) show ?thesis
        by (simp add: shutdown_bound_def)
    qed
  next
    case Join
    with e(2) obtain i err where m: "sy_main s = M_Join i err" "int i < tp_thread_count (sy_pool s)"
      and s': "s' = s\<lparr>sy_main := M_Join (Suc i) err\<rparr>"
      by (auto simp: ev_join_def split: mpc.splits if_splits)
    with D(2) have "i < length (sy_workers s)" by (simp add: inv_count_def)
    with m(1) show ?thesis by (simp add: shutdown_bound_def join_left_def s')
  next
    case Free
    with e(2) obtain i err where m: "sy_main s = M_Join i err"
      and s': "sy_workers s' = sy_workers s" "sy_pool s' = sy_pool s" "sy_main s' = M_Done"
      by (auto simp: ev_free_def threadpool_free_all_ok split: mpc.splits if_splits)
    then show ?thesis by (simp add: shutdown_bound_def join_left_def)
  qed
qed

lemma grab_shutdown: "grab_task p = Inr (t, p') \<Longrightarrow> tp_shutdown p' = tp_shutdown p"
  by (auto simp: grab_task_def Let_def split: option.splits)

text \<open>The steps of the pool's own threads: all but calls that clients make.\<close>

fun inside :: "('f, 'a) event \<Rightarrow> bool" where
  "inside (Ev_Add f a wake) = False"
| "inside (Ev_Destroy flags b u) = False"
| "inside (Ev_Destroy_Again flags) = False"
| "inside _ = True"

fun again :: "('f, 'a) event \<Rightarrow> bool" where
  "again (Ev_Destroy_Again flags) = True"
| "again _ = False"

text \<open>The calling thread is joining or has returned; it has freed the pool if no join failed.\<close>

definition closing_main :: "bool \<Rightarrow> ('f, 'a) psys \<Rightarrow> bool" where
  "closing_main err s \<longleftrightarrow> (\<exists>i. sy_main s = M_Join i err) \<or> sy_main s = M_Done \<and> sy_freed s = (\<not> err)"

definition shutting :: "bool \<Rightarrow> ('f, 'a) psys \<Rightarrow> bool" where
  "shutting err s \<longleftrightarrow> pool_inv s \<and> tp_shutdown (sy_pool s) \<noteq> 0 \<and> sy_lock s \<noteq> Some By_Caller \<and>
     closing_main err s"

lemma free_frees:
  assumes inv: "pool_inv s" and m: "sy_main s = M_Join i False"
    and e: "ev_free s = Some (Inr s')"
  shows "sy_freed s'"
proof -
  note D = pool_invD [OF inv]
  have n: "tp_thread_count (sy_pool s) = int (length (sy_workers s))"
    "tp_started (sy_pool s) = alive (sy_workers s)" using D(2) m by (simp_all add: inv_count_def)
  from e m n(1) have "\<not> i < length (sy_workers s)" by (auto simp: ev_free_def split: if_splits)
  with D(6) m have "set (sy_workers s) \<subseteq> {W_Exit}"
    by (auto simp: inv_join_def in_set_conv_nth)
  then have "tp_started (sy_pool s) = 0" using n(2) by (simp add: alive_0_iff)
  with e m n(1) show ?thesis
    by (auto simp: ev_free_def threadpool_free_all_ok split: if_splits)
qed

text \<open>A client's \<open>threadpool_add\<close> is turned away while the pool is shutting down.\<close>

lemma add_refused:
  assumes "tp_shutdown (sy_pool s) \<noteq> 0" "ev_add f a wake s = Some (Inr s')"
  shows "s' = s"
  using assms
  by (auto simp: ev_add_def threadpool_add_def add_section_def threadpool_codes Let_def
      split: if_splits option.splits)

lemma join_fails:
  assumes inv: "pool_inv s" and "ev_join False s = Some (Inr s')"
  shows "shutdown_bound s' < shutdown_bound s \<and> (\<exists>i. sy_main s' = M_Join i True) \<and>
    sy_pool s' = sy_pool s \<and> sy_lock s' = sy_lock s"
proof -
  from assms(2) obtain i err where m: "sy_main s = M_Join i err" "int i < tp_thread_count (sy_pool s)"
    and s': "s' = s\<lparr>sy_main := M_Join (Suc i) True\<rparr>"
    by (auto simp: ev_join_def split: mpc.splits if_splits)
  with pool_invD(2) [OF inv] have "i < length (sy_workers s)" by (simp add: inv_count_def)
  with m(1) show ?thesis by (simp add: shutdown_bound_def join_left_def s')
qed

lemma closing_event_step:
  assumes sh: "shutting err s" and e: "closing e" "pool_exec e s = Some (Inr s')"
  shows "shutting err s' \<and> shutdown_bound s' < shutdown_bound s"
proof -
  from sh have inv: "pool_inv s" and down: "tp_shutdown (sy_pool s) \<noteq> 0"
    and lock: "sy_lock s \<noteq> Some By_Caller" and m: "closing_main err s" by (auto simp: shutting_def)
  have "tp_shutdown (sy_pool s') \<noteq> 0 \<and> sy_lock s' \<noteq> Some By_Caller" using e down lock
    by (cases e rule: closing.cases)
      (auto simp: ev_lock_def ev_check_def ev_done_def ev_join_def ev_free_def worker_exit_def
        threadpool_free_all_ok dest: grab_shutdown split: if_splits option.splits wpc.splits mpc.splits)
  moreover have "closing_main err s'"
  proof (cases "e = Ev_Free")
    case True
    from m obtain i where "sy_main s = M_Join i err"
      using True e(2) by (auto simp: closing_main_def ev_free_def)
    moreover have "\<not> sy_freed s" using not_freed_before [OF inv] calculation by simp
    ultimately show ?thesis using True e(2) free_frees [OF inv, of i s']
      by (cases err) (auto simp: closing_main_def ev_free_def threadpool_free_all_ok split: if_splits)
  next
    case False
    with e m show ?thesis
      by (cases e rule: closing.cases)
        (auto simp: closing_main_def ev_lock_def ev_check_def ev_done_def ev_join_def
          split: if_splits option.splits wpc.splits)
  qed
  ultimately show ?thesis
    using exec_inv [OF inv e(2)] closing_decreases [OF inv down e] by (auto simp: shutting_def)
qed

lemma shutting_step:
  assumes sh: "shutting err s" and no: "\<not> again e" and ex: "pool_exec e s = Some (Inr s')"
  shows "shutting (err \<or> e = Ev_Join False) s' \<and>
    (if inside e then shutdown_bound s' < shutdown_bound s else s' = s)"
proof (cases "closing e")
  case True
  then have "e \<noteq> Ev_Join False" "inside e" by (auto elim: closing.elims)
  with closing_event_step [OF sh True ex] show ?thesis by simp
next
  case False
  from sh have inv: "pool_inv s" and down: "tp_shutdown (sy_pool s) \<noteq> 0"
    and lock: "sy_lock s \<noteq> Some By_Caller" and m: "closing_main err s" by (auto simp: shutting_def)
  then have main: "joining (sy_main s) \<or> sy_main s = M_Done" by (auto simp: closing_main_def)
  have "W_Wait \<notin> set (sy_workers s)" using pool_invD(4) [OF inv] down lock by (simp add: inv_wake_def)
  then have "worker_at s i \<noteq> Some W_Wait" for i by (auto simp: worker_at_iff dest: nth_mem)
  with False no ex main consider (Add) f a w where "e = Ev_Add f a w" | (Join) "e = Ev_Join False"
    by (cases e) (auto simp: ev_spurious_def ev_create_def ev_count_def ev_destroy_def joining_iff
        split: if_splits)
  then show ?thesis
  proof cases
    case Add
    with ex add_refused [OF down] have "s' = s" by simp
    with sh Add show ?thesis by simp
  next
    case Join
    with ex have "ev_join False s = Some (Inr s')" by simp
    from join_fails [OF inv this] down lock have "shutting True s'" "shutdown_bound s' < shutdown_bound s"
      using exec_inv [OF inv ex] by (simp_all add: shutting_def closing_main_def)
    with Join show ?thesis by simp
  qed
qed

lemma shutting_run:
  assumes "shutting err s" "\<not> list_ex again es" "pool_run es s = Some (Inr s')"
  shows "shutting (err \<or> Ev_Join False \<in> set es) s' \<and>
    length (filter inside es) + shutdown_bound s' \<le> shutdown_bound s"
  using assms
proof (induction es arbitrary: s err)
  case Nil
  then show ?case by simp
next
  case (Cons e es)
  then obtain t where t: "pool_exec e s = Some (Inr t)" "pool_run es t = Some (Inr s')"
    by (auto split: option.splits sum.splits)
  from Cons.prems(2) have no: "\<not> again e" "\<not> list_ex again es" by simp_all
  note st = shutting_step [OF Cons.prems(1) no(1) t(1)]
  from Cons.IH [OF conjunct1 [OF st] no(2) t(2)] conjunct2 [OF st]
  show ?case by (cases "Ev_Join False = e") (auto split: if_splits)
qed

lemma again_leaks:
  assumes "pool_inv s" "pool_exec e s = Some (Inr s')" "again e"
  shows "sy_lock s' = Some By_Caller"
  using assms pool_invD(5) [OF assms(1)]
  by (cases e rule: again.cases)
    (auto simp: ev_destroy_again_def destroy_section_def inv_main_def Let_def split: if_splits)

lemma again_run:
  assumes "pool_inv s" "list_ex again es \<or> sy_lock s = Some By_Caller" "pool_run es s = Some (Inr s')"
  shows "sy_lock s' = Some By_Caller"
  using assms
proof (induction es arbitrary: s)
  case Nil
  then show ?case by simp
next
  case (Cons e es)
  then obtain t where t: "pool_exec e s = Some (Inr t)" "pool_run es t = Some (Inr s')"
    by (auto split: option.splits sum.splits)
  have inv: "pool_inv t" using exec_inv [OF Cons.prems(1) t(1)] by simp
  have "list_ex again es \<or> sy_lock t = Some By_Caller"
    using Cons.prems(2) again_leaks [OF Cons.prems(1) t(1)] stuck_step [OF Cons.prems(1) _ t(1)] by auto
  from Cons.IH [OF inv this t(2)] show ?case .
qed

lemma destroy_starts:
  assumes inv: "pool_inv s" and ex: "pool_exec (Ev_Destroy flags b u) s = Some (Inr t)"
  shows "if b \<and> u then shutting False t else sy_lock t = Some By_Caller"
proof -
  from ex have "sy_main s = M_Ready \<or> sy_main s = M_Abort"
    by (auto simp: ev_destroy_def split: if_splits)
  with pool_invD(5) [OF inv] have "tp_shutdown (sy_pool s) = 0" by (auto simp: inv_main_def)
  with ex exec_inv [OF inv ex] show ?thesis
    by (auto simp: ev_destroy_def destroy_section_def threadpool_codes shutting_def closing_main_def
        Let_def split: if_splits)
qed

text \<open>
  C2. \<open>threadpool_destroy\<close> completes, with the exceptions. From the call on, and whatever the
  workers (whose tasks end), the joining thread and other callers do: if broadcast and unlock
  succeed and nobody calls \<open>threadpool_destroy\<close> a second time, the pool's threads take at most
  \<open>shutdown_bound\<close> steps, \<open>threadpool_add\<close> changes nothing, until the call has returned some
  thread can take a step, and when it has returned the pool is freed if and only if no
  \<open>pthread_join\<close> failed. If the broadcast or the unlock fails, or there is a second call while
  the first one joins, the mutex stays locked and the pool is never freed.
\<close>
theorem pool_destroy_completes:
  assumes "pool_reach n qsize s" and "pool_exec (Ev_Destroy flags b u) s = Some (Inr t)"
    and "pool_run es t = Some (Inr s')"
  shows "if b \<and> u \<and> \<not> list_ex again es
    then length (filter inside es) \<le> shutdown_bound t \<and>
      (if sy_main s' = M_Done then sy_freed s' = (Ev_Join False \<notin> set es)
       else \<exists>e s''. closing e \<and> pool_exec e s' = Some (Inr s''))
    else sy_lock s' = Some By_Caller \<and> \<not> sy_freed s'"
proof -
  from reach_run [OF assms(1), of "[Ev_Destroy flags b u]"] assms(2)
  have reach: "pool_reach n qsize t" by simp
  note inv = reach_inv [OF reach]
  note start = destroy_starts [OF reach_inv [OF assms(1)] assms(2)]
  show ?thesis
  proof (cases "b \<and> u \<and> \<not> list_ex again es")
    case True
    with start have "shutting False t" by simp
    from shutting_run [OF this _ assms(3)] True
    have r: "shutting (Ev_Join False \<in> set es) s'" "length (filter inside es) \<le> shutdown_bound t"
      by auto
    have "\<exists>e s''. closing e \<and> pool_exec e s' = Some (Inr s'')" if "sy_main s' \<noteq> M_Done"
      using r(1) that pool_can_move [of s'] by (auto simp: shutting_def closing_main_def)
    with True r show ?thesis by (auto simp: shutting_def closing_main_def)
  next
    case False
    with start have "list_ex again es \<or> sy_lock t = Some By_Caller" by (auto split: if_splits)
    from again_run [OF inv this assms(3)] leaked_not_freed [OF reach_run [OF reach assms(3)]] False
    show ?thesis by auto
  qed
qed

definition one_task_closing :: "(nat, nat) psys" where
  "one_task_closing = \<lparr>sy_pool = \<lparr>tp_queue = [Some \<lparr>tt_function = 5, tt_argument = 7\<rparr>, None],
      tp_thread_count = 1, tp_queue_size = 2, tp_head = 1, tp_tail = 1, tp_count = 0,
      tp_shutdown = 2, tp_started = 1\<rparr>, sy_lock = None,
     sy_workers = [W_Run \<lparr>tt_function = 5, tt_argument = 7\<rparr>], sy_main = M_Join 0 False,
     sy_freed = False, sy_accepted = [\<lparr>tt_function = 5, tt_argument = 7\<rparr>],
     sy_grabbed = [\<lparr>tt_function = 5, tt_argument = 7\<rparr>], sy_finished = []\<rparr>"

lemma one_task_closing_reach: "pool_reach 1 2 one_task_closing"
  by (rule reach_run [OF one_worker_reach, where es = "take 8 one_task"])
    (simp add: one_task_def one_task_closing_def run_simps eval_nat_numeral)

definition one_task_taken :: "(nat, nat) psys" where
  "one_task_taken = one_task_closing\<lparr>sy_pool := (sy_pool one_task_closing)\<lparr>tp_shutdown := 0\<rparr>,
     sy_main := M_Ready\<rparr>"

lemma one_task_taken_reach: "pool_reach 1 2 one_task_taken"
  by (rule reach_run [OF one_worker_reach, where es = "take 7 one_task"])
    (simp add: one_task_def one_task_taken_def one_task_closing_def run_simps eval_nat_numeral)

lemma one_task_taken_destroy:
  "pool_exec (Ev_Destroy 1 True True) one_task_taken = Some (Inr one_task_closing)"
  by (simp add: one_task_taken_def one_task_closing_def run_simps)

lemma one_task_closing_run:
  "pool_run (Ev_Add 1 1 None # drop 8 one_task) one_task_closing = Some (Inr one_task_end)"
  by (simp add: one_task_def one_task_closing_def one_task_end_def run_simps eval_nat_numeral)

lemma one_task_again_run:
  "pool_run [Ev_Destroy_Again 1] one_task_closing =
     Some (Inr (one_task_closing\<lparr>sy_lock := Some By_Caller\<rparr>))"
  by (simp add: one_task_closing_def run_simps)

theorem pool_destroy_completes_witness:
  "length (drop 8 one_task) \<le> shutdown_bound one_task_closing \<and> sy_freed one_task_end \<and>
   \<not> sy_freed (one_task_closing\<lparr>sy_lock := Some By_Caller\<rparr>)"
  using pool_destroy_completes
      [OF one_task_taken_reach one_task_taken_destroy one_task_closing_run]
    pool_destroy_completes [OF one_task_taken_reach one_task_taken_destroy one_task_again_run]
  by (simp add: one_task_def one_task_end_def)

end
