(* ===== verification/Streams.thy ===== *)
theory Streams
  imports Prelude
begin

text \<open>
  File descriptors as the byte-stream routines of the repository see them. What \<open>read\<close> and
  \<open>recv\<close> will return is a script: chunks of data of any size, errors with their errno, and the
  end of file when the script is over. What \<open>write\<close> will do is a script too: how many bytes
  each call takes, or an error. A routine proved correct for every script is correct for every
  way the kernel may cut the stream. The buffers the callers pass are lists of bytes, and a
  store outside one is a fault.
\<close>

section \<open>Memory\<close>

definition mput :: "byte list \<Rightarrow> nat \<Rightarrow> byte list \<Rightarrow> byte list cres" where
  "mput m p bs = (if p + length bs \<le> length m then Inr (take p m @ bs @ drop (p + length bs) m)
     else Inl Out_Of_Bounds)"

lemma mput_ok [cres_simps]:
  "p + length bs \<le> length m \<Longrightarrow> mput m p bs = Inr (take p m @ bs @ drop (p + length bs) m)"
  by (simp add: mput_def)

lemma length_mput: "mput m p bs = Inr m' \<Longrightarrow> length m' = length m"
  by (auto simp: mput_def split: if_splits)

text \<open>The bytes a memory holds after a store at \<open>p\<close> that itself followed one just before it.\<close>

definition filled :: "byte list \<Rightarrow> nat \<Rightarrow> byte list \<Rightarrow> byte list" where
  "filled m p bs = take p m @ bs @ drop (p + length bs) m"

lemma filled_Nil [simp]: "filled m p [] = m"
  by (simp add: filled_def)

lemma length_filled [simp]: "p + length bs \<le> length m \<Longrightarrow> length (filled m p bs) = length m"
  by (simp add: filled_def)

lemma filled_filled:
  assumes "p + length bs + length cs \<le> length m"
  shows "filled (filled m p bs) (p + length bs) cs = filled m p (bs @ cs)"
  using assms by (simp add: filled_def ac_simps)

lemma mput_filled: "p + length bs \<le> length m \<Longrightarrow> mput m p bs = Inr (filled m p bs)"
  by (simp add: mput_def filled_def)

lemma filled_take: "p + length bs \<le> length m \<Longrightarrow> take (length bs) (drop p (filled m p bs)) = bs"
  by (simp add: filled_def)

section \<open>Reading\<close>

datatype rd = RData byte "byte list" | RErr nat

type_synonym fdin = "rd list"

definition chunk :: "byte list \<Rightarrow> fdin" where
  "chunk bs = (case bs of [] \<Rightarrow> [] | b # rest \<Rightarrow> [RData b rest])"

fun sys_read :: "nat \<Rightarrow> fdin \<Rightarrow> (nat + byte list) \<times> fdin" where
  "sys_read n [] = (Inr [], [])"
| "sys_read n (RErr e # s) = (Inl e, s)"
| "sys_read n (RData b bs # s) = (Inr (take n (b # bs)), chunk (drop n (b # bs)) @ s)"

text \<open>
  The stream behind a script: the bytes that arrive before the end of file or the first error
  other than \<open>EINTR\<close>, and that error.
\<close>

fun stream :: "fdin \<Rightarrow> byte list" where
  "stream [] = []"
| "stream (RErr e # s) = (if e = EINTR then stream s else [])"
| "stream (RData b bs # s) = b # bs @ stream s"

fun broken :: "fdin \<Rightarrow> nat option" where
  "broken [] = None"
| "broken (RErr e # s) = (if e = EINTR then broken s else Some e)"
| "broken (RData b bs # s) = broken s"

lemma stream_chunk [simp]: "stream (chunk bs @ s) = bs @ stream s" "broken (chunk bs @ s) = broken s"
  by (cases bs; simp add: chunk_def)+

lemma length_chunk: "length (chunk bs) \<le> 1"
  by (cases bs) (simp_all add: chunk_def)

lemma sys_read_cases:
  assumes "0 < n"
  obtains (Err) e s' where "sys_read n s = (Inl e, s')" "length s' < length s"
      "e = EINTR \<Longrightarrow> stream s' = stream s \<and> broken s' = broken s"
      "e \<noteq> EINTR \<Longrightarrow> stream s = [] \<and> broken s = Some e"
  | (Eof) "sys_read n s = (Inr [], [])" "stream s = []" "broken s = None" "s = []"
  | (Data) got s' where "sys_read n s = (Inr got, s')" "got \<noteq> []" "length got \<le> n"
      "stream s = got @ stream s'" "broken s' = broken s" "length s' \<le> length s"
proof (cases "(n, s)" rule: sys_read.cases)
  case (1 m)
  then show ?thesis using Eof by simp
next
  case (2 m e s')
  then show ?thesis using Err [of e s'] by (cases "e = EINTR") simp_all
next
  case (3 m b bs t)
  let ?got = "take n (b # bs)" and ?s' = "chunk (drop n (b # bs)) @ t"
  have "?got @ drop n (b # bs) = b # bs" by (rule append_take_drop_id)
  then have "stream s = ?got @ stream ?s'" using 3 by (simp del: take_Cons' drop_Cons' flip: append_assoc)
  moreover have "?got \<noteq> []" using assms by (cases n) simp_all
  ultimately show ?thesis
    using Data [of ?got ?s'] 3 length_chunk [of "drop n (b # bs)"] by simp
qed

lemma sys_read_measure:
  assumes "sys_read n s = (r, s')"
  shows "length s' \<le> length s" "r = Inl e \<Longrightarrow> length s' < length s"
    "r = Inr got \<Longrightarrow> length got \<le> n"
  using assms length_chunk [of "drop n (b # bs)" for b bs]
  by (cases "(n, s)" rule: sys_read.cases; auto)+

text \<open>A measure for the loops that read until the end.\<close>

definition script_size :: "fdin \<Rightarrow> nat" where
  "script_size s = sum_list (map (\<lambda>e. case e of RData b bs \<Rightarrow> Suc (length bs) | RErr e \<Rightarrow> 1) s)"

lemma script_size_read:
  assumes "sys_read n s = (r, s')"
  shows "r = Inl e \<Longrightarrow> script_size s' < script_size s"
    "r = Inr got \<Longrightarrow> got \<noteq> [] \<Longrightarrow> script_size s' < script_size s"
proof -
  have "script_size (chunk bs @ t) = length bs + script_size t" for bs t
    by (cases bs) (simp_all add: script_size_def chunk_def)
  moreover have "script_size (RData b bs # t) = Suc (length bs) + script_size t"
    "script_size (RErr e # t) = Suc (script_size t)" for b bs e t
    by (simp_all add: script_size_def)
  ultimately show "r = Inl e \<Longrightarrow> script_size s' < script_size s"
    "r = Inr got \<Longrightarrow> got \<noteq> [] \<Longrightarrow> script_size s' < script_size s"
    using assms by (cases "(n, s)" rule: sys_read.cases; auto)+
qed

section \<open>Writing\<close>

datatype wr = WTake nat | WErr nat

text \<open>
  What the calls of \<open>write\<close> do, and the bytes sent so far. Once the script is over, every
  call takes all it is offered.
\<close>

record fdout =
  out_script :: "wr list"
  out_sent :: "byte list"

definition sys_write :: "byte list \<Rightarrow> fdout \<Rightarrow> (nat + nat) \<times> fdout" where
  "sys_write bs fd = (case out_script fd of
       [] \<Rightarrow> (Inr (length bs), fd\<lparr>out_sent := out_sent fd @ bs\<rparr>)
     | WTake k # s \<Rightarrow> (Inr (min k (length bs)),
         \<lparr>out_script = s, out_sent = out_sent fd @ take k bs\<rparr>)
     | WErr e # s \<Rightarrow> (Inl e, fd\<lparr>out_script := s\<rparr>))"

end
