(* ===== verification/StreamIO.thy ===== *)
theory StreamIO
  imports Streams
begin

text \<open>
  The exact-count readers and writers of \<open>sockapi/libsrc/etcp.c\<close>: \<open>readn\<close>, \<open>writen\<close> and the
  record reader \<open>readvrec\<close> built on \<open>readn\<close>.
\<close>

record io =
  io_in :: fdin
  io_errno :: nat

section \<open>readn\<close>

text \<open>
  The loop with \<open>totRead\<close>, the memory \<open>buf\<close> points into and the offset it has reached. It
  returns the value of the call, the memory and the descriptor.
\<close>

function readn_loop :: "nat \<Rightarrow> nat \<Rightarrow> byte list \<Rightarrow> nat \<Rightarrow> io \<Rightarrow> (int \<times> byte list \<times> io) cres" where
  "readn_loop len totRead mem buf io =
     (if totRead < len then
        (case sys_read (len - totRead) (io_in io) of
           (Inl e, s) \<Rightarrow>
             if e = EINTR then readn_loop len totRead mem buf (io\<lparr>io_in := s, io_errno := e\<rparr>)
             else Inr (-1, mem, io\<lparr>io_in := s, io_errno := e\<rparr>)
         | (Inr got, s) \<Rightarrow>
             if got = [] then Inr (c_int (int totRead), mem, io\<lparr>io_in := s\<rparr>)
             else cbind (mput mem buf got) (\<lambda>mem'.
               readn_loop len (totRead + length got) mem' (buf + length got) (io\<lparr>io_in := s\<rparr>)))
      else Inr (c_int (int totRead), mem, io))"
  by pat_completeness auto
termination
proof (relation "measure (\<lambda>(len, tot, mem, buf, io). (len - tot) + length (io_in io))", goal_cases)
  case 1
  show ?case by simp
next
  case (2 len tot mem buf io x y e)
  then have "sys_read (len - tot) (io_in io) = (Inl e, y)" by simp
  then have "length y < length (io_in io)" using sys_read_measure(2) by blast
  then show ?case by simp
next
  case (3 len tot mem buf io x y got mem')
  then have "sys_read (len - tot) (io_in io) = (Inr got, y)" by simp
  then have "length y \<le> length (io_in io)" by (rule sys_read_measure)
  moreover have "0 < length got" using 3(4) by blast
  ultimately have "len - (tot + length got) + length y < (len - tot) + length (io_in io)"
    using 3(1) by linarith
  then show ?case by simp
qed

declare readn_loop.simps [simp del]

definition readn :: "byte list \<Rightarrow> nat \<Rightarrow> nat \<Rightarrow> io \<Rightarrow> (int \<times> byte list \<times> io) cres" where
  "readn mem buf len io = readn_loop len 0 mem buf io"

section \<open>writen\<close>

record wio =
  wio_out :: fdout
  wio_errno :: nat

function writen_loop :: "nat \<Rightarrow> nat \<Rightarrow> byte list \<Rightarrow> nat \<Rightarrow> wio \<Rightarrow> (int \<times> wio) cres" where
  "writen_loop len totWritten mem buf io =
     (if totWritten < len then
        (if buf + (len - totWritten) \<le> length mem then
           (case sys_write (take (len - totWritten) (drop buf mem)) (wio_out io) of
              (Inl e, fd) \<Rightarrow>
                if e = EINTR then writen_loop len totWritten mem buf (io\<lparr>wio_out := fd, wio_errno := e\<rparr>)
                else Inr (-1, io\<lparr>wio_out := fd, wio_errno := e\<rparr>)
            | (Inr numWritten, fd) \<Rightarrow>
                if numWritten = 0 then Inr (-1, io\<lparr>wio_out := fd\<rparr>)
                else writen_loop len (totWritten + numWritten) mem (buf + numWritten) (io\<lparr>wio_out := fd\<rparr>))
         else Inl Out_Of_Bounds)
      else Inr (c_int (int totWritten), io))"
  by pat_completeness auto
termination
  by (relation "measure (\<lambda>(len, tot, mem, buf, io). (len - tot) + length (out_script (wio_out io)))")
    (auto simp: sys_write_def split: list.splits wr.splits)

declare writen_loop.simps [simp del]

definition writen :: "byte list \<Rightarrow> nat \<Rightarrow> nat \<Rightarrow> wio \<Rightarrow> (int \<times> wio) cres" where
  "writen mem buf len io = writen_loop len 0 mem buf io"

section \<open>readvrec\<close>

text \<open>The value of four bytes in network order, as \<open>ntohl\<close> yields it.\<close>

definition be32 :: "byte list \<Rightarrow> nat" where
  "be32 bs = foldl (\<lambda>a b. a * 256 + unat b) 0 bs"

definition enc32 :: "nat \<Rightarrow> byte list" where
  "enc32 n = map of_nat [n div 16777216 mod 256, n div 65536 mod 256, n div 256 mod 256, n mod 256]"

text \<open>The loop that discards a record too long for the buffer. It need not end.\<close>

partial_function (option) discard ::
    "byte list \<Rightarrow> nat \<Rightarrow> nat \<Rightarrow> u32 \<Rightarrow> io \<Rightarrow> (int \<times> byte list \<times> io) cres option" where
  "discard mem bp len reclen io =
     (if 0 < reclen then
        (case readn mem bp len io of
           Inl f \<Rightarrow> Some (Inl f)
         | Inr (rc, mem', io') \<Rightarrow>
             if c_size rc \<noteq> len then Some (Inr (if rc < 0 then -1 else 0, mem', io'))
             else let reclen' = reclen - of_nat len
                  in discard mem' bp (if unat reclen' < len then unat reclen' else len) reclen' io')
      else Some (Inr (-1, mem, io\<lparr>io_errno := EMSGSIZE\<rparr>)))"

definition readvrec :: "byte list \<Rightarrow> nat \<Rightarrow> nat \<Rightarrow> io \<Rightarrow> (int \<times> byte list \<times> io) cres option" where
  "readvrec mem bp len io =
     (case readn (replicate 4 0) 0 4 io of
        Inl f \<Rightarrow> Some (Inl f)
      | Inr (rc, header, io') \<Rightarrow>
          if rc \<noteq> 4 then Some (Inr (if rc < 0 then -1 else 0, mem, io'))
          else let reclen = of_nat (be32 header) :: u32
               in if unat reclen > len then discard mem bp len reclen io'
                  else (case readn mem bp (unat reclen) io' of
                      Inl f \<Rightarrow> Some (Inl f)
                    | Inr (rc, mem', io'') \<Rightarrow>
                        Some (Inr (if (of_int rc :: u32) \<noteq> reclen then (if rc < 0 then -1 else 0) else rc,
                          mem', io''))))"

section \<open>readn delivers the stream\<close>

text \<open>
  What a call of \<open>readn\<close> has to return for the stream \<open>st\<close> that ends with \<open>br\<close>, whatever the
  chunks: all of \<open>len\<close> when that many bytes arrive, the short count at the end of file, or
  \<open>-1\<close> and the errno at an error. \<open>tot\<close> bytes have been read before.
\<close>

definition readn_post :: "nat \<Rightarrow> nat \<Rightarrow> byte list \<Rightarrow> nat option \<Rightarrow> int \<Rightarrow> io \<Rightarrow> bool" where
  "readn_post len tot st br r io \<longleftrightarrow>
     (if tot + length st < len then
        (case br of None \<Rightarrow> r = int (tot + length st) \<and> io_in io = []
                  | Some e \<Rightarrow> r = -1 \<and> io_errno io = e)
      else r = int len \<and> stream (io_in io) = drop (len - tot) st \<and> broken (io_in io) = br)"

lemma readn_post_got:
  "tot + length got \<le> len \<Longrightarrow> readn_post len (tot + length got) st br r io \<Longrightarrow>
   readn_post len tot (got @ st) br r io"
  by (auto simp: readn_post_def add.assoc split: if_splits option.splits)

lemma readn_loop_spec:
  assumes "tot \<le> len" "buf + (len - tot) \<le> length mem" "len < 2 ^ 31"
  shows "\<exists>r io'. readn_loop len tot mem buf io =
      Inr (r, filled mem buf (take (len - tot) (stream (io_in io))), io') \<and>
      readn_post len tot (stream (io_in io)) (broken (io_in io)) r io'"
  using assms
proof (induction len tot mem buf io rule: readn_loop.induct)
  case (1 len tot mem buf io)
  have c: "c_int (int k) = int k" if "k \<le> len" for k using that 1(5) by simp
  show ?case
  proof (cases "tot < len")
    case False
    with 1 have "tot = len" by simp
    then show ?thesis using c [of len] by (subst readn_loop.simps) (simp add: readn_post_def)
  next
    case True
    then have "0 < len - tot" by simp
    then show ?thesis
    proof (cases rule: sys_read_cases [where s = "io_in io"])
      case (Err e s')
      let ?io = "io\<lparr>io_in := s', io_errno := e\<rparr>"
      show ?thesis
      proof (cases "e = EINTR")
        case eintr: True
        from 1(1) [OF True Err(1) [symmetric] refl eintr 1(3-5)] obtain r io' where
          "readn_loop len tot mem buf ?io = Inr (r, filled mem buf (take (len - tot) (stream s')), io')"
          "readn_post len tot (stream s') (broken s') r io'" by auto
        with Err(3) [OF eintr] have
          "readn_loop len tot mem buf ?io = Inr (r, filled mem buf (take (len - tot) (stream (io_in io))), io')"
          "readn_post len tot (stream (io_in io)) (broken (io_in io)) r io'" by simp_all
        moreover have "readn_loop len tot mem buf io = readn_loop len tot mem buf ?io"
          using True eintr by (subst readn_loop.simps) (simp add: Err(1))
        ultimately show ?thesis by metis
      next
        case False
        have "readn_loop len tot mem buf io = Inr (-1, mem, ?io)"
          using True False by (subst readn_loop.simps) (simp add: Err(1))
        with Err(4) [OF False] True show ?thesis by (simp add: readn_post_def)
      qed
    next
      case Eof
      have "readn_loop len tot mem buf io = Inr (c_int (int tot), mem, io\<lparr>io_in := []\<rparr>)"
        using True by (subst readn_loop.simps) (simp add: Eof(1))
      with True c [of tot] Eof show ?thesis by (simp add: readn_post_def)
    next
      case (Data got s')
      let ?io = "io\<lparr>io_in := s'\<rparr>" and ?m = "filled mem buf got"
      have put: "mput mem buf got = Inr ?m"
        using 1(4) Data(3) by (intro mput_filled) simp
      have tot: "tot + length got \<le> len" using Data(3) True by simp
      have "buf + length got + (len - (tot + length got)) \<le> length ?m"
        using 1(4) Data(3) tot by simp
      from 1(2) [OF True Data(1) [symmetric] refl Data(2) put tot this 1(5)] obtain r io' where
        IH: "readn_loop len (tot + length got) ?m (buf + length got) ?io =
              Inr (r, filled ?m (buf + length got) (take (len - (tot + length got)) (stream s')), io')"
          "readn_post len (tot + length got) (stream s') (broken s') r io'" by auto
      have "take (len - tot) (stream (io_in io)) = got @ take (len - (tot + length got)) (stream s')"
        using Data(3) by (simp add: Data(4))
      then have "filled ?m (buf + length got) (take (len - (tot + length got)) (stream s'))
          = filled mem buf (take (len - tot) (stream (io_in io)))"
        using 1(4) Data(3) by (simp add: filled_filled)
      moreover have "readn_loop len tot mem buf io =
          readn_loop len (tot + length got) ?m (buf + length got) ?io"
        using True Data(2) by (subst readn_loop.simps) (simp add: Data(1) put)
      moreover have "readn_post len tot (stream (io_in io)) (broken (io_in io)) r io'"
        using readn_post_got [OF tot IH(2)] Data(4,5) by simp
      ultimately show ?thesis using IH(1) by simp
    qed
  qed
qed

lemma readn_spec:
  assumes "buf + len \<le> length mem" "len < 2 ^ 31"
  obtains r io' where "readn mem buf len io = Inr (r, filled mem buf (take len (stream (io_in io))), io')"
    "readn_post len 0 (stream (io_in io)) (broken (io_in io)) r io'"
  using readn_loop_spec [of 0 len buf mem io] assms unfolding readn_def by auto

text \<open>
  \<open>readn\<close> does not depend on how the kernel cuts the stream: for every script of chunks,
  interruptions and errors it returns \<open>len\<close> with the next \<open>len\<close> bytes in the buffer and the rest
  of the stream unread, or, when fewer bytes arrive, their number at the end of file and \<open>-1\<close> with
  the errno at an error, never storing outside the \<open>len\<close> bytes of the buffer.
\<close>
theorem readn_exact:
  assumes "buf + len \<le> length mem" "len < 2147483648"
  shows "\<exists>r io'. readn mem buf len io = Inr (r, filled mem buf (take len (stream (io_in io))), io') \<and>
    (if len \<le> length (stream (io_in io))
     then r = int len \<and> stream (io_in io') = drop len (stream (io_in io)) \<and>
          broken (io_in io') = broken (io_in io)
     else case broken (io_in io) of None \<Rightarrow> r = int (length (stream (io_in io)))
       | Some e \<Rightarrow> r = -1 \<and> io_errno io' = e)"
proof -
  obtain r io' where r: "readn mem buf len io = Inr (r, filled mem buf (take len (stream (io_in io))), io')"
    "readn_post len 0 (stream (io_in io)) (broken (io_in io)) r io'"
    using readn_spec [of buf len mem io] assms by auto
  then show ?thesis by (auto simp: readn_post_def split: option.splits)
qed

definition some_io :: "rd list \<Rightarrow> io" where
  "some_io s = \<lparr>io_in = s, io_errno = 0\<rparr>"

theorem readn_exact_witness:
  "\<exists>r io'. readn [0, 0, 0, 0] 1 3 (some_io [RData 7 [8], RErr 4, RData 9 [1]])
     = Inr (r, [0, 7, 8, 9], io') \<and> r = 3 \<and> stream (io_in io') = [1]"
  using readn_exact [of 1 3 "[0, 0, 0, 0]" "some_io [RData 7 [8], RErr 4, RData 9 [1]]"]
  by (auto simp: some_io_def filled_def)

section \<open>writen sends a prefix, or everything\<close>

fun can_write :: "wr list \<Rightarrow> bool" where
  "can_write [] = True"
| "can_write (WTake k # s) = (0 < k \<and> can_write s)"
| "can_write (WErr e # s) = (e = EINTR \<and> can_write s)"

lemma writen_loop_spec:
  assumes "tot \<le> len" "buf + (len - tot) \<le> length mem" "len < 2 ^ 31"
  shows "\<exists>r io' k. writen_loop len tot mem buf io = Inr (r, io') \<and> k \<le> len - tot \<and>
     out_sent (wio_out io') = out_sent (wio_out io) @ take k (drop buf mem) \<and>
     (r = int len \<and> k = len - tot \<or> r = -1 \<and> k < len - tot \<and> \<not> can_write (out_script (wio_out io)))"
  using assms
proof (induction len tot mem buf io rule: writen_loop.induct)
  case (1 len tot mem buf io)
  have c: "c_int (int len) = int len" using 1(5) by simp
  show ?case
  proof (cases "tot < len")
    case False
    with 1 c show ?thesis by (subst writen_loop.simps) auto
  next
    case True
    let ?bs = "take (len - tot) (drop buf mem)" and ?out = "wio_out io"
    have n: "length ?bs = len - tot" using 1(4) by simp
    have room: "buf + (len - tot) \<le> length mem" by (rule 1(4))
    have step: "writen_loop len tot mem buf io = (case sys_write ?bs ?out of
              (Inl e, fd) \<Rightarrow>
                if e = EINTR then writen_loop len tot mem buf (io\<lparr>wio_out := fd, wio_errno := e\<rparr>)
                else Inr (-1, io\<lparr>wio_out := fd, wio_errno := e\<rparr>)
            | (Inr k, fd) \<Rightarrow>
                if k = 0 then Inr (-1, io\<lparr>wio_out := fd\<rparr>)
                else writen_loop len (tot + k) mem (buf + k) (io\<lparr>wio_out := fd\<rparr>))"
      using True room by (subst writen_loop.simps) simp
    show ?thesis
    proof (cases "sys_write ?bs ?out")
      case (Pair a fd)
      note w = Pair
      show ?thesis
      proof (cases a)
        case (Inl e)
        then have out: "out_sent fd = out_sent ?out" "can_write (out_script ?out) \<longrightarrow> e = EINTR \<and> can_write (out_script fd)"
          "e = EINTR \<Longrightarrow> can_write (out_script fd) = can_write (out_script ?out)"
          using w by (auto simp: sys_write_def split: list.splits wr.splits)
        show ?thesis
        proof (cases "e = EINTR")
          case eintr: True
          from 1(1) [OF True room w [unfolded Inl, symmetric] refl eintr 1(3,4,5)] out
          show ?thesis unfolding step w Inl by (simp add: eintr)
        next
          case False
          with out show ?thesis unfolding step w Inl using True by (auto intro!: exI [of _ 0])
        qed
      next
        case (Inr k)
        then have out: "out_sent fd = out_sent ?out @ take k (drop buf mem)" "k \<le> len - tot"
          "can_write (out_script ?out) \<Longrightarrow> 0 < k \<and> can_write (out_script fd)"
          using w n True by (auto simp: sys_write_def min_def split: list.splits wr.splits if_splits)
        show ?thesis
        proof (cases "k = 0")
          case True
          with out \<open>tot < len\<close> show ?thesis unfolding step w Inr by (auto intro!: exI [of _ 0])
        next
          case False
          have "tot + k \<le> len" "buf + k + (len - (tot + k)) \<le> length mem" using out(2) True room by auto
          from 1(2) [OF True room w [unfolded Inr, symmetric] refl False this 1(5)]
          obtain r io' j where IH: "writen_loop len (tot + k) mem (buf + k) (io\<lparr>wio_out := fd\<rparr>) = Inr (r, io')"
            "j \<le> len - (tot + k)" "out_sent (wio_out io') = out_sent fd @ take j (drop (buf + k) mem)"
            "r = int len \<and> j = len - (tot + k) \<or> r = -1 \<and> j < len - (tot + k) \<and> \<not> can_write (out_script fd)"
            by auto
          have "take k (drop buf mem) @ take j (drop (buf + k) mem) = take (k + j) (drop buf mem)"
            by (simp add: take_add add.commute [of buf k])
          with IH out show ?thesis unfolding step w Inr using False
            by (intro exI [of _ r] exI [of _ io'] exI [of _ "k + j"]) auto
        qed
      qed
    qed
  qed
qed

text \<open>
  \<open>writen\<close> sends a prefix of the buffer, in order and without repetition, however the kernel
  splits the writes: the whole of it exactly when it returns \<open>len\<close>, which it does whenever no
  write fails with an error other than \<open>EINTR\<close> or takes nothing, and \<open>-1\<close> otherwise.
\<close>
theorem writen_exact:
  assumes "buf + len \<le> length mem" "len < 2147483648"
  shows "\<exists>r io' k. writen mem buf len io = Inr (r, io') \<and>
    out_sent (wio_out io') = out_sent (wio_out io) @ take k (drop buf mem) \<and>
    (r = int len \<and> k = len \<or> r = -1 \<and> k < len \<and> \<not> can_write (out_script (wio_out io)))"
  using writen_loop_spec [of 0 len buf mem io] assms unfolding writen_def by auto

theorem writen_exact_witness:
  "\<exists>r io'. writen [1, 2, 3, 4] 1 3 \<lparr>wio_out = \<lparr>out_script = [WTake 1, WErr 4], out_sent = []\<rparr>,
      wio_errno = 0\<rparr> = Inr (r, io') \<and> r = 3 \<and> out_sent (wio_out io') = [2, 3, 4]"
  using writen_exact [of 1 3 "[1, 2, 3, 4]" "\<lparr>wio_out = \<lparr>out_script = [WTake 1, WErr 4],
      out_sent = []\<rparr>, wio_errno = 0\<rparr>"] by auto

section \<open>Records\<close>

text \<open>A record on the wire: its length in network order, then its bytes.\<close>

definition frame :: "byte list \<Rightarrow> byte list" where
  "frame r = enc32 (length r) @ r"

lemma length_enc32 [simp]: "length (enc32 n) = 4"
  by (simp add: enc32_def)

lemma be32_enc32: "n < 2 ^ 32 \<Longrightarrow> be32 (enc32 n) = n"
proof -
  assume n: "n < 2 ^ 32"
  have b: "unat (of_nat k :: byte) = k mod 256" for k by (simp add: unat_of_nat)
  have d: "n div 65536 = n div 256 div 256" "n div 16777216 = n div 256 div 256 div 256"
    by (simp_all flip: div_mult2_eq)
  have "n div 256 div 256 div 256 < 256" using n by (simp flip: div_mult2_eq)
  then have "n div 256 div 256 div 256 mod 256 = n div 256 div 256 div 256" by simp
  moreover have "be32 (enc32 n) = (((n div 256 div 256 div 256 mod 256) * 256 + n div 256 div 256 mod 256) * 256
      + n div 256 mod 256) * 256 + n mod 256"
    by (simp only: be32_def enc32_def d list.map foldl.simps b mult_zero_left add_0 mod_mod_trivial)
  ultimately show ?thesis by simp
qed

lemma readn_full:
  assumes "stream (io_in io) = bs @ rest" "length bs = len" "buf + len \<le> length mem" "len < 2 ^ 31"
  obtains io' where "readn mem buf len io = Inr (int len, filled mem buf bs, io')"
    "stream (io_in io') = rest" "broken (io_in io') = broken (io_in io)"
  using readn_spec [OF assms(3,4), of io] assms(1,2) by (auto simp: readn_post_def)

lemma readvrec_header:
  assumes st: "stream (io_in io) = frame r @ rest" and len: "length r < 2 ^ 31"
  obtains io' where "readn (replicate 4 0) 0 4 io = Inr (4, enc32 (length r), io')"
    "stream (io_in io') = r @ rest" "broken (io_in io') = broken (io_in io)"
    "unat (of_nat (be32 (enc32 (length r))) :: u32) = length r"
proof -
  have "unat (of_nat (length r) :: u32) = length r" using len by (simp add: unat_of_nat)
  then have u: "unat (of_nat (be32 (enc32 (length r))) :: u32) = length r"
    using len by (simp add: be32_enc32)
  have "stream (io_in io) = enc32 (length r) @ (r @ rest)" using st by (simp add: frame_def)
  from readn_full [OF this, of 4 0 "replicate 4 0"] obtain io' where
    "readn (replicate 4 0) 0 4 io = Inr (4, filled (replicate 4 0) 0 (enc32 (length r)), io')"
    "stream (io_in io') = r @ rest" "broken (io_in io') = broken (io_in io)" by auto
  with that u show thesis by (simp add: filled_def)
qed

lemma readvrec_fits:
  assumes st: "stream (io_in io) = frame r @ rest" and fit: "length r \<le> len"
    and len: "bp + len \<le> length mem" "len < 2 ^ 31"
  obtains io' where "readvrec mem bp len io = Some (Inr (int (length r), filled mem bp r, io'))"
    "stream (io_in io') = rest" "broken (io_in io') = broken (io_in io)"
proof -
  from fit len have r: "length r < 2 ^ 31" "bp + length r \<le> length mem" by simp_all
  obtain io1 where h: "readn (replicate 4 0) 0 4 io = Inr (4, enc32 (length r), io1)"
    "stream (io_in io1) = r @ rest" "broken (io_in io1) = broken (io_in io)"
    "unat (of_nat (be32 (enc32 (length r))) :: u32) = length r"
    by (rule readvrec_header [OF st r(1)])
  obtain io2 where b: "readn mem bp (length r) io1 = Inr (int (length r), filled mem bp r, io2)"
    "stream (io_in io2) = rest" "broken (io_in io2) = broken (io_in io1)"
    by (rule readn_full [OF h(2) refl r(2,1)])
  have "(of_int (int (length r)) :: u32) = of_nat (be32 (enc32 (length r)))"
    using r(1) by (simp add: be32_enc32)
  then have "readvrec mem bp len io = Some (Inr (int (length r), filled mem bp r, io2))"
    using fit by (simp add: readvrec_def h(1,4) b(1) Let_def)
  with that b h(3) show thesis by simp
qed

lemma discard_spec:
  assumes "stream (io_in io) = r @ rest" "unat reclen = length r" "0 < len" "len \<le> length r \<or> r = []"
    "bp + len \<le> length mem" "len < 2 ^ 31"
  shows "\<exists>mem' io'. discard mem bp len reclen io = Some (Inr (-1, mem', io')) \<and>
     io_errno io' = EMSGSIZE \<and> stream (io_in io') = rest \<and> broken (io_in io') = broken (io_in io) \<and>
     length mem' = length mem"
  using assms
proof (induction "length r" arbitrary: r reclen io mem len rule: less_induct)
  case less
  show ?case
  proof (cases "r = []")
    case True
    then have "reclen = 0" using less.prems(2) by (simp add: unat_eq_0)
    with True less.prems(1) show ?thesis by (subst discard.simps) simp
  next
    case False
    then have pos: "0 < reclen" using less.prems(2) by (simp add: word_gt_0_no word_less_nat_alt)
    have le: "len \<le> length r" using False less.prems(4) by simp
    let ?r = "drop len r"
    have "stream (io_in io) = take len r @ (?r @ rest)" using less.prems(1) by simp
    moreover have "length (take len r) = len" using le by simp
    ultimately obtain io1 where b: "readn mem bp len io = Inr (int len, filled mem bp (take len r), io1)"
      "stream (io_in io1) = ?r @ rest" "broken (io_in io1) = broken (io_in io)"
      using readn_full less.prems(5,6) by metis
    have rl: "unat (reclen - of_nat len) = length ?r"
      using le less.prems(2,6) by (simp add: unat_sub word_le_nat_alt unat_of_nat)
    let ?len = "if unat (reclen - of_nat len :: u32) < len then unat (reclen - of_nat len :: u32) else len"
    let ?m = "filled mem bp (take len r)"
    have step: "discard mem bp len reclen io = discard ?m bp ?len (reclen - of_nat len) io1"
      using pos less.prems(6) by (subst discard.simps) (simp add: b(1) Let_def)
    have m: "length ?m = length mem" using le less.prems(5) by simp
    show ?thesis
    proof (cases "?r = []")
      case True
      then have "reclen - of_nat len = 0" using rl by (simp add: unat_eq_0)
      with b(2,3) m True show ?thesis unfolding step by (subst discard.simps) simp
    next
      case False
      then have "0 < ?len" "?len \<le> length ?r \<or> ?r = []" "bp + ?len \<le> length ?m" "?len < 2 ^ 31"
        using rl less.prems(3,5,6) m by auto
      moreover have "length ?r < length r" using less.prems(3) le by simp
      ultimately show ?thesis
        using less.hyps [OF _ b(2) rl] b(3) m unfolding step by metis
    qed
  qed
qed

lemma readvrec_oversize:
  assumes st: "stream (io_in io) = frame r @ rest" and big: "len < length r" "length r < 2 ^ 31"
    and len: "0 < len" "bp + len \<le> length mem"
  obtains mem' io' where "readvrec mem bp len io = Some (Inr (-1, mem', io'))" "io_errno io' = EMSGSIZE"
    "stream (io_in io') = rest" "broken (io_in io') = broken (io_in io)" "length mem' = length mem"
proof -
  obtain io1 where h: "readn (replicate 4 0) 0 4 io = Inr (4, enc32 (length r), io1)"
    "stream (io_in io1) = r @ rest" "broken (io_in io1) = broken (io_in io)"
    "unat (of_nat (be32 (enc32 (length r))) :: u32) = length r"
    by (rule readvrec_header [OF st big(2)])
  have "len < 2 ^ 31" "len \<le> length r \<or> r = []" using big by simp_all
  from discard_spec [OF h(2,4) len(1) this(2) len(2) this(1)] h(3) that show thesis
    using big by (auto simp: readvrec_def h(1,4) Let_def)
qed

text \<open>A reader that asks for \<open>n\<close> records, as a client of \<open>readvrec\<close> does, with a fresh buffer.\<close>

fun read_records :: "nat \<Rightarrow> nat \<Rightarrow> io \<Rightarrow> ((int \<times> byte list) list \<times> io) cres option" where
  "read_records 0 len io = Some (Inr ([], io))"
| "read_records (Suc n) len io =
     (case readvrec (replicate len 0) 0 len io of
        None \<Rightarrow> None
      | Some (Inl f) \<Rightarrow> Some (Inl f)
      | Some (Inr (rc, mem, io')) \<Rightarrow>
          (case read_records n len io' of
             None \<Rightarrow> None
           | Some (Inl f) \<Rightarrow> Some (Inl f)
           | Some (Inr (rs, io'')) \<Rightarrow> Some (Inr ((rc, take (nat rc) mem) # rs, io''))))"

text \<open>
  C31. Record framing survives the stream. When the peer sends records, each as its length in
  network order and its bytes, then however the stream is cut, a reader that calls \<open>readvrec\<close>
  with a buffer of \<open>len\<close> bytes gets every record that fits, unchanged and in order, and a \<open>-1\<close>
  for every record that does not, after which it is in step with the next one.
\<close>
theorem record_stream_roundtrip:
  assumes "stream (io_in io) = concat (map frame rs) @ rest"
    and "0 < len" "len < 2147483648" "\<forall>r\<in>set rs. length r < 2147483648"
  shows "\<exists>io'. read_records (length rs) len io =
      Some (Inr (map (\<lambda>r. if length r \<le> len then (int (length r), r) else (-1, [])) rs, io')) \<and>
    stream (io_in io') = rest"
  using assms(1,4)
proof (induction rs arbitrary: io)
  case Nil
  then show ?case by simp
next
  case (Cons r rs)
  then have st: "stream (io_in io) = frame r @ (concat (map frame rs) @ rest)" by simp
  show ?case
  proof (cases "length r \<le> len")
    case True
    obtain io' where io': "readvrec (replicate len 0) 0 len io
        = Some (Inr (int (length r), filled (replicate len 0) 0 r, io'))"
      "stream (io_in io') = concat (map frame rs) @ rest"
      using readvrec_fits [OF st True, of 0 "replicate len 0"] assms(3) by auto
    have "take (length r) (filled (replicate len 0) 0 r) = r" by (simp add: filled_def)
    with Cons.IH [OF io'(2)] Cons.prems(2) True io'(1) show ?thesis by auto
  next
    case False
    then have big: "len < length r" "length r < 2 ^ 31" using Cons.prems(2) by simp_all
    have mem: "0 + len \<le> length (replicate len (0::byte))" by simp
    obtain mem' io' where io': "readvrec (replicate len 0) 0 len io = Some (Inr (-1, mem', io'))"
      "stream (io_in io') = concat (map frame rs) @ rest"
      by (rule readvrec_oversize [OF st big assms(2) mem])
    with Cons.IH [OF io'(2)] Cons.prems(2) False show ?thesis by auto
  qed
qed

theorem record_stream_roundtrip_witness:
  "\<exists>io'. read_records 2 2 (some_io [RData 0 [0, 0], RErr 4, RData 3 [7, 8, 9, 0, 0, 0, 1], RData 5 [6]])
      = Some (Inr ([(-1, []), (1, [5])], io')) \<and> stream (io_in io') = [6]"
  using record_stream_roundtrip [of "some_io [RData 0 [0, 0], RErr 4, RData 3 [7, 8, 9, 0, 0, 0, 1],
      RData 5 [6]]" "[[7, 8, 9], [5]]" "[6]" 2]
  by (simp add: some_io_def frame_def enc32_def numeral_2_eq_2)

lemma discard_zero:
  assumes "discard m b l n i = Some y"
  shows "\<not> (l = 0 \<and> 0 < n)"
proof (rule discard.raw_induct [of "\<lambda>m b l n i y. \<not> (l = 0 \<and> 0 < n)", OF _ assms])
  fix f m b l n i y
  assume IH: "\<And>m b l n i y. f m b l n i = Some y \<Longrightarrow> \<not> (l = 0 \<and> 0 < n)"
    and step: "(if 0 < n then (case readn m b l i of
           Inl f \<Rightarrow> Some (Inl f)
         | Inr (rc, m', i') \<Rightarrow>
             if c_size rc \<noteq> l then Some (Inr (if rc < 0 then -1 else 0, m', i'))
             else let n' = n - of_nat l in f m' b (if unat n' < l then unat n' else l) n' i')
      else Some (Inr (-1, m, i\<lparr>io_errno := EMSGSIZE\<rparr>))) = Some y"
  show "\<not> (l = 0 \<and> 0 < n)"
  proof
    assume z: "l = 0 \<and> 0 < n"
    then have "readn m b l i = Inr (0, m, i)" by (simp add: readn_def readn_loop.simps)
    with step z have "f m b 0 n i = Some y" by (simp add: c_size_def Let_def split: if_splits)
    from IH [OF this] z show False by blast
  qed
qed

text \<open>
  With a buffer of no bytes, a record that is not empty makes \<open>readvrec\<close> loop for ever: each
  round of the discarding loop reads nothing and subtracts nothing.
\<close>
theorem readvrec_zero_buffer_diverges:
  assumes "stream (io_in io) = frame r @ rest" "r \<noteq> []" "length r < 2147483648"
  shows "readvrec mem bp 0 io = None"
proof -
  note loop = discard_zero
  obtain io1 where h: "readn (replicate 4 0) 0 4 io = Inr (4, enc32 (length r), io1)"
    "unat (of_nat (be32 (enc32 (length r))) :: u32) = length r"
    using readvrec_header [OF assms(1)] assms(3) by auto
  have "0 < (of_nat (be32 (enc32 (length r))) :: u32)"
    using h(2) assms(2) by (simp add: word_less_nat_alt)
  with loop have "discard mem bp 0 (of_nat (be32 (enc32 (length r)))) io1 = None" by fastforce
  then show ?thesis using assms(2) by (simp add: readvrec_def h Let_def)
qed

theorem readvrec_zero_buffer_diverges_witness:
  "readvrec [] 0 0 (some_io [RData 0 [0, 0, 1, 65]]) = None"
  by (rule readvrec_zero_buffer_diverges [of _ "[65]" "[]"]) (simp_all add: some_io_def frame_def enc32_def)

end
