(* ===== verification/LineIO.thy ===== *)
theory LineIO
  imports StreamIO
begin

text \<open>
  The two line readers of the repository: \<open>readline\<close> of \<open>sockapi/libsrc/etcp.c\<close>, which receives
  up to 1500 bytes at a time into a local buffer, and \<open>readLine\<close> of \<open>lib/src/read_line.c\<close>,
  which reads byte by byte.
\<close>

abbreviation (input) NEWLINE :: byte where "NEWLINE \<equiv> 10"

section \<open>readline\<close>

text \<open>
  The part of the loop that calls \<open>recv\<close> when the local buffer is used up: the call returns, the
  loop starts over after an interruption, or there is a byte at \<open>bp\<close>. \<open>b\<close> holds the bytes the
  last \<open>recv\<close> stored.
\<close>

datatype refill = F_Return int | F_Again | F_Have

definition rl_refill ::
    "int \<Rightarrow> byte list \<Rightarrow> nat \<Rightarrow> io \<Rightarrow> refill \<times> int \<times> byte list \<times> nat \<times> io" where
  "rl_refill cnt b bp io =
     (if cnt \<le> 0 then
        (case sys_read 1500 (io_in io) of
           (Inl e, s) \<Rightarrow> (if e = EINTR then F_Again else F_Return (-1), -1, b, bp,
              io\<lparr>io_in := s, io_errno := e\<rparr>)
         | (Inr got, s) \<Rightarrow>
              if got = [] then (F_Return 0, 0, b, bp, io\<lparr>io_in := s\<rparr>)
              else (F_Have, int (length got), got, 0, io\<lparr>io_in := s\<rparr>))
      else (F_Have, cnt, b, bp, io))"

lemma rl_refill_measure:
  "rl_refill cnt b bp io = (F_Again, cnt', b', bp', io') \<Longrightarrow> length (io_in io') < length (io_in io)"
  "rl_refill cnt b bp io = (F_Have, cnt', b', bp', io') \<Longrightarrow> length (io_in io') \<le> length (io_in io)"
  using sys_read_measure [of 1500 "io_in io"]
  by (auto simp: rl_refill_def split: if_splits prod.splits sum.splits)

text \<open>The loop after the decrement of \<open>len\<close>, with the position \<open>bufptr\<close> in the caller's memory.\<close>

function readline_loop ::
    "nat \<Rightarrow> nat \<Rightarrow> int \<Rightarrow> byte list \<Rightarrow> nat \<Rightarrow> byte list \<Rightarrow> nat \<Rightarrow> io \<Rightarrow> (int \<times> byte list \<times> io) cres" where
  "readline_loop bufx len cnt b bp mem bufptr io =
     (if len = 0 then Inr (-1, mem, io\<lparr>io_errno := EMSGSIZE\<rparr>)
      else (case rl_refill (cnt - 1) b bp io of
          (F_Return r, cnt, b, bp, io') \<Rightarrow> Inr (r, mem, io')
        | (F_Again, cnt, b, bp, io') \<Rightarrow>
            readline_loop bufx len cnt b bp mem bufptr io'
        | (F_Have, cnt, b, bp, io') \<Rightarrow>
            cbind (aget b (int bp)) (\<lambda>c. cbind (mput mem bufptr [c]) (\<lambda>mem.
              if c = NEWLINE then cbind (mput mem (bufptr + 1) [0]) (\<lambda>mem.
                Inr (c_int (int (bufptr + 1) - int bufx), mem, io'))
              else readline_loop bufx (len - 1) cnt b (bp + 1) mem (bufptr + 1) io'))))"
  by pat_completeness auto
termination
proof (relation "measure (\<lambda>(bufx, len, cnt, b, bp, mem, bufptr, io). len + length (io_in io))", goal_cases)
  case 1
  show ?case by simp
next
  case (2 bufx len cnt b bp mem bufptr io r p cnt' q b' q' bp' io')
  then have "rl_refill (cnt - 1) b bp io = (F_Again, cnt', b', bp', io')" by simp
  from rl_refill_measure(1) [OF this] show ?case by simp
next
  case (3 bufx len cnt b bp mem bufptr io r p cnt' q b' q' bp' io' c mem')
  then have "rl_refill (cnt - 1) b bp io = (F_Have, cnt', b', bp', io')" by simp
  from rl_refill_measure(2) [OF this] 3(1) show ?case by simp
qed

declare readline_loop.simps [simp del]

definition readline :: "byte list \<Rightarrow> nat \<Rightarrow> nat \<Rightarrow> io \<Rightarrow> (int \<times> byte list \<times> io) cres" where
  "readline mem buf len io = readline_loop buf (c_size (int len - 1)) 0 [] 0 mem buf io"

section \<open>readLine\<close>

text \<open>The end of the function, and its loop; \<open>n\<close> is the size of the caller's buffer.\<close>

definition rL_finish :: "byte list \<Rightarrow> nat \<Rightarrow> nat \<Rightarrow> io \<Rightarrow> (int \<times> byte list \<times> io) cres" where
  "rL_finish mem buf totRead io = cbind (mput mem buf [0]) (\<lambda>mem. Inr (int totRead, mem, io))"

function readLine_loop :: "nat \<Rightarrow> nat \<Rightarrow> byte list \<Rightarrow> nat \<Rightarrow> io \<Rightarrow> (int \<times> byte list \<times> io) cres" where
  "readLine_loop n totRead mem buf io =
     (case sys_read 1 (io_in io) of
        (Inl e, s) \<Rightarrow>
          if e = EINTR then readLine_loop n totRead mem buf (io\<lparr>io_in := s, io_errno := e\<rparr>)
          else Inr (-1, mem, io\<lparr>io_in := s, io_errno := e\<rparr>)
      | (Inr got, s) \<Rightarrow>
          let io' = io\<lparr>io_in := s\<rparr> in
          if got = [] then (if totRead = 0 then Inr (0, mem, io') else rL_finish mem buf totRead io')
          else let ch = hd got in
            if totRead < n - 1 then
              cbind (mput mem buf [ch]) (\<lambda>mem.
                if ch = NEWLINE then rL_finish mem (buf + 1) (totRead + 1) io'
                else readLine_loop n (totRead + 1) mem (buf + 1) io')
            else if ch = NEWLINE then rL_finish mem buf totRead io'
            else readLine_loop n totRead mem buf io')"
  by pat_completeness auto
termination
proof (relation "measure (\<lambda>(n, tot, mem, buf, io). script_size (io_in io))", goal_cases)
  case 1
  show ?case by simp
next
  case (2 n tot mem buf io p s e)
  then have "sys_read (Suc 0) (io_in io) = (Inl e, s)" by simp
  from script_size_read(1) [OF this refl] show ?case by simp
next
  case (3 n tot mem buf io p s got)
  then have "sys_read (Suc 0) (io_in io) = (Inr got, s)" "got \<noteq> []" by simp_all
  from script_size_read(2) [OF this(1) refl this(2)] show ?case
    using 3 by simp
next
  case (4 n tot mem buf io p s got)
  then have "sys_read (Suc 0) (io_in io) = (Inr got, s)" "got \<noteq> []" by simp_all
  from script_size_read(2) [OF this(1) refl this(2)] show ?case
    using 4 by simp
qed

declare readLine_loop.simps [simp del]

definition readLine :: "byte list \<Rightarrow> nat option \<Rightarrow> nat \<Rightarrow> io \<Rightarrow> (int \<times> byte list \<times> io) cres" where
  "readLine mem buffer n io = (case buffer of
       None \<Rightarrow> Inr (-1, mem, io\<lparr>io_errno := EINVAL\<rparr>)
     | Some buf \<Rightarrow> if n = 0 then Inr (-1, mem, io\<lparr>io_errno := EINVAL\<rparr>)
         else readLine_loop n 0 mem buf io)"

section \<open>What the readers deliver\<close>

text \<open>
  The reference: how far a reader with room for \<open>n\<close> more bytes gets in a stream. It stores
  bytes until a newline, which it also stores and follows with a zero byte, until the room is
  used up, or until the stream ends.
\<close>

datatype outcome = Line | Too_Long | Ended

fun line_scan :: "nat \<Rightarrow> byte list \<Rightarrow> byte list \<times> outcome" where
  "line_scan 0 st = ([], Too_Long)"
| "line_scan (Suc n) [] = ([], Ended)"
| "line_scan (Suc n) (c # st) =
     (if c = NEWLINE then ([c, 0], Line) else (c # fst (line_scan n st), snd (line_scan n st)))"

lemma line_scan_length: "length (fst (line_scan n st)) \<le> Suc n"
  by (induction n st rule: line_scan.induct) auto

lemma line_scan_line:
  "NEWLINE \<notin> set l \<Longrightarrow> length l < n \<Longrightarrow> line_scan n (l @ NEWLINE # rest) = (l @ [NEWLINE, 0], Line)"
proof (induction l arbitrary: n)
  case Nil
  then show ?case by (cases n) auto
next
  case (Cons c l)
  then show ?case by (cases n) auto
qed

lemma line_scan_long:
  "NEWLINE \<notin> set (take n st) \<Longrightarrow> n \<le> length st \<Longrightarrow> line_scan n st = (take n st, Too_Long)"
  by (induction n st rule: line_scan.induct) auto

lemma line_scan_ended:
  "NEWLINE \<notin> set st \<Longrightarrow> length st < n \<Longrightarrow> line_scan n st = (st, Ended)"
  by (induction n st rule: line_scan.induct) auto

text \<open>The value returned, and the stream left behind, for the bytes stored and the outcome.\<close>

definition line_post ::
    "nat \<Rightarrow> byte list \<Rightarrow> outcome \<Rightarrow> byte list \<Rightarrow> nat option \<Rightarrow> int \<Rightarrow> io \<Rightarrow> bool" where
  "line_post before stored out st br r io = (case out of
       Line \<Rightarrow> r = int (before + length stored) - 1 \<and>
         (\<exists>lost. st = butlast stored @ lost @ stream (io_in io)) \<and> broken (io_in io) = br
     | Too_Long \<Rightarrow> r = -1 \<and> io_errno io = EMSGSIZE
     | Ended \<Rightarrow> (case br of None \<Rightarrow> r = 0 | Some e \<Rightarrow> r = -1 \<and> io_errno io = e))"

definition unread :: "int \<Rightarrow> byte list \<Rightarrow> nat \<Rightarrow> byte list" where
  "unread cnt b bp = (if cnt \<le> 1 then [] else drop bp b)"

definition rl_ok :: "int \<Rightarrow> byte list \<Rightarrow> nat \<Rightarrow> bool" where
  "rl_ok cnt b bp \<longleftrightarrow> (1 < cnt \<longrightarrow> int bp + cnt - 1 = int (length b))"

lemma rl_refill_spec:
  assumes "rl_ok cnt b bp" "rl_refill (cnt - 1) b bp io = (f, cnt', b', bp', io')"
  shows "case f of
      F_Return r \<Rightarrow> unread cnt b bp @ stream (io_in io) = [] \<and>
        (case broken (io_in io) of None \<Rightarrow> r = 0 | Some e \<Rightarrow> r = -1 \<and> io_errno io' = e)
    | F_Again \<Rightarrow> rl_ok cnt' b' bp' \<and> broken (io_in io') = broken (io_in io) \<and>
        unread cnt' b' bp' @ stream (io_in io') = unread cnt b bp @ stream (io_in io)
    | F_Have \<Rightarrow> bp' < length b' \<and> rl_ok cnt' b' (Suc bp') \<and> broken (io_in io') = broken (io_in io) \<and>
        b' ! bp' # unread cnt' b' (Suc bp') @ stream (io_in io') = unread cnt b bp @ stream (io_in io)"
proof (cases "1 < cnt")
  case True
  then have f: "f = F_Have" "cnt' = cnt - 1" "b' = b" "bp' = bp" "io' = io"
    using assms(2) by (simp_all add: rl_refill_def)
  have bp: "int bp + cnt - 1 = int (length b)" using assms(1) True by (simp add: rl_ok_def)
  then have lt: "bp < length b" using True by linarith
  have "drop bp b = b ! bp # drop (Suc bp) b" by (rule drop_take_Suc [OF lt])
  moreover have "cnt = 2 \<Longrightarrow> drop (Suc bp) b = []" using bp by simp
  ultimately show ?thesis using lt bp True by (auto simp: f rl_ok_def unread_def)
next
  case False
  have "0 < (1500::nat)" by simp
  then show ?thesis
  proof (cases rule: sys_read_cases [where s = "io_in io"])
    case (Err e s')
    then show ?thesis using assms(2) False
      by (cases "e = EINTR") (auto simp: rl_refill_def unread_def rl_ok_def)
  next
    case Eof
    then show ?thesis using assms(2) False by (auto simp: rl_refill_def unread_def)
  next
    case (Data got s')
    then have f: "f = F_Have" "cnt' = int (length got)" "b' = got" "bp' = 0" "io' = io\<lparr>io_in := s'\<rparr>"
      using assms(2) False by (auto simp: rl_refill_def)
    obtain c cs where "got = c # cs" using Data(2) by (cases got) auto
    with Data False show ?thesis by (auto simp: f rl_ok_def unread_def)
  qed
qed

lemma line_post_step:
  assumes "c \<noteq> NEWLINE" "line_post (Suc before) (fst (line_scan n st)) (snd (line_scan n st)) st br r io"
  shows "line_post before (fst (line_scan (Suc n) (c # st))) (snd (line_scan (Suc n) (c # st))) (c # st) br r io"
proof -
  have "snd (line_scan n st) = Line \<Longrightarrow> fst (line_scan n st) \<noteq> []"
    by (induction n st rule: line_scan.induct) auto
  then show ?thesis using assms by (auto simp: line_post_def split: outcome.splits)
qed

lemma readline_loop_spec:
  assumes "rl_ok cnt b bp" "bufptr + len < length mem" "bufx \<le> bufptr" "bufptr + len < 2 ^ 31"
  shows "\<exists>r io'. readline_loop bufx len cnt b bp mem bufptr io =
      Inr (r, filled mem bufptr (fst (line_scan len (unread cnt b bp @ stream (io_in io)))), io') \<and>
      line_post (bufptr - bufx) (fst (line_scan len (unread cnt b bp @ stream (io_in io))))
        (snd (line_scan len (unread cnt b bp @ stream (io_in io))))
        (unread cnt b bp @ stream (io_in io)) (broken (io_in io)) r io'"
  using assms
proof (induction bufx len cnt b bp mem bufptr io rule: readline_loop.induct)
  case (1 bufx len cnt b bp mem bufptr io)
  show ?case
  proof (cases "len = 0")
    case True
    then show ?thesis by (subst readline_loop.simps) (simp add: line_post_def)
  next
    case False
    then obtain n where n: "len = Suc n" by (cases len) auto
    let ?st = "unread cnt b bp @ stream (io_in io)"
    obtain f cnt' b' bp' io1 where re: "rl_refill (cnt - 1) b bp io = (f, cnt', b', bp', io1)"
      by (metis prod_cases5)
    note spec = rl_refill_spec [OF 1(3) re]
    show ?thesis
    proof (cases f)
      case (F_Return r)
      with spec n show ?thesis
        by (subst readline_loop.simps) (auto simp: re line_post_def)
    next
      case F_Again
      with spec have s: "rl_ok cnt' b' bp'" "broken (io_in io1) = broken (io_in io)"
        "unread cnt' b' bp' @ stream (io_in io1) = ?st" by simp_all
      have step: "readline_loop bufx len cnt b bp mem bufptr io
          = readline_loop bufx len cnt' b' bp' mem bufptr io1"
        using False F_Again by (subst readline_loop.simps) (simp add: re)
      from 1(1) [OF False re [symmetric] F_Again refl refl refl s(1) 1(4-6)]
      show ?thesis unfolding s(2,3) step .
    next
      case F_Have
      let ?c = "b' ! bp'"
      from F_Have spec have s: "bp' < length b'" "rl_ok cnt' b' (Suc bp')"
        "broken (io_in io1) = broken (io_in io)"
        "?st = ?c # unread cnt' b' (Suc bp') @ stream (io_in io1)" by simp_all
      have get: "aget b' (int bp') = Inr ?c" using s(1) by (simp add: aget_ok)
      have put: "mput mem bufptr [?c] = Inr (filled mem bufptr [?c])"
        using 1(4) by (intro mput_filled) simp
      show ?thesis
      proof (cases "?c = NEWLINE")
        case True
        have "filled (filled mem bufptr [?c]) (bufptr + length [?c]) [0] = filled mem bufptr ([?c] @ [0])"
          using 1(4) n by (intro filled_filled) simp
        moreover have "mput (filled mem bufptr [?c]) (bufptr + 1) [0]
            = Inr (filled (filled mem bufptr [?c]) (bufptr + 1) [0])"
          using 1(4) n by (intro mput_filled) simp
        ultimately have "readline_loop bufx len cnt b bp mem bufptr io =
            Inr (c_int (int (bufptr + 1) - int bufx), filled mem bufptr [?c, 0], io1)"
          using False F_Have True put
          by (subst readline_loop.simps) (simp add: re get)
        moreover have "c_int (int (bufptr + 1) - int bufx) = int (bufptr - bufx + 2) - 1"
          using 1(5,6) n by simp
        ultimately show ?thesis using True n
          unfolding s(4) by (simp add: line_post_def s(3))
      next
        case False
        let ?m = "filled mem bufptr [?c]"
        have step: "readline_loop bufx len cnt b bp mem bufptr io
            = readline_loop bufx n cnt' b' (Suc bp') ?m (Suc bufptr) io1"
          using False F_Have n by (subst readline_loop.simps) (simp add: re get put)
        have "Suc bufptr + n < length ?m" "bufx \<le> Suc bufptr" "Suc bufptr + n < 2 ^ 31"
          using 1(4-6) n by simp_all
        with 1(2) [OF \<open>len \<noteq> 0\<close> re [symmetric] F_Have refl refl refl get put False] s(2) n
        obtain r io' where IH: "readline_loop bufx n cnt' b' (Suc bp') ?m (Suc bufptr) io1 =
            Inr (r, filled ?m (Suc bufptr) (fst (line_scan n (unread cnt' b' (Suc bp') @ stream (io_in io1)))), io')"
          "line_post (Suc bufptr - bufx) (fst (line_scan n (unread cnt' b' (Suc bp') @ stream (io_in io1))))
             (snd (line_scan n (unread cnt' b' (Suc bp') @ stream (io_in io1))))
             (unread cnt' b' (Suc bp') @ stream (io_in io1)) (broken (io_in io1)) r io'"
          by auto
        let ?t = "unread cnt' b' (Suc bp') @ stream (io_in io1)"
        have "length (fst (line_scan n ?t)) \<le> Suc n" by (rule line_scan_length)
        then have "filled ?m (bufptr + length [?c]) (fst (line_scan n ?t))
            = filled mem bufptr ([?c] @ fst (line_scan n ?t))"
          using 1(4) n by (intro filled_filled) simp
        moreover have "Suc bufptr - bufx = Suc (bufptr - bufx)" using 1(5) by simp
        ultimately show ?thesis
          unfolding s(4) n step [unfolded n]
          using IH line_post_step [OF False, of "bufptr - bufx" n ?t] False s(3) by auto
      qed
    qed
  qed
qed

lemma readline_one_line:
  assumes "stream (io_in io) = l @ NEWLINE # rest" "NEWLINE \<notin> set l" "length l + 1 < len"
    and "buf + len \<le> length mem" "len < 2147483648" "buf + len < 2147483648"
  shows "\<exists>io' lost. readline mem buf len io = Inr (int (length l + 1), filled mem buf (l @ [NEWLINE, 0]), io') \<and>
     rest = lost @ stream (io_in io') \<and> broken (io_in io') = broken (io_in io)"
proof -
  have n: "c_size (int len - 1) = len - 1" using assms(3,5) by (subst c_size_id) auto
  have scan: "line_scan (len - 1) (l @ NEWLINE # rest) = (l @ [NEWLINE, 0], Line)"
    using assms(2,3) by (intro line_scan_line) auto
  have "unread 0 [] 0 @ stream (io_in io) = l @ NEWLINE # rest" using assms(1) by (simp add: unread_def)
  moreover have "rl_ok 0 [] 0" by (simp add: rl_ok_def)
  ultimately have "\<exists>r io'. readline mem buf len io = Inr (r, filled mem buf (l @ [NEWLINE, 0]), io') \<and>
      line_post 0 (l @ [NEWLINE, 0]) Line (l @ NEWLINE # rest) (broken (io_in io)) r io'"
    using readline_loop_spec [of 0 "[]" 0 buf "len - 1" mem buf io] assms(3-6) scan
    unfolding readline_def n by auto
  then show ?thesis by (auto simp: line_post_def butlast_append)
qed

text \<open>
  \<open>readline\<close> returns the next line of the stream, with its newline and a zero byte after it,
  however the stream is cut, provided the line and the zero byte fit in \<open>len\<close> bytes; it stores
  nothing outside them. But what it received beyond the newline is lost: the stream the next call
  sees lacks the bytes \<open>lost\<close>, the rest of the last chunk.
\<close>
theorem readline_line:
  assumes "stream (io_in io) = l @ NEWLINE # rest" "NEWLINE \<notin> set l" "length l + 1 < len"
    and "buf + len \<le> length mem" "len < 2147483648" "buf + len < 2147483648"
  shows "\<exists>io' lost. readline mem buf len io = Inr (int (length l + 1), filled mem buf (l @ [NEWLINE, 0]), io') \<and>
     rest = lost @ stream (io_in io') \<and> broken (io_in io') = broken (io_in io)"
  using readline_one_line [OF assms] .

theorem readline_line_witness:
  "\<exists>io' lost. readline [1, 1, 1, 1] 0 4 (some_io [RData 65 [], RData 66 [10, 67]])
     = Inr (3, [65, 66, 10, 0], io') \<and> [67] = lost @ stream (io_in io')"
  using readline_line [of "some_io [RData 65 [], RData 66 [10, 67]]" "[65, 66]" "[67]" 4 0 "[1, 1, 1, 1]"]
  by (auto simp: some_io_def filled_def)

lemma readline_in_chunk:
  assumes "rl_refill (cnt - 1) b bp io = (F_Have, cnt', b', bp', io1)"
    and "drop bp' b' = l @ NEWLINE # extra" "NEWLINE \<notin> set l" "int bp' + cnt' = int (length b')"
    and "readline_loop bufx len cnt b bp mem bufptr io = Inr (r, m, io')" "r \<noteq> -1"
  shows "io_in io' = io_in io1"
  using assms
proof (induction l arbitrary: cnt b bp io cnt' bp' len mem bufptr)
  case Nil
  then have c: "bp' < length b'" "b' ! bp' = NEWLINE"
    by (metis append_Nil drop_eq_Nil leI list.distinct(1), metis append_Nil drop_take_Suc
        drop_eq_Nil leI list.distinct(1) list.inject)
  then have "aget b' (int bp') = Inr NEWLINE" by (simp add: aget_ok)
  with Nil.prems(1,5,6) show ?case
    by (auto simp: readline_loop.simps [of bufx len cnt b bp mem bufptr io] split: if_splits)
next
  case (Cons c l)
  from Cons.prems(2) have lt: "bp' < length b'"
    by (metis append_Cons drop_eq_Nil leI list.distinct(1))
  from drop_take_Suc [OF lt] Cons.prems(2) have c: "b' ! bp' = c" "drop (Suc bp') b' = l @ NEWLINE # extra"
    by simp_all
  then have "aget b' (int bp') = Inr c" using lt by (simp add: aget_ok)
  with Cons.prems(1,3,5,6) obtain m' where m': "readline_loop bufx (len - 1) cnt' b' (Suc bp') m' (Suc bufptr) io1
      = Inr (r, m, io')"
    by (auto simp: readline_loop.simps [of bufx len cnt b bp mem bufptr io] c(1) split: if_splits)
  have "Suc bp' < length b'" using c(2) by (metis drop_eq_Nil leI append_is_Nil_conv list.distinct(1))
  then have "\<not> cnt' - 1 \<le> 0" using Cons.prems(4) by linarith
  then have "rl_refill (cnt' - 1) b' (Suc bp') io1 = (F_Have, cnt' - 1, b', Suc bp', io1)"
    by (simp add: rl_refill_def)
  from Cons.IH [OF this c(2) _ _ m'] Cons.prems(3,4,6) show ?case by simp
qed

text \<open>
  Two lines that arrive in one chunk: \<open>readline\<close> delivers the first, and the second is gone.
  A caller that reads line by line then sees whatever the peer sends next.
\<close>
theorem readline_loses_second_line:
  assumes "NEWLINE \<notin> set l" "length l + 1 < len" "length l + 1 + length extra \<le> 1500"
    and "buf + len \<le> length mem" "len < 2147483648" "buf + len < 2147483648"
    and "io_in io = chunk (l @ NEWLINE # extra) @ s"
  shows "\<exists>io'. readline mem buf len io = Inr (int (length l + 1), filled mem buf (l @ [NEWLINE, 0]), io') \<and>
     io_in io' = s"
proof -
  have "stream (io_in io) = l @ NEWLINE # (extra @ stream s)" using assms(7) by simp
  from readline_one_line [OF this assms(1,2,4,5,6)] obtain io' where
    r: "readline mem buf len io = Inr (int (length l + 1), filled mem buf (l @ [NEWLINE, 0]), io')" by blast
  let ?got = "l @ NEWLINE # extra"
  obtain c cs where got: "?got = c # cs" by (cases l) auto
  have "length (c # cs) \<le> 1500" using assms(3) unfolding got [symmetric] by simp
  then have "sys_read 1500 (io_in io) = (Inr ?got, s)"
    using assms(7) unfolding got by (simp add: chunk_def)
  then have "rl_refill (0 - 1) [] 0 io = (F_Have, int (length ?got), ?got, 0, io\<lparr>io_in := s\<rparr>)"
    by (simp add: rl_refill_def)
  moreover have "c_size (int len - 1) = len - 1" using assms(2,5) by (subst c_size_id) auto
  ultimately have "io_in io' = s"
    using readline_in_chunk [of 0 "[]" 0 io "int (length ?got)" ?got 0 "io\<lparr>io_in := s\<rparr>" l extra
        buf "len - 1" mem buf] r assms(1) unfolding readline_def by auto
  with r show ?thesis by blast
qed

theorem readline_loses_second_line_witness:
  "\<exists>io'. readline [1, 1, 1, 1] 0 4 (some_io [RData 65 [10, 66, 10]]) = Inr (2, [65, 10, 0, 1], io') \<and>
     io_in io' = []"
  using readline_loses_second_line [of "[65]" 4 "[66, 10]" 0 "[1, 1, 1, 1]" "some_io [RData 65 [10, 66, 10]]" "[]"]
  by (auto simp: some_io_def filled_def chunk_def)

text \<open>
  The other ways \<open>readline\<close> can return, for a buffer of at least one byte: no newline among
  the first \<open>len - 1\<close> bytes gives \<open>-1\<close> and \<open>EMSGSIZE\<close>; a stream that ends before, \<open>0\<close> even when
  part of a line had arrived, or \<open>-1\<close> with the errno of the error that ended it.
\<close>
theorem readline_no_line:
  assumes "NEWLINE \<notin> set (take (len - 1) (stream (io_in io)))" "0 < len"
    and "buf + len \<le> length mem" "len < 2147483648" "buf + len < 2147483648"
  shows "\<exists>r io'. readline mem buf len io =
      Inr (r, filled mem buf (take (len - 1) (stream (io_in io))), io') \<and>
      (if len - 1 \<le> length (stream (io_in io)) then r = -1 \<and> io_errno io' = EMSGSIZE
       else case broken (io_in io) of None \<Rightarrow> r = 0 | Some e \<Rightarrow> r = -1 \<and> io_errno io' = e)"
proof -
  let ?st = "stream (io_in io)"
  have n: "c_size (int len - 1) = len - 1" using assms(2,4) by (subst c_size_id) auto
  have u: "unread 0 [] 0 @ ?st = ?st" "rl_ok 0 [] 0" by (simp_all add: unread_def rl_ok_def)
  have "\<exists>r io'. readline mem buf len io = Inr (r, filled mem buf (fst (line_scan (len - 1) ?st)), io') \<and>
      line_post 0 (fst (line_scan (len - 1) ?st)) (snd (line_scan (len - 1) ?st)) ?st (broken (io_in io)) r io'"
    using readline_loop_spec [OF u(2), of buf "len - 1" mem buf io] assms(2-5)
    unfolding readline_def n u(1) by auto
  moreover have "line_scan (len - 1) ?st
      = (take (len - 1) ?st, if len - 1 \<le> length ?st then Too_Long else Ended)"
    using line_scan_long [OF assms(1)] line_scan_ended [of ?st "len - 1"] assms(1) by auto
  ultimately show ?thesis
    by (cases "len - 1 \<le> length ?st") (auto simp: line_post_def)
qed

theorem readline_no_line_witness:
  "\<exists>io'. readline [1, 1] 0 2 (some_io [RData 65 [66]]) = Inr (-1, [65, 1], io') \<and> io_errno io' = EMSGSIZE"
  using readline_no_line [of 2 "some_io [RData 65 [66]]" 0 "[1, 1]"]
  by (auto simp: some_io_def filled_def)

section \<open>readLine reads exactly one line\<close>

text \<open>The line at the front of a stream, with its newline if it has one.\<close>

fun first_line :: "byte list \<Rightarrow> byte list" where
  "first_line [] = []"
| "first_line (c # st) = (if c = NEWLINE then [c] else c # first_line st)"

lemma first_line_prefix: "first_line st @ drop (length (first_line st)) st = st"
  by (induction st) auto

lemma first_line_line: "NEWLINE \<notin> set l \<Longrightarrow> first_line (l @ NEWLINE # rest) = l @ [NEWLINE]"
  by (induction l) auto

text \<open>
  What the loop owes the caller after \<open>tot\<close> bytes were stored and the rest of the stream is
  \<open>st\<close>, ending with \<open>br\<close>.
\<close>

definition readLine_post ::
    "nat \<Rightarrow> nat \<Rightarrow> byte list \<Rightarrow> nat option \<Rightarrow> byte list \<Rightarrow> nat \<Rightarrow> int \<Rightarrow> byte list \<Rightarrow> io \<Rightarrow> bool" where
  "readLine_post n tot st br mem buf r mem' io \<longleftrightarrow>
     (if NEWLINE \<in> set st \<or> br = None then
        stream (io_in io) = drop (length (first_line st)) st \<and> broken (io_in io) = br \<and>
        r = int (min (n - 1) (tot + length (first_line st))) \<and>
        mem' = (if NEWLINE \<notin> set st \<and> min (n - 1) (tot + length (first_line st)) = 0 then mem else filled mem buf (take (n - 1 - tot) (first_line st) @ [0]))
      else r = -1 \<and> Some (io_errno io) = br)"

lemma rL_finish_ok:
  "buf < length mem \<Longrightarrow> rL_finish mem buf tot io = Inr (int tot, filled mem buf [0], io)"
  by (simp add: rL_finish_def mput_filled)

lemma readLine_post_store:
  assumes "c \<noteq> NEWLINE" "tot < n - 1" "buf + (n - tot) \<le> length mem"
    and "readLine_post n (Suc tot) st br (filled mem buf [c]) (Suc buf) r mem' io"
  shows "readLine_post n tot (c # st) br mem buf r mem' io"
proof -
  have "filled (filled mem buf [c]) (Suc buf) (take (n - 1 - Suc tot) l @ [0])
      = filled mem buf (take (n - 1 - tot) (c # l) @ [0])" for l
  proof -
    have "n - 1 - tot = Suc (n - 1 - Suc tot)" using assms(2) by simp
    moreover have "buf + length [c] + length (take (n - 1 - Suc tot) l @ [0]) \<le> length mem"
      using assms(2,3) by simp
    from filled_filled [OF this] have "filled (filled mem buf [c]) (Suc buf) (take (n - 1 - Suc tot) l @ [0])
      = filled mem buf (c # take (n - 1 - Suc tot) l @ [0])" by simp
    ultimately show ?thesis by simp
  qed
  with assms show ?thesis by (auto simp: readLine_post_def)
qed

lemma readLine_post_skip:
  assumes "c \<noteq> NEWLINE" "\<not> tot < n - 1" "tot \<le> n - 1"
    and "readLine_post n tot st br mem buf r mem' io"
  shows "readLine_post n tot (c # st) br mem buf r mem' io"
  using assms by (auto simp: readLine_post_def)

lemma readLine_loop_spec:
  assumes "0 < n" "tot \<le> n - 1" "buf + (n - tot) \<le> length mem"
  shows "\<exists>r mem' io'. readLine_loop n tot mem buf io = Inr (r, mem', io') \<and>
    readLine_post n tot (stream (io_in io)) (broken (io_in io)) mem buf r mem' io'"
  using assms
proof (induction n tot mem buf io rule: readLine_loop.induct)
  case (1 n tot mem buf io)
  have room: "buf < length mem" using 1(4-6) by linarith
  have "0 < (1::nat)" by simp
  then show ?case
  proof (cases rule: sys_read_cases [where s = "io_in io"])
    case (Err e s')
    let ?io = "io\<lparr>io_in := s', io_errno := e\<rparr>"
    show ?thesis
    proof (cases "e = EINTR")
      case True
      have step: "readLine_loop n tot mem buf io = readLine_loop n tot mem buf ?io"
        by (subst readLine_loop.simps) (simp add: Err(1) [unfolded One_nat_def] True)
      from 1(1) [OF Err(1) [symmetric] refl True 1(4-6)] Err(3) [OF True]
      show ?thesis unfolding step by simp
    next
      case False
      have "readLine_loop n tot mem buf io = Inr (-1, mem, ?io)"
        by (subst readLine_loop.simps) (simp add: Err(1) [unfolded One_nat_def] False)
      with Err(4) [OF False] show ?thesis by (simp add: readLine_post_def)
    qed
  next
    case Eof
    have "readLine_loop n tot mem buf io = (if tot = 0 then Inr (0, mem, io\<lparr>io_in := []\<rparr>)
        else rL_finish mem buf tot (io\<lparr>io_in := []\<rparr>))"
      by (subst readLine_loop.simps) (simp add: Eof(1) [unfolded One_nat_def] Let_def)
    with Eof 1(5) room show ?thesis by (auto simp: readLine_post_def rL_finish_ok)
  next
    case (Data got s')
    from Data(2,3) obtain c where got: "got = [c]" by (cases got) auto
    let ?io = "io\<lparr>io_in := s'\<rparr>"
    have st: "stream (io_in io) = c # stream s'" using Data(4) got by simp
    note rd = Data(1) [unfolded One_nat_def got]
    have put: "mput mem buf [c] = Inr (filled mem buf [c])" using room by (intro mput_filled) simp
    show ?thesis
    proof (cases "tot < n - 1")
      case more: True
      let ?m = "filled mem buf [c]"
      have fill: "filled ?m (Suc buf) bs = filled mem buf (c # bs)" if "length bs \<le> n - Suc tot" for bs
        using filled_filled [of buf "[c]" bs mem] that 1(6) more by simp
      show ?thesis
      proof (cases "c = NEWLINE")
        case True
        have "readLine_loop n tot mem buf io = Inr (int (Suc tot), filled ?m (Suc buf) [0], ?io)"
          using more True put 1(6)
          by (subst readLine_loop.simps) (simp add: rd Let_def rL_finish_ok)
        with fill [of "[0]"] more True show ?thesis by (simp add: readLine_post_def st Data(5))
      next
        case False
        have step: "readLine_loop n tot mem buf io = readLine_loop n (tot + 1) ?m (buf + 1) ?io"
          using more False put by (subst readLine_loop.simps) (simp add: rd Let_def)
        have b: "tot + 1 \<le> n - 1" "buf + 1 + (n - (tot + 1)) \<le> length ?m" using more 1(6) by simp_all
        have hd: "hd got = c" by (simp add: got)
        from 1(2) [OF Data(1) [symmetric] refl refl Data(2) refl more put [folded hd] _ 1(4) b [unfolded hd [symmetric]]]
        obtain r mem' io' where IH: "readLine_loop n (Suc tot) ?m (Suc buf) ?io = Inr (r, mem', io')"
          "readLine_post n (Suc tot) (stream s') (broken s') ?m (Suc buf) r mem' io'"
          using False hd by auto
        from readLine_post_store [OF False more 1(6) IH(2)] IH(1) Data(5)
        show ?thesis unfolding step st by simp
      qed
    next
      case full: False
      show ?thesis
      proof (cases "c = NEWLINE")
        case True
        have "readLine_loop n tot mem buf io = Inr (int tot, filled mem buf [0], ?io)"
          using full True room by (subst readLine_loop.simps) (simp add: rd Let_def rL_finish_ok)
        with full 1(5) True show ?thesis by (simp add: readLine_post_def st Data(5))
      next
        case False
        have step: "readLine_loop n tot mem buf io = readLine_loop n tot mem buf ?io"
          using full False by (subst readLine_loop.simps) (simp add: rd Let_def)
        have hd: "hd got = c" by (simp add: got)
        from 1(3) [OF Data(1) [symmetric] refl refl Data(2) refl full _ 1(4-6)] False hd
        obtain r mem' io' where IH: "readLine_loop n tot mem buf ?io = Inr (r, mem', io')"
          "readLine_post n tot (stream s') (broken s') mem buf r mem' io'" by auto
        from readLine_post_skip [OF False full 1(5) IH(2)] IH(1) Data(5)
        show ?thesis unfolding step st by simp
      qed
    qed
  qed
qed

lemma readLine_one_line:
  assumes "0 < n" "buf + n \<le> length mem"
  shows "\<exists>r mem' io'. readLine mem (Some buf) n io = Inr (r, mem', io') \<and>
    (if NEWLINE \<in> set (stream (io_in io)) \<or> broken (io_in io) = None then
       stream (io_in io') = drop (length (first_line (stream (io_in io)))) (stream (io_in io)) \<and>
       r = int (min (n - 1) (length (first_line (stream (io_in io))))) \<and>
       (stream (io_in io) = [] \<longrightarrow> mem' = mem) \<and>
       (NEWLINE \<in> set (stream (io_in io)) \<longrightarrow>
          mem' = filled mem buf (take (n - 1) (first_line (stream (io_in io))) @ [0]))
     else r = -1 \<and> Some (io_errno io') = broken (io_in io))"
proof -
  have "0 \<le> n - 1" "buf + (n - 0) \<le> length mem" using assms by simp_all
  from readLine_loop_spec [OF assms(1) this, of io] assms(1) show ?thesis
    unfolding readLine_def by (auto simp: readLine_post_def split: if_splits)
qed

text \<open>
  \<open>readLine\<close> consumes exactly one line, however the stream is cut: it stores the first
  \<open>n - 1\<close> bytes of it (newline included) and a zero byte, returns their number, and leaves the
  stream right behind the newline. At the end of the stream it returns what was left of a last
  line, or \<open>0\<close> and an untouched buffer; after an error \<open>-1\<close>.
\<close>
theorem readLine_consumes_one_line:
  assumes "0 < n" "buf + n \<le> length mem"
  shows "\<exists>r mem' io'. readLine mem (Some buf) n io = Inr (r, mem', io') \<and>
    (if NEWLINE \<in> set (stream (io_in io)) \<or> broken (io_in io) = None then
       stream (io_in io') = drop (length (first_line (stream (io_in io)))) (stream (io_in io)) \<and>
       r = int (min (n - 1) (length (first_line (stream (io_in io))))) \<and>
       (stream (io_in io) = [] \<longrightarrow> mem' = mem) \<and>
       (NEWLINE \<in> set (stream (io_in io)) \<longrightarrow>
          mem' = filled mem buf (take (n - 1) (first_line (stream (io_in io))) @ [0]))
     else r = -1 \<and> Some (io_errno io') = broken (io_in io))"
  using readLine_one_line [OF assms] .

theorem readLine_consumes_one_line_witness:
  "\<exists>mem' io'. readLine [1, 1, 1, 1] (Some 1) 3 (some_io [RData 65 [], RErr 4, RData 66 [67, 10, 68]])
     = Inr (2, mem', io') \<and> mem' = [1, 65, 66, 0] \<and> stream (io_in io') = [68]"
  using readLine_consumes_one_line [of 3 1 "[1, 1, 1, 1]" "some_io [RData 65 [], RErr 4, RData 66 [67, 10, 68]]"]
  by (auto simp: some_io_def filled_def)

text \<open>A client that reads \<open>k\<close> lines with a buffer of \<open>n\<close> bytes.\<close>

fun read_lines :: "nat \<Rightarrow> nat \<Rightarrow> io \<Rightarrow> (byte list list \<times> io) cres" where
  "read_lines 0 n io = Inr ([], io)"
| "read_lines (Suc k) n io =
     cbind (readLine (replicate n 0) (Some 0) n io) (\<lambda>(r, mem, io').
       cbind (read_lines k n io') (\<lambda>(ls, io''). Inr (take (nat r) mem # ls, io'')))"

text \<open>
  C32. Lines survive the stream: lines of fewer than \<open>n\<close> bytes, each ended by its newline, are
  read back by successive calls of \<open>readLine\<close> unchanged and in order, however the kernel cuts
  them into chunks.
\<close>
theorem readLine_roundtrip:
  assumes "stream (io_in io) = concat (map (\<lambda>l. l @ [NEWLINE]) ls) @ rest"
    and "\<forall>l\<in>set ls. NEWLINE \<notin> set l \<and> length l + 1 < n"
  shows "\<exists>io'. read_lines (length ls) n io = Inr (map (\<lambda>l. l @ [NEWLINE]) ls, io') \<and>
     stream (io_in io') = rest"
  using assms
proof (induction ls arbitrary: io)
  case Nil
  then show ?case by simp
next
  case (Cons l ls)
  from Cons.prems(2) have l: "NEWLINE \<notin> set l" "length l + 1 < n" "0 < n" by auto
  have st: "stream (io_in io) = l @ NEWLINE # (concat (map (\<lambda>l. l @ [NEWLINE]) ls) @ rest)"
    using Cons.prems(1) by simp
  have fl: "first_line (stream (io_in io)) = l @ [NEWLINE]" unfolding st by (rule first_line_line [OF l(1)])
  have mem: "0 + n \<le> length (replicate n (0::byte))" by simp
  from readLine_one_line [OF l(3) mem, of io] l(2)
  obtain mem' io' where r: "readLine (replicate n 0) (Some 0) n io = Inr (int (length l + 1), mem', io')"
    "mem' = filled (replicate n 0) 0 (l @ [NEWLINE, 0])"
    "stream (io_in io') = concat (map (\<lambda>l. l @ [NEWLINE]) ls) @ rest"
    unfolding fl by (auto simp: st)
  have "nat (int (length l + 1)) = length (l @ [NEWLINE])" by simp
  then have "take (nat (int (length l + 1))) mem' = l @ [NEWLINE]" by (simp only: r(2) filled_def) simp
  with Cons.IH [OF r(3)] Cons.prems(2) r(1) show ?case by auto
qed

theorem readLine_roundtrip_witness:
  "\<exists>io'. read_lines (Suc (Suc 0)) 8 (some_io [RData 65 [10, 66], RErr 4, RData 10 [67]])
     = Inr ([[65, 10], [66, 10]], io') \<and> stream (io_in io') = [67]"
  using readLine_roundtrip [of "some_io [RData 65 [10, 66], RErr 4, RData 10 [67]]" "[[65], [66]]" "[67]" 8]
  by (simp add: some_io_def del: read_lines.simps)

end
