(* ===== verification/GetNum.thy ===== *)
theory GetNum
  imports Prelude "HOL-Library.Char_ord"
begin

text \<open>
  Numeric command-line arguments: \<open>strtol\<close> of the C standard library on a 64-bit \<open>long\<close>, and
  \<open>lib/src/get_num.c\<close> on top of it. A C string is the list of its characters before the
  terminating zero. A call that ends the process is the text it wrote to the standard error.
\<close>

section \<open>strtol\<close>

abbreviation (input) LONG_MAX :: int where "LONG_MAX \<equiv> 9223372036854775807"
abbreviation (input) LONG_MIN :: int where "LONG_MIN \<equiv> - 9223372036854775808"

definition is_space :: "char \<Rightarrow> bool" where
  "is_space c \<longleftrightarrow> c = CHR '' '' \<or> 9 \<le> (of_char c :: nat) \<and> (of_char c :: nat) \<le> 13"

definition digit_val :: "char \<Rightarrow> nat option" where
  "digit_val c = (let n = of_char c :: nat in
     if 48 \<le> n \<and> n \<le> 57 then Some (n - 48)
     else if 97 \<le> n \<and> n \<le> 122 then Some (n - 87)
     else if 65 \<le> n \<and> n \<le> 90 then Some (n - 55) else None)"

definition is_digit :: "nat \<Rightarrow> char \<Rightarrow> bool" where
  "is_digit base c = (case digit_val c of None \<Rightarrow> False | Some d \<Rightarrow> d < base)"

definition digits_val :: "nat \<Rightarrow> string \<Rightarrow> int" where
  "digits_val base ds = foldl (\<lambda>a c. a * int base + int (the (digit_val c))) 0 ds"

fun sign_of :: "string \<Rightarrow> bool \<times> string" where
  "sign_of [] = (False, [])"
| "sign_of (c # s) = (if c = CHR ''-'' then (True, s) else if c = CHR ''+'' then (False, s)
     else (False, c # s))"

fun hex_prefix :: "string \<Rightarrow> bool" where
  "hex_prefix (z # x # h # s) = (z = CHR ''0'' \<and> (x = CHR ''x'' \<or> x = CHR ''X'') \<and> is_digit 16 h)"
| "hex_prefix _ = False"

definition base_of :: "nat \<Rightarrow> string \<Rightarrow> nat \<times> string" where
  "base_of base s =
     (if (base = 0 \<or> base = 16) \<and> hex_prefix s then (16, drop 2 s)
      else if base = 0 then (if s \<noteq> [] \<and> hd s = CHR ''0'' then 8 else 10, s)
      else (base, s))"

text \<open>The value, the string \<open>endptr\<close> points to, and whether errno was set to \<open>ERANGE\<close>.\<close>

definition strtol :: "nat \<Rightarrow> string \<Rightarrow> int \<times> string \<times> bool" where
  "strtol base s =
     (let (neg, s1) = sign_of (dropWhile is_space s);
          (b, s2) = base_of base s1;
          ds = takeWhile (is_digit b) s2;
          rest = dropWhile (is_digit b) s2;
          v = (if neg then - digits_val b ds else digits_val b ds)
      in if ds = [] then (0, s, False)
         else if v > LONG_MAX then (LONG_MAX, rest, True)
         else if v < LONG_MIN then (LONG_MIN, rest, True)
         else (v, rest, False))"

section \<open>getLong and getInt\<close>

definition GN_NONNEG :: u32 where "GN_NONNEG = 1"
definition GN_GT_0 :: u32 where "GN_GT_0 = 2"
definition GN_ANY_BASE :: u32 where "GN_ANY_BASE = 64"
definition GN_BASE_8 :: u32 where "GN_BASE_8 = 128"
definition GN_BASE_16 :: u32 where "GN_BASE_16 = 256"

lemmas gn_flags = GN_NONNEG_def GN_GT_0_def GN_ANY_BASE_def GN_BASE_8_def GN_BASE_16_def

definition gnFail :: "string \<Rightarrow> string \<Rightarrow> string option \<Rightarrow> string option \<Rightarrow> string" where
  "gnFail fname msg arg name =
     fname @ '' error'' @ (case name of None \<Rightarrow> [] | Some n \<Rightarrow> '' (in '' @ n @ '')'') @
     '': '' @ msg @ [CHR 10] @
     (case arg of None \<Rightarrow> [] | Some a \<Rightarrow>
        if a = [] then [] else ''        offending text: '' @ a @ [CHR 10])"

definition getNum :: "string \<Rightarrow> string option \<Rightarrow> u32 \<Rightarrow> string option \<Rightarrow> string + int" where
  "getNum fname arg flags name =
     (case arg of None \<Rightarrow> Inl (gnFail fname ''null or empty string'' arg name)
      | Some a \<Rightarrow>
        if a = [] then Inl (gnFail fname ''null or empty string'' arg name)
        else
          let base = (if and flags GN_ANY_BASE \<noteq> 0 then 0 else if and flags GN_BASE_8 \<noteq> 0 then 8
                      else if and flags GN_BASE_16 \<noteq> 0 then 16 else 10);
              (res, endptr, erange) = strtol base a
          in if erange then Inl (gnFail fname ''strtol() failed'' arg name)
             else if endptr \<noteq> [] then Inl (gnFail fname ''nonnumeric characters'' arg name)
             else if and flags GN_NONNEG \<noteq> 0 \<and> res < 0
                  then Inl (gnFail fname ''negative value not allowed'' arg name)
             else if and flags GN_GT_0 \<noteq> 0 \<and> res \<le> 0
                  then Inl (gnFail fname ''value must be > 0'' arg name)
             else Inr res)"

definition getLong :: "string option \<Rightarrow> u32 \<Rightarrow> string option \<Rightarrow> string + int" where
  "getLong arg flags name = getNum ''getLong'' arg flags name"

definition getInt :: "string option \<Rightarrow> u32 \<Rightarrow> string option \<Rightarrow> string + int" where
  "getInt arg flags name =
     (case getNum ''getInt'' arg flags name of Inl out \<Rightarrow> Inl out
      | Inr res \<Rightarrow>
          if res > INT_MAX \<or> res < INT_MIN then Inl (gnFail ''getInt'' ''integer out of range'' arg name)
          else Inr (c_int res))"

section \<open>Decimal numerals\<close>

definition digit_char :: "nat \<Rightarrow> char" where
  "digit_char d = char_of (48 + d)"

fun decimal :: "nat \<Rightarrow> string" where
  "decimal n = (if n < 10 then [digit_char n] else decimal (n div 10) @ [digit_char (n mod 10)])"

declare decimal.simps [simp del]

definition show_int :: "int \<Rightarrow> string" where
  "show_int i = (if i < 0 then CHR ''-'' # decimal (nat (- i)) else decimal (nat i))"

lemma of_char_of_small: "n < 256 \<Longrightarrow> (of_char (char_of n) :: nat) = n"
  by simp

lemma digit_val_char: "d < 10 \<Longrightarrow> digit_val (digit_char d) = Some d"
  by (simp add: digit_val_def digit_char_def Let_def)

lemma decimal_digits: "c \<in> set (decimal n) \<Longrightarrow> \<exists>d<10. c = digit_char d"
proof (induction n rule: decimal.induct)
  case (1 n)
  have "n mod 10 < 10" by simp
  moreover from 1(2) have "n < 10 \<and> c = digit_char n \<or> \<not> n < 10 \<and> (c \<in> set (decimal (n div 10)) \<or> c = digit_char (n mod 10))"
    by (subst (asm) decimal.simps) (auto split: if_splits)
  ultimately show ?case using 1(1) by blast
qed

lemma decimal_ne [simp]: "decimal n \<noteq> []"
  by (subst decimal.simps) simp

lemma digits_val_snoc:
  "digits_val b (ds @ [c]) = digits_val b ds * int b + int (the (digit_val c))"
  by (simp add: digits_val_def)

lemma digits_val_decimal: "digits_val 10 (decimal n) = int n"
proof (induction n rule: decimal.induct)
  case (1 n)
  show ?case
  proof (cases "n < 10")
    case True
    then show ?thesis by (subst decimal.simps) (simp add: digits_val_def digit_val_char)
  next
    case False
    then have "digits_val 10 (decimal n) = int (n div 10) * 10 + int (n mod 10)"
      using 1 by (subst decimal.simps) (simp add: digits_val_snoc digit_val_char)
    then show ?thesis by (simp add: zdiv_int zmod_int)
  qed
qed

lemma is_digit_decimal: "\<forall>c\<in>set (decimal n). is_digit 10 c"
  using decimal_digits by (auto simp: is_digit_def digit_val_char dest!: decimal_digits)

lemma while_decimal [simp]:
  "takeWhile (is_digit 10) (decimal n) = decimal n" "dropWhile (is_digit 10) (decimal n) = []"
  by (simp_all add: takeWhile_eq_all_conv dropWhile_eq_Nil_conv is_digit_decimal)

lemma decimal_head:
  assumes "c \<in> set (decimal n)"
  shows "\<not> is_space c" "c \<noteq> CHR ''-''" "c \<noteq> CHR ''+''"
proof -
  obtain d where d: "d < 10" "c = digit_char d" using decimal_digits [OF assms] by blast
  then have v: "(of_char c :: nat) = 48 + d" by (simp add: digit_char_def)
  then show "\<not> is_space c" by (auto simp: is_space_def)
  show "c \<noteq> CHR ''-''" "c \<noteq> CHR ''+''" using v by auto
qed

lemma strtol_show_int:
  assumes "LONG_MIN \<le> i" "i \<le> LONG_MAX"
  shows "strtol 10 (show_int i) = (i, [], False)"
proof -
  have hd: "decimal n = c # s \<Longrightarrow> \<not> is_space c \<and> c \<noteq> CHR ''-'' \<and> c \<noteq> CHR ''+''" for n c s
    using decimal_head [of c n] by auto
  have sgn: "sign_of (dropWhile is_space (decimal n)) = (False, decimal n)" for n
    using hd [of n] by (cases "decimal n") auto
  have "sign_of (dropWhile is_space (show_int i)) = (i < 0, decimal (nat \<bar>i\<bar>))"
    using sgn by (auto simp: show_int_def is_space_def)
  moreover have "base_of 10 s = (10, s)" for s by (simp add: base_of_def)
  ultimately show ?thesis using assms
    by (simp add: strtol_def digits_val_decimal Let_def)
qed

section \<open>Properties\<close>

text \<open>
  C33. Every 32-bit integer survives being written in decimal and parsed by \<open>getInt\<close>, and every
  64-bit one being parsed by \<open>getLong\<close>, whatever the name of the argument; with the flag
  \<open>GN_NONNEG\<close> exactly the negative ones are refused, with \<open>GN_GT_0\<close> also zero.
\<close>
theorem getNum_decimal_roundtrip:
  assumes "- 9223372036854775808 \<le> i" "i \<le> 9223372036854775807"
  shows "getLong (Some (show_int i)) 0 name = Inr i \<and>
    (- 2147483648 \<le> i \<and> i \<le> 2147483647 \<longrightarrow> getInt (Some (show_int i)) 0 name = Inr i) \<and>
    (getLong (Some (show_int i)) GN_NONNEG name = Inr i \<longleftrightarrow> 0 \<le> i) \<and>
    (getLong (Some (show_int i)) GN_GT_0 name = Inr i \<longleftrightarrow> 0 < i)"
proof -
  have "show_int i \<noteq> []" by (simp add: show_int_def)
  with strtol_show_int [OF assms] show ?thesis
    by (simp add: getLong_def getInt_def getNum_def gn_flags Let_def)
qed

theorem getNum_decimal_roundtrip_witness:
  "getInt (Some (show_int (- 42))) 0 None = Inr (- 42)"
  using getNum_decimal_roundtrip [of "- 42" None] by simp

text \<open>What a string that \<open>strtol\<close> converts in full looks like.\<close>

definition numeral_text :: "nat \<Rightarrow> string \<Rightarrow> int \<Rightarrow> bool" where
  "numeral_text base s v \<longleftrightarrow> (\<exists>blank sign prefix b ds. s = blank @ sign @ prefix @ ds \<and>
     list_all is_space blank \<and> sign \<in> {[], ''+'', ''-''} \<and>
     (b = base \<and> prefix = [] \<or> b = 16 \<and> base \<in> {0, 16} \<and> prefix \<in> {''0x'', ''0X''} \<or>
      base = 0 \<and> b \<in> {8, 10} \<and> prefix = []) \<and>
     ds \<noteq> [] \<and> list_all (is_digit b) ds \<and>
     v = (if sign = ''-'' then - digits_val b ds else digits_val b ds))"

lemma sign_of_append: "sign_of s = (neg, t) \<Longrightarrow>
    \<exists>sign. s = sign @ t \<and> sign \<in> {[], ''+'', ''-''} \<and> (neg \<longleftrightarrow> sign = ''-'')"
  by (cases s) (auto split: if_splits)

lemma base_of_append:
  assumes "base_of base s = (b, t)"
  shows "\<exists>prefix. s = prefix @ t \<and>
     (b = base \<and> prefix = [] \<or> b = 16 \<and> base \<in> {0, 16} \<and> prefix \<in> {''0x'', ''0X''} \<or>
      base = 0 \<and> b \<in> {8, 10} \<and> prefix = [])"
proof (cases "(base = 0 \<or> base = 16) \<and> hex_prefix s")
  case True
  then show ?thesis using assms by (cases s rule: hex_prefix.cases) (auto simp: base_of_def)
next
  case False
  then show ?thesis using assms by (auto simp: base_of_def split: if_splits)
qed

lemma strtol_full:
  assumes "strtol base s = (v, [], False)" "s \<noteq> []"
  shows "numeral_text base s v \<and> LONG_MIN \<le> v \<and> v \<le> LONG_MAX"
proof -
  obtain neg s1 where sg: "sign_of (dropWhile is_space s) = (neg, s1)" by (cases "sign_of (dropWhile is_space s)")
  obtain b s2 where bs: "base_of base s1 = (b, s2)" by (cases "base_of base s1")
  obtain sign where sign: "dropWhile is_space s = sign @ s1" "sign \<in> {[], ''+'', ''-''}" "neg \<longleftrightarrow> sign = ''-''"
    using sign_of_append [OF sg] by blast
  obtain prefix where prefix: "s1 = prefix @ s2"
    "b = base \<and> prefix = [] \<or> b = 16 \<and> base \<in> {0, 16} \<and> prefix \<in> {''0x'', ''0X''} \<or>
      base = 0 \<and> b \<in> {8, 10} \<and> prefix = []"
    using base_of_append [OF bs] by blast
  let ?ds = "takeWhile (is_digit b) s2"
  from assms have "?ds \<noteq> []" "dropWhile (is_digit b) s2 = []"
    and v: "v = (if neg then - digits_val b ?ds else digits_val b ?ds)" "LONG_MIN \<le> v" "v \<le> LONG_MAX"
    by (auto simp: strtol_def sg bs Let_def split: if_splits)
  then have ds: "s2 = ?ds" "?ds \<noteq> []" by (metis append_Nil2 takeWhile_dropWhile_id, simp)
  have "s = takeWhile is_space s @ sign @ prefix @ ?ds"
    using sign(1) prefix(1) ds(1) by (metis takeWhile_dropWhile_id)
  moreover have "list_all is_space (takeWhile is_space s)" "list_all (is_digit b) ?ds"
    by (auto simp: list_all_iff dest: set_takeWhileD)
  ultimately have "numeral_text base s v"
    unfolding numeral_text_def using sign(2,3) prefix(2) ds(2) v(1) by blast
  with v show ?thesis by blast
qed

text \<open>
  Nothing else gets through: when \<open>getInt\<close> returns, the whole argument was blanks, a sign and
  digits of the base the flags select (with an optional \<open>0x\<close> where C allows one), the value is
  that of the digits, fits an \<open>int\<close> without wrapping, and respects the flags.
\<close>
theorem getInt_sound:
  assumes "getInt (Some a) flags name = Inr v"
  shows "- 2147483648 \<le> v \<and> v \<le> 2147483647 \<and>
    (and flags GN_NONNEG \<noteq> 0 \<longrightarrow> 0 \<le> v) \<and> (and flags GN_GT_0 \<noteq> 0 \<longrightarrow> 0 < v) \<and>
    numeral_text (if and flags GN_ANY_BASE \<noteq> 0 then 0 else if and flags GN_BASE_8 \<noteq> 0 then 8
                  else if and flags GN_BASE_16 \<noteq> 0 then 16 else 10) a v"
proof -
  let ?base = "if and flags GN_ANY_BASE \<noteq> 0 then 0 else if and flags GN_BASE_8 \<noteq> 0 then 8
                  else if and flags GN_BASE_16 \<noteq> 0 then 16 else 10"
  obtain res endptr er where st: "strtol ?base a = (res, endptr, er)" by (metis prod_cases3)
  from assms have ok: "a \<noteq> []" "\<not> er" "endptr = []" "and flags GN_NONNEG \<noteq> 0 \<longrightarrow> 0 \<le> res"
    "and flags GN_GT_0 \<noteq> 0 \<longrightarrow> 0 < res" "res \<le> INT_MAX" "INT_MIN \<le> res" "v = c_int res"
    unfolding getInt_def getNum_def option.case Let_def st by (auto split: if_splits)
  then have "v = res" "strtol ?base a = (res, [], False)" using st by simp_all
  with strtol_full [OF this(2) ok(1)] ok show ?thesis by simp
qed

theorem getInt_sound_witness:
  "numeral_text 0 ''-0x1F'' (-31)"
proof -
  have "getInt (Some ''-0x1F'') GN_ANY_BASE None = Inr (-31)"
    by (simp add: getInt_def getNum_def gn_flags strtol_def base_of_def is_digit_def digit_val_def
        is_space_def digits_val_def Let_def)
  from getInt_sound [OF this] show ?thesis by (simp add: gn_flags)
qed

end
