(* ===== verification/PollServer.thy ===== *)
theory PollServer
  imports GetNum
begin

text \<open>
  The connection table of the \<open>poll\<close> server, \<open>IOModels/poll/serverModel.c\<close> and \<open>.h\<close>: the array of
  connections, the array of watched descriptors, the count of active connections, and the
  operations that keep (or do not keep) the three in step. The kernel's answers to \<open>accept\<close>,
  \<open>recv\<close> and \<open>send\<close> are arguments; the set of open descriptors is part of the state, so that a
  descriptor that is never closed shows.
\<close>

unbundle bit_operations_syntax

section \<open>Data\<close>

abbreviation (input) MAX_SERVICE :: nat where "MAX_SERVICE \<equiv> 3"
abbreviation (input) MAX_CONNECTIONS :: nat where "MAX_CONNECTIONS \<equiv> 10"
abbreviation (input) MAX_WATCHEDFD :: nat where "MAX_WATCHEDFD \<equiv> 13"
abbreviation (input) NET_BUFFER_SIZE :: nat where "NET_BUFFER_SIZE \<equiv> 1024"
abbreviation (input) reserveConn :: nat where "reserveConn \<equiv> 2"

definition PORT1 :: int where "PORT1 = 50000"
definition BACKLOG_CONNECTIONS :: int where "BACKLOG_CONNECTIONS = 8"
definition POLLIN :: int where "POLLIN = 1"
definition POLLOUT :: int where "POLLOUT = 4"

datatype ConnectionState = eIdle | eNewConnection | eDataReceived

datatype hook = PORT1_callback

text \<open>The storage of an address, by the address written there; 0 when it is all zeros.\<close>

type_synonym sockaddr = nat

record Connection =
  cn_inUse :: bool
  cn_socket :: int
  cn_closePending :: bool
  cn_peer :: sockaddr
  cn_local :: sockaddr
  cn_state :: ConnectionState
  cn_idleTime :: int
  cn_waitTickValid :: bool
  cn_waitTickTime :: int
  cn_pendingSendBuffer :: "byte list"
  cn_recvBuffer :: "byte list"
  cn_clientCallback :: "hook option"
  cn_stackSize :: nat
  cn_callbackRunning :: bool

record pollfd =
  pf_fd :: int
  pf_events :: int
  pf_revents :: int

record server =
  sv_watched :: "pollfd list"
  sv_clients :: "Connection list"
  sv_active :: int
  sv_open :: "int list"

text \<open>What \<open>memset\<close> with zeros leaves.\<close>

definition zero_conn :: Connection where
  "zero_conn = \<lparr>cn_inUse = False, cn_socket = 0, cn_closePending = False, cn_peer = 0, cn_local = 0,
     cn_state = eIdle, cn_idleTime = 0, cn_waitTickValid = False, cn_waitTickTime = 0,
     cn_pendingSendBuffer = replicate NET_BUFFER_SIZE 0, cn_recvBuffer = replicate NET_BUFFER_SIZE 0,
     cn_clientCallback = None, cn_stackSize = 0, cn_callbackRunning = False\<rparr>"

definition zero_pollfd :: pollfd where
  "zero_pollfd = \<lparr>pf_fd = 0, pf_events = 0, pf_revents = 0\<rparr>"

section \<open>Initialize\<close>

text \<open>
  \<open>MAX_WATCHEDFD\<close> is defined without parentheses, so the size asked of \<open>malloc\<close> is
  \<open>sizeof(struct pollfd) * MAX_CONNECTIONS + MAX_SERVICE\<close>, while the loop runs over
  \<open>MAX_CONNECTIONS + MAX_SERVICE\<close> entries. \<open>malloc\<close> maps a request to the number of bytes of the
  block it returns, \<open>None\<close> for NULL. The \<open>memset\<close> has the same 83 bytes: it clears the first ten
  entries and three bytes of the descriptor of the next, which the loop overwrites, so that in the
  last three entries \<open>events\<close> and \<open>revents\<close> are what the memory held, \<open>junk\<close>.
\<close>

definition watched_request :: nat where
  "watched_request = 8 * MAX_CONNECTIONS + MAX_SERVICE"

text \<open>The size of a \<open>struct Connection\<close> on a 64-bit Linux.\<close>

definition sizeof_Connection :: nat where
  "sizeof_Connection = 3392"

definition Initialize :: "(nat \<Rightarrow> pollfd) \<Rightarrow> (nat \<Rightarrow> nat option) \<Rightarrow> server cres" where
  "Initialize junk malloc =
     (case malloc watched_request of
        None \<Rightarrow> Inl Assert_Fail
      | Some usable \<Rightarrow>
          if usable < 8 * MAX_WATCHEDFD then Inl Out_Of_Bounds
          else (case malloc (sizeof_Connection * MAX_CONNECTIONS) of
              None \<Rightarrow> Inl Assert_Fail
            | Some _ \<Rightarrow> Inr \<lparr>
                sv_watched = map (\<lambda>i. (if i < watched_request div 8 then zero_pollfd else junk i)\<lparr>pf_fd := -1\<rparr>)
                  [0..<MAX_WATCHEDFD],
                sv_clients = replicate MAX_CONNECTIONS (zero_conn\<lparr>cn_socket := -1\<rparr>),
                sv_active = 0, sv_open = []\<rparr>))"

section \<open>CloseConnection\<close>

text \<open>The first index from \<open>i\<close> on, below \<open>n\<close>, at which the list satisfies \<open>P\<close>.\<close>

function find_from :: "nat \<Rightarrow> nat \<Rightarrow> ('a \<Rightarrow> bool) \<Rightarrow> 'a list \<Rightarrow> nat option cres" where
  "find_from i n P xs =
     (if i < n then cbind (aget xs (int i)) (\<lambda>x.
        if P x then Inr (Some i) else find_from (Suc i) n P xs)
      else Inr None)"
  by pat_completeness auto
termination by (relation "measure (\<lambda>(i, n, P, xs). n - i)") auto

declare find_from.simps [simp del]

definition CloseConnection :: "nat \<Rightarrow> server \<Rightarrow> server cres" where
  "CloseConnection i s =
     (if sv_active s = 0 then Inr s
      else cbind (aget (sv_clients s) (int i)) (\<lambda>c.
        cbind (find_from MAX_SERVICE MAX_WATCHEDFD (\<lambda>w. pf_fd w = cn_socket c) (sv_watched s)) (\<lambda>j.
          Inr (s\<lparr>sv_watched := (case j of None \<Rightarrow> sv_watched s
                   | Some j \<Rightarrow> (sv_watched s)[j := zero_pollfd\<lparr>pf_fd := -1\<rparr>]),
                 sv_open := remove1 (cn_socket c) (sv_open s),
                 sv_clients := (sv_clients s)[i := zero_conn\<lparr>cn_socket := -1\<rparr>],
                 sv_active := sv_active s - 1\<rparr>))))"

section \<open>NewConnection\<close>

text \<open>The search for the connection that has been idle longest: index and idle time so far.\<close>

definition stale_better :: "int \<Rightarrow> Connection \<Rightarrow> bool" where
  "stale_better longestIdle c \<longleftrightarrow> longestIdle < cn_idleTime c \<and>
     (cn_state c = eIdle \<or> cn_state c = eNewConnection) \<and> \<not> cn_callbackRunning c"

fun find_stale :: "Connection list \<Rightarrow> nat \<Rightarrow> nat option \<times> int \<Rightarrow> nat option \<times> int" where
  "find_stale [] i best = best"
| "find_stale (c # cs) i best =
     find_stale cs (Suc i) (if stale_better (snd best) c then (Some i, cn_idleTime c) else best)"

text \<open>
  The second half of \<open>NewConnection\<close>. \<open>acc\<close> is the answer of \<open>accept\<close>: the descriptor with the
  addresses of both ends, or \<open>None\<close> when it fails.
\<close>

definition accept_connection ::
    "int \<Rightarrow> (int \<times> sockaddr \<times> sockaddr) option \<Rightarrow> server \<Rightarrow> (int \<times> server) cres" where
  "accept_connection serverSocket acc s =
     cbind (find_from reserveConn MAX_CONNECTIONS (\<lambda>c. \<not> cn_inUse c) (sv_clients s)) (\<lambda>idx.
       case idx of None \<Rightarrow> Inr (-1, s)
       | Some k \<Rightarrow> (case acc of None \<Rightarrow> Inr (-1, s)
         | Some (peerSocket, peer, local) \<Rightarrow>
             let c = (sv_clients s ! k)\<lparr>cn_peer := peer\<rparr>;
                 c = zero_conn;
                 c = c\<lparr>cn_local := local\<rparr>;
                 c = c\<lparr>cn_socket := peerSocket, cn_inUse := True, cn_state := eNewConnection\<rparr>;
                 c = (if serverSocket = PORT1
                      then c\<lparr>cn_clientCallback := Some PORT1_callback, cn_stackSize := 4096\<rparr> else c)
             in cbind (find_from MAX_SERVICE MAX_WATCHEDFD (\<lambda>w. pf_fd w = -1) (sv_watched s)) (\<lambda>j.
               Inr (peerSocket, s\<lparr>sv_clients := (sv_clients s)[k := c],
                 sv_watched := (case j of None \<Rightarrow> sv_watched s
                   | Some j \<Rightarrow> (sv_watched s)[j := (sv_watched s ! j)\<lparr>pf_fd := peerSocket,
                                  pf_events := POLLIN OR POLLOUT\<rparr>]),
                 sv_open := peerSocket # sv_open s, sv_active := sv_active s + 1\<rparr>))))"

definition NewConnection ::
    "int \<Rightarrow> (int \<times> sockaddr \<times> sockaddr) option \<Rightarrow> server \<Rightarrow> (int \<times> server) cres" where
  "NewConnection serverSocket acc s =
     (if sv_active s + int reserveConn \<ge> int MAX_CONNECTIONS then
        (case fst (find_stale (drop reserveConn (take MAX_CONNECTIONS (sv_clients s))) reserveConn (None, 0)) of
           None \<Rightarrow> Inr (-1, s)
         | Some k \<Rightarrow> cbind (CloseConnection k s) (accept_connection serverSocket acc))
      else accept_connection serverSocket acc s)"

section \<open>ReceiveLoop\<close>

definition findIndex :: "int \<Rightarrow> pollfd list \<Rightarrow> int cres" where
  "findIndex socket watched =
     (if socket = 0 then Inl Assert_Fail
      else cbind (find_from MAX_SERVICE MAX_WATCHEDFD (\<lambda>w. socket = pf_fd w) watched) (\<lambda>j.
        let index = (case j of None \<Rightarrow> -1 | Some j \<Rightarrow> int j)
        in if index = 0 then Inl Assert_Fail else Inr index))"

text \<open>The test both loops make: the descriptor of the entry, or'ed with the poll flag.\<close>

definition ready :: "int \<Rightarrow> int \<Rightarrow> pollfd list \<Rightarrow> bool cres" where
  "ready flag socket watched =
     cbind (findIndex socket watched) (\<lambda>j. cbind (aget watched j) (\<lambda>w. Inr (pf_fd w OR flag \<noteq> 0)))"

text \<open>\<open>recv\<close> of a descriptor: \<open>None\<close> for an error, \<open>[]\<close> when the peer has closed.\<close>

definition receive_one :: "(int \<Rightarrow> byte list option) \<Rightarrow> nat \<Rightarrow> server \<Rightarrow> server cres" where
  "receive_one recv i s =
     cbind (aget (sv_clients s) (int i)) (\<lambda>c.
       if \<not> cn_inUse c then Inr s
       else cbind (ready POLLIN (cn_socket c) (sv_watched s)) (\<lambda>r.
         if \<not> r then Inr s
         else (case recv (cn_socket c) of
             Some (b # bs) \<Rightarrow>
               let got = take NET_BUFFER_SIZE (b # bs)
               in Inr (s\<lparr>sv_clients := (sv_clients s)[i := c\<lparr>
                    cn_recvBuffer := got @ drop (length got) (cn_recvBuffer c),
                    cn_state := eDataReceived\<rparr>]\<rparr>)
           | _ \<Rightarrow> CloseConnection i s)))"

fun each_client :: "(nat \<Rightarrow> server \<Rightarrow> server cres) \<Rightarrow> nat list \<Rightarrow> server \<Rightarrow> server cres" where
  "each_client f [] s = Inr s"
| "each_client f (i # is) s = cbind (f i s) (each_client f is)"

definition ReceiveLoop :: "(int \<Rightarrow> byte list option) \<Rightarrow> server \<Rightarrow> server cres" where
  "ReceiveLoop recv s =
     (if sv_active s = 0 then Inr s else each_client (receive_one recv) [0..<MAX_CONNECTIONS] s)"

section \<open>The tables in step\<close>

abbreviation client_fds :: "server \<Rightarrow> int multiset" where
  "client_fds s \<equiv> picks cn_inUse cn_socket (sv_clients s)"

abbreviation watched_fds :: "server \<Rightarrow> int multiset" where
  "watched_fds s \<equiv> picks (\<lambda>w. pf_fd w \<noteq> -1) pf_fd (drop MAX_SERVICE (sv_watched s))"

definition blank :: Connection where
  "blank = zero_conn\<lparr>cn_socket := -1\<rparr>"

text \<open>
  \<open>sync\<close>: every descriptor in use by a connection is watched once, and these are the open ones.
  \<open>counted\<close>: \<open>connectionsActive\<close> is the number of connections in use.
\<close>

definition sync :: "server \<Rightarrow> bool" where
  "sync s \<longleftrightarrow> length (sv_watched s) = MAX_WATCHEDFD \<and> length (sv_clients s) = MAX_CONNECTIONS \<and>
     watched_fds s = client_fds s \<and> client_fds s = mset (sv_open s) \<and> distinct (sv_open s) \<and>
     (\<forall>fd\<in>set (sv_open s). 0 < fd) \<and>
     (\<forall>c\<in>set (sv_clients s). cn_inUse c \<or> c = blank)"

definition counted :: "server \<Rightarrow> bool" where
  "counted s \<longleftrightarrow> sv_active s = int (size (client_fds s))"

lemma find_from_spec:
  assumes "n \<le> length xs"
  obtains (None) "find_from i n P xs = Inr None" "\<And>k. i \<le> k \<Longrightarrow> k < n \<Longrightarrow> \<not> P (xs ! k)"
  | (Some) k where "find_from i n P xs = Inr (Some k)" "i \<le> k" "k < n" "P (xs ! k)"
      "\<And>j. i \<le> j \<Longrightarrow> j < k \<Longrightarrow> \<not> P (xs ! j)"
proof -
  have "find_from i n P xs = Inr None \<and> (\<forall>k. i \<le> k \<and> k < n \<longrightarrow> \<not> P (xs ! k)) \<or>
     (\<exists>k. find_from i n P xs = Inr (Some k) \<and> i \<le> k \<and> k < n \<and> P (xs ! k) \<and>
          (\<forall>j. i \<le> j \<and> j < k \<longrightarrow> \<not> P (xs ! j)))"
    using assms
  proof (induction i n P xs rule: find_from.induct)
    case (1 i n P xs)
    show ?case
    proof (cases "i < n")
      case False
      then have "find_from i n P xs = Inr None" by (subst find_from.simps) simp
      with False show ?thesis by auto
    next
      case True
      then have get: "aget xs (int i) = Inr (xs ! i)" using 1(2) by (simp add: aget_ok)
      show ?thesis
      proof (cases "P (xs ! i)")
        case True
        then have "find_from i n P xs = Inr (Some i)"
          using \<open>i < n\<close> by (subst find_from.simps) (simp add: get)
        with True \<open>i < n\<close> show ?thesis by auto
      next
        case False
        then have step: "find_from i n P xs = find_from (Suc i) n P xs"
          using True by (subst find_from.simps) (simp add: get)
        from 1(1) [OF True get False 1(2)] False show ?thesis
          unfolding step by (metis Suc_leI Suc_leD le_neq_implies_less)
      qed
    qed
  qed
  then show thesis using None Some by blast
qed

lemma sync_client:
  assumes "sync s" "i < MAX_CONNECTIONS" "cn_inUse (sv_clients s ! i)"
  shows "0 < cn_socket (sv_clients s ! i)" "cn_socket (sv_clients s ! i) \<in> set (sv_open s)"
    "cn_socket (sv_clients s ! i) \<in># watched_fds s" "cn_socket (sv_clients s ! i) \<in># client_fds s"
proof -
  have "sv_clients s ! i \<in> set (sv_clients s)" using assms by (simp add: sync_def)
  with assms(3) have "cn_socket (sv_clients s ! i) \<in># client_fds s" by (auto simp: in_picks)
  with assms(1) show "0 < cn_socket (sv_clients s ! i)" "cn_socket (sv_clients s ! i) \<in> set (sv_open s)"
    "cn_socket (sv_clients s ! i) \<in># watched_fds s" "cn_socket (sv_clients s ! i) \<in># client_fds s"
    by (auto simp: sync_def)
qed

lemma watched_entry:
  assumes "length (sv_watched s) = MAX_WATCHEDFD" "fd \<in># watched_fds s"
  obtains j where "find_from MAX_SERVICE MAX_WATCHEDFD (\<lambda>w. pf_fd w = fd) (sv_watched s) = Inr (Some j)"
    "MAX_SERVICE \<le> j" "j < MAX_WATCHEDFD" "pf_fd (sv_watched s ! j) = fd"
proof -
  from assms(2) obtain w where w: "w \<in> set (drop MAX_SERVICE (sv_watched s))" "pf_fd w = fd"
    by (auto simp: in_picks)
  from w(1) assms(1) obtain k where k: "k < 10" "sv_watched s ! (3 + k) = w"
    by (auto simp: in_set_conv_nth)
  have "MAX_WATCHEDFD \<le> length (sv_watched s)" using assms(1) by simp
  then show thesis
  proof (cases rule: find_from_spec [where i = MAX_SERVICE and P = "\<lambda>w. pf_fd w = fd"])
    case None
    from None(2) [of "3 + k"] k w(2) show ?thesis by simp
  next
    case (Some j)
    with that show ?thesis by blast
  qed
qed

lemma watched_update:
  assumes "length (sv_watched s) = MAX_WATCHEDFD" "MAX_SERVICE \<le> j" "j < MAX_WATCHEDFD"
  shows "picks P f (drop MAX_SERVICE ((sv_watched s)[j := w]))
      + (if P (sv_watched s ! j) then {#f (sv_watched s ! j)#} else {#})
    = picks P f (drop MAX_SERVICE (sv_watched s)) + (if P w then {#f w#} else {#})"
proof -
  have "drop MAX_SERVICE ((sv_watched s)[j := w]) = (drop MAX_SERVICE (sv_watched s))[j - 3 := w]"
    using assms by (simp add: drop_update_swap)
  moreover have "drop MAX_SERVICE (sv_watched s) ! (j - 3) = sv_watched s ! j"
    using assms by simp
  moreover have "j - 3 < length (drop MAX_SERVICE (sv_watched s))" using assms by simp
  ultimately show ?thesis by (metis picks_update)
qed

text \<open>Closing a connection in use removes it from every table and closes its descriptor.\<close>

lemma CloseConnection_in_use:
  assumes s: "sync s" "sv_active s \<noteq> 0" and i: "i < MAX_CONNECTIONS" "cn_inUse (sv_clients s ! i)"
  obtains s' where "CloseConnection i s = Inr s'" "sync s'" "sv_active s' = sv_active s - 1"
    "sv_clients s' = (sv_clients s)[i := blank]"
    "sv_open s' = remove1 (cn_socket (sv_clients s ! i)) (sv_open s)"
    "size (client_fds s') + 1 = size (client_fds s)"
proof -
  let ?c = "sv_clients s ! i" and ?fd = "cn_socket (sv_clients s ! i)"
  note c = sync_client [OF s(1) i]
  have len: "length (sv_watched s) = MAX_WATCHEDFD" "length (sv_clients s) = MAX_CONNECTIONS"
    using s(1) by (simp_all add: sync_def)
  obtain j where j: "find_from MAX_SERVICE MAX_WATCHEDFD (\<lambda>w. pf_fd w = ?fd) (sv_watched s) = Inr (Some j)"
    "MAX_SERVICE \<le> j" "j < MAX_WATCHEDFD" "pf_fd (sv_watched s ! j) = ?fd"
    by (rule watched_entry [OF len(1) c(3)])
  let ?s = "s\<lparr>sv_watched := (sv_watched s)[j := zero_pollfd\<lparr>pf_fd := -1\<rparr>],
      sv_open := remove1 ?fd (sv_open s), sv_clients := (sv_clients s)[i := blank],
      sv_active := sv_active s - 1\<rparr>"
  have run: "CloseConnection i s = Inr ?s"
    using s(2) i len j(1) by (simp add: CloseConnection_def aget_ok blank_def)
  have w: "watched_fds ?s + {#?fd#} = watched_fds s"
    using watched_update [OF len(1) j(2,3), of "\<lambda>w. pf_fd w \<noteq> -1" pf_fd "zero_pollfd\<lparr>pf_fd := -1\<rparr>"] j(4) c(1)
    by simp
  have k: "client_fds ?s + {#?fd#} = client_fds s"
    using picks_update [of i "sv_clients s" cn_inUse cn_socket blank] i len
    by (simp add: blank_def zero_conn_def)
  have o: "mset (sv_open ?s) + {#?fd#} = mset (sv_open s)" using c(2) by simp
  have eq: "watched_fds s = client_fds s" "client_fds s = mset (sv_open s)" using s(1) by (simp_all add: sync_def)
  have "watched_fds ?s = client_fds ?s" "client_fds ?s = mset (sv_open ?s)"
    using w k o eq by (metis add_right_cancel)+
  moreover have "\<forall>c\<in>set (sv_clients ?s). cn_inUse c \<or> c = blank"
    using s(1) set_update_subset_insert [of "sv_clients s" i blank] by (auto simp: sync_def)
  ultimately have "sync ?s"
    using s(1) by (auto simp: sync_def dest: in_set_remove1 notin_set_remove1)
  moreover have "size (client_fds ?s) + 1 = size (client_fds s)"
    by (metis k size_single size_union)
  ultimately show thesis using that [OF run] by simp
qed

section \<open>Accepting\<close>

lemma free_watch_entry:
  assumes "sync s" "size (client_fds s) < MAX_CONNECTIONS"
  obtains j where "find_from MAX_SERVICE MAX_WATCHEDFD (\<lambda>w. pf_fd w = -1) (sv_watched s) = Inr (Some j)"
    "MAX_SERVICE \<le> j" "j < MAX_WATCHEDFD" "pf_fd (sv_watched s ! j) = -1"
proof -
  have len: "length (sv_watched s) = MAX_WATCHEDFD" using assms(1) by (simp add: sync_def)
  then have "MAX_WATCHEDFD \<le> length (sv_watched s)" by simp
  then show thesis
  proof (cases rule: find_from_spec [where i = MAX_SERVICE and P = "\<lambda>w. pf_fd w = -1"])
    case None
    let ?ws = "drop MAX_SERVICE (sv_watched s)"
    have "\<forall>w\<in>set ?ws. pf_fd w \<noteq> -1" using None(2) len by (auto simp: in_set_conv_nth)
    then have "filter (\<lambda>w. pf_fd w \<noteq> -1) ?ws = ?ws" by (simp add: filter_id_conv)
    then have "size (watched_fds s) = 10" using len by (simp add: size_picks)
    with assms show ?thesis by (simp add: sync_def)
  next
    case (Some j)
    with that show ?thesis by blast
  qed
qed

text \<open>
  The law of \<open>accept\<close>: the descriptor it returns was not open. It is not 0 either, as the standard
  input stays open (on descriptor 0 the assertion in \<open>findIndex\<close> would fail).
\<close>

definition fresh_accept :: "(int \<times> sockaddr \<times> sockaddr) option \<Rightarrow> server \<Rightarrow> bool" where
  "fresh_accept acc s = (case acc of None \<Rightarrow> True | Some (fd, _) \<Rightarrow> 0 < fd \<and> fd \<notin> set (sv_open s))"

definition accepted :: "int \<Rightarrow> sockaddr \<Rightarrow> Connection" where
  "accepted fd addr = zero_conn\<lparr>cn_local := addr, cn_socket := fd, cn_inUse := True,
     cn_state := eNewConnection\<rparr>"

lemma accept_connection_spec:
  assumes s: "sync s" and acc: "fresh_accept acc s" and port: "srv \<noteq> PORT1"
  obtains (Refused) "accept_connection srv acc s = Inr (-1, s)"
      "acc = None \<or> (\<forall>k. 2 \<le> k \<and> k < MAX_CONNECTIONS \<longrightarrow> cn_inUse (sv_clients s ! k))"
  | (Taken) fd peer addr k s' where "acc = Some (fd, peer, addr)"
      "accept_connection srv acc s = Inr (fd, s')" "sync s'" "counted s \<Longrightarrow> counted s'" "2 \<le> k" "k < MAX_CONNECTIONS"
      "\<not> cn_inUse (sv_clients s ! k)" "sv_clients s' = (sv_clients s)[k := accepted fd addr]"
      "sv_open s' = fd # sv_open s" "sv_active s' = sv_active s + 1"
proof -
  have len: "length (sv_watched s) = MAX_WATCHEDFD" "length (sv_clients s) = MAX_CONNECTIONS"
    using s by (simp_all add: sync_def)
  then have "MAX_CONNECTIONS \<le> length (sv_clients s)" by simp
  then show thesis
  proof (cases rule: find_from_spec [where i = reserveConn and P = "\<lambda>c. \<not> cn_inUse c"])
    case None
    then show ?thesis using Refused by (simp add: accept_connection_def)
  next
    case (Some k)
    show ?thesis
    proof (cases acc)
      case None
      then show ?thesis using Refused Some(1) by (simp add: accept_connection_def)
    next
      case acc': (Some a)
      obtain fd peer addr where a: "acc = Some (fd, peer, addr)" using acc' by (cases a) auto
      with acc have fd: "0 < fd" "fd \<notin> set (sv_open s)" by (simp_all add: fresh_accept_def)
      have "sv_clients s ! k \<in> set (sv_clients s)" using Some(3) len by simp
      with Some(4) have "filter cn_inUse (sv_clients s) \<noteq> sv_clients s" by (metis filter_id_conv)
      then have "length (filter cn_inUse (sv_clients s)) < 10"
        using len length_filter_less Some(3,4) \<open>sv_clients s ! k \<in> set (sv_clients s)\<close> by metis
      then have "size (client_fds s) < MAX_CONNECTIONS" by (simp add: size_picks)
      then obtain j where j: "find_from MAX_SERVICE MAX_WATCHEDFD (\<lambda>w. pf_fd w = -1) (sv_watched s) = Inr (Some j)"
        "MAX_SERVICE \<le> j" "j < MAX_WATCHEDFD" "pf_fd (sv_watched s ! j) = -1"
        by (rule free_watch_entry [OF s])
      let ?w = "(sv_watched s ! j)\<lparr>pf_fd := fd, pf_events := POLLIN OR POLLOUT\<rparr>"
      let ?s = "s\<lparr>sv_clients := (sv_clients s)[k := accepted fd addr],
          sv_watched := (sv_watched s)[j := ?w], sv_open := fd # sv_open s, sv_active := sv_active s + 1\<rparr>"
      have run: "accept_connection srv acc s = Inr (fd, ?s)"
        using Some(1) j(1) port by (simp add: accept_connection_def a accepted_def Let_def)
      have w: "watched_fds ?s = watched_fds s + {#fd#}"
        using watched_update [OF len(1) j(2,3), of "\<lambda>w. pf_fd w \<noteq> -1" pf_fd ?w] j(4) fd(1) by simp
      have c: "client_fds ?s = client_fds s + {#fd#}"
        using picks_update [of k "sv_clients s" cn_inUse cn_socket "accepted fd addr"] Some(3,4) len
        by (simp add: accepted_def)
      have "\<forall>c\<in>set (sv_clients ?s). cn_inUse c \<or> c = blank"
        using s set_update_subset_insert [of "sv_clients s" k "accepted fd addr"]
        by (auto simp: sync_def accepted_def)
      then have "sync ?s" using s w c fd by (simp add: sync_def)
      moreover have "counted s \<Longrightarrow> counted ?s" using c by (simp add: counted_def)
      ultimately show ?thesis using Taken [OF a run _ _ Some(2,3,4)] by simp
    qed
  qed
qed

definition evictable :: "Connection \<Rightarrow> bool" where
  "evictable c \<longleftrightarrow> (cn_state c = eIdle \<or> cn_state c = eNewConnection) \<and> \<not> cn_callbackRunning c"

lemma stale_better_iff: "stale_better t c \<longleftrightarrow> t < cn_idleTime c \<and> evictable c"
  by (auto simp: stale_better_def evictable_def)

lemma find_stale_spec:
  assumes "find_stale cs i (b, t) = (r, t')"
  shows "(r = b \<and> t' = t \<or> (\<exists>j < length cs. r = Some (i + j) \<and> t' = cn_idleTime (cs ! j) \<and>
      t < t' \<and> evictable (cs ! j))) \<and>
    t \<le> t' \<and> (\<forall>c\<in>set cs. evictable c \<longrightarrow> cn_idleTime c \<le> t')"
  using assms
proof (induction cs arbitrary: i b t)
  case Nil
  then show ?case by simp
next
  case (Cons c cs)
  let ?hit = "\<lambda>i u cs. \<exists>j < length cs. r = Some (i + j) \<and> t' = cn_idleTime (cs ! j) \<and> u < t' \<and> evictable (cs ! j)"
  have shift: "?hit i u (c # cs)" if "?hit (Suc i) u cs" for u
  proof -
    from that obtain j where "j < length cs" "r = Some (Suc i + j)" "t' = cn_idleTime (cs ! j)" "u < t'"
      "evictable (cs ! j)" by blast
    then show ?thesis by (intro exI [of _ "Suc j"]) simp
  qed
  show ?case
  proof (cases "stale_better t c")
    case True
    then have b: "t < cn_idleTime c" "evictable c" by (simp_all add: stale_better_iff)
    have "find_stale cs (Suc i) (Some i, cn_idleTime c) = (r, t')" using True Cons.prems by simp
    note IH = Cons.IH [OF this]
    have "?hit i t (c # cs)"
    proof (cases "r = Some i \<and> t' = cn_idleTime c")
      case True
      then show ?thesis using b by (intro exI [of _ 0]) simp
    next
      case False
      with IH shift [of "cn_idleTime c"] have "?hit i (cn_idleTime c) (c # cs)" by blast
      with b(1) show ?thesis by fastforce
    qed
    with IH b show ?thesis by auto
  next
    case False
    then have "find_stale cs (Suc i) (b, t) = (r, t')" using Cons.prems by simp
    note IH = Cons.IH [OF this]
    have "r = b \<and> t' = t \<or> ?hit i t (c # cs)" using IH shift [of t] by blast
    moreover have "evictable c \<Longrightarrow> cn_idleTime c \<le> t" using False by (simp add: stale_better_iff)
    ultimately show ?thesis using IH by auto
  qed
qed

text \<open>The whole of \<open>NewConnection\<close> on tables in step.\<close>

lemma NewConnection_spec:
  assumes s: "sync s" "counted s" and acc: "fresh_accept acc s" and port: "srv \<noteq> PORT1"
  shows "\<exists>r s'. NewConnection srv acc s = Inr (r, s') \<and> sync s' \<and> counted s'"
proof (cases "sv_active s + int reserveConn \<ge> int MAX_CONNECTIONS")
  case False
  then have "NewConnection srv acc s = accept_connection srv acc s" by (simp add: NewConnection_def)
  with accept_connection_spec [OF s(1) acc port] s show ?thesis by metis
next
  case True
  let ?cs = "drop reserveConn (take MAX_CONNECTIONS (sv_clients s))"
  have len: "length (sv_clients s) = MAX_CONNECTIONS" using s(1) by (simp add: sync_def)
  obtain r t where st: "find_stale ?cs reserveConn (None, 0) = (r, t)" by (metis surj_pair)
  note spec = find_stale_spec [OF st]
  show ?thesis
  proof (cases r)
    case None
    then show ?thesis using True s by (simp add: NewConnection_def st)
  next
    case (Some k)
    with spec obtain j where j: "j < length ?cs" "k = reserveConn + j" "t = cn_idleTime (?cs ! j)" "0 < t"
      by auto
    then have k: "k < MAX_CONNECTIONS" "0 < cn_idleTime (sv_clients s ! k)" using len by simp_all
    moreover have "sv_clients s ! k \<in> set (sv_clients s)" using k(1) len by simp
    ultimately have use: "cn_inUse (sv_clients s ! k)"
      using s(1) by (auto simp: sync_def blank_def zero_conn_def)
    have "sv_active s \<noteq> 0" using True by simp
    then obtain s1 where s1: "CloseConnection k s = Inr s1" "sync s1" "sv_active s1 = sv_active s - 1"
      "sv_open s1 = remove1 (cn_socket (sv_clients s ! k)) (sv_open s)"
      "size (client_fds s1) + 1 = size (client_fds s)"
      using CloseConnection_in_use [OF s(1) _ k(1) use] by metis
    have "counted s1" using s(2) s1(3,5) by (simp add: counted_def)
    moreover have "fresh_accept acc s1"
      using acc by (auto simp: fresh_accept_def s1(4) dest: notin_set_remove1 split: option.splits)
    moreover have "NewConnection srv acc s = accept_connection srv acc s1"
      using True Some by (simp add: NewConnection_def st s1(1))
    ultimately show ?thesis using accept_connection_spec [OF s1(2) _ port] s1(2) by metis
  qed
qed

section \<open>Receiving\<close>

lemma ready_spec:
  assumes "length (sv_watched s) = MAX_WATCHEDFD" "fd \<in># watched_fds s" "0 < fd" "flag \<noteq> 0"
  shows "ready flag fd (sv_watched s) = Inr True"
proof -
  obtain j where "find_from MAX_SERVICE MAX_WATCHEDFD (\<lambda>w. pf_fd w = fd) (sv_watched s) = Inr (Some j)"
    "MAX_SERVICE \<le> j" "j < MAX_WATCHEDFD" "pf_fd (sv_watched s ! j) = fd"
    by (rule watched_entry [OF assms(1,2)])
  moreover have "find_from MAX_SERVICE MAX_WATCHEDFD (\<lambda>w. fd = pf_fd w) (sv_watched s)
      = find_from MAX_SERVICE MAX_WATCHEDFD (\<lambda>w. pf_fd w = fd) (sv_watched s)"
    by (simp only: eq_commute [of fd])
  ultimately have "findIndex fd (sv_watched s) = Inr (int j)"
    "aget (sv_watched s) (int j) = Inr (sv_watched s ! j)" "j < length (sv_watched s)"
    using assms(1,3) by (simp_all add: findIndex_def aget_ok)
  with assms(3,4) show ?thesis by (simp add: ready_def or_eq_0_iff)
qed

text \<open>What a round of reads makes of one connection.\<close>

definition receive_result :: "(int \<Rightarrow> byte list option) \<Rightarrow> Connection \<Rightarrow> Connection" where
  "receive_result recv c =
     (if \<not> cn_inUse c then c
      else case recv (cn_socket c) of
          Some (b # bs) \<Rightarrow> c\<lparr>cn_recvBuffer := take NET_BUFFER_SIZE (b # bs)
              @ drop (length (take NET_BUFFER_SIZE (b # bs))) (cn_recvBuffer c), cn_state := eDataReceived\<rparr>
        | _ \<Rightarrow> blank)"

lemma receive_one_spec:
  assumes s: "sync s" "counted s" and i: "i < MAX_CONNECTIONS"
  shows "\<exists>s'. receive_one recv i s = Inr s' \<and> sync s' \<and> counted s' \<and>
    sv_clients s' = (sv_clients s)[i := receive_result recv (sv_clients s ! i)]"
proof -
  let ?c = "sv_clients s ! i"
  have len: "length (sv_watched s) = MAX_WATCHEDFD" "length (sv_clients s) = MAX_CONNECTIONS"
    using s(1) by (simp_all add: sync_def)
  have get: "aget (sv_clients s) (int i) = Inr ?c" using i len by (simp add: aget_ok)
  show ?thesis
  proof (cases "cn_inUse ?c")
    case False
    then show ?thesis using s by (simp add: receive_one_def get receive_result_def)
  next
    case use: True
    note c = sync_client [OF s(1) i use]
    have rdy: "ready POLLIN (cn_socket ?c) (sv_watched s) = Inr True"
      by (rule ready_spec [OF len(1) c(3,1)]) (simp add: POLLIN_def)
    have "0 < size (client_fds s)" using c(4) by (metis empty_iff nonempty_has_size set_mset_empty)
    then have active: "sv_active s \<noteq> 0" using s(2) unfolding counted_def by linarith
    obtain s1 where s1: "CloseConnection i s = Inr s1" "sync s1" "sv_active s1 = sv_active s - 1"
      "size (client_fds s1) + 1 = size (client_fds s)" "sv_clients s1 = (sv_clients s)[i := blank]"
      using CloseConnection_in_use [OF s(1) active i use] by metis
    have close: "counted s1" using s(2) s1(3,4) by (simp add: counted_def)
    show ?thesis
    proof (cases "\<exists>b bs. recv (cn_socket ?c) = Some (b # bs)")
      case True
      then obtain b bs where bs: "recv (cn_socket ?c) = Some (b # bs)" by blast
      let ?got = "take NET_BUFFER_SIZE (b # bs)"
      let ?d = "?c\<lparr>cn_recvBuffer := ?got @ drop (length ?got) (cn_recvBuffer ?c), cn_state := eDataReceived\<rparr>"
      let ?s = "s\<lparr>sv_clients := (sv_clients s)[i := ?d]\<rparr>"
      have run: "receive_one recv i s = Inr ?s"
        using use by (simp add: receive_one_def get rdy bs Let_def)
      have eq: "client_fds ?s = client_fds s"
        using picks_update [of i "sv_clients s" cn_inUse cn_socket ?d] i len use by simp
      have "\<forall>c\<in>set (sv_clients ?s). cn_inUse c \<or> c = blank"
        using s(1) set_update_subset_insert [of "sv_clients s" i ?d] use by (auto simp: sync_def)
      then have "sync ?s" "counted ?s" using s eq by (simp_all add: sync_def counted_def)
      moreover have "?d = receive_result recv ?c" using use bs by (simp add: receive_result_def)
      ultimately show ?thesis using run by simp
    next
      case False
      then have "receive_result recv ?c = blank"
        using use by (auto simp: receive_result_def split: option.splits list.splits)
      moreover from False have "receive_one recv i s = CloseConnection i s"
        using use by (auto simp: receive_one_def get rdy split: option.splits list.splits)
      ultimately show ?thesis using s1 close by simp
    qed
  qed
qed

lemma each_client_map:
  assumes step: "\<And>i s. i < MAX_CONNECTIONS \<Longrightarrow> P s \<Longrightarrow>
      \<exists>s'. f i s = Inr s' \<and> P s' \<and> sv_clients s' = (sv_clients s)[i := g (sv_clients s ! i)]"
    and "P s" "length (sv_clients s) = MAX_CONNECTIONS" "n \<le> MAX_CONNECTIONS"
  shows "\<exists>s'. each_client f [MAX_CONNECTIONS - n..<MAX_CONNECTIONS] s = Inr s' \<and> P s' \<and>
    sv_clients s' = take (MAX_CONNECTIONS - n) (sv_clients s) @ map g (drop (MAX_CONNECTIONS - n) (sv_clients s))"
  using assms(2-)
proof (induction n arbitrary: s)
  case 0
  then show ?case by simp
next
  case (Suc n)
  let ?i = "MAX_CONNECTIONS - Suc n" and ?cs = "sv_clients s"
  have i: "?i < MAX_CONNECTIONS" "Suc ?i = MAX_CONNECTIONS - n" using Suc.prems(3) by simp_all
  obtain s1 where s1: "f ?i s = Inr s1" "P s1" "sv_clients s1 = ?cs[?i := g (?cs ! ?i)]"
    using step [OF i(1) Suc.prems(1)] by blast
  have "[?i..<MAX_CONNECTIONS] = ?i # [MAX_CONNECTIONS - n..<MAX_CONNECTIONS]"
    using i by (metis upt_conv_Cons)
  moreover have "length (sv_clients s1) = MAX_CONNECTIONS" "n \<le> MAX_CONNECTIONS"
    using s1(3) Suc.prems by simp_all
  with Suc.IH [OF s1(2)] obtain s' where "each_client f [MAX_CONNECTIONS - n..<MAX_CONNECTIONS] s1 = Inr s'"
    "P s'" "sv_clients s' = take (MAX_CONNECTIONS - n) (sv_clients s1) @ map g (drop (MAX_CONNECTIONS - n) (sv_clients s1))"
    by blast
  moreover have "take (MAX_CONNECTIONS - n) (sv_clients s1) = take ?i ?cs @ [g (?cs ! ?i)]"
    using i Suc.prems(2) by (simp add: s1(3) take_update_swap take_Suc_conv_app_nth list_update_append flip: i(2))
  moreover have "drop (MAX_CONNECTIONS - n) (sv_clients s1) = drop (Suc ?i) ?cs"
    using i by (simp add: s1(3) flip: i(2))
  moreover have "drop ?i ?cs = ?cs ! ?i # drop (Suc ?i) ?cs"
    using i(1) Suc.prems(2) by (intro drop_take_Suc) simp
  ultimately show ?case using s1(1) by simp
qed

lemma ReceiveLoop_spec:
  assumes s: "sync s" "counted s"
  shows "\<exists>s'. ReceiveLoop recv s = Inr s' \<and> sync s' \<and> counted s' \<and>
    sv_clients s' = map (receive_result recv) (sv_clients s)"
proof (cases "sv_active s = 0")
  case True
  then have "client_fds s = {#}" using s(2) by (simp add: counted_def)
  then have "\<forall>c\<in>set (sv_clients s). \<not> cn_inUse c" by (metis empty_iff in_picks set_mset_empty)
  then have "map (receive_result recv) (sv_clients s) = sv_clients s"
    by (simp add: receive_result_def map_idI)
  with True s show ?thesis by (simp add: ReceiveLoop_def)
next
  case False
  have "length (sv_clients s) = MAX_CONNECTIONS" using s(1) by (simp add: sync_def)
  with each_client_map [of "\<lambda>s. sync s \<and> counted s" "receive_one recv" "receive_result recv" s 10]
    receive_one_spec s False show ?thesis by (simp add: ReceiveLoop_def del: upt_Suc upt_rec_numeral)
qed

section \<open>Properties\<close>

text \<open>The kernel never hands out a descriptor that is open.\<close>

definition kernel_accept ::
    "(int \<times> sockaddr \<times> sockaddr) option \<Rightarrow> server \<Rightarrow> (int \<times> sockaddr \<times> sockaddr) option" where
  "kernel_accept acc s = (if fresh_accept acc s then acc else None)"

lemma kernel_accept_fresh: "fresh_accept (kernel_accept acc s) s"
  by (simp add: kernel_accept_def fresh_accept_def)

lemma Initialize_tables:
  assumes "Initialize junk malloc = Inr s"
  shows "length (sv_watched s) = MAX_WATCHEDFD \<and> (\<forall>w\<in>set (sv_watched s). pf_fd w = -1) \<and>
    sv_clients s = replicate MAX_CONNECTIONS blank \<and> sv_active s = 0 \<and> sv_open s = []"
  using assms by (auto simp: Initialize_def blank_def split: option.splits if_splits)

lemma Initialize_sync:
  assumes "Initialize junk malloc = Inr s"
  shows "sync s \<and> counted s"
proof -
  note t = Initialize_tables [OF assms]
  then have "\<forall>w\<in>set (drop MAX_SERVICE (sv_watched s)). pf_fd w = -1" by (meson in_set_dropD)
  then have "filter (\<lambda>w. pf_fd w \<noteq> -1) (drop MAX_SERVICE (sv_watched s)) = []" by (simp add: filter_empty_conv)
  then have "watched_fds s = {#}" by (simp add: picks_def)
  with t show ?thesis by (simp add: sync_def counted_def blank_def zero_conn_def)
qed

text \<open>
  What a round of \<open>ReceiveLoop\<close> does to every connection. The test before \<open>recv\<close> or's the
  descriptor with \<open>POLLIN\<close> instead of testing \<open>revents\<close>, and so never fails: every connection in
  use is read, and one that has nothing to read (\<open>recv\<close> fails, the sockets do not block) is
  closed like one whose peer has gone.
\<close>
theorem receive_round:
  assumes "sync s" "counted s"
  shows "\<exists>s'. ReceiveLoop recv s = Inr s' \<and> sync s' \<and> counted s' \<and>
    sv_clients s' = map (receive_result recv) (sv_clients s) \<and>
    (\<forall>fd\<in>set (sv_open s). recv fd = None \<or> recv fd = Some [] \<longrightarrow> fd \<notin> set (sv_open s'))"
proof -
  obtain s' where s': "ReceiveLoop recv s = Inr s'" "sync s'" "counted s'"
    "sv_clients s' = map (receive_result recv) (sv_clients s)"
    using ReceiveLoop_spec [OF assms] by blast
  have "fd \<notin> set (sv_open s')" if "recv fd = None \<or> recv fd = Some []" for fd
  proof
    assume "fd \<in> set (sv_open s')"
    with s'(2) have "fd \<in># client_fds s'" by (simp add: sync_def)
    then obtain c where "cn_inUse (receive_result recv c)" "cn_socket (receive_result recv c) = fd"
      by (auto simp: in_picks s'(4))
    with that show False
      by (auto simp: receive_result_def blank_def zero_conn_def split: if_splits option.splits list.splits)
  qed
  with s' show ?thesis by blast
qed

text \<open>A server with one client on descriptor 5.\<close>

definition one_client :: server where
  "one_client = \<lparr>sv_watched = replicate 3 (zero_pollfd\<lparr>pf_fd := -1\<rparr>)
       @ \<lparr>pf_fd = 5, pf_events = 5, pf_revents = 0\<rparr> # replicate 9 (zero_pollfd\<lparr>pf_fd := -1\<rparr>),
     sv_clients = replicate 2 blank @ accepted 5 2 # replicate 7 blank,
     sv_active = 1, sv_open = [5]\<rparr>"

lemma blank_fields [simp]: "\<not> cn_inUse blank" "cn_socket blank = -1" "cn_idleTime blank = 0"
  by (simp_all add: blank_def zero_conn_def)

lemma one_client_ok: "sync one_client" "counted one_client"
  by (auto simp: sync_def counted_def one_client_def accepted_def)

theorem receive_round_witness:
  "\<exists>s'. ReceiveLoop (\<lambda>_. None) one_client = Inr s' \<and> 5 \<notin> set (sv_open s') \<and> sync s'"
  using receive_round [OF one_client_ok, of "\<lambda>_. None"] by (auto simp: one_client_def)

end
