(* ===== verification/PollLoops.thy ===== *)
theory PollLoops
  imports PollServer
begin

text \<open>
  The rest of \<open>IOModels/poll/serverModel.c\<close>: sending (\<open>TransmitPending\<close> and its loop over the
  connections), the state machine of \<open>ServerRun\<close> with the callback threads it starts, and one
  round of the main loop.
\<close>

unbundle bit_operations_syntax

section \<open>TransmitPending\<close>

text \<open>
  The answers of \<open>send\<close> on a socket, call by call: the number of bytes it would take, or an
  errno. Since the loop need not end, it is a partial function: \<open>None\<close> is a call that never
  returns. \<open>buffer\<close> is what is left to send.
\<close>

datatype send_answer = Takes nat | Send_Err nat

type_synonym sender = "nat \<Rightarrow> send_answer"

partial_function (option) transmit_loop ::
    "sender \<Rightarrow> nat \<Rightarrow> byte list \<Rightarrow> nat \<Rightarrow> bool \<Rightarrow> (bool \<times> nat) option" where
  "transmit_loop tx k buffer retry status =
     (if buffer = [] then Some (status, k)
      else (case tx k of
          Takes n \<Rightarrow>
            if 0 < n then transmit_loop tx (Suc k) (drop n buffer) retry status
            else transmit_loop tx (Suc k) buffer retry False
        | Send_Err e \<Rightarrow>
            if e = EINTR \<or> e = EAGAIN
            then (if Suc retry > 3 then transmit_loop tx (Suc k) buffer (Suc retry) False
                  else transmit_loop tx (Suc k) buffer (Suc retry) status)
            else transmit_loop tx (Suc k) buffer retry False))"

text \<open>The bytes of a C string with its terminating zero; none when the array holds no zero.\<close>

definition c_string :: "byte list \<Rightarrow> byte list cres" where
  "c_string buf = (if 0 \<in> set buf then Inr (takeWhile (\<lambda>b. b \<noteq> 0) buf @ [0]) else Inl Out_Of_Bounds)"

definition TransmitPending :: "sender \<Rightarrow> Connection \<Rightarrow> (bool \<times> Connection) cres option" where
  "TransmitPending tx c =
     (if cn_socket c = -1 then Some (Inr (False, c))
      else (case c_string (cn_pendingSendBuffer c) of
          Inl f \<Rightarrow> Some (Inl f)
        | Inr bytes \<Rightarrow> (case transmit_loop tx 0 bytes 0 True of
              None \<Rightarrow> None
            | Some (status, k) \<Rightarrow>
                Some (Inr (status, c\<lparr>cn_pendingSendBuffer := replicate NET_BUFFER_SIZE 0\<rparr>)))))"

section \<open>TransmitPendingLoop\<close>

text \<open>
  One connection. \<open>pendingSendBuffer\<close> is an array, so comparing it with \<open>NULL\<close> is always
  unequal: the branch that would set the connection idle is never taken, and the branch that
  closes is taken for every connection not in use.
\<close>

definition transmit_one :: "(int \<Rightarrow> sender) \<Rightarrow> nat \<Rightarrow> server \<Rightarrow> server cres option" where
  "transmit_one tx i s =
     (case aget (sv_clients s) (int i) of
        Inl f \<Rightarrow> Some (Inl f)
      | Inr c \<Rightarrow>
          if cn_inUse c then
            (case ready POLLOUT (cn_socket c) (sv_watched s) of
               Inl f \<Rightarrow> Some (Inl f)
             | Inr r \<Rightarrow>
                 if r then
                   (case TransmitPending (tx (cn_socket c)) c of
                      None \<Rightarrow> None
                    | Some (Inl f) \<Rightarrow> Some (Inl f)
                    | Some (Inr (status, c')) \<Rightarrow>
                        let s' = s\<lparr>sv_clients := (sv_clients s)[i := c']\<rparr>
                        in Some (if status then Inr s' else CloseConnection i s'))
                 else Some (Inr s))
          else Some (CloseConnection i s))"

fun transmit_all :: "(int \<Rightarrow> sender) \<Rightarrow> nat list \<Rightarrow> server \<Rightarrow> server cres option" where
  "transmit_all tx [] s = Some (Inr s)"
| "transmit_all tx (i # is) s = (case transmit_one tx i s of
     None \<Rightarrow> None | Some (Inl f) \<Rightarrow> Some (Inl f) | Some (Inr s') \<Rightarrow> transmit_all tx is s')"

definition TransmitPendingLoop :: "(int \<Rightarrow> sender) \<Rightarrow> server \<Rightarrow> server cres option" where
  "TransmitPendingLoop tx s = transmit_all tx [0..<MAX_CONNECTIONS] s"

section \<open>Callback threads and ServerRun\<close>

text \<open>\<open>create\<close> is what \<open>pthread_create\<close> returns; \<open>assert(status)\<close> demands that it be nonzero.\<close>

definition SpawnHookThread :: "int \<Rightarrow> Connection \<Rightarrow> bool cres" where
  "SpawnHookThread create c =
     (if cn_socket c = -1 then Inl Assert_Fail
      else if create = 0 then Inl Assert_Fail else Inr True)"

definition HandleConnectionHook :: "int \<Rightarrow> Connection \<Rightarrow> (bool \<times> Connection) cres" where
  "HandleConnectionHook create c =
     (let c = (if cn_stackSize c = 0 then c\<lparr>cn_stackSize := 2048\<rparr> else c)
      in cbind (SpawnHookThread create c) (\<lambda>ok.
           Inr (ok, c\<lparr>cn_callbackRunning := ok\<rparr>)))"

text \<open>
  The cases of the state machine for the states the header defines (\<open>eIdle\<close>, \<open>eNewConnection\<close>
  by way of \<open>default\<close>, and \<open>eDataReceived\<close>), and the loop around them.
\<close>

definition state_case :: "int \<Rightarrow> Connection \<Rightarrow> Connection cres" where
  "state_case create c =
     (case cn_state c of
        eDataReceived \<Rightarrow>
          if cn_callbackRunning c then Inr c
          else let c = c\<lparr>cn_waitTickValid := False\<rparr>
               in if cn_clientCallback c \<noteq> None
                  then cbind (HandleConnectionHook create c) (\<lambda>(ok, c). Inr c)
                  else Inr c
      | _ \<Rightarrow> Inr (c\<lparr>cn_waitTickValid := False\<rparr>))"

partial_function (option) state_loop :: "int \<Rightarrow> Connection \<Rightarrow> Connection cres option" where
  "state_loop create c =
     (case state_case create c of
        Inl f \<Rightarrow> Some (Inl f)
      | Inr c' \<Rightarrow> if cn_state c \<noteq> cn_state c' then state_loop create c' else Some (Inr c'))"

definition run_client :: "(int \<Rightarrow> int) \<Rightarrow> Connection \<Rightarrow> Connection cres option" where
  "run_client create c =
     (let c = (if cn_inUse c \<and> cn_callbackRunning c then c\<lparr>cn_waitTickValid := False\<rparr> else c)
      in if cn_inUse c then
           let c = (if cn_state c = eIdle \<or> cn_state c = eNewConnection
                    then c\<lparr>cn_idleTime := c_int (cn_idleTime c + 1)\<rparr> else c\<lparr>cn_idleTime := 0\<rparr>)
           in state_loop (create (cn_socket c)) c
         else Some (Inr c))"

fun run_clients :: "(int \<Rightarrow> int) \<Rightarrow> Connection list \<Rightarrow> Connection list cres option" where
  "run_clients create [] = Some (Inr [])"
| "run_clients create (c # cs) = (case run_client create c of
     None \<Rightarrow> None | Some (Inl f) \<Rightarrow> Some (Inl f)
   | Some (Inr c') \<Rightarrow> (case run_clients create cs of
       None \<Rightarrow> None | Some (Inl f) \<Rightarrow> Some (Inl f) | Some (Inr cs') \<Rightarrow> Some (Inr (c' # cs'))))"

definition ServerRun :: "(int \<Rightarrow> int) \<Rightarrow> server \<Rightarrow> server cres option" where
  "ServerRun create s = (case run_clients create (sv_clients s) of
     None \<Rightarrow> None | Some (Inl f) \<Rightarrow> Some (Inl f)
   | Some (Inr cs) \<Rightarrow> Some (Inr (s\<lparr>sv_clients := cs\<rparr>)))"

section \<open>One round of the main loop\<close>

text \<open>
  What the kernel answers in a round: whether \<open>poll\<close> succeeded, whether the listening socket is
  readable, and the answers to the calls the round makes.
\<close>

record round =
  rd_create :: "int \<Rightarrow> int"
  rd_poll_ok :: bool
  rd_pending :: bool
  rd_accept :: "(int \<times> sockaddr \<times> sockaddr) option"
  rd_recv :: "int \<Rightarrow> byte list option"
  rd_send :: "int \<Rightarrow> sender"

definition main_round :: "int \<Rightarrow> round \<Rightarrow> server \<Rightarrow> server cres option" where
  "main_round listening r s =
     (case ServerRun (rd_create r) s of
        None \<Rightarrow> None | Some (Inl f) \<Rightarrow> Some (Inl f)
      | Some (Inr s1) \<Rightarrow>
          if \<not> rd_poll_ok r then Some (Inl Assert_Fail)
          else (case (if listening \<noteq> -1 \<and> rd_pending r \<and> sv_active s1 < int MAX_CONNECTIONS
                      then cbind (NewConnection listening (kernel_accept (rd_accept r) s1) s1) (\<lambda>(fd, s). Inr s)
                      else Inr s1) of
              Inl f \<Rightarrow> Some (Inl f)
            | Inr s2 \<Rightarrow> (case ReceiveLoop (rd_recv r) s2 of
                Inl f \<Rightarrow> Some (Inl f) | Inr s3 \<Rightarrow> TransmitPendingLoop (rd_send r) s3)))"

section \<open>When TransmitPending returns\<close>

definition taken :: "sender \<Rightarrow> nat \<Rightarrow> nat" where
  "taken tx j = (case tx j of Takes n \<Rightarrow> n | Send_Err e \<Rightarrow> 0)"

definition hard_failure :: "sender \<Rightarrow> nat \<Rightarrow> bool" where
  "hard_failure tx j = (case tx j of Takes n \<Rightarrow> n = 0 | Send_Err e \<Rightarrow> e \<noteq> EINTR \<and> e \<noteq> EAGAIN)"

definition transient :: "sender \<Rightarrow> nat \<Rightarrow> bool" where
  "transient tx j = (case tx j of Takes n \<Rightarrow> False | Send_Err e \<Rightarrow> e = EINTR \<or> e = EAGAIN)"

definition clean_run :: "sender \<Rightarrow> nat \<Rightarrow> nat \<Rightarrow> nat \<Rightarrow> bool" where
  "clean_run tx k K retry \<longleftrightarrow> (\<forall>j\<in>{k..<K}. \<not> hard_failure tx j) \<and>
     retry + length (filter (transient tx) [k..<K]) \<le> 3"

lemma clean_run_le: "clean_run tx k K r \<Longrightarrow> r \<le> 3"
  by (simp add: clean_run_def)

lemma upt_Cons: "k < K \<Longrightarrow> [k..<K] = k # [Suc k..<K]"
  by (rule upt_conv_Cons)

lemma transmit_loop_result:
  assumes "transmit_loop tx k buffer retry status = Some (st, K)"
  shows "k \<le> K \<and> length buffer \<le> sum_list (map (taken tx) [k..<K]) \<and>
    ((status \<longrightarrow> retry \<le> 3) \<longrightarrow> st = (status \<and> clean_run tx k K retry))"
proof -
  let ?P = "\<lambda>tx k buffer retry status (y :: bool \<times> nat). k \<le> Product_Type.snd y \<and>
     length buffer \<le> sum_list (map (taken tx) [k..<Product_Type.snd y]) \<and>
     ((status \<longrightarrow> retry \<le> 3) \<longrightarrow> fst y = (status \<and> clean_run tx k (Product_Type.snd y) retry))"
  have "?P tx k buffer retry status (st, K)"
  proof (rule transmit_loop.raw_induct [of ?P, OF _ assms])
    fix f tx k buffer retry status y
    assume IH: "\<And>tx k buffer retry status y. f tx k buffer retry status = Some y \<Longrightarrow> ?P tx k buffer retry status y"
      and step: "(if buffer = [] then Some (status, k)
      else (case tx k of
          Takes n \<Rightarrow> if 0 < n then f tx (Suc k) (drop n buffer) retry status
            else f tx (Suc k) buffer retry False
        | Send_Err e \<Rightarrow> if e = EINTR \<or> e = EAGAIN
            then (if Suc retry > 3 then f tx (Suc k) buffer (Suc retry) False
                  else f tx (Suc k) buffer (Suc retry) status)
            else f tx (Suc k) buffer retry False)) = Some y"
    show "?P tx k buffer retry status y"
    proof (cases "buffer = []")
      case True
      with step show ?thesis by (auto simp: clean_run_def)
    next
      case False
      have up: "Suc k \<le> K \<Longrightarrow> [k..<K] = k # [Suc k..<K]" for K by (simp add: upt_Cons)
      have cl: "Suc k \<le> K \<Longrightarrow> clean_run tx k K r \<longleftrightarrow> \<not> hard_failure tx k \<and>
          clean_run tx (Suc k) K (if transient tx k then Suc r else r)" for K r
      proof -
        assume le: "Suc k \<le> K"
        then have "{k..<K} = insert k {Suc k..<K}" by auto
        then show ?thesis by (simp add: clean_run_def up [OF le])
      qed
      show ?thesis
      proof (cases "tx k")
        case (Takes n)
        show ?thesis
        proof (cases "0 < n")
          case True
          with False Takes step have "f tx (Suc k) (drop n buffer) retry status = Some y" by simp
          from IH [OF this] Takes True show ?thesis
            by (auto simp: up cl taken_def hard_failure_def transient_def)
        next
          case n0: False
          with False Takes step have "f tx (Suc k) buffer retry False = Some y" by simp
          from IH [OF this] Takes n0 show ?thesis
            by (auto simp: up cl taken_def hard_failure_def transient_def)
        qed
      next
        case (Send_Err e)
        show ?thesis
        proof (cases "e = EINTR \<or> e = EAGAIN")
          case tr: True
          with False Send_Err step
          have "f tx (Suc k) buffer (Suc retry) (status \<and> \<not> Suc retry > 3) = Some y"
            by (auto split: if_splits)
          from IH [OF this] Send_Err tr show ?thesis
            by (auto simp: up cl taken_def hard_failure_def transient_def dest: clean_run_le)
        next
          case hard: False
          with False Send_Err step have "f tx (Suc k) buffer retry False = Some y" by simp
          from IH [OF this] Send_Err hard show ?thesis
            by (auto simp: up cl taken_def hard_failure_def transient_def)
        qed
      qed
    qed
  qed
  then show ?thesis by simp
qed

lemma transmit_loop_returns:
  assumes "length buffer \<le> sum_list (map (taken tx) [k..<k + m])"
  shows "\<exists>r. transmit_loop tx k buffer retry status = Some r"
  using assms
proof (induction m arbitrary: k buffer retry status)
  case 0
  then show ?case by (subst transmit_loop.simps) simp
next
  case (Suc m)
  have sum: "sum_list (map (taken tx) [k..<k + Suc m]) = taken tx k + sum_list (map (taken tx) [Suc k..<Suc k + m])"
    by (simp add: upt_Cons del: upt_Suc)
  show ?case
  proof (cases "tx k")
    case (Takes n)
    then have "length (drop n buffer) \<le> sum_list (map (taken tx) [Suc k..<Suc k + m])"
      using Suc.prems unfolding sum by (simp add: taken_def)
    with Suc.IH [OF this] Suc.IH [of buffer "Suc k"] Takes show ?thesis
      by (subst transmit_loop.simps) auto
  next
    case (Send_Err e)
    then have "length buffer \<le> sum_list (map (taken tx) [Suc k..<Suc k + m])"
      using Suc.prems unfolding sum by (simp add: taken_def)
    with Suc.IH [OF this] Send_Err show ?thesis by (subst transmit_loop.simps) auto
  qed
qed

text \<open>
  \<open>TransmitPending\<close> gives up on nothing: the \<open>break\<close> after a failure only leaves the
  \<open>switch\<close>. On a connected socket whose buffer holds a string, it returns exactly when the peer
  ends up taking the whole string with its zero byte, and spins for ever otherwise, for example
  on a peer that is gone. When it returns the buffer has been sent and cleared, and the status
  says whether it met no failure other than at most three interruptions.
\<close>
theorem TransmitPending_returns_iff:
  assumes "cn_socket c \<noteq> -1" "c_string (cn_pendingSendBuffer c) = Inr bytes"
  shows "(TransmitPending tx c \<noteq> None \<longleftrightarrow> (\<exists>K. length bytes \<le> sum_list (map (taken tx) [0..<K]))) \<and>
    (\<forall>r. TransmitPending tx c = Some r \<longrightarrow> (\<exists>K. length bytes \<le> sum_list (map (taken tx) [0..<K]) \<and>
       r = Inr (clean_run tx 0 K 0, c\<lparr>cn_pendingSendBuffer := replicate NET_BUFFER_SIZE 0\<rparr>)))"
proof -
  have eq: "TransmitPending tx c = (case transmit_loop tx 0 bytes 0 True of
      None \<Rightarrow> None
    | Some (status, k) \<Rightarrow> Some (Inr (status, c\<lparr>cn_pendingSendBuffer := replicate NET_BUFFER_SIZE 0\<rparr>)))"
    using assms by (simp add: TransmitPending_def)
  have res: "\<exists>K. length bytes \<le> sum_list (map (taken tx) [0..<K]) \<and> st = clean_run tx 0 K 0"
    if "transmit_loop tx 0 bytes 0 True = Some (st, K)" for st K
    using transmit_loop_result [OF that] by auto
  have "transmit_loop tx 0 bytes 0 True \<noteq> None" if "length bytes \<le> sum_list (map (taken tx) [0..<K])" for K
    using transmit_loop_returns [of bytes tx 0 K] that by auto
  then show ?thesis using res unfolding eq by (fastforce split: option.splits)
qed

theorem TransmitPending_returns_iff_witness:
  "TransmitPending (\<lambda>k. Send_Err 32) (accepted 5 2) = None"
proof -
  have c: "cn_socket (accepted 5 2) \<noteq> -1" "c_string (cn_pendingSendBuffer (accepted 5 2)) = Inr [0]"
    by (simp_all add: accepted_def zero_conn_def c_string_def)
  have "sum_list (map (taken (\<lambda>k. Send_Err 32)) [0..<K]) = 0" for K
    by (simp add: taken_def)
  with TransmitPending_returns_iff [OF c, of "\<lambda>k. Send_Err 32"] show ?thesis by auto
qed

section \<open>What TransmitPendingLoop does to the count\<close>

lemma CloseConnection_unused:
  assumes s: "sync s" and i: "i < MAX_CONNECTIONS" "\<not> cn_inUse (sv_clients s ! i)"
  obtains s' where "CloseConnection i s = Inr s'" "sync s'" "sv_clients s' = sv_clients s"
    "sv_open s' = sv_open s" "sv_active s' = (if sv_active s = 0 then 0 else sv_active s - 1)"
proof -
  have len: "length (sv_watched s) = MAX_WATCHEDFD" "length (sv_clients s) = MAX_CONNECTIONS"
    using s by (simp_all add: sync_def)
  have "sv_clients s ! i \<in> set (sv_clients s)" using i(1) len by simp
  then have b: "sv_clients s ! i = blank" using s i(2) by (auto simp: sync_def)
  show thesis
  proof (cases "sv_active s = 0")
    case True
    then show ?thesis using that [of s] s by (simp add: CloseConnection_def)
  next
    case False
    have "(-1::int) \<notin> set (sv_open s)" using s by (auto simp: sync_def)
    then have op: "remove1 (-1) (sv_open s) = sv_open s" by (rule remove1_idem)
    have cl: "(sv_clients s)[i := blank] = sv_clients s" using b by (metis list_update_id)
    have "MAX_WATCHEDFD \<le> length (sv_watched s)" using len by simp
    then show ?thesis
    proof (cases rule: find_from_spec [where i = MAX_SERVICE and P = "\<lambda>w. pf_fd w = -1"])
      case None
      then have "CloseConnection i s = Inr (s\<lparr>sv_active := sv_active s - 1\<rparr>)"
        using False i(1) len by (simp add: CloseConnection_def aget_ok b op cl flip: blank_def)
      then show ?thesis using that [of "s\<lparr>sv_active := sv_active s - 1\<rparr>"] s False by (simp add: sync_def)
    next
      case (Some j)
      let ?w = "zero_pollfd\<lparr>pf_fd := -1\<rparr>"
      let ?s = "s\<lparr>sv_watched := (sv_watched s)[j := ?w], sv_active := sv_active s - 1\<rparr>"
      have run: "CloseConnection i s = Inr ?s"
        using False i(1) len Some(1) by (simp add: CloseConnection_def aget_ok b op cl flip: blank_def)
      have "watched_fds ?s = watched_fds s"
        using watched_update [OF len(1) Some(2,3), of "\<lambda>w. pf_fd w \<noteq> -1" pf_fd ?w] Some(4) by simp
      then have "sync ?s" using s by (simp add: sync_def)
      then show ?thesis using that [OF run] False by simp
    qed
  qed
qed

text \<open>The connections whose sends will all succeed.\<close>

definition sends_ok :: "(int \<Rightarrow> sender) \<Rightarrow> Connection \<Rightarrow> bool" where
  "sends_ok tx c \<longleftrightarrow> cn_inUse c \<longrightarrow> TransmitPending (tx (cn_socket c)) c
     = Some (Inr (True, c\<lparr>cn_pendingSendBuffer := replicate NET_BUFFER_SIZE 0\<rparr>))"

definition transmit_result :: "Connection \<Rightarrow> Connection" where
  "transmit_result c = (if cn_inUse c then c\<lparr>cn_pendingSendBuffer := replicate NET_BUFFER_SIZE 0\<rparr> else c)"

lemma transmit_one_spec:
  assumes s: "sync s" and i: "i < MAX_CONNECTIONS" and ok: "sends_ok tx (sv_clients s ! i)"
    and n: "0 \<le> sv_active s"
  shows "\<exists>s'. transmit_one tx i s = Some (Inr s') \<and> sync s' \<and> sv_open s' = sv_open s \<and>
    sv_clients s' = (sv_clients s)[i := transmit_result (sv_clients s ! i)] \<and>
    sv_active s' = (if cn_inUse (sv_clients s ! i) then sv_active s else max 0 (sv_active s - 1))"
proof -
  let ?c = "sv_clients s ! i"
  have len: "length (sv_watched s) = MAX_WATCHEDFD" "length (sv_clients s) = MAX_CONNECTIONS"
    using s by (simp_all add: sync_def)
  have get: "aget (sv_clients s) (int i) = Inr ?c" using i len by (simp add: aget_ok)
  show ?thesis
  proof (cases "cn_inUse ?c")
    case False
    obtain s' where s': "CloseConnection i s = Inr s'" "sync s'" "sv_clients s' = sv_clients s"
      "sv_open s' = sv_open s" "sv_active s' = (if sv_active s = 0 then 0 else sv_active s - 1)"
      by (rule CloseConnection_unused [OF s i False])
    then show ?thesis using False n by (auto simp: transmit_one_def get transmit_result_def)
  next
    case True
    note c = sync_client [OF s i True]
    have rdy: "ready POLLOUT (cn_socket ?c) (sv_watched s) = Inr True"
      by (rule ready_spec [OF len(1) c(3,1)]) (simp add: POLLOUT_def)
    let ?d = "?c\<lparr>cn_pendingSendBuffer := replicate NET_BUFFER_SIZE 0\<rparr>"
    let ?s = "s\<lparr>sv_clients := (sv_clients s)[i := ?d]\<rparr>"
    have run: "transmit_one tx i s = Some (Inr ?s)"
      using True ok by (simp add: transmit_one_def get rdy sends_ok_def)
    have "client_fds ?s = client_fds s"
      using picks_update [of i "sv_clients s" cn_inUse cn_socket ?d] i len True by simp
    moreover have "\<forall>c\<in>set (sv_clients ?s). cn_inUse c \<or> c = blank"
      using s set_update_subset_insert [of "sv_clients s" i ?d] True by (auto simp: sync_def)
    ultimately have "sync ?s" using s by (simp add: sync_def)
    with run True show ?thesis by (simp add: transmit_result_def)
  qed
qed

lemma transmit_all_spec:
  assumes "sync s" "0 \<le> sv_active s" "\<forall>i\<in>set is. i < MAX_CONNECTIONS \<and> sends_ok tx (sv_clients s ! i)"
    and "distinct is"
  shows "\<exists>s'. transmit_all tx is s = Some (Inr s') \<and> sync s' \<and> sv_open s' = sv_open s \<and>
    map cn_inUse (sv_clients s') = map cn_inUse (sv_clients s) \<and>
    sv_active s' = max 0 (sv_active s - int (length (filter (\<lambda>i. \<not> cn_inUse (sv_clients s ! i)) is)))"
  using assms
proof (induction "is" arbitrary: s)
  case Nil
  then show ?case by simp
next
  case (Cons i "is")
  then obtain s1 where s1: "transmit_one tx i s = Some (Inr s1)" "sync s1" "sv_open s1 = sv_open s"
    "sv_clients s1 = (sv_clients s)[i := transmit_result (sv_clients s ! i)]"
    "sv_active s1 = (if cn_inUse (sv_clients s ! i) then sv_active s else max 0 (sv_active s - 1))"
    using transmit_one_spec [of s i tx] by auto
  have same: "j \<noteq> i \<Longrightarrow> sv_clients s1 ! j = sv_clients s ! j" for j by (simp add: s1(4))
  have ne: "j \<in> set is \<Longrightarrow> j \<noteq> i" for j using Cons.prems(4) by auto
  have "\<forall>i\<in>set is. i < MAX_CONNECTIONS \<and> sends_ok tx (sv_clients s1 ! i)"
    using Cons.prems(3) same ne by simp
  moreover have "filter (\<lambda>i. \<not> cn_inUse (sv_clients s1 ! i)) is = filter (\<lambda>i. \<not> cn_inUse (sv_clients s ! i)) is"
    using same ne by (intro filter_cong) auto
  moreover have "0 \<le> sv_active s1" using s1(5) Cons.prems(2) by simp
  ultimately obtain s' where s': "transmit_all tx is s1 = Some (Inr s')" "sync s'" "sv_open s' = sv_open s1"
    "map cn_inUse (sv_clients s') = map cn_inUse (sv_clients s1)"
    "sv_active s' = max 0 (sv_active s1 - int (length (filter (\<lambda>i. \<not> cn_inUse (sv_clients s ! i)) is)))"
    using Cons.IH [OF s1(2)] Cons.prems(4) by auto
  have "length (sv_clients s) = MAX_CONNECTIONS" using Cons.prems(1) by (simp add: sync_def)
  then have "map cn_inUse (sv_clients s1) = map cn_inUse (sv_clients s)"
    unfolding s1(4) map_update using Cons.prems(3)
    by (simp add: transmit_result_def list_update_same_conv)
  with s' s1 show ?case by auto
qed

lemma length_filter_nth: "length (filter (\<lambda>i. P (xs ! i)) [0..<length xs]) = length (filter P xs)"
proof -
  have "filter P xs = filter P (map ((!) xs) [0..<length xs])" by (simp only: map_nth)
  then show ?thesis by (simp only: filter_map length_map comp_def)
qed

lemma transmit_blank_buffer:
  assumes "cn_socket c \<noteq> -1" "cn_pendingSendBuffer c = replicate 1024 0"
  shows "TransmitPending (\<lambda>k. Takes 1) c = Some (Inr (True, c\<lparr>cn_pendingSendBuffer := replicate NET_BUFFER_SIZE 0\<rparr>))"
  using assms
  by (simp add: TransmitPending_def c_string_def transmit_loop.simps [of _ 0] transmit_loop.simps [of _ "Suc 0"])

section \<open>Eviction\<close>

text \<open>
  When eight or more connections are active, \<open>NewConnection\<close> either refuses, because no
  connection outside the two reserved slots has been idle, or makes room by closing one that has
  been idle at least as long as any other idle or new connection without a running callback, and
  takes the new one: exactly one descriptor is closed and one opened.
\<close>
theorem NewConnection_evicts_longest_idle:
  assumes s: "sync s" "counted s" and full: "8 \<le> sv_active s" and port: "srv \<noteq> PORT1"
    and fd: "0 < fd" "fd \<notin> set (sv_open s)"
  shows "(\<forall>c\<in>set (drop 2 (sv_clients s)). evictable c \<longrightarrow> cn_idleTime c \<le> 0) \<and>
      NewConnection srv (Some (fd, peer, addr)) s = Inr (-1, s) \<or>
    (\<exists>k s'. 2 \<le> k \<and> k < MAX_CONNECTIONS \<and> evictable (sv_clients s ! k) \<and>
      (\<forall>c\<in>set (drop 2 (sv_clients s)). evictable c \<longrightarrow> cn_idleTime c \<le> cn_idleTime (sv_clients s ! k)) \<and>
      NewConnection srv (Some (fd, peer, addr)) s = Inr (fd, s') \<and>
      sv_open s' = fd # remove1 (cn_socket (sv_clients s ! k)) (sv_open s) \<and> sv_active s' = sv_active s)"
proof -
  have len: "length (sv_clients s) = MAX_CONNECTIONS" using s(1) by (simp add: sync_def)
  let ?cs = "drop 2 (sv_clients s)"
  have cs: "drop reserveConn (take MAX_CONNECTIONS (sv_clients s)) = ?cs" using len by simp
  have guard: "sv_active s + int reserveConn \<ge> int MAX_CONNECTIONS" using full by simp
  obtain r t where st: "find_stale ?cs reserveConn (None, 0) = (r, t)" by (metis surj_pair)
  note spec = find_stale_spec [OF st]
  show ?thesis
  proof (cases r)
    case None
    then have "NewConnection srv (Some (fd, peer, addr)) s = Inr (-1, s)"
      using guard st by (simp add: NewConnection_def cs)
    moreover have "\<forall>c\<in>set ?cs. evictable c \<longrightarrow> cn_idleTime c \<le> 0" using spec None by auto
    ultimately show ?thesis by blast
  next
    case (Some k)
    with spec obtain j where j: "j < length ?cs" "k = 2 + j" "t = cn_idleTime (?cs ! j)" "0 < t"
      "evictable (?cs ! j)" by auto
    then have k: "2 \<le> k" "k < MAX_CONNECTIONS" "t = cn_idleTime (sv_clients s ! k)" "evictable (sv_clients s ! k)"
      using len by simp_all
    moreover have "sv_clients s ! k \<in> set (sv_clients s)" using k(2) len by simp
    ultimately have use: "cn_inUse (sv_clients s ! k)" using s(1) j(4) by (auto simp: sync_def)
    have "sv_active s \<noteq> 0" using full by simp
    then obtain s1 where s1: "CloseConnection k s = Inr s1" "sync s1" "sv_active s1 = sv_active s - 1"
      "sv_clients s1 = (sv_clients s)[k := blank]"
      "sv_open s1 = remove1 (cn_socket (sv_clients s ! k)) (sv_open s)"
      "size (client_fds s1) + 1 = size (client_fds s)"
      using CloseConnection_in_use [OF s(1) _ k(2) use] by metis
    have new: "NewConnection srv (Some (fd, peer, addr)) s = accept_connection srv (Some (fd, peer, addr)) s1"
      using guard st Some by (simp add: NewConnection_def cs s1(1))
    have c1: "counted s1" using s(2) s1(3,6) by (simp add: counted_def)
    have f1: "fresh_accept (Some (fd, peer, addr)) s1"
      using fd by (auto simp: fresh_accept_def s1(5) dest: notin_set_remove1)
    have "\<exists>s'. accept_connection srv (Some (fd, peer, addr)) s1 = Inr (fd, s') \<and>
      sv_open s' = fd # sv_open s1 \<and> sv_active s' = sv_active s1 + 1"
      using s1(2) f1 port
    proof (cases rule: accept_connection_spec)
      case Refused
      then have "cn_inUse (sv_clients s1 ! k)" using k(1,2) by auto
      then show ?thesis using k(2) len by (simp add: s1(4))
    next
      case (Taken fd' peer' addr' k' s')
      then show ?thesis by simp
    qed
    with k spec new s1(3,5) show ?thesis by auto
  qed
qed

text \<open>Eight clients, of which the fourth has been idle longest.\<close>

definition busy_client :: "int \<Rightarrow> int \<Rightarrow> Connection" where
  "busy_client fd idle = (accepted fd 2)\<lparr>cn_idleTime := idle\<rparr>"

definition eight_clients :: server where
  "eight_clients = \<lparr>sv_watched = replicate 3 (zero_pollfd\<lparr>pf_fd := -1\<rparr>)
       @ map (\<lambda>fd. \<lparr>pf_fd = fd, pf_events = 5, pf_revents = 0\<rparr>) [5, 6, 7, 8, 9, 10, 11, 12]
       @ replicate 2 (zero_pollfd\<lparr>pf_fd := -1\<rparr>),
     sv_clients = replicate 2 blank @ map2 busy_client [5, 6, 7, 8, 9, 10, 11, 12] [1, 2, 3, 9, 4, 1, 1, 1],
     sv_active = 8, sv_open = [5, 6, 7, 8, 9, 10, 11, 12]\<rparr>"

lemma eight_clients_ok: "sync eight_clients" "counted eight_clients"
proof -
  have "client_fds eight_clients = mset (sv_open eight_clients)"
    by (simp add: eight_clients_def busy_client_def accepted_def)
  moreover have "watched_fds eight_clients = mset (sv_open eight_clients)"
    by (simp add: eight_clients_def)
  moreover have "\<forall>c\<in>set (sv_clients eight_clients). cn_inUse c \<or> c = blank"
    by (simp add: eight_clients_def busy_client_def accepted_def)
  moreover have "length (sv_watched eight_clients) = 13" "length (sv_clients eight_clients) = 10"
    "distinct (sv_open eight_clients)" "\<forall>fd\<in>set (sv_open eight_clients). 0 < fd"
    by (simp_all add: eight_clients_def)
  ultimately show "sync eight_clients" by (simp only: sync_def)
  show "counted eight_clients"
    by (simp add: counted_def eight_clients_def busy_client_def accepted_def)
qed

theorem NewConnection_evicts_longest_idle_witness:
  "\<exists>s'. NewConnection 3 (Some (20, 1, 2)) eight_clients = Inr (20, s') \<and> sv_active s' = 8"
proof -
  have "\<not> (\<forall>c\<in>set (drop 2 (sv_clients eight_clients)). evictable c \<longrightarrow> cn_idleTime c \<le> 0)"
    by (simp add: eight_clients_def busy_client_def accepted_def zero_conn_def evictable_def)
  moreover have a: "8 \<le> sv_active eight_clients" "sv_active eight_clients = 8" "(3::int) \<noteq> PORT1"
    "20 \<notin> set (sv_open eight_clients)" "(0::int) < 20"
    by (simp_all add: eight_clients_def PORT1_def)
  ultimately show ?thesis
    using NewConnection_evicts_longest_idle [OF eight_clients_ok a(1,3,5,4), of 1 2] unfolding a(2) by blast
qed

section \<open>ServerRun\<close>

lemma state_case_state: "state_case create c = Inr c' \<Longrightarrow> cn_state c' = cn_state c"
  by (auto simp: state_case_def HandleConnectionHook_def Let_def split: ConnectionState.splits if_splits)

lemma state_loop_once: "state_loop create c = Some (state_case create c)"
  using state_case_state [of create c]
  by (subst state_loop.simps) (auto split: sum.splits)

text \<open>A connection one pass older.\<close>

definition aged :: "Connection \<Rightarrow> Connection" where
  "aged c =
     (if \<not> cn_inUse c then c
      else c\<lparr>cn_idleTime := (if cn_state c = eDataReceived then 0 else c_int (cn_idleTime c + 1)),
             cn_waitTickValid := False\<rparr>)"

lemma run_client_aged:
  "cn_clientCallback c = None \<Longrightarrow> run_client create c = Some (Inr (aged c))"
  by (cases "cn_state c"; cases "cn_callbackRunning c"; cases c)
    (simp_all add: run_client_def state_loop_once state_case_def aged_def Let_def)

text \<open>
  \<open>ServerRun\<close> always returns. On connections without a callback it never faults and only
  ages them: an idle or new connection gets one tick older, one with data received is as new, and
  the pending tick is forgotten. Where data was received for a connection with a callback that is
  not running, the assertion on the result of \<open>pthread_create\<close> is the wrong way round: a thread
  that was created (result 0) stops the server, and only a failure to create one goes on, with
  the connection marked as running a callback that does not exist.
\<close>
theorem ServerRun_ages_or_stops:
  "ServerRun create s \<noteq> None \<and>
   ((\<forall>c\<in>set (sv_clients s). cn_clientCallback c = None) \<longrightarrow>
      ServerRun create s = Some (Inr (s\<lparr>sv_clients := map aged (sv_clients s)\<rparr>))) \<and>
   (cn_inUse c \<and> cn_socket c \<noteq> -1 \<and> cn_state c = eDataReceived \<and> cn_clientCallback c = Some h \<and>
      \<not> cn_callbackRunning c \<longrightarrow>
      (if create (cn_socket c) = 0 then run_client create c = Some (Inl Assert_Fail)
       else \<exists>c'. run_client create c = Some (Inr c') \<and> cn_callbackRunning c'))"
proof -
  have "run_client create c \<noteq> None" for c
    by (simp add: run_client_def state_loop_once Let_def)
  then have "run_clients create cs \<noteq> None" for cs
    by (induction cs) (auto split: option.splits sum.splits)
  then have 1: "ServerRun create s \<noteq> None"
    by (auto simp: ServerRun_def split: option.splits sum.splits)
  have "\<forall>c\<in>set cs. cn_clientCallback c = None \<Longrightarrow> run_clients create cs = Some (Inr (map aged cs))" for cs
    by (induction cs) (simp_all add: run_client_aged)
  then have 2: "\<forall>c\<in>set (sv_clients s). cn_clientCallback c = None \<Longrightarrow>
      ServerRun create s = Some (Inr (s\<lparr>sv_clients := map aged (sv_clients s)\<rparr>))"
    by (simp add: ServerRun_def)
  have 3: "if create (cn_socket c) = 0 then run_client create c = Some (Inl Assert_Fail)
       else \<exists>c'. run_client create c = Some (Inr c') \<and> cn_callbackRunning c'"
    if "cn_inUse c" "cn_socket c \<noteq> -1" "cn_state c = eDataReceived" "cn_clientCallback c = Some h"
      "\<not> cn_callbackRunning c"
    using that by (simp add: run_client_def state_loop_once state_case_def HandleConnectionHook_def
        SpawnHookThread_def Let_def ex_bool_eq)
  show ?thesis using 1 2 3 by blast
qed

theorem ServerRun_ages_or_stops_witness:
  "ServerRun (\<lambda>_. 0) one_client = Some (Inr (one_client\<lparr>sv_clients := map aged (sv_clients one_client)\<rparr>))"
  using ServerRun_ages_or_stops [of "\<lambda>_. 0" one_client]
  by (simp add: one_client_def accepted_def blank_def zero_conn_def)

text \<open>
  \<open>Initialize\<close> writes all thirteen entries of an array for which it asked 83 bytes, because
  the macro \<open>MAX_WATCHEDFD\<close> has no parentheses: unless the allocator hands out at least 21 bytes
  more than asked, the writes leave the block; with them, the tables start empty and in step.
\<close>
theorem Initialize_overflows:
  "watched_request = 83 \<and>
   (malloc 83 = Some usable \<longrightarrow> malloc (sizeof_Connection * 10) \<noteq> None \<longrightarrow>
      (if usable < 104 then Initialize junk malloc = Inl Out_Of_Bounds
       else \<exists>s. Initialize junk malloc = Inr s \<and> sync s \<and> counted s \<and> client_fds s = {#}))"
proof -
  have "\<exists>s. Initialize junk malloc = Inr s \<and> sync s \<and> counted s \<and> client_fds s = {#}"
    if a: "malloc 83 = Some usable" "malloc (sizeof_Connection * 10) \<noteq> None" "\<not> usable < 104"
  proof -
    from a obtain s where s: "Initialize junk malloc = Inr s" "sv_open s = []"
      by (auto simp: Initialize_def watched_request_def)
    with Initialize_sync [OF s(1)] show ?thesis by (simp add: sync_def)
  qed
  then show ?thesis by (auto simp: Initialize_def watched_request_def)
qed

theorem Initialize_overflows_witness:
  "Initialize junk (\<lambda>n. Some n) = Inl Out_Of_Bounds"
  using Initialize_overflows [of "\<lambda>n. Some n" 83] by simp

end
