(* ===== verification/Bitree.thy ===== *)
theory Bitree
  imports CHeap "HOL-Library.Tree"
begin

text \<open>
  The binary search tree of \<open>dataStruct/bitree/bitree.c\<close>: insertion through a pointer to a
  pointer, deletion in postorder, and the three traversals, on an explicit heap with an
  allocator oracle. The functions recurse along pointers, which need not be well founded, so
  they are partial functions and \<open>None\<close> is a call that does not return.
\<close>

section \<open>The code\<close>

record binaryTree =
  bt_data :: int
  bt_left :: ptr
  bt_right :: ptr

text \<open>
  What a \<open>struct binaryTree **\<close> points to: the caller's variable \<open>root\<close>, or a field of a node.
  A state is the value of the variable and the heap.
\<close>

datatype slot = S_Root | S_Left nat | S_Right nat

type_synonym bstate = "ptr \<times> binaryTree heap"

definition slot_get :: "slot \<Rightarrow> bstate \<Rightarrow> ptr cres" where
  "slot_get s st = (case s of
     S_Root \<Rightarrow> Inr (fst st)
   | S_Left a \<Rightarrow> cbind (hload (snd st) (Ptr a)) (\<lambda>n. Inr (bt_left n))
   | S_Right a \<Rightarrow> cbind (hload (snd st) (Ptr a)) (\<lambda>n. Inr (bt_right n)))"

definition slot_put :: "slot \<Rightarrow> ptr \<Rightarrow> bstate \<Rightarrow> bstate cres" where
  "slot_put s p st = (case s of
     S_Root \<Rightarrow> Inr (p, snd st)
   | S_Left a \<Rightarrow> cbind (hstore (snd st) (Ptr a) (\<lambda>n. n\<lparr>bt_left := p\<rparr>)) (\<lambda>h. Inr (fst st, h))
   | S_Right a \<Rightarrow> cbind (hstore (snd st) (Ptr a) (\<lambda>n. n\<lparr>bt_right := p\<rparr>)) (\<lambda>h. Inr (fst st, h)))"

definition new_node :: binaryTree where
  "new_node = \<lparr>bt_data = 0, bt_left = Junk, bt_right = Junk\<rparr>"

text \<open>The branch for an empty tree: allocate, fill in, link. The result of \<open>malloc\<close> is not checked.\<close>

definition bt_link :: "slot \<Rightarrow> int \<Rightarrow> bstate \<Rightarrow> bstate cres" where
  "bt_link s val st =
     (let (h, node) = halloc (snd st) new_node
      in cbind (hstore h node (\<lambda>n. n\<lparr>bt_left := NULL, bt_right := NULL\<rparr>)) (\<lambda>h.
         cbind (hstore h node (\<lambda>n. n\<lparr>bt_data := val\<rparr>)) (\<lambda>h. slot_put s node (fst st, h))))"

partial_function (option) binaryTree_insert :: "slot \<Rightarrow> int \<Rightarrow> bstate \<Rightarrow> bstate cres option" where
  "binaryTree_insert s val st =
     (case slot_get s st of
        Inl f \<Rightarrow> Some (Inl f)
      | Inr p \<Rightarrow>
          if p = NULL then Some (bt_link s val st)
          else (case p of
              Ptr a \<Rightarrow> (case hload (snd st) (Ptr a) of
                  Inl f \<Rightarrow> Some (Inl f)
                | Inr n \<Rightarrow>
                    if val < bt_data n then binaryTree_insert (S_Left a) val st
                    else if val > bt_data n then binaryTree_insert (S_Right a) val st
                    else Some (Inr st))
            | _ \<Rightarrow> Some (Inl Uninit_Read)))"

text \<open>Sequencing of calls that may fault and may not return.\<close>

definition obind :: "'a cres option \<Rightarrow> ('a \<Rightarrow> 'b cres option) \<Rightarrow> 'b cres option" where
  "obind r f = Option.bind r (\<lambda>x. case x of Inl e \<Rightarrow> Some (Inl e) | Inr y \<Rightarrow> f y)"

lemma obind_simps [simp]: "obind (Some (Inr x)) f = f x" "obind (Some (Inl e)) f = Some (Inl e)"
  "obind None f = None"
  by (simp_all add: obind_def)

lemma obind_mono [partial_function_mono]:
  assumes "mono_option B" "\<And>y. mono_option (\<lambda>f. C y f)"
  shows "mono_option (\<lambda>f. obind (B f) (\<lambda>y. C y f))"
  unfolding obind_def
proof (rule bind_mono [OF assms(1)])
  fix x
  show "mono_option (\<lambda>f. case x of Inl e \<Rightarrow> Some (Inl e) | Inr y \<Rightarrow> C y f)"
    using assms(2) by (cases x) (simp_all add: monotone_def flat_ord_def fun_ord_def)
qed

partial_function (option) binaryTree_delete :: "ptr \<Rightarrow> binaryTree heap \<Rightarrow> binaryTree heap cres option" where
  "binaryTree_delete p h =
     (if p = NULL then Some (Inr h)
      else obind (Some (hload h p)) (\<lambda>n.
           obind (binaryTree_delete (bt_left n) h) (\<lambda>h.
           obind (Some (hload h p)) (\<lambda>n.
           obind (binaryTree_delete (bt_right n) h) (\<lambda>h. Some (hfree h p))))))"

text \<open>A traversal returns the list of the values it prints.\<close>

partial_function (option) preorder_out :: "ptr \<Rightarrow> binaryTree heap \<Rightarrow> int list cres option" where
  "preorder_out p h =
     (if p = NULL then Some (Inr [])
      else obind (Some (hload h p)) (\<lambda>n.
           obind (preorder_out (bt_left n) h) (\<lambda>xs.
           obind (preorder_out (bt_right n) h) (\<lambda>ys. Some (Inr (bt_data n # xs @ ys))))))"

partial_function (option) inorder_out :: "ptr \<Rightarrow> binaryTree heap \<Rightarrow> int list cres option" where
  "inorder_out p h =
     (if p = NULL then Some (Inr [])
      else obind (Some (hload h p)) (\<lambda>n.
           obind (inorder_out (bt_left n) h) (\<lambda>xs.
           obind (inorder_out (bt_right n) h) (\<lambda>ys. Some (Inr (xs @ bt_data n # ys))))))"

partial_function (option) postorder_out :: "ptr \<Rightarrow> binaryTree heap \<Rightarrow> int list cres option" where
  "postorder_out p h =
     (if p = NULL then Some (Inr [])
      else obind (Some (hload h p)) (\<lambda>n.
           obind (postorder_out (bt_left n) h) (\<lambda>xs.
           obind (postorder_out (bt_right n) h) (\<lambda>ys. Some (Inr (xs @ ys @ [bt_data n]))))))"

section \<open>Trees in the heap\<close>

text \<open>A tree of addresses and values, and the heap cells that make it up.\<close>

type_synonym atree = "(nat \<times> int) tree"

fun tree_at :: "(nat \<Rightarrow> binaryTree option) \<Rightarrow> ptr \<Rightarrow> atree \<Rightarrow> bool" where
  "tree_at m p Leaf \<longleftrightarrow> p = NULL"
| "tree_at m p (Node l (a, x) r) \<longleftrightarrow> p = Ptr a \<and>
     (\<exists>n. m a = Some n \<and> bt_data n = x \<and> tree_at m (bt_left n) l \<and> tree_at m (bt_right n) r)"

definition addrs :: "atree \<Rightarrow> nat set" where
  "addrs t = fst ` set_tree t"

definition vals :: "atree \<Rightarrow> int tree" where
  "vals t = map_tree snd t"

fun apart :: "atree \<Rightarrow> bool" where
  "apart Leaf \<longleftrightarrow> True"
| "apart (Node l (a, x) r) \<longleftrightarrow> a \<notin> addrs l \<and> a \<notin> addrs r \<and> addrs l \<inter> addrs r = {} \<and> apart l \<and> apart r"

definition tree_rep :: "bstate \<Rightarrow> atree \<Rightarrow> bool" where
  "tree_rep st t \<longleftrightarrow> tree_at (h_cells (snd st)) (fst st) t \<and> apart t \<and> heap_ok (snd st)"

lemma addrs_simps [simp]: "addrs Leaf = {}" "addrs (Node l (a, x) r) = insert a (addrs l \<union> addrs r)"
  by (auto simp: addrs_def)

lemma tree_at_frame:
  "(\<And>a. a \<in> addrs t \<Longrightarrow> m' a = m a) \<Longrightarrow> tree_at m' p t = tree_at m p t"
  by (induction m p t rule: tree_at.induct) auto

lemma tree_at_cong:
  "(\<And>a. a \<in> addrs t \<Longrightarrow> m' a = m a) \<Longrightarrow> tree_at m p t \<Longrightarrow> tree_at m' p t"
  using tree_at_frame by metis

lemma tree_at_live: "tree_at m p t \<Longrightarrow> a \<in> addrs t \<Longrightarrow> m a \<noteq> None"
  by (induction m p t rule: tree_at.induct) auto

lemma finite_addrs [simp]: "finite (addrs t)"
  by (simp add: addrs_def)

lemma hload_ok: "h_cells h a = Some n \<Longrightarrow> hload h (Ptr a) = Inr n"
  by (rule hload_Ptr)

text \<open>The traversals print the values of the tree in the order of their names.\<close>

lemma traversals:
  assumes "tree_at (h_cells h) p t"
  shows "inorder_out p h = Some (Inr (inorder (vals t)))"
    "preorder_out p h = Some (Inr (preorder (vals t)))"
    "postorder_out p h = Some (Inr (postorder (vals t)))"
proof -
  show "inorder_out p h = Some (Inr (inorder (vals t)))" using assms
    by (induction "h_cells h" p t rule: tree_at.induct)
      (subst inorder_out.simps, auto simp: vals_def hload_ok)+
  show "preorder_out p h = Some (Inr (preorder (vals t)))" using assms
    by (induction "h_cells h" p t rule: tree_at.induct)
      (subst preorder_out.simps, auto simp: vals_def hload_ok)+
  show "postorder_out p h = Some (Inr (postorder (vals t)))" using assms
    by (induction "h_cells h" p t rule: tree_at.induct)
      (subst postorder_out.simps, auto simp: vals_def hload_ok)+
qed

section \<open>Insertion\<close>

text \<open>The slot where a new value is linked, if the tree does not hold it yet.\<close>

fun place :: "slot \<Rightarrow> atree \<Rightarrow> int \<Rightarrow> slot option" where
  "place s Leaf v = Some s"
| "place s (Node l (a, x) r) v =
     (if v < x then place (S_Left a) l v else if v > x then place (S_Right a) r v else None)"

fun tinsert :: "nat \<Rightarrow> int \<Rightarrow> atree \<Rightarrow> atree" where
  "tinsert a v Leaf = Node Leaf (a, v) Leaf"
| "tinsert a v (Node l (b, x) r) =
     (if v < x then Node (tinsert a v l) (b, x) r
      else if v > x then Node l (b, x) (tinsert a v r) else Node l (b, x) r)"

lemma insert_finds_place:
  assumes "tree_at (h_cells (snd st)) p t" "slot_get s st = Inr p"
  shows "binaryTree_insert s v st = (case place s t v of None \<Rightarrow> Some (Inr st)
     | Some s' \<Rightarrow> Some (bt_link s' v st))"
  using assms
proof (induction t arbitrary: s p)
  case Leaf
  then show ?case by (subst binaryTree_insert.simps) simp
next
  case (Node l ax r)
  obtain a x where ax: "ax = (a, x)" by (cases ax)
  with Node.prems obtain n where n: "p = Ptr a" "h_cells (snd st) a = Some n" "bt_data n = x"
    "tree_at (h_cells (snd st)) (bt_left n) l" "tree_at (h_cells (snd st)) (bt_right n) r" by auto
  have "slot_get (S_Left a) st = Inr (bt_left n)" "slot_get (S_Right a) st = Inr (bt_right n)"
    using n(2) by (simp_all add: slot_get_def hload_ok)
  with Node.IH(1) [OF n(4)] Node.IH(2) [OF n(5)] Node.prems(2) n(1-3) show ?case
    by (subst binaryTree_insert.simps) (simp add: ax hload_ok)
qed

definition linked :: "slot \<Rightarrow> nat \<Rightarrow> int \<Rightarrow> (nat \<Rightarrow> binaryTree option) \<Rightarrow> nat \<Rightarrow> binaryTree option" where
  "linked s a v m = (let m = m(a \<mapsto> \<lparr>bt_data = v, bt_left = NULL, bt_right = NULL\<rparr>) in
     case s of S_Root \<Rightarrow> m
     | S_Left b \<Rightarrow> m(b := map_option (\<lambda>n. n\<lparr>bt_left := Ptr a\<rparr>) (m b))
     | S_Right b \<Rightarrow> m(b := map_option (\<lambda>n. n\<lparr>bt_right := Ptr a\<rparr>) (m b)))"

lemma place_in:
  "place s t v = Some s' \<Longrightarrow> s' = s \<and> t = Leaf \<or> (\<exists>b\<in>addrs t. s' = S_Left b \<or> s' = S_Right b)"
  by (induction t arbitrary: s) (auto split: if_splits prod.splits)

lemma linked_other: "c \<noteq> a \<Longrightarrow> s \<noteq> S_Left c \<Longrightarrow> s \<noteq> S_Right c \<Longrightarrow> linked s a v m c = m c"
  by (auto simp: linked_def Let_def split: slot.splits)

lemma linked_tree:
  assumes "tree_at m p t" "apart t" "a \<notin> addrs t" "place s t v = Some s'" "t \<noteq> Leaf"
  shows "tree_at (linked s' a v m) p (tinsert a v t)"
  using assms
proof (induction t arbitrary: p s)
  case Leaf
  then show ?case by simp
next
  case (Node l ax r)
  obtain b x where ax: "ax = (b, x)" by (cases ax)
  with Node.prems obtain n where n: "p = Ptr b" "m b = Some n" "bt_data n = x"
    "tree_at m (bt_left n) l" "tree_at m (bt_right n) r" by auto
  have ap: "b \<notin> addrs l" "b \<notin> addrs r" "addrs l \<inter> addrs r = {}" "apart l" "apart r" "a \<noteq> b"
    "a \<notin> addrs l" "a \<notin> addrs r" using Node.prems by (auto simp: ax)
  let ?m = "linked s' a v m"
  consider (Left) "v < x" "place (S_Left b) l v = Some s'" | (Right) "x < v" "place (S_Right b) r v = Some s'"
    using Node.prems(4) by (auto simp: ax split: if_splits)
  then show ?case
  proof cases
    case Left
    have r: "tree_at ?m (bt_right n) r"
    proof -
      have "?m c = m c" if "c \<in> addrs r" for c
        using that place_in [OF Left(2)] ap by (intro linked_other) auto
      then show ?thesis using n(5) by (rule tree_at_cong)
    qed
    show ?thesis
    proof (cases "l = Leaf")
      case True
      with Left n ap r show ?thesis by (auto simp: ax linked_def)
    next
      case False
      have "?m b = m b" using place_in [OF Left(2)] False ap by (intro linked_other) auto
      with Node.IH(1) [OF n(4) ap(4,7) Left(2) False] Left(1) n r show ?thesis by (simp add: ax)
    qed
  next
    case Right
    have l: "tree_at ?m (bt_left n) l"
    proof -
      have "?m c = m c" if "c \<in> addrs l" for c
        using that place_in [OF Right(2)] ap by (intro linked_other) auto
      then show ?thesis using n(4) by (rule tree_at_cong)
    qed
    show ?thesis
    proof (cases "r = Leaf")
      case True
      with Right n ap l show ?thesis by (auto simp: ax linked_def)
    next
      case False
      have "?m b = m b" using place_in [OF Right(2)] False ap by (intro linked_other) auto
      with Node.IH(2) [OF n(5) ap(5,8) Right(2) False] Right(1) n l show ?thesis by (simp add: ax)
    qed
  qed
qed

lemma tinsert_vals:
  "bst (vals t) \<Longrightarrow> set_tree (vals (tinsert a v t)) = insert v (set_tree (vals t)) \<and> bst (vals (tinsert a v t))"
  by (induction a v t rule: tinsert.induct) (auto simp: vals_def)

lemma tinsert_addrs: "place s t v \<noteq> None \<Longrightarrow> addrs (tinsert a v t) = insert a (addrs t)"
  by (induction t v arbitrary: s rule: place.induct) (auto split: if_splits)

lemma tinsert_apart:
  "place s t v \<noteq> None \<Longrightarrow> a \<notin> addrs t \<Longrightarrow> apart t \<Longrightarrow> apart (tinsert a v t)"
  by (induction s t v rule: place.induct) (auto simp: tinsert_addrs split: if_splits)

lemma place_None_iff: "bst (vals t) \<Longrightarrow> place s t v = None \<longleftrightarrow> v \<in> set_tree (vals t)"
proof (induction s t v rule: place.induct)
  case (2 s l a x r v)
  then show ?case by (cases v x rule: linorder_cases) (auto simp: vals_def)
qed (simp add: vals_def)

lemma bt_link_fails: "h_malloc (snd st) (h_calls (snd st)) (h_cells (snd st)) = None \<Longrightarrow>
    bt_link s v st = Inl Null_Deref"
  by (simp add: bt_link_def halloc_def hstore_def)

lemma bt_link_result:
  assumes "h_malloc (snd st) (h_calls (snd st)) (h_cells (snd st)) = Some a"
    and "s = S_Root \<or> (\<exists>b. (s = S_Left b \<or> s = S_Right b) \<and> b \<noteq> a \<and> h_cells (snd st) b \<noteq> None)"
  shows "bt_link s v st = Inr (if s = S_Root then Ptr a else fst st,
    (snd st)\<lparr>h_calls := Suc (h_calls (snd st)), h_cells := linked s a v (h_cells (snd st))\<rparr>)"
  using assms
  by (auto simp: bt_link_def halloc_def hstore_def slot_put_def linked_def new_node_def Let_def fun_upd_twist)

lemma linked_outside: "place s t v = Some s' \<Longrightarrow> c \<notin> insert a (addrs t) \<Longrightarrow> s = S_Root \<Longrightarrow>
    linked s' a v m c = m c"
  using place_in by (intro linked_other) fastforce+

text \<open>
  What a call \<open>binaryTree_insert(&root, v)\<close> makes of a state that represents \<open>t\<close>: nothing when
  the value is there, a NULL dereference when it is not and \<open>malloc\<close> fails, and otherwise a
  search tree with the value added in a fresh cell, every other cell of the heap as it was.
\<close>

definition inserted :: "bstate \<Rightarrow> atree \<Rightarrow> int set \<Rightarrow> bstate \<Rightarrow> atree \<Rightarrow> bool" where
  "inserted st t V st' t' \<longleftrightarrow> tree_rep st' t' \<and> bst (vals t') \<and> set_tree (vals t') = V \<union> set_tree (vals t)
     \<and> addrs t \<subseteq> addrs t' \<and> (\<forall>c. c \<notin> addrs t' \<longrightarrow> h_cells (snd st') c = h_cells (snd st) c)
     \<and> (\<forall>c \<in> addrs t' - addrs t. h_cells (snd st) c = None)"

lemma inserted_refl: "tree_rep st t \<Longrightarrow> bst (vals t) \<Longrightarrow> V \<subseteq> set_tree (vals t) \<Longrightarrow> inserted st t V st t"
  by (auto simp: inserted_def)

lemma inserted_trans:
  assumes "inserted st t V st1 t1" "inserted st1 t1 W st2 t2"
  shows "inserted st t (V \<union> W) st2 t2"
proof -
  note D = assms [unfolded inserted_def]
  have old: "h_cells (snd st) c = None" if c: "c \<in> addrs t2 - addrs t" for c
  proof (cases "c \<in> addrs t1")
    case True
    with c D show ?thesis by blast
  next
    case False
    with c D have "h_cells (snd st1) c = None" "h_cells (snd st1) c = h_cells (snd st) c" by blast+
    then show ?thesis by simp
  qed
  have "h_cells (snd st2) c = h_cells (snd st) c" if "c \<notin> addrs t2" for c
    using that D by (metis subsetD)
  with old D show ?thesis unfolding inserted_def by blast
qed

definition malloc_fails :: "binaryTree heap \<Rightarrow> bool" where
  "malloc_fails h \<longleftrightarrow> h_malloc h (h_calls h) (h_cells h) = None"

lemma insert_present:
  assumes "tree_rep st t" "bst (vals t)" "v \<in> set_tree (vals t)"
  shows "binaryTree_insert S_Root v st = Some (Inr st)"
  using assms insert_finds_place [of st "fst st" t S_Root v] place_None_iff [of t S_Root v]
  by (simp add: tree_rep_def slot_get_def)

lemma insert_new:
  assumes rep: "tree_rep st t" "bst (vals t)" and new: "v \<notin> set_tree (vals t)"
  shows "malloc_fails (snd st) \<Longrightarrow> binaryTree_insert S_Root v st = Some (Inl Null_Deref)"
    and "\<not> malloc_fails (snd st) \<Longrightarrow>
      \<exists>st' t'. binaryTree_insert S_Root v st = Some (Inr st') \<and> inserted st t {v} st' t'"
proof -
  let ?m = "h_cells (snd st)"
  have at: "tree_at ?m (fst st) t" "apart t" "heap_ok (snd st)" using rep by (simp_all add: tree_rep_def)
  obtain s where s: "place S_Root t v = Some s" using place_None_iff [OF rep(2), of S_Root v] new by auto
  have ins: "binaryTree_insert S_Root v st = Some (bt_link s v st)"
    using insert_finds_place [OF at(1), of S_Root v] s by (simp add: slot_get_def)
  show "malloc_fails (snd st) \<Longrightarrow> binaryTree_insert S_Root v st = Some (Inl Null_Deref)"
    by (simp add: ins malloc_fails_def bt_link_fails)
  assume "\<not> malloc_fails (snd st)"
  then obtain a where a: "h_malloc (snd st) (h_calls (snd st)) ?m = Some a"
    by (auto simp: malloc_fails_def)
  then have fresh: "?m a = None" using at(3) by (auto simp: heap_ok_def)
  then have out: "a \<notin> addrs t" using tree_at_live [OF at(1)] by blast
  have live: "s = S_Root \<or> (\<exists>b. (s = S_Left b \<or> s = S_Right b) \<and> b \<noteq> a \<and> ?m b \<noteq> None)"
    using place_in [OF s] tree_at_live [OF at(1)] out by blast
  let ?st = "(if s = S_Root then Ptr a else fst st,
    (snd st)\<lparr>h_calls := Suc (h_calls (snd st)), h_cells := linked s a v ?m\<rparr>)"
  have "tree_at (linked s a v ?m) (fst ?st) (tinsert a v t)"
  proof (cases "t = Leaf")
    case True
    with s show ?thesis by (simp add: linked_def)
  next
    case False
    then have "s \<noteq> S_Root" using place_in [OF s] by auto
    then show ?thesis using linked_tree [OF at(1,2) out s False] by simp
  qed
  then have "inserted st t {v} ?st (tinsert a v t)"
    using tinsert_vals [OF rep(2), of a v] tinsert_addrs [of S_Root t v a] tinsert_apart [of S_Root t v a]
      linked_outside [OF s, of _ a] s out at fresh
    by (auto simp: inserted_def tree_rep_def)
  then show "\<exists>st' t'. binaryTree_insert S_Root v st = Some (Inr st') \<and> inserted st t {v} st' t'"
    unfolding ins bt_link_result [OF a live] by blast
qed

section \<open>Deletion\<close>

lemma delete_frees:
  assumes "tree_at (h_cells h) p t" "apart t"
  shows "binaryTree_delete p h = Some (Inr (h\<lparr>h_cells := (\<lambda>a. if a \<in> addrs t then None else h_cells h a)\<rparr>))"
  using assms
proof (induction t arbitrary: p h)
  case Leaf
  then show ?case by (subst binaryTree_delete.simps) simp
next
  case (Node l ax r)
  obtain a x where ax: "ax = (a, x)" by (cases ax)
  with Node.prems obtain n where n: "p = Ptr a" "h_cells h a = Some n"
    "tree_at (h_cells h) (bt_left n) l" "tree_at (h_cells h) (bt_right n) r" by auto
  have ap: "a \<notin> addrs l" "a \<notin> addrs r" "addrs l \<inter> addrs r = {}" "apart l" "apart r"
    using Node.prems by (auto simp: ax)
  let ?h = "h\<lparr>h_cells := (\<lambda>a. if a \<in> addrs l then None else h_cells h a)\<rparr>"
  have right: "tree_at (h_cells ?h) (bt_right n) r"
    by (rule tree_at_cong [OF _ n(4)]) (use ap in auto)
  have "h_cells ?h a = Some n" using n ap by simp
  then have *: "hload ?h p = Inr n" by (simp add: n hload_ok)
  have "binaryTree_delete p h = Some (hfree (?h\<lparr>h_cells := (\<lambda>a. if a \<in> addrs r then None else h_cells ?h a)\<rparr>) p)"
    using Node.IH(1) [OF n(3) ap(4)] Node.IH(2) [OF right ap(5)] n(1,2) *
    by (subst binaryTree_delete.simps) (simp add: hload_ok)
  also have "\<dots> = Some (Inr (h\<lparr>h_cells := (\<lambda>b. if b \<in> addrs (Node l ax r) then None else h_cells h b)\<rparr>))"
    using n ap by (auto simp: ax hfree_def fun_eq_iff)
  finally show ?case .
qed

section \<open>The tree as a whole\<close>

fun insert_all :: "int list \<Rightarrow> bstate \<Rightarrow> bstate cres option" where
  "insert_all [] st = Some (Inr st)"
| "insert_all (v # vs) st = obind (binaryTree_insert S_Root v st) (insert_all vs)"

lemma insert_outcome:
  assumes "tree_rep st t" "bst (vals t)"
  obtains (Fault) "binaryTree_insert S_Root v st = Some (Inl Null_Deref)"
      "v \<notin> set_tree (vals t)" "malloc_fails (snd st)"
    | (Ok) st' t' where "binaryTree_insert S_Root v st = Some (Inr st')" "inserted st t {v} st' t'"
      "v \<in> set_tree (vals t) \<Longrightarrow> st' = st"
proof (cases "v \<in> set_tree (vals t)")
  case True
  then show ?thesis using insert_present [OF assms True] inserted_refl [OF assms, of "{v}"] Ok by simp
next
  case False
  then show ?thesis using insert_new [OF assms False] Fault Ok by blast
qed

lemma insert_all_outcome:
  assumes "tree_rep st t" "bst (vals t)"
  shows "insert_all vs st = Some (Inl Null_Deref)
    \<or> (\<exists>st' t'. insert_all vs st = Some (Inr st') \<and> inserted st t (set vs) st' t')"
  using assms
proof (induction vs arbitrary: st t)
  case Nil
  then show ?case using inserted_refl [of st t "{}"] by auto
next
  case (Cons v vs)
  show ?case
  using Cons.prems proof (cases rule: insert_outcome [of st t v, case_names Fault Ok])
    case Fault
    then show ?thesis by simp
  next
    case (Ok st1 t1)
    then have "tree_rep st1 t1" "bst (vals t1)" by (simp_all add: inserted_def)
    with Cons.IH Ok inserted_trans [OF Ok(2)] show ?thesis by fastforce
  qed
qed

lemma inorder_sorted_set: "bst (t :: int tree) \<Longrightarrow> inorder t = sorted_list_of_set (set_tree t)"
  by (metis bst_iff_sorted_wrt_less set_inorder sorted_list_of_set.idem_if_sorted_distinct strict_sorted_iff)

lemma empty_rep: "heap_ok h \<Longrightarrow> tree_rep (NULL, h) Leaf"
  by (simp add: tree_rep_def)

lemma vals_Leaf: "bst (vals Leaf)"
  by (simp add: vals_def)

text \<open>
  C35. Insertion refines insertion into a set: on a heap that holds a search tree, the call
  returns; it faults only by storing through the NULL that \<open>malloc\<close> gave for a new value;
  otherwise the heap holds a search tree of the old values and the new one, an existing value
  changes nothing, and a new one takes one cell that was free, no other cell being touched.
\<close>

theorem binaryTree_insert_refines:
  assumes "tree_rep st t" and "bst (vals t)"
  shows "case binaryTree_insert S_Root v st of
      None \<Rightarrow> False
    | Some (Inl f) \<Rightarrow> f = Null_Deref \<and> v \<notin> set_tree (vals t) \<and> malloc_fails (snd st)
    | Some (Inr st') \<Rightarrow> (if v \<in> set_tree (vals t) then st' = st else \<exists>t'. inserted st t {v} st' t')"
  by (cases rule: insert_outcome [OF assms, of v]) auto

theorem binaryTree_insert_refines_witness:
  "case binaryTree_insert S_Root 5 (NULL, bump_heap) of
      None \<Rightarrow> False
    | Some (Inl f) \<Rightarrow> f = Null_Deref \<and> malloc_fails (bump_heap :: binaryTree heap)
    | Some (Inr st') \<Rightarrow> (\<exists>t'. inserted (NULL, bump_heap) Leaf {5} st' t')"
  using binaryTree_insert_refines [OF empty_rep [OF heap_ok_bump] vals_Leaf, of 5]
  by (auto simp: vals_def split: option.splits sum.splits)

text \<open>
  The life of a tree: after any sequence of insertions into an empty tree, unless
  \<open>malloc\<close> has failed, the inorder traversal prints the distinct values in ascending order,
  and \<open>binaryTree_delete\<close> returns and leaves exactly the blocks that were live before the first
  insertion, so that no node is leaked and none is freed or read after it was freed.
\<close>

theorem bitree_lifecycle:
  assumes "heap_ok h"
  shows "case insert_all vs (NULL, h) of
      None \<Rightarrow> False
    | Some (Inl f) \<Rightarrow> f = Null_Deref
    | Some (Inr st) \<Rightarrow> inorder_out (fst st) (snd st) = Some (Inr (sorted_list_of_set (set vs)))
        \<and> (\<exists>h'. binaryTree_delete (fst st) (snd st) = Some (Inr h') \<and> h_cells h' = h_cells h)"
  using insert_all_outcome [OF empty_rep [OF assms] vals_Leaf, of vs]
proof (elim disjE exE conjE)
  fix st t assume run: "insert_all vs (NULL, h) = Some (Inr st)" and ins: "inserted (NULL, h) Leaf (set vs) st t"
  then have t: "tree_at (h_cells (snd st)) (fst st) t" "apart t" "bst (vals t)" "set_tree (vals t) = set vs"
    and cells: "\<And>c. (if c \<in> addrs t then None else h_cells (snd st) c) = h_cells h c"
    by (auto simp: inserted_def tree_rep_def vals_def)
  show ?thesis
    using traversals(1) [OF t(1)] delete_frees [OF t(1,2)] inorder_sorted_set [OF t(3)] cells
    by (simp add: run t(4) fun_eq_iff)
qed (simp add: vals_def)

lemma four_inserts:
  "\<exists>st. insert_all [9, 4, 15, 4] (NULL, bump_heap) = Some (Inr st)"
  by (simp add: binaryTree_insert.simps slot_get_def slot_put_def bt_link_def halloc_def hstore_def
      hload_def new_node_def bump_heap_def)

theorem bitree_lifecycle_witness:
  "\<exists>st h'. insert_all [9, 4, 15, 4] (NULL, bump_heap) = Some (Inr st)
    \<and> inorder_out (fst st) (snd st) = Some (Inr [4, 9, 15])
    \<and> binaryTree_delete (fst st) (snd st) = Some (Inr h') \<and> h_cells h' = (\<lambda>_. None)"
proof -
  have "sorted_list_of_set {9, 4, 15 :: int} = [4, 9, 15]"
    by (simp add: sorted_list_of_set_insert_remove insert_Diff_if)
  moreover obtain st where "insert_all [9, 4, 15, 4] (NULL, bump_heap) = Some (Inr st)"
    using four_inserts by blast
  ultimately show ?thesis
    using bitree_lifecycle [OF heap_ok_bump, of "[9, 4, 15, 4]"]
    by (simp add: insert_commute) (simp add: bump_heap_def)
qed

end
