(* ===== verification/EpollClients.thy ===== *)
theory EpollClients
  imports Streams
begin

text \<open>
  The client side of the epoll server: the list of clients of
  \<open>IOModels/epoll/epollTcpServer/src/op_epoll.c\<close>, its reads and writes, which take a client
  off the list when it is gone, and the handler of \<open>test/test.c\<close> that echoes a message and
  greets every client on the list.
\<close>

section \<open>The list of clients\<close>

definition MAX_CONNECT :: nat where "MAX_CONNECT = 256"

record clientmember =
  cm_fd :: int
  cm_ip :: string

record clilist_t =
  cl_list :: "clientmember list"
  cl_tail :: int

definition zero_member :: clientmember where
  "zero_member = \<lparr>cm_fd = 0, cm_ip = []\<rparr>"

definition empty_clilist :: clilist_t where
  "empty_clilist = \<lparr>cl_list = replicate MAX_CONNECT zero_member, cl_tail = 0\<rparr>"

definition add_clilist :: "clientmember \<Rightarrow> clilist_t \<Rightarrow> clilist_t cres" where
  "add_clilist cli cl = cbind (aset (cl_list cl) (cl_tail cl) cli) (\<lambda>xs.
     Inr \<lparr>cl_list = xs, cl_tail = cl_tail cl + 1\<rparr>)"

text \<open>The two loops of \<open>del_clilist\<close>: over \<open>j\<close>, and over \<open>i\<close>.\<close>

function shift_down :: "int \<Rightarrow> int \<Rightarrow> clientmember list \<Rightarrow> clientmember list cres" where
  "shift_down j n xs = (if j < n - 1
     then cbind (aget xs (j + 1)) (\<lambda>v. cbind (aset xs j v) (shift_down (j + 1) n)) else Inr xs)"
  by auto
termination by (relation "measure (\<lambda>(j, n, xs). nat (n - 1 - j))") auto

function del_scan :: "int \<Rightarrow> int \<Rightarrow> int \<Rightarrow> clientmember list \<Rightarrow> clientmember list cres" where
  "del_scan i n fd xs = (if i < n
     then cbind (aget xs i) (\<lambda>c.
          if cm_fd c = fd then cbind (shift_down i n xs) (del_scan (i + 1) n fd)
          else del_scan (i + 1) n fd xs)
     else Inr xs)"
  by auto
termination by (relation "measure (\<lambda>(i, n, fd, xs). nat (n - i))") auto

definition del_clilist :: "clientmember \<Rightarrow> clilist_t \<Rightarrow> clilist_t cres" where
  "del_clilist cli cl = cbind (del_scan 0 (cl_tail cl) (cm_fd cli) (cl_list cl)) (\<lambda>xs.
     Inr \<lparr>cl_list = xs, cl_tail = cl_tail cl - 1\<rparr>)"

declare shift_down.simps [simp del] del_scan.simps [simp del]

section \<open>What the list holds\<close>

definition clients :: "clilist_t \<Rightarrow> clientmember list" where
  "clients cl = take (nat (cl_tail cl)) (cl_list cl)"

definition clilist_ok :: "clilist_t \<Rightarrow> bool" where
  "clilist_ok cl \<longleftrightarrow> length (cl_list cl) = MAX_CONNECT \<and> 0 \<le> cl_tail cl \<and> cl_tail cl \<le> int MAX_CONNECT"

lemma length_clients: "clilist_ok cl \<Longrightarrow> int (length (clients cl)) = cl_tail cl"
  by (auto simp: clilist_ok_def clients_def)

lemma add_clilist_room:
  assumes "clilist_ok cl" "length (clients cl) < MAX_CONNECT"
  shows "\<exists>cl'. add_clilist c cl = Inr cl' \<and> clilist_ok cl' \<and> clients cl' = clients cl @ [c]"
proof -
  let ?n = "nat (cl_tail cl)"
  have n: "0 \<le> cl_tail cl" "?n < length (cl_list cl)" using assms length_clients [OF assms(1)]
    by (simp_all add: clilist_ok_def)
  then have "take (Suc ?n) ((cl_list cl)[?n := c]) = take ?n (cl_list cl) @ [c]"
    by (simp add: take_Suc_conv_app_nth)
  with n assms show ?thesis
    by (auto simp: add_clilist_def aset_ok clilist_ok_def clients_def nat_add_distrib)
qed

lemma add_clilist_full:
  assumes "clilist_ok cl" "length (clients cl) = MAX_CONNECT"
  shows "add_clilist c cl = Inl Out_Of_Bounds"
  using assms length_clients [OF assms(1)] by (simp add: add_clilist_def aset_def clilist_ok_def)

text \<open>Shifting from \<open>i\<close> removes the entry there; the last entry stays in place twice.\<close>

lemma shift_down_eq:
  "shift_down (int i) (int t) xs = Inr (if Suc i < t then take i xs @ take (t - Suc i) (drop (Suc i) xs) @ drop (t - 1) xs else xs)"
  if "i \<le> t" "t \<le> length xs"
  using that
proof (induction "t - i" arbitrary: i xs)
  case 0
  then show ?case by (simp add: shift_down.simps)
next
  case (Suc d)
  show ?case
  proof (cases "Suc i < t")
    case False
    then show ?thesis by (simp add: shift_down.simps)
  next
    case True
    let ?xs = "xs[i := xs ! Suc i]"
    have step: "shift_down (int i) (int t) xs = shift_down (int (Suc i)) (int t) ?xs"
      using True Suc.prems
      by (subst shift_down.simps) (simp add: aget_def aset_def nat_add_distrib add.commute)
    have "shift_down (int (Suc i)) (int t) ?xs = Inr (if Suc (Suc i) < t
        then take (Suc i) ?xs @ take (t - Suc (Suc i)) (drop (Suc (Suc i)) ?xs) @ drop (t - 1) ?xs else ?xs)"
      using Suc.hyps(1) [of "Suc i" ?xs] Suc.hyps(2) Suc.prems True by simp
    also have "\<dots> = Inr (take i xs @ take (t - Suc i) (drop (Suc i) xs) @ drop (t - 1) xs)"
    proof (cases "Suc (Suc i) < t")
      case True
      have "take (Suc i) ?xs = take i xs @ [xs ! Suc i]"
        using Suc.prems \<open>Suc i < t\<close> by (simp add: take_Suc_conv_app_nth)
      moreover have "take (t - Suc i) (drop (Suc i) xs) = xs ! Suc i # take (t - Suc (Suc i)) (drop (Suc (Suc i)) xs)"
        using Suc.prems True by (subst drop_take_Suc) (auto simp: take_Cons' simp del: drop_Suc)
      ultimately show ?thesis using True by simp
    next
      case False
      then have t: "t = Suc (Suc i)" using \<open>Suc i < t\<close> by simp
      have "?xs = take i xs @ xs ! Suc i # drop (Suc i) xs"
        using Suc.prems t by (simp add: upd_conv_take_nth_drop)
      moreover have "take (Suc 0) (drop (Suc i) xs) = [xs ! Suc i]"
        using Suc.prems t by (simp add: take_Suc hd_drop_conv_nth)
      ultimately show ?thesis by (simp add: t)
    qed
    finally show ?thesis using True step by simp
  qed
qed

lemma del_scan_skip:
  assumes "\<And>j. i \<le> j \<Longrightarrow> j < k \<Longrightarrow> cm_fd (xs ! j) \<noteq> fd" "i \<le> k" "k \<le> t" "t \<le> length xs"
  shows "del_scan (int i) (int t) fd xs = del_scan (int k) (int t) fd xs"
  using assms
proof (induction "k - i" arbitrary: i)
  case 0
  then show ?case by simp
next
  case (Suc d)
  have "i < t" using Suc.hyps(2) Suc.prems by linarith
  then have "del_scan (int i) (int t) fd xs = del_scan (int (Suc i)) (int t) fd xs"
    using Suc.hyps(2) Suc.prems by (subst del_scan.simps) (simp add: aget_def add.commute)
  moreover have "del_scan (int (Suc i)) (int t) fd xs = del_scan (int k) (int t) fd xs"
    using Suc.hyps(2) Suc.prems by (intro Suc.hyps(1)) auto
  ultimately show ?case by simp
qed

lemma del_scan_end: "del_scan (int t) (int t) fd xs = Inr xs"
  by (simp add: del_scan.simps)

lemma del_scan_present:
  assumes dist: "distinct (map cm_fd (take t xs))" and t: "t \<le> length xs"
    and k: "k < t" "cm_fd (xs ! k) = fd"
  shows "\<exists>ys. del_scan 0 (int t) fd xs = Inr ys \<and> length ys = length xs
    \<and> take (t - 1) ys = filter (\<lambda>m. cm_fd m \<noteq> fd) (take t xs)"
proof -
  define rest where "rest = take (t - Suc k) (drop (Suc k) xs)"
  have split: "take t xs = take k xs @ xs ! k # rest"
    using k(1) t id_take_nth_drop [of k "take t xs"] by (simp add: rest_def min_def drop_take)
  have "cm_fd (xs ! k) \<notin> cm_fd ` (set (take k xs) \<union> set rest)"
    using dist unfolding split by (simp add: image_Un)
  then have others: "\<forall>m\<in>set (take k xs) \<union> set rest. cm_fd m \<noteq> fd"
    using k(2) by blast
  have other: "cm_fd (xs ! j) \<noteq> fd" if "j < t" "j \<noteq> k" for j
    using that dist k t by (auto simp: distinct_conv_nth) 
  let ?ys = "if Suc k < t then take k xs @ rest @ drop (t - 1) xs else xs"
  have len: "length ?ys = length xs" using k t by (simp add: rest_def)
  have "del_scan 0 (int t) fd xs = del_scan (int k) (int t) fd xs"
    using del_scan_skip [of 0 k xs fd t] other k t by simp
  also have "\<dots> = del_scan (int (Suc k)) (int t) fd ?ys"
    using k t shift_down_eq [of k t xs]
    by (subst del_scan.simps) (simp add: aget_def add.commute rest_def)
  also have "\<dots> = Inr ?ys"
  proof -
    have "cm_fd (?ys ! j) \<noteq> fd" if "Suc k \<le> j" "j < t" for j
    proof -
      have less: "Suc k < t" using that by simp
      have "?ys ! j = (if j < t - 1 then rest ! (j - k) else xs ! (t - 1))"
        using that k t less by (auto simp: nth_append rest_def)
      also have "\<dots> = xs ! (if j < t - 1 then Suc j else t - 1)"
        using that k t by (auto simp: rest_def)
      finally show ?thesis using other [of "Suc j"] other [of "t - 1"] that less by auto
    qed
    then show ?thesis
      using del_scan_skip [of "Suc k" t ?ys fd t] del_scan_end [of t fd ?ys] len k t by simp
  qed
  finally have run: "del_scan 0 (int t) fd xs = Inr ?ys" .
  have "take (t - 1) ?ys = take k xs @ rest"
  proof (cases "Suc k < t")
    case True
    moreover have "length (take k xs @ rest) = t - 1" using k t True by (simp add: rest_def)
    ultimately show ?thesis by simp
  next
    case False
    then have "t = Suc k" using k(1) by simp
    then show ?thesis by (simp add: rest_def)
  qed
  also have "\<dots> = filter (\<lambda>m. cm_fd m \<noteq> fd) (take t xs)"
    using others k by (simp add: split filter_id_conv)
  finally show ?thesis using run len by (intro exI [of _ ?ys]) simp
qed

lemma del_scan_absent:
  "fd \<notin> cm_fd ` set (take t xs) \<Longrightarrow> t \<le> length xs \<Longrightarrow> del_scan 0 (int t) fd xs = Inr xs"
  using del_scan_skip [of 0 t xs fd t] del_scan_end [of t fd xs]
  by (force simp: in_set_conv_nth image_iff)

lemma del_clilist_present:
  assumes ok: "clilist_ok cl" "distinct (map cm_fd (clients cl))" and "cm_fd c \<in> cm_fd ` set (clients cl)"
  shows "\<exists>cl'. del_clilist c cl = Inr cl' \<and> clilist_ok cl' \<and>
    clients cl' = filter (\<lambda>m. cm_fd m \<noteq> cm_fd c) (clients cl)"
proof -
  define t where "t = nat (cl_tail cl)"
  have t: "cl_tail cl = int t" "t \<le> length (cl_list cl)" using ok(1) by (auto simp: t_def clilist_ok_def)
  obtain k where k: "k < t" "cm_fd (cl_list cl ! k) = cm_fd c"
    using assms(3) t(2) by (auto simp: clients_def in_set_conv_nth simp flip: t_def)
  from del_scan_present [OF _ t(2) k] ok(2) obtain ys where
    "del_scan 0 (int t) (cm_fd c) (cl_list cl) = Inr ys" "length ys = length (cl_list cl)"
    "take (t - 1) ys = filter (\<lambda>m. cm_fd m \<noteq> cm_fd c) (take t (cl_list cl))"
    by (auto simp: clients_def simp flip: t_def)
  then show ?thesis using ok(1) t k
    by (auto simp: del_clilist_def clilist_ok_def clients_def nat_diff_distrib)
qed

lemma del_clilist_absent:
  assumes ok: "clilist_ok cl" and "cm_fd c \<notin> cm_fd ` set (clients cl)"
  shows "del_clilist c cl = Inr (cl\<lparr>cl_tail := cl_tail cl - 1\<rparr>)"
  using del_scan_absent [of "cm_fd c" "nat (cl_tail cl)" "cl_list cl"] assms
  by (auto simp: del_clilist_def clients_def clilist_ok_def)

section \<open>Reading and writing\<close>

text \<open>
  The state the handler works on: the list of clients, the descriptors in the epoll set, what
  each descriptor will deliver and take, and the numbers the handler prints. No function of the
  server closes a descriptor.
\<close>

record conns =
  co_clilist :: clilist_t
  co_watched :: "int list"
  co_in :: "int \<Rightarrow> fdin"
  co_out :: "int \<Rightarrow> fdout"
  co_log :: "int list"

definition op_add_event :: "int \<Rightarrow> conns \<Rightarrow> conns" where
  "op_add_event fd st = (if fd \<in> set (co_watched st) then st else st\<lparr>co_watched := fd # co_watched st\<rparr>)"

definition op_delete_event :: "int \<Rightarrow> conns \<Rightarrow> conns" where
  "op_delete_event fd st = st\<lparr>co_watched := removeAll fd (co_watched st)\<rparr>"

definition drop_client :: "int \<Rightarrow> conns \<Rightarrow> conns cres" where
  "drop_client fd st = (let st = op_delete_event fd st in
     cbind (del_clilist \<lparr>cm_fd = fd, cm_ip = []\<rparr> (co_clilist st)) (\<lambda>cl. Inr (st\<lparr>co_clilist := cl\<rparr>)))"

text \<open>
  The results of \<open>op_read\<close> and \<open>op_write\<close>: \<open>-1\<close> when the call would block, \<open>-2\<close> when the
  client is taken to have gone, \<open>-3\<close> for any other error, and else the number of bytes.
\<close>

definition op_read :: "int \<Rightarrow> byte list \<Rightarrow> nat \<Rightarrow> conns \<Rightarrow> (int \<times> byte list \<times> conns) cres" where
  "op_read fd buf cnt st =
     (let (r, s) = sys_read cnt (co_in st fd); st = st\<lparr>co_in := (co_in st)(fd := s)\<rparr>
      in case r of
        Inl e \<Rightarrow> if e = EAGAIN then Inr (-1, buf, st)
                 else cbind (drop_client fd st) (\<lambda>st. Inr (-3, buf, st))
      | Inr [] \<Rightarrow> cbind (drop_client fd st) (\<lambda>st. Inr (-2, buf, st))
      | Inr got \<Rightarrow> cbind (mput buf 0 got) (\<lambda>buf. Inr (int (length got), buf, st)))"

definition op_write :: "int \<Rightarrow> byte list \<Rightarrow> conns \<Rightarrow> (int \<times> conns) cres" where
  "op_write fd bs st =
     (let (r, out) = sys_write bs (co_out st fd); st = st\<lparr>co_out := (co_out st)(fd := out)\<rparr>
      in case r of
        Inl e \<Rightarrow> if e = EAGAIN then Inr (-1, st)
                 else cbind (drop_client fd st) (\<lambda>st. Inr (-3, st))
      | Inr n \<Rightarrow> if n = 0 then cbind (drop_client fd st) (\<lambda>st. Inr (-2, st))
                 else Inr (int n, st))"

section \<open>The handler\<close>

text \<open>\<open>strlen\<close> on a buffer runs off its end when the buffer holds no zero byte.\<close>

definition strlen :: "byte list \<Rightarrow> nat cres" where
  "strlen buf = (if 0 \<in> set buf then Inr (length (takeWhile (\<lambda>b. b \<noteq> 0) buf)) else Inl Out_Of_Bounds)"

definition helloworld :: "byte list" where
  "helloworld = [104, 101, 108, 108, 111, 119, 111, 114, 108, 100]"

lemma del_clilist_tail: "del_clilist c cl = Inr cl' \<Longrightarrow> cl_tail cl' = cl_tail cl - 1"
  by (auto simp: del_clilist_def)

lemma drop_client_tail: "drop_client fd st = Inr st' \<Longrightarrow> cl_tail (co_clilist st') = cl_tail (co_clilist st) - 1"
  by (auto simp: drop_client_def op_delete_event_def Let_def dest: del_clilist_tail)

lemma op_write_tail: "op_write fd bs st = Inr (r, st') \<Longrightarrow> cl_tail (co_clilist st') \<le> cl_tail (co_clilist st)"
  by (auto simp: op_write_def Let_def dest!: drop_client_tail split: prod.splits sum.splits if_splits)

text \<open>The loop over the list, whose bound is read again in every round; deletions only lower it.\<close>

function greet :: "int \<Rightarrow> conns \<Rightarrow> conns cres" where
  "greet i st =
     (if i < cl_tail (co_clilist st)
      then cbind (aget (cl_list (co_clilist st)) i) (\<lambda>c.
           cbind (op_write (cm_fd c) helloworld st) (\<lambda>r. greet (i + 1) (snd r)))
      else Inr st)"
  by auto
termination
proof (relation "measure (\<lambda>(i, st). nat (cl_tail (co_clilist st) - i))", goal_cases)
  case 1
  show ?case by simp
next
  case (2 i st c r)
  then show ?case using op_write_tail [of "cm_fd c" helloworld st "fst r" "snd r"] by simp
qed

declare greet.simps [simp del]

definition handle :: "int \<Rightarrow> conns \<Rightarrow> conns cres" where
  "handle fd st =
     cbind (op_read fd (replicate 255 0) 255 st) (\<lambda>(n, line, st).
     if n < -1 then Inr st
     else cbind (strlen line) (\<lambda>len. cbind (op_write fd (take len line) st) (\<lambda>(n, st).
     if n < -1 then Inr st
     else cbind (greet 0 st) (\<lambda>st. Inr (st\<lparr>co_log := co_log st @ [cl_tail (co_clilist st)]\<rparr>)))))"

section \<open>The greeting\<close>

abbreviation members :: "conns \<Rightarrow> clientmember list" where
  "members st \<equiv> clients (co_clilist st)"

definition conns_ok :: "conns \<Rightarrow> bool" where
  "conns_ok st \<longleftrightarrow> clilist_ok (co_clilist st) \<and> distinct (map cm_fd (members st))"

text \<open>Whether a write to a descriptor makes the server drop the client.\<close>

definition write_drops :: "byte list \<Rightarrow> fdout \<Rightarrow> bool" where
  "write_drops bs out = (case fst (sys_write bs out) of Inl e \<Rightarrow> e \<noteq> EAGAIN | Inr n \<Rightarrow> n = 0)"

lemma drop_client_member:
  assumes "conns_ok st" "fd \<in> cm_fd ` set (members st)"
  shows "\<exists>cl. drop_client fd st = Inr (st\<lparr>co_watched := removeAll fd (co_watched st), co_clilist := cl\<rparr>)
    \<and> clilist_ok cl \<and> clients cl = filter (\<lambda>m. cm_fd m \<noteq> fd) (members st) \<and> distinct (map cm_fd (clients cl))"
  using del_clilist_present [of "co_clilist st" "\<lparr>cm_fd = fd, cm_ip = []\<rparr>"] assms
  by (auto simp: drop_client_def op_delete_event_def Let_def conns_ok_def distinct_map_filter)

lemma op_write_member:
  assumes "conns_ok st" "fd \<in> cm_fd ` set (members st)"
  shows "\<exists>r st'. op_write fd bs st = Inr (r, st') \<and> conns_ok st'
    \<and> members st' = (if write_drops bs (co_out st fd) then filter (\<lambda>m. cm_fd m \<noteq> fd) (members st) else members st)
    \<and> co_watched st' = (if write_drops bs (co_out st fd) then removeAll fd (co_watched st) else co_watched st)
    \<and> co_out st' = (co_out st)(fd := snd (sys_write bs (co_out st fd)))
    \<and> co_in st' = co_in st \<and> co_log st' = co_log st \<and> (r < -1 \<longleftrightarrow> write_drops bs (co_out st fd))"
proof -
  obtain w out where sys: "sys_write bs (co_out st fd) = (w, out)" by force
  let ?st = "st\<lparr>co_out := (co_out st)(fd := out)\<rparr>"
  obtain cl where cl: "drop_client fd ?st = Inr (?st\<lparr>co_watched := removeAll fd (co_watched st), co_clilist := cl\<rparr>)"
    "clilist_ok cl" "clients cl = filter (\<lambda>m. cm_fd m \<noteq> fd) (members st)" "distinct (map cm_fd (clients cl))"
    using drop_client_member [of ?st fd] assms by (auto simp: conns_ok_def)
  show ?thesis
    using assms cl by (cases w) (auto simp: op_write_def Let_def sys write_drops_def conns_ok_def)
qed

text \<open>
  The clients one greeting visits: after a client that is dropped, the next one on the list is
  passed over, because it has moved into the place just left.
\<close>

function visited :: "(int \<Rightarrow> bool) \<Rightarrow> clientmember list \<Rightarrow> clientmember list" where
  "visited gone [] = []"
| "visited gone (c # cs) = c # visited gone (if gone (cm_fd c) then tl cs else cs)"
  by pat_completeness auto
termination by (relation "measure (\<lambda>(_, cs). length cs)") auto

lemma set_tl_sub: "x \<in> set (tl xs) \<Longrightarrow> x \<in> set xs"
  by (cases xs) simp_all

lemma visited_sub: "set (visited gone cs) \<subseteq> set cs"
  by (induction gone cs rule: visited.induct) (auto split: if_splits dest: set_tl_sub)

lemma visited_cong: "(\<And>c. c \<in> set cs \<Longrightarrow> g (cm_fd c) = h (cm_fd c)) \<Longrightarrow> visited g cs = visited h cs"
proof (induction g cs rule: visited.induct)
  case (2 g c cs)
  have "visited g (if g (cm_fd c) then tl cs else cs) = visited h (if g (cm_fd c) then tl cs else cs)"
    using 2 by (intro 2(1)) (auto split: if_splits dest: set_tl_sub)
  with 2(2) [of c] show ?case by simp
qed simp

lemma visited_all: "(\<And>c. c \<in> set cs \<Longrightarrow> \<not> g (cm_fd c)) \<Longrightarrow> visited g cs = cs"
  by (induction cs) auto

definition greeted :: "conns \<Rightarrow> nat \<Rightarrow> clientmember list" where
  "greeted st i = visited (\<lambda>fd. write_drops helloworld (co_out st fd)) (drop i (members st))"

lemma filter_neq_id: "y \<notin> f ` set xs \<Longrightarrow> filter (\<lambda>m. f m \<noteq> y) xs = xs"
  by (induction xs) auto

lemma greeted_step:
  assumes ok: "conns_ok st" and i: "i < length (members st)" and c: "members st ! i = c"
    and st1: "members st1 = (if write_drops helloworld (co_out st (cm_fd c))
        then filter (\<lambda>m. cm_fd m \<noteq> cm_fd c) (members st) else members st)"
      "co_out st1 = (co_out st)(cm_fd c := out)"
  shows "greeted st i = c # greeted st1 (Suc i)"
    and "c \<notin> set (greeted st1 (Suc i))" and "set (greeted st1 (Suc i)) \<subseteq> set (members st)"
    and "length (members st1) \<le> length (members st)"
    and "\<forall>m\<in>set (greeted st1 (Suc i)). cm_fd m \<noteq> cm_fd c"
proof -
  let ?g = "\<lambda>fd. write_drops helloworld (co_out st fd)"
  let ?rest = "drop (Suc i) (members st)"
  have split: "members st = take i (members st) @ c # ?rest"
    using i c id_take_nth_drop by blast
  then have "map cm_fd (members st) = map cm_fd (take i (members st)) @ cm_fd c # map cm_fd ?rest"
    by (metis list.map(2) map_append)
  with ok have dist: "cm_fd c \<notin> cm_fd ` set (take i (members st))" "cm_fd c \<notin> cm_fd ` set ?rest"
    by (auto simp: conns_ok_def)
  note keep = dist [THEN filter_neq_id]
  have gone: "filter (\<lambda>m. cm_fd m \<noteq> cm_fd c) (members st) = take i (members st) @ ?rest"
    by (subst split) (simp add: keep)
  have rest: "cm_fd m \<noteq> cm_fd c" if "m \<in> set ?rest" for m
    using that dist(2) by (metis imageI)
  have "drop (Suc i) (take i xs @ ys) = tl ys" if "i < length xs" for xs ys :: "clientmember list"
    using that by (cases ys) simp_all
  with gone have tail: "drop (Suc i) (members st1) = (if ?g (cm_fd c) then tl ?rest else ?rest)"
    using i by (simp only: st1(1) split: if_splits) simp
  have "visited (\<lambda>fd. write_drops helloworld (co_out st1 fd)) (drop (Suc i) (members st1))
      = visited ?g (drop (Suc i) (members st1))"
    using rest by (intro visited_cong) (auto simp: st1(2) tail split: if_splits dest: set_tl_sub)
  then have eq: "greeted st1 (Suc i) = visited ?g (if ?g (cm_fd c) then tl ?rest else ?rest)"
    by (simp add: greeted_def tail)
  show "greeted st i = c # greeted st1 (Suc i)"
    unfolding eq using i c by (simp add: greeted_def flip: Cons_nth_drop_Suc)
  have sub: "set (greeted st1 (Suc i)) \<subseteq> set ?rest"
    using visited_sub [of ?g "if ?g (cm_fd c) then tl ?rest else ?rest"]
    unfolding eq by (auto split: if_splits intro: set_tl_sub)
  then show "set (greeted st1 (Suc i)) \<subseteq> set (members st)" by (meson order_trans set_drop_subset)
  show others: "\<forall>m\<in>set (greeted st1 (Suc i)). cm_fd m \<noteq> cm_fd c" using sub rest by blast
  then show "c \<notin> set (greeted st1 (Suc i))" by blast
  show "length (members st1) \<le> length (members st)" by (simp add: st1(1))
qed

definition greet_result :: "conns \<Rightarrow> clientmember list \<Rightarrow> conns \<Rightarrow> bool" where
  "greet_result st vs st' \<longleftrightarrow> conns_ok st' \<and> co_in st' = co_in st \<and> co_log st' = co_log st
     \<and> co_out st' = (\<lambda>fd. if fd \<in> cm_fd ` set vs then snd (sys_write helloworld (co_out st fd)) else co_out st fd)
     \<and> members st' = filter (\<lambda>m. \<not> (m \<in> set vs \<and> write_drops helloworld (co_out st (cm_fd m)))) (members st)"

lemma greet_exact:
  assumes "conns_ok st"
  shows "\<exists>st'. greet (int i) st = Inr st' \<and> greet_result st (greeted st i) st'"
  using assms
proof (induction "length (members st) - i" arbitrary: i st rule: less_induct)
  case less
  have len: "int (length (members st)) = cl_tail (co_clilist st)"
    using less.prems length_clients by (simp add: conns_ok_def)
  show ?case
  proof (cases "i < length (members st)")
    case False
    with len less.prems show ?thesis by (simp add: greet.simps greet_result_def greeted_def)
  next
    case True
    define c where "c = members st ! i"
    let ?fd = "cm_fd c"
    have mem: "c \<in> set (members st)" using True by (simp add: c_def)
    obtain r st1 where w: "op_write ?fd helloworld st = Inr (r, st1)" "conns_ok st1"
      "members st1 = (if write_drops helloworld (co_out st ?fd)
        then filter (\<lambda>m. cm_fd m \<noteq> ?fd) (members st) else members st)"
      "co_out st1 = (co_out st)(?fd := snd (sys_write helloworld (co_out st ?fd)))"
      "co_in st1 = co_in st" "co_log st1 = co_log st"
      using op_write_member [OF less.prems, of ?fd helloworld] mem by auto
    have get: "aget (cl_list (co_clilist st)) (int i) = Inr c"
      using True less.prems by (auto simp: aget_def c_def clients_def conns_ok_def)
    note g = greeted_step [OF less.prems True c_def [symmetric] w(3,4)]
    obtain st' where st': "greet (int (Suc i)) st1 = Inr st'" "greet_result st1 (greeted st1 (Suc i)) st'"
      using less.hyps [of st1 "Suc i", OF _ w(2)] g(4) True by fastforce
    have uniq: "x = c" if "x \<in> set (members st)" "cm_fd x = ?fd" for x
      using that mem less.prems unfolding conns_ok_def by (metis distinct_map inj_onD)
    have "greet (int i) st = Inr st'"
      using True len get w(1) st'(1) by (subst greet.simps) (simp add: add.commute)
    moreover have "greet_result st (greeted st i) st'"
      using st'(2) g(1,2,5) w mem unfolding greet_result_def
      by (auto simp: fun_eq_iff intro!: filter_cong dest: uniq)
    ultimately show ?thesis by blast
  qed
qed

section \<open>Properties\<close>

text \<open>
  \<open>del_clilist\<close> never faults on a list whose descriptors are distinct. It removes the
  member with the given descriptor when there is one. When there is none it removes the last
  member all the same, and on an empty list it leaves an index at which the next
  \<open>add_clilist\<close> stores outside the array.
\<close>

theorem del_clilist_outcome:
  assumes "clilist_ok cl" and "distinct (map cm_fd (clients cl))"
  shows "\<exists>cl'. del_clilist c cl = Inr cl' \<and>
    (if cm_fd c \<in> cm_fd ` set (clients cl)
     then clilist_ok cl' \<and> clients cl' = filter (\<lambda>m. cm_fd m \<noteq> cm_fd c) (clients cl)
     else if clients cl = [] then cl_tail cl' = -1 \<and> (\<forall>m. add_clilist m cl' = Inl Out_Of_Bounds)
     else clilist_ok cl' \<and> clients cl' = butlast (clients cl))"
proof (cases "cm_fd c \<in> cm_fd ` set (clients cl)")
  case True
  then show ?thesis using del_clilist_present [OF assms] by simp
next
  case False
  note tail = length_clients [OF assms(1)]
  have "clients (cl\<lparr>cl_tail := cl_tail cl - 1\<rparr>) = butlast (clients cl)"
    using assms(1) by (auto simp: clients_def butlast_take nat_diff_distrib' clilist_ok_def)
  moreover have "clients cl = [] \<longleftrightarrow> cl_tail cl = 0" using tail by (cases "clients cl") auto
  ultimately show ?thesis
    using False assms(1) del_clilist_absent [OF assms(1) False]
    by (simp add: clilist_ok_def add_clilist_def aset_def)
qed

definition two_clients :: clilist_t where
  "two_clients = \<lparr>cl_list = [\<lparr>cm_fd = 7, cm_ip = ''a''\<rparr>, \<lparr>cm_fd = 9, cm_ip = ''b''\<rparr>] @ replicate 254 zero_member,
     cl_tail = 2\<rparr>"

lemma two_clients_ok: "clilist_ok two_clients"
    "clients two_clients = [\<lparr>cm_fd = 7, cm_ip = ''a''\<rparr>, \<lparr>cm_fd = 9, cm_ip = ''b''\<rparr>]"
  by (simp_all add: clilist_ok_def two_clients_def MAX_CONNECT_def clients_def)

theorem del_clilist_outcome_witness:
  "\<exists>cl'. del_clilist \<lparr>cm_fd = 8, cm_ip = []\<rparr> two_clients = Inr cl' \<and> clients cl' = [\<lparr>cm_fd = 7, cm_ip = ''a''\<rparr>]"
  using del_clilist_outcome [of two_clients "\<lparr>cm_fd = 8, cm_ip = []\<rparr>"] two_clients_ok by auto

text \<open>
  One greeting, exactly: it visits the clients of the list in order, except that after a
  client whose write makes the server drop it, the next client is passed over; the visited
  clients are offered the message once, the others not at all, and the clients left on the list
  are those that were not dropped.
\<close>

theorem greet_visits:
  assumes "conns_ok st"
  shows "\<exists>st'. greet 0 st = Inr st' \<and>
    greet_result st (visited (\<lambda>fd. write_drops helloworld (co_out st fd)) (members st)) st'"
  using greet_exact [OF assms, of 0] by (simp add: greeted_def)

definition two_conns :: "(int \<Rightarrow> fdin) \<Rightarrow> (int \<Rightarrow> fdout) \<Rightarrow> conns" where
  "two_conns ins outs = \<lparr>co_clilist = two_clients, co_watched = [7, 9], co_in = ins, co_out = outs, co_log = []\<rparr>"

lemma two_conns_ok: "conns_ok (two_conns ins outs)"
  by (simp add: conns_ok_def two_conns_def two_clients_ok)

theorem greet_visits_witness:
  "\<exists>st'. greet 0 (two_conns (\<lambda>_. []) (\<lambda>fd. \<lparr>out_script = (if fd = 7 then [WErr EPIPE] else []), out_sent = []\<rparr>)) = Inr st' \<and>
    members st' = [\<lparr>cm_fd = 9, cm_ip = ''b''\<rparr>] \<and> out_sent (co_out st' 9) = []"
  using greet_visits [OF two_conns_ok, of "\<lambda>_. []" "\<lambda>fd. \<lparr>out_script = (if fd = 7 then [WErr EPIPE] else []), out_sent = []\<rparr>"]
  by (auto simp: greet_result_def two_conns_def two_clients_ok write_drops_def sys_write_def)

section \<open>One message\<close>

text \<open>What a handler makes of a message: the text before its first zero byte.\<close>

definition message :: "byte list \<Rightarrow> byte list" where
  "message got = takeWhile (\<lambda>b. b \<noteq> 0) got"

definition reply :: "int \<Rightarrow> byte list \<Rightarrow> conns \<Rightarrow> conns cres" where
  "reply fd msg st = cbind (op_write fd msg st) (\<lambda>(n, st). if n < -1 then Inr st
     else cbind (greet 0 st) (\<lambda>st. Inr (st\<lparr>co_log := co_log st @ [cl_tail (co_clilist st)]\<rparr>)))"

definition received :: "int \<Rightarrow> conns \<Rightarrow> conns" where
  "received fd st = st\<lparr>co_in := (co_in st)(fd := snd (sys_read 255 (co_in st fd)))\<rparr>"

lemma takeWhile_padded:
  "takeWhile (\<lambda>b. b \<noteq> 0) (got @ replicate k 0) = takeWhile (\<lambda>b. b \<noteq> (0 :: byte)) got"
proof (induction got)
  case Nil
  then show ?case by (cases k) simp_all
qed simp

lemma strlen_line:
  assumes "length got \<le> 255"
  shows "strlen (got @ replicate (255 - length got) 0) =
    (if length got = 255 \<and> 0 \<notin> set got then Inl Out_Of_Bounds else Inr (length (message got)))"
proof -
  have "0 \<in> set (got @ replicate (255 - length got) (0 :: byte)) \<longleftrightarrow> \<not> (length got = 255 \<and> 0 \<notin> set got)"
    using assms by (cases "length got < 255") (simp_all add: set_replicate_conv_if)
  then show ?thesis unfolding strlen_def message_def takeWhile_padded by argo
qed

lemma take_message: "take (length (message got)) (got @ zs) = message got"
  unfolding message_def by (metis append.assoc append_eq_conv_conj takeWhile_dropWhile_id)

lemma sys_read_length: "fst (sys_read n s) = Inr got \<Longrightarrow> length got \<le> n"
  using sys_read_measure(3) [of n s _ _ got] by (metis prod.collapse)

lemma op_read_eq:
  "op_read fd (replicate 255 0) 255 st = (case fst (sys_read 255 (co_in st fd)) of
      Inl e \<Rightarrow> if e = EAGAIN then Inr (-1, replicate 255 0, received fd st)
               else cbind (drop_client fd (received fd st)) (\<lambda>st. Inr (-3, replicate 255 0, st))
    | Inr [] \<Rightarrow> cbind (drop_client fd (received fd st)) (\<lambda>st. Inr (-2, replicate 255 0, st))
    | Inr got \<Rightarrow> cbind (mput (replicate 255 0) 0 got) (\<lambda>buf. Inr (int (length got), buf, received fd st)))"
  unfolding op_read_def received_def case_prod_beta Let_def ..

lemma handle_data:
  assumes got: "fst (sys_read 255 (co_in st fd)) = Inr got" "got \<noteq> []"
  shows "handle fd st = (if length got = 255 \<and> 0 \<notin> set got then Inl Out_Of_Bounds
    else reply fd (message got) (received fd st))"
proof -
  have len: "length got \<le> 255" by (rule sys_read_length [OF got(1)])
  then have "mput (replicate 255 0) 0 got = Inr (got @ replicate (255 - length got) 0)"
    by (simp add: mput_def)
  with got have "op_read fd (replicate 255 0) 255 st =
      Inr (int (length got), got @ replicate (255 - length got) 0, received fd st)"
    by (cases got) (simp_all add: op_read_eq)
  then show ?thesis
    by (simp add: handle_def strlen_line [OF len] take_message reply_def cbind_def del: take_append)
qed

lemma handle_blocked:
  assumes "fst (sys_read 255 (co_in st fd)) = Inl EAGAIN"
  shows "handle fd st = reply fd [] (received fd st)"
proof -
  have "op_read fd (replicate 255 0) 255 st = Inr (-1, replicate 255 0, received fd st)"
    using assms by (simp add: op_read_eq)
  then show ?thesis
    using strlen_line [of "[]"] by (simp add: handle_def reply_def message_def cbind_def)
qed

lemma received_fields [simp]:
  "co_clilist (received fd st) = co_clilist st" "co_out (received fd st) = co_out st"
  "co_watched (received fd st) = co_watched st" "conns_ok (received fd st) = conns_ok st"
  "co_log (received fd st) = co_log st"
  "co_in (received fd st) = (co_in st)(fd := snd (sys_read 255 (co_in st fd)))"
  by (simp_all add: received_def conns_ok_def)

lemma handle_gone:
  assumes "conns_ok st" "fd \<in> cm_fd ` set (members st)"
    and "fst (sys_read 255 (co_in st fd)) = Inr [] \<or> (\<exists>e. fst (sys_read 255 (co_in st fd)) = Inl e \<and> e \<noteq> EAGAIN)"
  shows "\<exists>st'. handle fd st = Inr st' \<and> conns_ok st' \<and> fd \<notin> set (co_watched st')
    \<and> members st' = filter (\<lambda>m. cm_fd m \<noteq> fd) (members st) \<and> co_out st' = co_out st"
proof -
  let ?st = "received fd st"
  obtain cl where cl: "drop_client fd ?st = Inr (?st\<lparr>co_watched := removeAll fd (co_watched ?st), co_clilist := cl\<rparr>)"
    "clilist_ok cl" "clients cl = filter (\<lambda>m. cm_fd m \<noteq> fd) (members st)" "distinct (map cm_fd (clients cl))"
    using drop_client_member [of ?st fd] assms(1,2) by auto
  obtain n where "op_read fd (replicate 255 0) 255 st =
      Inr (n, replicate 255 0, ?st\<lparr>co_watched := removeAll fd (co_watched ?st), co_clilist := cl\<rparr>)" "n < -1"
    using assms(3) cl(1) by (auto simp: op_read_eq)
  then have "handle fd st = Inr (?st\<lparr>co_watched := removeAll fd (co_watched ?st), co_clilist := cl\<rparr>)"
    by (simp add: handle_def)
  with cl show ?thesis by (simp add: conns_ok_def)
qed

lemma reply_dropped:
  assumes "conns_ok st" "fd \<in> cm_fd ` set (members st)" "write_drops msg (co_out st fd)"
  shows "\<exists>st'. reply fd msg st = Inr st' \<and> conns_ok st' \<and> fd \<notin> set (co_watched st')
    \<and> members st' = filter (\<lambda>m. cm_fd m \<noteq> fd) (members st)
    \<and> co_in st' = co_in st \<and> co_out st' = (co_out st)(fd := snd (sys_write msg (co_out st fd)))"
  using op_write_member [OF assms(1,2), of msg] assms(3) by (fastforce simp: reply_def)

lemma reply_sent:
  assumes "conns_ok st" "fd \<in> cm_fd ` set (members st)" "\<not> write_drops msg (co_out st fd)"
  shows "\<exists>st1 st2. conns_ok st1 \<and> members st1 = members st \<and> co_in st1 = co_in st
    \<and> co_out st1 = (co_out st)(fd := snd (sys_write msg (co_out st fd))) \<and> co_log st1 = co_log st
    \<and> reply fd msg st = Inr (st2\<lparr>co_log := co_log st @ [cl_tail (co_clilist st2)]\<rparr>)
    \<and> greet_result st1 (greeted st1 0) st2"
proof -
  obtain r st1 where w: "op_write fd msg st = Inr (r, st1)" "conns_ok st1" "members st1 = members st"
    "co_in st1 = co_in st" "co_out st1 = (co_out st)(fd := snd (sys_write msg (co_out st fd)))"
    "co_log st1 = co_log st" "\<not> r < -1"
    using op_write_member [OF assms(1,2), of msg] assms(3) by auto
  obtain st2 where g: "greet 0 st1 = Inr st2" "greet_result st1 (greeted st1 0) st2"
    using greet_exact [OF w(2), of 0] by auto
  then have "reply fd msg st = Inr (st2\<lparr>co_log := co_log st @ [cl_tail (co_clilist st2)]\<rparr>)"
    using w by (simp add: reply_def greet_result_def)
  with w g show ?thesis by blast
qed

text \<open>
  The handler of a client on the list faults in exactly one case: the read delivers 255
  bytes none of which is zero, and \<open>strlen\<close> runs off the end of \<open>line\<close>.
\<close>

theorem handle_fault_iff:
  assumes "conns_ok st" and "fd \<in> cm_fd ` set (members st)"
  shows "isOk (handle fd st) \<longleftrightarrow>
    \<not> (\<exists>got. fst (sys_read 255 (co_in st fd)) = Inr got \<and> length got = 255 \<and> 0 \<notin> set got)"
proof -
  have ok: "isOk (reply fd msg (received fd st))" for msg
    using reply_dropped [of "received fd st" fd msg] reply_sent [of "received fd st" fd msg] assms
    by (cases "write_drops msg (co_out st fd)") (auto simp: isOk_iff)
  consider (Gone) "fst (sys_read 255 (co_in st fd)) = Inr [] \<or> (\<exists>e. fst (sys_read 255 (co_in st fd)) = Inl e \<and> e \<noteq> EAGAIN)"
    | (Blocked) "fst (sys_read 255 (co_in st fd)) = Inl EAGAIN"
    | (Data) got where "fst (sys_read 255 (co_in st fd)) = Inr got" "got \<noteq> []"
    by (cases "fst (sys_read 255 (co_in st fd))") auto
  then show ?thesis
  proof cases
    case Gone
    then show ?thesis using handle_gone [OF assms Gone] by (auto simp: isOk_iff)
  qed (auto simp: handle_blocked handle_data ok)
qed

theorem handle_fault_iff_witness:
  "\<not> isOk (handle 7 (two_conns (\<lambda>_. [RData 1 (replicate 254 1)]) (\<lambda>_. \<lparr>out_script = [], out_sent = []\<rparr>)))"
  using handle_fault_iff [OF two_conns_ok, of 7 "\<lambda>_. [RData 1 (replicate 254 1)]" "\<lambda>_. \<lparr>out_script = [], out_sent = []\<rparr>"]
  by (simp add: two_conns_def two_clients_ok)

text \<open>
  A client is dropped although it is still there: when the read would block, or brings a
  message that starts with a zero byte, the handler writes nothing, takes the zero returned by
  \<open>write\<close> for a closed connection, and removes the client from the list and from the epoll set.
\<close>

theorem handle_drops_live_client:
  assumes "conns_ok st" and "fd \<in> cm_fd ` set (members st)"
    and "fst (sys_read 255 (co_in st fd)) = Inl EAGAIN \<or> (\<exists>bs. fst (sys_read 255 (co_in st fd)) = Inr (0 # bs))"
    and "\<And>e s. out_script (co_out st fd) \<noteq> WErr e # s"
  shows "\<exists>st'. handle fd st = Inr st' \<and> fd \<notin> set (co_watched st')
    \<and> members st' = filter (\<lambda>m. cm_fd m \<noteq> fd) (members st) \<and> out_sent (co_out st' fd) = out_sent (co_out st fd)"
proof -
  have h: "handle fd st = reply fd [] (received fd st)"
    using assms(3) handle_blocked handle_data by (auto simp: message_def)
  have w: "fst (sys_write [] (co_out st fd)) = Inr 0 \<and> out_sent (snd (sys_write [] (co_out st fd))) = out_sent (co_out st fd)"
    using assms(4) by (auto simp: sys_write_def split: list.splits wr.splits)
  then show ?thesis
    using reply_dropped [of "received fd st" fd "[]"] assms(1,2) unfolding h
    by (auto simp: write_drops_def)
qed

theorem handle_drops_live_client_witness:
  "\<exists>st'. handle 7 (two_conns (\<lambda>_. [RErr EAGAIN, RData 1 []]) (\<lambda>_. \<lparr>out_script = [], out_sent = []\<rparr>)) = Inr st'
    \<and> members st' = [\<lparr>cm_fd = 9, cm_ip = ''b''\<rparr>]"
  using handle_drops_live_client [OF two_conns_ok, of 7 "\<lambda>_. [RErr EAGAIN, RData 1 []]" "\<lambda>_. \<lparr>out_script = [], out_sent = []\<rparr>"]
  by (auto simp: two_conns_def two_clients_ok)

lemma handle_good:
  assumes ok: "conns_ok st" and mem: "fd \<in> cm_fd ` set (members st)"
    and got: "fst (sys_read 255 (co_in st fd)) = Inr got" "message got \<noteq> []" "length got < 255 \<or> 0 \<in> set got"
    and takes: "\<And>m. m \<in> set (members st) \<Longrightarrow> out_script (co_out st (cm_fd m)) = []"
  shows "\<exists>st'. handle fd st = Inr st' \<and> conns_ok st' \<and> members st' = members st
    \<and> co_log st' = co_log st @ [int (length (members st))]
    \<and> co_in st' = (co_in st)(fd := snd (sys_read 255 (co_in st fd)))
    \<and> (\<forall>f. out_script (co_out st' f) = out_script (co_out st f))
    \<and> (\<forall>f. out_sent (co_out st' f) = out_sent (co_out st f) @ (if f = fd then message got else [])
         @ (if f \<in> cm_fd ` set (members st) then helloworld else []))"
proof -
  have hello: "helloworld \<noteq> []" by (simp add: helloworld_def)
  have fd: "out_script (co_out st fd) = []" using mem takes by auto
  have h: "handle fd st = reply fd (message got) (received fd st)"
    using handle_data [OF got(1)] got(2,3) by (cases got) (auto simp: message_def)
  obtain st1 st2 where s: "conns_ok st1" "members st1 = members st" "co_in st1 = co_in (received fd st)"
    "co_out st1 = (co_out st)(fd := snd (sys_write (message got) (co_out st fd)))"
    "reply fd (message got) (received fd st) = Inr (st2\<lparr>co_log := co_log st @ [cl_tail (co_clilist st2)]\<rparr>)"
    "greet_result st1 (greeted st1 0) st2"
    using reply_sent [of "received fd st" fd "message got"] ok mem got(2) fd
    by (auto simp: write_drops_def sys_write_def)
  have empty: "out_script (co_out st1 (cm_fd m)) = []" if "m \<in> set (members st)" for m
    using takes [OF that] fd by (simp add: s(4) sys_write_def)
  then have keep: "\<not> write_drops helloworld (co_out st1 (cm_fd m))" if "m \<in> set (members st)" for m
    using that hello by (simp add: write_drops_def sys_write_def)
  then have "greeted st1 0 = members st" by (simp add: greeted_def s(2) visited_all)
  then have g: "co_out st2 = (\<lambda>f. if f \<in> cm_fd ` set (members st) then snd (sys_write helloworld (co_out st1 f)) else co_out st1 f)"
    "members st2 = members st" "conns_ok st2" "co_in st2 = co_in (received fd st)"
    using s(2,3,6) keep by (auto simp: greet_result_def filter_id_conv)
  have "int (length (members st)) = cl_tail (co_clilist st2)"
    using g(2,3) length_clients [of "co_clilist st2"] by (simp add: conns_ok_def)
  with g fd takes show ?thesis
    by (auto simp: h s(4,5) sys_write_def conns_ok_def)
qed

text \<open>
  The good case: when the message is not empty and every client's descriptor takes what it
  is offered, the sender gets its message back up to the first zero byte, then every client on
  the list gets the greeting exactly once, nobody is dropped, and the number of clients is
  printed.
\<close>

theorem handle_echoes_and_greets:
  assumes ok: "conns_ok st" and mem: "fd \<in> cm_fd ` set (members st)"
    and got: "fst (sys_read 255 (co_in st fd)) = Inr got" "message got \<noteq> []" "length got < 255 \<or> 0 \<in> set got"
    and takes: "\<And>m. m \<in> set (members st) \<Longrightarrow> out_script (co_out st (cm_fd m)) = []"
  shows "\<exists>st'. handle fd st = Inr st' \<and> members st' = members st \<and> co_log st' = co_log st @ [int (length (members st))]
    \<and> (\<forall>f. out_sent (co_out st' f) = out_sent (co_out st f) @ (if f = fd then message got else [])
         @ (if f \<in> cm_fd ` set (members st) then helloworld else []))"
  using handle_good [OF assms] by blast

theorem handle_echoes_and_greets_witness:
  "\<exists>st'. handle 7 (two_conns (\<lambda>_. [RData 72 [105, 0]]) (\<lambda>_. \<lparr>out_script = [], out_sent = []\<rparr>)) = Inr st'
    \<and> out_sent (co_out st' 7) = [72, 105] @ helloworld \<and> out_sent (co_out st' 9) = helloworld"
proof -
  let ?st = "two_conns (\<lambda>_. [RData 72 [105, 0]]) (\<lambda>_. \<lparr>out_script = [], out_sent = []\<rparr>)"
  have "fst (sys_read 255 (co_in ?st 7)) = Inr [72, 105, 0]" by (simp add: two_conns_def)
  from handle_echoes_and_greets [OF two_conns_ok _ this] show ?thesis
    by (auto simp: two_conns_def two_clients_ok message_def)
qed

end
