(* ===== verification/EpollServer.thy ===== *)
theory EpollServer
  imports EpollClients ThreadPool
begin

text \<open>
  The main loop of the epoll server (\<open>IOModels/epoll/epollTcpServer/src/op_epoll.c\<close>) together
  with the thread pool it feeds. The task handed to the pool carries the address of the
  descriptor inside the array \<open>events\<close>, here the index of the entry, so that a worker sees
  what the entry holds when it runs. What the system calls return is an argument of each
  operation; a call of \<open>exit\<close> is a result.
\<close>

section \<open>Setting up\<close>

definition MAX_LISTEN_QUEUE :: int where "MAX_LISTEN_QUEUE = 5"
definition THREAD :: int where "THREAD = 32"
definition QUEUE :: int where "QUEUE = 256"
definition EPOLLIN :: u32 where "EPOLLIN = 1"
definition O_NONBLOCK :: int where "O_NONBLOCK = 2048"

datatype 'a run = Exit int | Run 'a

text \<open>The results of the two calls of \<open>fcntl\<close>, the second of which may depend on its argument.\<close>

record fcntl_env =
  fe_getfl :: int
  fe_setfl :: "int \<Rightarrow> int"

definition set_nonblocking :: "fcntl_env \<Rightarrow> unit run" where
  "set_nonblocking env =
     (let opts = fe_getfl env
      in if opts < 0 then Exit 1
         else let opts = or opts O_NONBLOCK
              in if fe_setfl env opts < 0 then Exit 1 else Run ())"

record sock_env =
  se_socket :: int
  se_fcntl :: fcntl_env
  se_aton :: "string \<Rightarrow> u32 option"
  se_bind :: "u32 \<Rightarrow> u16 \<Rightarrow> int"
  se_listen :: "int \<Rightarrow> int"

definition init_servsock :: "sock_env \<Rightarrow> string \<Rightarrow> int \<Rightarrow> int run" where
  "init_servsock env ip port =
     (case set_nonblocking (se_fcntl env) of Exit n \<Rightarrow> Exit n
      | Run _ \<Rightarrow>
        let addr = (case se_aton env ip of None \<Rightarrow> 0 | Some a \<Rightarrow> a)
        in if se_bind env addr (word_of_int port) < 0 then Exit (-1) else Run (se_socket env))"

section \<open>The server\<close>

record epoll_event =
  ee_events :: u32
  ee_fd :: int

record server =
  sv_conns :: conns
  sv_pool :: "(unit, nat) threadpool_t"
  sv_events :: "epoll_event list"
  sv_listen :: int

record accept_env =
  ae_fd :: int
  ae_ip :: string
  ae_fcntl :: fcntl_env

definition start_server :: "create_env \<Rightarrow> sock_env \<Rightarrow> string \<Rightarrow> int \<Rightarrow> conns \<Rightarrow> epoll_event list \<Rightarrow> server run cres" where
  "start_server cenv env ip port st junk =
     cbind (threadpool_create cenv THREAD QUEUE) (\<lambda>r. case r of
       Create_Null _ \<Rightarrow> Inr (Exit 1)
     | Create_Start pool \<Rightarrow> (case init_servsock env ip port of Exit n \<Rightarrow> Inr (Exit n)
       | Run fd \<Rightarrow> Inr (Run \<lparr>sv_conns = op_add_event fd st, sv_pool = pool, sv_events = junk, sv_listen = fd\<rparr>)))"

text \<open>One round of the inner loop: the entry at index \<open>i\<close>.\<close>

definition accept_client :: "accept_env \<Rightarrow> server \<Rightarrow> server run cres" where
  "accept_client env sv =
     (if ae_fd env < 0 then Inr (Exit 1)
      else case set_nonblocking (ae_fcntl env) of Exit n \<Rightarrow> Inr (Exit n)
        | Run _ \<Rightarrow> cbind (add_clilist \<lparr>cm_fd = ae_fd env, cm_ip = ae_ip env\<rparr> (co_clilist (sv_conns sv))) (\<lambda>cl.
            Inr (Run (sv\<lparr>sv_conns := op_add_event (ae_fd env) ((sv_conns sv)\<lparr>co_clilist := cl\<rparr>)\<rparr>))))"

definition add_task :: "nat \<Rightarrow> server \<Rightarrow> server cres" where
  "add_task i sv = cbind (threadpool_add True True True (Some (sv_pool sv)) (Some ()) i) (\<lambda>(_, p).
     Inr (sv\<lparr>sv_pool := the p\<rparr>))"

definition serve_event :: "accept_env \<Rightarrow> nat \<Rightarrow> server \<Rightarrow> server run cres" where
  "serve_event env i sv = cbind (aget (sv_events sv) (int i)) (\<lambda>e.
     if ee_fd e = sv_listen sv then accept_client env sv
     else if and (ee_events e) EPOLLIN \<noteq> 0 then cbind (add_task i sv) (\<lambda>sv. Inr (Run sv))
     else Inr (Run sv))"

fun serve_events :: "(nat \<Rightarrow> accept_env) \<Rightarrow> nat list \<Rightarrow> server \<Rightarrow> server run cres" where
  "serve_events acc [] sv = Inr (Run sv)"
| "serve_events acc (i # is) sv = cbind (serve_event (acc i) i sv) (\<lambda>r. case r of
     Exit n \<Rightarrow> Inr (Exit n) | Run sv \<Rightarrow> serve_events acc is sv)"

text \<open>\<open>epoll_wait\<close> fills the front of the array; then every entry it filled is served.\<close>

definition wait_events :: "epoll_event list \<Rightarrow> server \<Rightarrow> server" where
  "wait_events evs sv = sv\<lparr>sv_events := evs @ drop (length evs) (sv_events sv)\<rparr>"

definition serve_round :: "(nat \<Rightarrow> accept_env) \<Rightarrow> epoll_event list \<Rightarrow> server \<Rightarrow> server run cres" where
  "serve_round acc evs sv = serve_events acc [0..<length evs] (wait_events evs sv)"

text \<open>
  A worker takes a task and runs the handler on the entry the task points to. The whole handler is one step
  here: a schedule is an order of handlers, those of two workers do not overlap. (The source has no lock around
  the list of clients, which overlapping handlers could damage; that is not modelled.)
\<close>

definition run_task :: "server \<Rightarrow> server cres" where
  "run_task sv = cbind (pool_deq (sv_pool sv)) (\<lambda>(p, t). case t of
       None \<Rightarrow> Inr (sv\<lparr>sv_pool := p\<rparr>)
     | Some t \<Rightarrow> cbind (aget (sv_events sv) (int (tt_argument t))) (\<lambda>e.
         cbind (handle (ee_fd e) (sv_conns sv)) (\<lambda>st. Inr (sv\<lparr>sv_pool := p, sv_conns := st\<rparr>))))"

section \<open>What the workers will handle\<close>

definition queued_fds :: "server \<Rightarrow> int list" where
  "queued_fds sv = map (\<lambda>t. ee_fd (sv_events sv ! tt_argument t)) (pending (sv_pool sv))"

definition queued_slots :: "server \<Rightarrow> nat list" where
  "queued_slots sv = map tt_argument (pending (sv_pool sv))"

definition server_ok :: "server \<Rightarrow> bool" where
  "server_ok sv \<longleftrightarrow> pool_open (sv_pool sv) \<and> pool_capacity (sv_pool sv) = MAX_CONNECT
     \<and> length (sv_events sv) = MAX_CONNECT \<and> set (queued_slots sv) \<subseteq> {..<MAX_CONNECT}"

definition readable :: "server \<Rightarrow> epoll_event \<Rightarrow> bool" where
  "readable sv e \<longleftrightarrow> ee_fd e \<noteq> sv_listen sv \<and> and (ee_events e) EPOLLIN \<noteq> 0"

lemma queued_fds_slots: "queued_fds sv = map (\<lambda>i. ee_fd (sv_events sv ! i)) (queued_slots sv)"
  by (simp add: queued_fds_def queued_slots_def)

lemma add_task_room:
  assumes "server_ok sv" "length (queued_slots sv) < MAX_CONNECT" "i < MAX_CONNECT"
  shows "\<exists>p. add_task i sv = Inr (sv\<lparr>sv_pool := p\<rparr>) \<and> server_ok (sv\<lparr>sv_pool := p\<rparr>)
    \<and> queued_slots (sv\<lparr>sv_pool := p\<rparr>) = queued_slots sv @ [i]"
proof -
  let ?p = "sv_pool sv"
  have "tp_count ?p \<noteq> tp_queue_size ?p"
    using assms pool_full_iff [of ?p] by (simp add: server_ok_def pool_open_def queued_slots_def)
  then obtain p where p: "add_section True \<lparr>tt_function = (), tt_argument = i\<rparr> ?p = Inr (0, p, True)"
    "pool_ok p" "pending p = pending ?p @ [\<lparr>tt_function = (), tt_argument = i\<rparr>]" "tp_shutdown p = 0"
    "tp_queue_size p = tp_queue_size ?p"
    using add_section_ok [of ?p "\<lparr>tt_function = (), tt_argument = i\<rparr>"] assms(1)
    by (auto simp: server_ok_def pool_open_def)
  then show ?thesis using assms
    by (intro exI [of _ p]) (auto simp: add_task_def threadpool_add_def server_ok_def pool_open_def
      pool_capacity_def queued_slots_def)
qed

text \<open>What a call of the inner loop leaves: where it stops early, an entry was the listening socket's.\<close>

definition served :: "server \<Rightarrow> nat list \<Rightarrow> server run cres \<Rightarrow> bool" where
  "served sv is r \<longleftrightarrow> (case r of
      Inl f \<Rightarrow> f = Out_Of_Bounds \<and> (\<exists>i\<in>set is. ee_fd (sv_events sv ! i) = sv_listen sv)
    | Inr (Exit n) \<Rightarrow> n = 1 \<and> (\<exists>i\<in>set is. ee_fd (sv_events sv ! i) = sv_listen sv)
    | Inr (Run sv') \<Rightarrow> server_ok sv' \<and> sv_events sv' = sv_events sv \<and> sv_listen sv' = sv_listen sv
        \<and> ((\<forall>i\<in>set is. ee_fd (sv_events sv ! i) \<noteq> sv_listen sv) \<longrightarrow> sv_conns sv' = sv_conns sv)
        \<and> queued_slots sv' = queued_slots sv @ filter (\<lambda>i. readable sv (sv_events sv ! i)) is)"

lemma accept_client_cases:
  obtains (Fault) "accept_client env sv = Inl Out_Of_Bounds"
  | (Quit) "accept_client env sv = Inr (Exit 1)"
  | (Run) st where "accept_client env sv = Inr (Run (sv\<lparr>sv_conns := st\<rparr>))"
proof -
  have "accept_client env sv = Inl Out_Of_Bounds \<or> accept_client env sv = Inr (Exit 1)
      \<or> (\<exists>st. accept_client env sv = Inr (Run (sv\<lparr>sv_conns := st\<rparr>)))"
    by (auto simp: accept_client_def set_nonblocking_def add_clilist_def aset_def Let_def)
  then show thesis using that by blast
qed

lemma serve_events_served:
  assumes "server_ok sv" "set is \<subseteq> {..<MAX_CONNECT}"
    "length (queued_slots sv) + length (filter (\<lambda>i. readable sv (sv_events sv ! i)) is) \<le> MAX_CONNECT"
  shows "served sv is (serve_events acc is sv)"
  using assms
proof (induction "is" arbitrary: sv)
  case Nil
  then show ?case by (simp add: served_def)
next
  case (Cons i "is")
  let ?e = "sv_events sv ! i"
  have get: "aget (sv_events sv) (int i) = Inr ?e" using Cons.prems by (simp add: aget_def server_ok_def)
  consider (Listen) "ee_fd ?e = sv_listen sv" | (Task) "readable sv ?e"
    | (Other) "ee_fd ?e \<noteq> sv_listen sv" "\<not> readable sv ?e" by (auto simp: readable_def)
  then show ?case
  proof cases
    case Listen
    then have nr: "\<not> readable sv ?e" by (simp add: readable_def)
    show ?thesis
    proof (cases rule: accept_client_cases [of "acc i" sv])
      case (Run st)
      have "served (sv\<lparr>sv_conns := st\<rparr>) is (serve_events acc is (sv\<lparr>sv_conns := st\<rparr>))"
        using Cons.prems nr by (intro Cons.IH) (auto simp: server_ok_def queued_slots_def readable_def)
      with Run Listen nr get show ?thesis
        by (auto simp: served_def serve_event_def queued_slots_def readable_def split: sum.splits run.splits)
    qed (use Listen get in \<open>simp_all add: served_def serve_event_def\<close>)
  next
    case Task
    with Cons.prems have room: "length (queued_slots sv) < MAX_CONNECT" "i < MAX_CONNECT" by simp_all
    obtain p where p: "add_task i sv = Inr (sv\<lparr>sv_pool := p\<rparr>)" "server_ok (sv\<lparr>sv_pool := p\<rparr>)"
      "queued_slots (sv\<lparr>sv_pool := p\<rparr>) = queued_slots sv @ [i]"
      using add_task_room [OF Cons.prems(1) room] by blast
    have "served (sv\<lparr>sv_pool := p\<rparr>) is (serve_events acc is (sv\<lparr>sv_pool := p\<rparr>))"
      using Cons.prems Task p by (intro Cons.IH) (auto simp: readable_def)
    with Task get p show ?thesis
      by (auto simp: served_def serve_event_def readable_def split: sum.splits run.splits)
  next
    case Other
    have "served sv is (serve_events acc is sv)" using Cons.prems Other by (intro Cons.IH) auto
    with Other get show ?thesis
      by (auto simp: served_def serve_event_def readable_def split: sum.splits run.splits)
  qed
qed

section \<open>Properties\<close>

lemma wait_events_ok:
  assumes "server_ok sv" "length evs \<le> MAX_CONNECT"
  shows "server_ok (wait_events evs sv)" "queued_slots (wait_events evs sv) = queued_slots sv"
    "i < length evs \<Longrightarrow> sv_events (wait_events evs sv) ! i = evs ! i"
    "sv_listen (wait_events evs sv) = sv_listen sv" "sv_conns (wait_events evs sv) = sv_conns sv"
  using assms by (auto simp: server_ok_def wait_events_def queued_slots_def nth_append)

lemma filter_upt_nth: "map (\<lambda>i. f (xs ! i)) (filter (\<lambda>i. P (xs ! i)) [0..<length xs]) = map f (filter P xs)"
proof -
  have "map f (filter P (map ((!) xs) [0..<length xs])) = map (\<lambda>i. f (xs ! i)) (filter (\<lambda>i. P (xs ! i)) [0..<length xs])"
    by (simp add: filter_map o_def)
  then show ?thesis by (simp add: map_nth)
qed

text \<open>What one round leaves, in terms of the entries of \<open>epoll_wait\<close>.\<close>

lemma round_served:
  assumes ok: "server_ok sv" and len: "length evs \<le> MAX_CONNECT"
    and room: "length (queued_slots sv) + length (filter (readable sv) evs) \<le> MAX_CONNECT"
  shows "case serve_round acc evs sv of
      Inl f \<Rightarrow> f = Out_Of_Bounds \<and> (\<exists>e\<in>set evs. ee_fd e = sv_listen sv)
    | Inr (Exit n) \<Rightarrow> n = 1 \<and> (\<exists>e\<in>set evs. ee_fd e = sv_listen sv)
    | Inr (Run sv') \<Rightarrow> server_ok sv' \<and> sv_events sv' = sv_events (wait_events evs sv) \<and> sv_listen sv' = sv_listen sv
        \<and> ((\<forall>e\<in>set evs. ee_fd e \<noteq> sv_listen sv) \<longrightarrow> sv_conns sv' = sv_conns sv)
        \<and> queued_slots sv' = queued_slots sv @ filter (\<lambda>i. readable sv (evs ! i)) [0..<length evs]"
proof -
  let ?w = "wait_events evs sv" and ?is = "[0..<length evs]"
  note w = wait_events_ok [OF ok len]
  have r: "readable ?w e = readable sv e" for e by (simp add: readable_def w(4))
  have "length (filter (\<lambda>i. readable sv (evs ! i)) ?is) = length (filter (readable sv) evs)"
    using filter_upt_nth [of id evs "readable sv"] by (metis length_map)
  moreover have sel: "filter (\<lambda>i. readable ?w (sv_events ?w ! i)) ?is = filter (\<lambda>i. readable sv (evs ! i)) ?is"
    by (intro filter_cong) (simp_all add: w(3) r)
  ultimately have "served ?w ?is (serve_round acc evs sv)"
    unfolding serve_round_def using w(1,2) len room by (intro serve_events_served) auto
  moreover have "(\<exists>i\<in>set ?is. ee_fd (sv_events ?w ! i) = sv_listen sv) \<longleftrightarrow> (\<exists>e\<in>set evs. ee_fd e = sv_listen sv)"
  proof -
    have "(\<exists>i\<in>set ?is. ee_fd (sv_events ?w ! i) = sv_listen sv) \<longleftrightarrow> (\<exists>i\<in>set ?is. ee_fd (evs ! i) = sv_listen sv)"
      by (simp add: w(3))
    also have "\<dots> \<longleftrightarrow> (\<exists>e\<in>set evs. ee_fd e = sv_listen sv)" by (auto simp: set_conv_nth)
    finally show ?thesis .
  qed
  ultimately show ?thesis
    unfolding served_def sel w(2,4,5) by (auto split: sum.splits run.splits)
qed

lemma round_readable:
  assumes ok: "server_ok sv" and len: "length (queued_slots sv) + length evs \<le> MAX_CONNECT"
    and all: "\<forall>e\<in>set evs. readable sv e"
  obtains sv' where "serve_round acc evs sv = Inr (Run sv')" "server_ok sv'"
    "sv_events sv' = evs @ drop (length evs) (sv_events sv)" "sv_listen sv' = sv_listen sv"
    "sv_conns sv' = sv_conns sv" "queued_slots sv' = queued_slots sv @ [0..<length evs]"
proof -
  have "filter (readable sv) evs = evs" using all by (simp add: filter_id_conv)
  moreover have "filter (\<lambda>i. readable sv (evs ! i)) [0..<length evs] = [0..<length evs]"
    using all by (simp add: filter_id_conv)
  moreover have "\<not> (\<exists>e\<in>set evs. ee_fd e = sv_listen sv)" using all by (auto simp: readable_def)
  ultimately show thesis
    using round_served [OF ok, of evs acc] len that
    by (auto simp: wait_events_def split: sum.splits run.splits)
qed

lemma grab_task_size: "grab_task q = Inr (t, p) \<Longrightarrow> tp_queue_size p = tp_queue_size q"
  by (auto simp: grab_task_def Let_def split: option.splits)

lemma run_task_next:
  assumes ok: "server_ok sv" and q: "queued_slots sv = i # is"
    and h: "handle (ee_fd (sv_events sv ! i)) (sv_conns sv) = Inr st"
  obtains sv' where "run_task sv = Inr sv'" "server_ok sv'" "sv_conns sv' = st"
    "sv_events sv' = sv_events sv" "sv_listen sv' = sv_listen sv" "queued_slots sv' = is"
proof -
  obtain t ts where t: "pending (sv_pool sv) = t # ts" "tt_argument t = i" "map tt_argument ts = is"
    using q by (auto simp: queued_slots_def)
  have op: "pool_open (sv_pool sv)" "i < length (sv_events sv)"
    using ok q by (auto simp: server_ok_def)
  obtain p where p: "pool_deq (sv_pool sv) = Inr (p, Some t)" "pool_open p" "pending p = ts"
    using pool_deq_item [OF op(1) t(1)] by blast
  have cap: "pool_capacity p = pool_capacity (sv_pool sv)"
    using p(1) by (auto simp: pool_deq_def pool_capacity_def split: if_splits dest: grab_task_size)
  have "run_task sv = Inr (sv\<lparr>sv_pool := p, sv_conns := st\<rparr>)"
    using p(1) h op(2) by (simp add: run_task_def aget_def t(2))
  then show thesis
    using that ok p cap q t by (auto simp: server_ok_def queued_slots_def)
qed

text \<open>
  One round of the main loop against the pool: with the task queue empty, a round over any
  result of \<open>epoll_wait\<close> hands the workers exactly the readable clients, in the order
  reported, and none is refused, because the queue is as long as the event array. It ends
  early only over the entry of the listening socket, by \<open>exit(1)\<close> or by storing outside the
  list of clients.
\<close>

theorem round_hands_over_all:
  assumes "server_ok sv" and "queued_slots sv = []" and "length evs \<le> MAX_CONNECT"
  shows "case serve_round acc evs sv of
      Inl f \<Rightarrow> f = Out_Of_Bounds \<and> (\<exists>e\<in>set evs. ee_fd e = sv_listen sv)
    | Inr (Exit n) \<Rightarrow> n = 1 \<and> (\<exists>e\<in>set evs. ee_fd e = sv_listen sv)
    | Inr (Run sv') \<Rightarrow> server_ok sv' \<and> queued_fds sv' = map ee_fd (filter (readable sv) evs)"
proof -
  have "length (queued_slots sv) + length (filter (readable sv) evs) \<le> MAX_CONNECT"
    using assms(2,3) le_trans [OF length_filter_le [of "readable sv" evs]] by simp
  note r = round_served [OF assms(1,3) this, of acc]
  have "map (\<lambda>i. ee_fd (sv_events (wait_events evs sv) ! i)) (filter (\<lambda>i. readable sv (evs ! i)) [0..<length evs])
      = map (\<lambda>i. ee_fd (evs ! i)) (filter (\<lambda>i. readable sv (evs ! i)) [0..<length evs])"
    using wait_events_ok(3) [OF assms(1,3)] by auto
  then show ?thesis
    using r assms(2) by (auto simp: queued_fds_slots filter_upt_nth split: sum.splits run.splits)
qed

definition idle_server :: "conns \<Rightarrow> server" where
  "idle_server st = \<lparr>sv_conns = st, sv_pool = fresh_pool QUEUE,
     sv_events = replicate MAX_CONNECT \<lparr>ee_events = 0, ee_fd = 0\<rparr>, sv_listen = 3\<rparr>"

lemma idle_server_ok: "server_ok (idle_server st)" "queued_slots (idle_server st) = []" "sv_listen (idle_server st) = 3"
    "sv_conns (idle_server st) = st"
  using create_start_open [of all_ok 32 QUEUE "fresh_pool QUEUE :: (unit, nat) threadpool_t"]
  by (auto simp: server_ok_def idle_server_def queued_slots_def create_all_ok QUEUE_def MAX_CONNECT_def)

theorem round_hands_over_all_witness:
  "case serve_round (\<lambda>_. \<lparr>ae_fd = 12, ae_ip = ''10.0.0.1'', ae_fcntl = \<lparr>fe_getfl = 2, fe_setfl = (\<lambda>_. 0)\<rparr>\<rparr>)
        [\<lparr>ee_events = 1, ee_fd = 7\<rparr>, \<lparr>ee_events = 4, ee_fd = 8\<rparr>, \<lparr>ee_events = 1, ee_fd = 9\<rparr>]
       (idle_server (two_conns (\<lambda>_. []) (\<lambda>_. \<lparr>out_script = [], out_sent = []\<rparr>))) of
     Inr (Run sv') \<Rightarrow> queued_fds sv' = [7, 9] | _ \<Rightarrow> False"
  using round_hands_over_all [OF idle_server_ok(1,2),
    of "[\<lparr>ee_events = 1, ee_fd = 7\<rparr>, \<lparr>ee_events = 4, ee_fd = 8\<rparr>, \<lparr>ee_events = 1, ee_fd = 9\<rparr>]"
      "two_conns (\<lambda>_. []) (\<lambda>_. \<lparr>out_script = [], out_sent = []\<rparr>)"
      "\<lambda>_. \<lparr>ae_fd = 12, ae_ip = ''10.0.0.1'', ae_fcntl = \<lparr>fe_getfl = 2, fe_setfl = (\<lambda>_. 0)\<rparr>\<rparr>"]
  by (auto simp: idle_server_ok readable_def EPOLLIN_def MAX_CONNECT_def split: sum.splits run.splits)

lemma map_nth_take: "n \<le> length xs \<Longrightarrow> map (\<lambda>i. f (xs ! i)) [0..<n] = map f (take n xs)"
  by (intro nth_equalityI) simp_all

lemma two_rounds:
  assumes "server_ok sv" and "queued_slots sv = []"
    and "\<forall>e\<in>set evs1 \<union> set evs2. readable sv e" and "length evs1 + length evs2 \<le> MAX_CONNECT"
  obtains sv1 sv2 where "serve_round acc evs1 sv = Inr (Run sv1)" "serve_round acc evs2 sv1 = Inr (Run sv2)"
    "queued_fds sv1 = map ee_fd evs1" "server_ok sv2" "sv_conns sv2 = sv_conns sv"
    "queued_slots sv2 = [0..<length evs1] @ [0..<length evs2]"
    "sv_events sv2 = evs2 @ drop (length evs2) (evs1 @ drop (length evs1) (sv_events sv))"
proof -
  obtain sv1 where 1: "serve_round acc evs1 sv = Inr (Run sv1)" "server_ok sv1"
    "sv_events sv1 = evs1 @ drop (length evs1) (sv_events sv)" "sv_listen sv1 = sv_listen sv"
    "sv_conns sv1 = sv_conns sv" "queued_slots sv1 = [0..<length evs1]"
    using round_readable [OF assms(1), of evs1 acc] assms(2-4) by auto
  obtain sv2 where 2: "serve_round acc evs2 sv1 = Inr (Run sv2)" "server_ok sv2"
    "sv_events sv2 = evs2 @ drop (length evs2) (sv_events sv1)" "sv_conns sv2 = sv_conns sv1"
    "queued_slots sv2 = queued_slots sv1 @ [0..<length evs2]"
    using round_readable [OF 1(2), of evs2 acc] assms(3,4) 1(4,6) by (auto simp: readable_def)
  have "queued_fds sv1 = map ee_fd evs1"
    using map_nth_take [of "length evs1" "sv_events sv1" ee_fd] by (simp add: queued_fds_slots 1(3,6))
  with 1 2 show thesis by (intro that) auto
qed

text \<open>
  The race of two rounds: when \<open>epoll_wait\<close> returns again before a worker has run, it
  overwrites the entries the queued tasks point to. The tasks of the first round then handle
  the clients of the second, which are handled twice, and the clients whose entries were
  overwritten are handled by nobody.
\<close>

theorem rounds_overwrite_tasks:
  assumes "server_ok sv" and "queued_slots sv = []"
    and "\<forall>e\<in>set evs1 \<union> set evs2. readable sv e" and "length evs1 + length evs2 \<le> MAX_CONNECT"
  shows "\<exists>sv1 sv2. serve_round acc evs1 sv = Inr (Run sv1) \<and> serve_round acc evs2 sv1 = Inr (Run sv2)
    \<and> queued_fds sv1 = map ee_fd evs1
    \<and> queued_fds sv2 = map ee_fd (take (length evs1) (evs2 @ drop (length evs2) evs1) @ evs2)"
proof -
  obtain sv1 sv2 where r: "serve_round acc evs1 sv = Inr (Run sv1)" "serve_round acc evs2 sv1 = Inr (Run sv2)"
    "queued_fds sv1 = map ee_fd evs1" "queued_slots sv2 = [0..<length evs1] @ [0..<length evs2]"
    "sv_events sv2 = evs2 @ drop (length evs2) (evs1 @ drop (length evs1) (sv_events sv))"
    using two_rounds [OF assms] by blast
  have len: "length evs1 \<le> length (sv_events sv2)" "length evs2 \<le> length (sv_events sv2)"
    by (simp_all add: r(5))
  have "queued_fds sv2 = map ee_fd (take (length evs1) (sv_events sv2) @ take (length evs2) (sv_events sv2))"
    using map_nth_take [OF len(1), of ee_fd] map_nth_take [OF len(2), of ee_fd]
    by (simp add: queued_fds_slots r(4))
  with r show ?thesis by auto
qed

definition quiet_conns :: conns where
  "quiet_conns = two_conns (\<lambda>_. [RData 72 [], RErr EAGAIN]) (\<lambda>_. \<lparr>out_script = [], out_sent = []\<rparr>)"

definition in_event :: "int \<Rightarrow> epoll_event" where
  "in_event fd = \<lparr>ee_events = 1, ee_fd = fd\<rparr>"

lemma readable_in_event: "readable (idle_server st) (in_event fd) \<longleftrightarrow> fd \<noteq> 3"
  by (simp add: readable_def in_event_def idle_server_def EPOLLIN_def)

definition no_accept :: accept_env where
  "no_accept = \<lparr>ae_fd = -1, ae_ip = [], ae_fcntl = \<lparr>fe_getfl = 0, fe_setfl = (\<lambda>_. 0)\<rparr>\<rparr>"

theorem rounds_overwrite_tasks_witness:
  "\<exists>sv1 sv2. serve_round (\<lambda>_. no_accept) [in_event 7, in_event 8] (idle_server quiet_conns) = Inr (Run sv1)
    \<and> serve_round (\<lambda>_. no_accept) [in_event 9] sv1 = Inr (Run sv2) \<and> queued_fds sv2 = [9, 8, 9]"
  using rounds_overwrite_tasks [OF idle_server_ok(1,2), of "[in_event 7, in_event 8]" "[in_event 9]" quiet_conns "\<lambda>_. no_accept"]
  by (simp add: readable_in_event MAX_CONNECT_def) (fastforce simp: in_event_def)

text \<open>
  C34. What the race does to clients: two clients send a message each, in two rounds that no
  worker comes between. Both tasks then handle the second client; the second of them finds
  nothing to read and removes that client from the list, and the first client's message is
  never read.
\<close>

theorem burst_drops_client:
  assumes ok: "server_ok sv" "queued_slots sv = []" "conns_ok (sv_conns sv)"
    and evs: "readable sv ea" "readable sv eb" "ee_fd ea \<noteq> ee_fd eb"
    and mem: "ee_fd eb \<in> cm_fd ` set (members (sv_conns sv))"
    and data: "co_in (sv_conns sv) (ee_fd eb) = RData x xs # RErr EAGAIN # s" "x \<noteq> 0" "length xs < 254"
    and takes: "\<And>m. m \<in> set (members (sv_conns sv)) \<Longrightarrow> out_script (co_out (sv_conns sv) (cm_fd m)) = []"
  shows "\<exists>sv1 sv2 sv3 sv4. serve_round acc [ea] sv = Inr (Run sv1) \<and> serve_round acc [eb] sv1 = Inr (Run sv2)
    \<and> run_task sv2 = Inr sv3 \<and> run_task sv3 = Inr sv4 \<and> queued_slots sv4 = []
    \<and> ee_fd eb \<notin> cm_fd ` set (members (sv_conns sv4))
    \<and> co_in (sv_conns sv4) (ee_fd ea) = co_in (sv_conns sv) (ee_fd ea)"
proof -
  let ?b = "ee_fd eb" and ?st = "sv_conns sv"
  obtain sv1 sv2 where r: "serve_round acc [ea] sv = Inr (Run sv1)" "serve_round acc [eb] sv1 = Inr (Run sv2)"
    "server_ok sv2" "sv_conns sv2 = ?st" "queued_slots sv2 = [0..<length [ea]] @ [0..<length [eb]]"
    "sv_events sv2 = [eb] @ drop (length [eb]) ([ea] @ drop (length [ea]) (sv_events sv))"
    by (rule two_rounds [OF ok(1,2), of "[ea]" "[eb]" acc]) (use evs(1,2) in \<open>simp_all add: MAX_CONNECT_def\<close>)
  then have slot: "queued_slots sv2 = [0, 0]" "sv_events sv2 ! 0 = eb" by simp_all
  have read: "sys_read 255 (co_in ?st ?b) = (Inr (x # xs), RErr EAGAIN # s)"
    using data by (simp add: chunk_def)
  then obtain st3 where h3: "handle ?b ?st = Inr st3" "conns_ok st3" "members st3 = members ?st"
    "co_in st3 = (co_in ?st)(?b := RErr EAGAIN # s)" "\<And>f. out_script (co_out st3 f) = out_script (co_out ?st f)"
    using handle_good [OF ok(3) mem, of "x # xs"] data takes by (auto simp: message_def)
  obtain st4 where h4: "handle ?b st3 = Inr st4" "members st4 = filter (\<lambda>m. cm_fd m \<noteq> ?b) (members st3)"
    "co_in st4 = (co_in ?st)(?b := s)"
    using handle_blocked [of st3 ?b] reply_dropped [of "received ?b st3" ?b "[]"] h3 mem takes
    by (auto simp: write_drops_def sys_write_def)
  obtain sv3 where 3: "run_task sv2 = Inr sv3" "server_ok sv3" "sv_conns sv3 = st3" "sv_events sv3 = sv_events sv2"
    "queued_slots sv3 = [0]"
    by (rule run_task_next [OF r(3) slot(1), of st3]) (use h3(1) r(4) slot(2) in simp_all)
  obtain sv4 where 4: "run_task sv3 = Inr sv4" "sv_conns sv4 = st4" "queued_slots sv4 = []"
    by (rule run_task_next [OF 3(2,5), of st4]) (use h4(1) 3(3,4) slot(2) in simp_all)
  show ?thesis using r(1,2) 3(1) 4 h4(2,3) evs(3) by auto
qed

theorem burst_drops_client_witness:
  "\<exists>sv1 sv2 sv3 sv4. serve_round (\<lambda>_. no_accept) [in_event 7] (idle_server quiet_conns) = Inr (Run sv1)
    \<and> serve_round (\<lambda>_. no_accept) [in_event 9] sv1 = Inr (Run sv2)
    \<and> run_task sv2 = Inr sv3 \<and> run_task sv3 = Inr sv4
    \<and> 9 \<notin> cm_fd ` set (members (sv_conns sv4)) \<and> co_in (sv_conns sv4) 7 = [RData 72 [], RErr EAGAIN]"
proof -
  have fd: "ee_fd (in_event fd) = fd" for fd by (simp add: in_event_def)
  have q: "conns_ok quiet_conns" "9 \<in> cm_fd ` set (members quiet_conns)" "co_in quiet_conns f = [RData 72 [], RErr EAGAIN]"
    "out_script (co_out quiet_conns f) = []" for f
    using two_conns_ok by (simp_all add: quiet_conns_def two_conns_def two_clients_ok)
  show ?thesis
    using burst_drops_client [OF idle_server_ok(1,2), of quiet_conns "in_event 7" "in_event 9" 72 "[]" "[]" "\<lambda>_. no_accept"] q
    by (simp add: readable_in_event fd idle_server_ok(4)) blast
qed

end
