(* ===== verification/Sockets.thy ===== *)
theory Sockets
  imports GetNum
begin

text \<open>
  Opening sockets: the address helpers of \<open>sockapi/libsrc/etcp.c\<close> and
  \<open>CreateListeningSocket\<close> of the two server models (\<open>IOModels/poll\<close> and \<open>IOModels/select\<close>,
  the same text in both). The state is the table of open descriptors, those listening, and
  errno; what each system call answers for each candidate address of \<open>getaddrinfo\<close> is an
  argument. The three loops over the candidates share one contract.
\<close>

section \<open>System calls\<close>

abbreviation (input) ENOSYS :: nat where "ENOSYS \<equiv> 38"

record net =
  n_open :: "int list"
  n_listening :: "int list"
  n_errno :: nat

text \<open>\<open>socket\<close> returns the lowest descriptor that is not open.\<close>

definition fresh_fd :: "int list \<Rightarrow> int" where
  "fresh_fd fds = hd (filter (\<lambda>n. n \<notin> set fds) (map int [0..<Suc (length fds)]))"

lemma fresh_fd: "fresh_fd fds \<notin> set fds" "0 \<le> fresh_fd fds"
proof -
  have "\<not> set (map int [0..<Suc (length fds)]) \<subseteq> set fds"
  proof
    assume "set (map int [0..<Suc (length fds)]) \<subseteq> set fds"
    then have "card (set (map int [0..<Suc (length fds)])) \<le> card (set fds)" by (intro card_mono) auto
    also have "\<dots> \<le> length fds" by (rule card_length)
    finally show False by (simp add: card_image del: upt_Suc)
  qed
  then have "filter (\<lambda>n. n \<notin> set fds) (map int [0..<Suc (length fds)]) \<noteq> []"
    by (auto simp: filter_empty_conv simp del: upt_Suc)
  then have "fresh_fd fds \<in> set (filter (\<lambda>n. n \<notin> set fds) (map int [0..<Suc (length fds)]))"
    unfolding fresh_fd_def by (rule hd_in_set)
  then show "fresh_fd fds \<notin> set fds" "0 \<le> fresh_fd fds" by (auto simp del: upt_Suc)
qed

text \<open>The answer to a call: \<open>None\<close> for success, or the errno of the failure.\<close>

type_synonym answer = "nat option"

definition sys_socket :: "answer \<Rightarrow> net \<Rightarrow> int \<times> net" where
  "sys_socket a st = (case a of
     None \<Rightarrow> (fresh_fd (n_open st), st\<lparr>n_open := fresh_fd (n_open st) # n_open st\<rparr>)
   | Some e \<Rightarrow> (-1, st\<lparr>n_errno := e\<rparr>))"

definition sys_call :: "answer \<Rightarrow> net \<Rightarrow> int \<times> net" where
  "sys_call a st = (case a of None \<Rightarrow> (0, st) | Some e \<Rightarrow> (-1, st\<lparr>n_errno := e\<rparr>))"

definition sys_listen :: "answer \<Rightarrow> int \<Rightarrow> net \<Rightarrow> int \<times> net" where
  "sys_listen a fd st = (case a of
     None \<Rightarrow> (0, st\<lparr>n_listening := fd # n_listening st\<rparr>) | Some e \<Rightarrow> (-1, st\<lparr>n_errno := e\<rparr>))"

definition sys_close :: "int \<Rightarrow> net \<Rightarrow> net" where
  "sys_close fd st = st\<lparr>n_open := remove1 fd (n_open st)\<rparr>"

section \<open>The loops over the candidate addresses\<close>

text \<open>A candidate of \<open>getaddrinfo\<close> with the length of its address and the answers it will get.\<close>

record cand =
  ca_len :: nat
  ca_socket :: answer
  ca_opt :: answer
  ca_bind :: answer
  ca_listen :: answer
  ca_connect :: answer

datatype attempt = Next | Abort | Take int
datatype 'c walked = Exhausted | Aborted | Found 'c int

fun walk :: "('c \<Rightarrow> net \<Rightarrow> attempt \<times> net) \<Rightarrow> 'c list \<Rightarrow> net \<Rightarrow> 'c walked \<times> net" where
  "walk att [] st = (Exhausted, st)"
| "walk att (c # cs) st = (case att c st of
     (Next, st) \<Rightarrow> walk att cs st
   | (Abort, st) \<Rightarrow> (Aborted, st)
   | (Take fd, st) \<Rightarrow> (Found c fd, st))"

definition connect_attempt :: "cand \<Rightarrow> net \<Rightarrow> attempt \<times> net" where
  "connect_attempt c st =
     (let (sfd, st) = sys_socket (ca_socket c) st
      in if sfd = -1 then (Next, st)
         else let (r, st) = sys_call (ca_connect c) st
              in if r \<noteq> -1 then (Take sfd, st) else (Next, sys_close sfd st))"

definition inetConnect :: "int + cand list \<Rightarrow> net \<Rightarrow> int \<times> net" where
  "inetConnect gai st = (case gai of
     Inl s \<Rightarrow> (-1, st\<lparr>n_errno := ENOSYS\<rparr>)
   | Inr result \<Rightarrow> (case walk connect_attempt result st of
         (Found rp sfd, st) \<Rightarrow> (sfd, st) | (_, st) \<Rightarrow> (-1, st)))"

definition passive_attempt :: "bool \<Rightarrow> cand \<Rightarrow> net \<Rightarrow> attempt \<times> net" where
  "passive_attempt doListen c st =
     (let (sfd, st) = sys_socket (ca_socket c) st
      in if sfd = -1 then (Next, st)
         else let (r, st) = (if doListen then sys_call (ca_opt c) st else (0, st))
              in if doListen \<and> r = -1 then (Abort, sys_close sfd st)
                 else let (r, st) = sys_call (ca_bind c) st
                      in if r = 0 then (Take sfd, st) else (Next, sys_close sfd st))"

text \<open>The descriptor returned, and what \<open>addrlen\<close> points to afterwards, if anything.\<close>

definition inetPassiveSocket :: "int + cand list \<Rightarrow> nat option \<Rightarrow> bool \<Rightarrow> net \<Rightarrow> int \<times> nat option \<times> net" where
  "inetPassiveSocket gai addrlen doListen st = (case gai of
     Inl s \<Rightarrow> (-1, addrlen, st)
   | Inr result \<Rightarrow> (case walk (passive_attempt doListen) result st of
         (Aborted, st) \<Rightarrow> (-1, addrlen, st)
       | (Exhausted, st) \<Rightarrow> (-1, addrlen, st)
       | (Found rp sfd, st) \<Rightarrow>
           let (r, st) = (if doListen then sys_listen (ca_listen rp) sfd st else (0, st))
           in if doListen \<and> r = -1 then (-1, addrlen, st)
              else (sfd, map_option (\<lambda>_. ca_len rp) addrlen, st)))"

definition inetListen :: "int + cand list \<Rightarrow> nat option \<Rightarrow> net \<Rightarrow> int \<times> nat option \<times> net" where
  "inetListen gai addrlen st = inetPassiveSocket gai addrlen True st"

definition inetBind :: "int + cand list \<Rightarrow> nat option \<Rightarrow> net \<Rightarrow> int \<times> nat option \<times> net" where
  "inetBind gai addrlen st = inetPassiveSocket gai addrlen False st"

definition listening_attempt :: "cand \<Rightarrow> net \<Rightarrow> attempt \<times> net" where
  "listening_attempt c st =
     (let (sockfd, st) = sys_socket (ca_socket c) st
      in if sockfd \<ge> 0
         then let (r, st) = sys_call (ca_bind c) st
              in if r = 0 then (Take sockfd, snd (sys_listen (ca_listen c) sockfd st))
                 else (Next, sys_close sockfd st)
         else (Next, st))"

text \<open>
  The parameter \<open>port\<close> is a \<open>short\<close>; its decimal text is what \<open>getaddrinfo\<close> is asked for. The
  result of the last \<open>setsockopt\<close> is ignored.
\<close>

definition listening_service :: "int \<Rightarrow> string" where
  "listening_service port = show_int (c_short port)"

definition CreateListeningSocket :: "(string \<Rightarrow> int + cand list) \<Rightarrow> answer \<Rightarrow> int \<Rightarrow> net \<Rightarrow> (int \<times> net) cres" where
  "CreateListeningSocket gai opt port st = (case gai (listening_service port) of
     Inl ret \<Rightarrow> Inl Assert_Fail
   | Inr res \<Rightarrow> (case walk listening_attempt res st of
         (Found _ sockfd, st) \<Rightarrow> Inr (sockfd, snd (sys_call opt st))
       | (_, st) \<Rightarrow> Inr (-1, snd (sys_call opt st))))"

section \<open>The contract of an attempt\<close>

text \<open>
  An attempt takes the address and keeps exactly one new descriptor open, or leaves the
  descriptors as it found them and goes on or gives up.
\<close>

locale address_attempt =
  fixes attempt :: "cand \<Rightarrow> net \<Rightarrow> attempt \<times> net"
    and takes :: "cand \<Rightarrow> bool"
    and gives_up :: "cand \<Rightarrow> bool"
    and listens :: "cand \<Rightarrow> bool"
  assumes take_law: "takes c \<Longrightarrow> \<exists>st'. attempt c st = (Take (fresh_fd (n_open st)), st')
      \<and> n_open st' = fresh_fd (n_open st) # n_open st
      \<and> n_listening st' = (if listens c then fresh_fd (n_open st) # n_listening st else n_listening st)"
    and leave_law: "\<not> takes c \<Longrightarrow> \<exists>st'. attempt c st = (if gives_up c then Abort else Next, st')
      \<and> n_open st' = n_open st \<and> n_listening st' = n_listening st"
begin

lemma walk_first:
  "\<exists>st'. walk attempt cs st = (case find (\<lambda>c. takes c \<or> gives_up c) cs of
      None \<Rightarrow> (Exhausted, st')
    | Some c \<Rightarrow> if takes c then (Found c (fresh_fd (n_open st)), st') else (Aborted, st'))
    \<and> n_open st' = (case find (\<lambda>c. takes c \<or> gives_up c) cs of
        Some c \<Rightarrow> if takes c then fresh_fd (n_open st) # n_open st else n_open st | None \<Rightarrow> n_open st)
    \<and> n_listening st' = (case find (\<lambda>c. takes c \<or> gives_up c) cs of
        Some c \<Rightarrow> if takes c \<and> listens c then fresh_fd (n_open st) # n_listening st else n_listening st
      | None \<Rightarrow> n_listening st)"
proof (induction cs arbitrary: st)
  case Nil
  then show ?case by simp
next
  case (Cons c cs)
  show ?case
  proof (cases "takes c")
    case True
    with take_law [OF True, of st] show ?thesis by auto
  next
    case False
    then obtain st1 where s: "attempt c st = (if gives_up c then Abort else Next, st1)"
      "n_open st1 = n_open st" "n_listening st1 = n_listening st" using leave_law by blast
    show ?thesis
    proof (cases "gives_up c")
      case True
      with False s show ?thesis by simp
    next
      case nogive: False
      with False s(1) Cons.IH [of st1, unfolded s(2,3)] show ?thesis by simp
    qed
  qed
qed

end

lemmas sys_defs = sys_socket_def sys_call_def sys_listen_def sys_close_def

lemma find_SomeD: "find P xs = Some x \<Longrightarrow> P x"
  by (auto simp: find_Some_iff)

lemma fresh_ne: "fresh_fd fds \<noteq> -1"
  using fresh_fd(2) [of fds] by linarith

interpretation connecting: address_attempt connect_attempt
  "\<lambda>c. ca_socket c = None \<and> ca_connect c = None" "\<lambda>_. False" "\<lambda>_. False"
  by unfold_locales (auto simp: connect_attempt_def sys_defs fresh_ne split: option.splits)

interpretation binding: address_attempt "passive_attempt doListen"
  "\<lambda>c. ca_socket c = None \<and> (doListen \<longrightarrow> ca_opt c = None) \<and> ca_bind c = None"
  "\<lambda>c. ca_socket c = None \<and> doListen \<and> ca_opt c \<noteq> None" "\<lambda>_. False"
  by unfold_locales (auto simp: passive_attempt_def sys_defs fresh_ne Let_def split: option.splits)

interpretation listening: address_attempt listening_attempt
  "\<lambda>c. ca_socket c = None \<and> ca_bind c = None" "\<lambda>_. False" "\<lambda>c. ca_listen c = None"
  by unfold_locales (auto simp: listening_attempt_def sys_defs fresh_ne fresh_fd(2) Let_def split: option.splits)

section \<open>Properties of the address loops\<close>

text \<open>
  \<open>inetConnect\<close> connects the first candidate address that can be connected and returns its
  descriptor, the only one it leaves open; when there is none, or the addresses cannot be
  looked up (errno is then \<open>ENOSYS\<close>), it returns \<open>-1\<close> and every descriptor it opened is closed
  again.
\<close>

theorem inetConnect_outcome:
  "let (fd, st') = inetConnect gai st in
    case gai of Inl s \<Rightarrow> fd = -1 \<and> n_open st' = n_open st \<and> n_errno st' = 38
    | Inr cs \<Rightarrow> (case find (\<lambda>c. ca_socket c = None \<and> ca_connect c = None) cs of
        None \<Rightarrow> fd = -1 \<and> n_open st' = n_open st
      | Some c \<Rightarrow> 0 \<le> fd \<and> fd \<notin> set (n_open st) \<and> n_open st' = fd # n_open st)"
proof (cases gai)
  case (Inl s)
  then show ?thesis by (simp add: inetConnect_def)
next
  case (Inr cs)
  then show ?thesis using connecting.walk_first [of cs st] fresh_fd [of "n_open st"]
    by (auto simp: inetConnect_def split: option.splits dest!: find_SomeD)
qed

definition decides :: "bool \<Rightarrow> cand \<Rightarrow> bool" where
  "decides doListen c \<longleftrightarrow> ca_socket c = None \<and> (ca_bind c = None \<or> doListen \<and> ca_opt c \<noteq> None)"

lemma length_decimal: "n < 10 ^ k \<Longrightarrow> 0 < k \<Longrightarrow> length (decimal n) \<le> k"
proof (induction k arbitrary: n)
  case (Suc k)
  show ?case
  proof (cases "n < 10")
    case True
    then show ?thesis by (subst decimal.simps) simp
  next
    case False
    with Suc.prems have "n div 10 < 10 ^ k" "0 < k" by (auto intro: gr0I)
    with Suc.IH [of "n div 10"] False show ?thesis by (subst decimal.simps) simp
  qed
qed simp

lemma find_decides:
  "find (\<lambda>c. ca_socket c = None \<and> (doListen \<longrightarrow> ca_opt c = None) \<and> ca_bind c = None
      \<or> ca_socket c = None \<and> doListen \<and> ca_opt c \<noteq> None) cs = find (decides doListen) cs"
  by (rule arg_cong [of _ _ "\<lambda>P. find P cs"]) (auto simp: decides_def)

text \<open>
  \<open>inetListen\<close> and \<open>inetBind\<close>, exactly: the first candidate that gives a socket and then
  either refuses \<open>SO_REUSEADDR\<close> or can be bound decides. A refused option gives \<open>-1\<close> with the
  descriptor closed; a bound socket is returned, listening in the case of \<open>inetListen\<close>, with
  the address length stored; but when \<open>listen\<close> fails, \<open>-1\<close> is returned and the descriptor stays
  open.
\<close>

theorem inetPassiveSocket_outcome:
  "let (fd, len, st') = inetPassiveSocket (Inr cs) addrlen doListen st; new = fresh_fd (n_open st) in
    case find (decides doListen) cs of
      None \<Rightarrow> fd = -1 \<and> len = addrlen \<and> n_open st' = n_open st
    | Some c \<Rightarrow>
        if doListen \<and> ca_opt c \<noteq> None then fd = -1 \<and> len = addrlen \<and> n_open st' = n_open st
        else n_open st' = new # n_open st \<and>
          (if doListen \<and> ca_listen c \<noteq> None then fd = -1 \<and> len = addrlen
           else fd = new \<and> len = map_option (\<lambda>_. ca_len c) addrlen \<and> 
             n_listening st' = (if doListen then new # n_listening st else n_listening st))"
proof -
  note w = binding.walk_first [of doListen cs st, unfolded find_decides]
  show ?thesis
  proof (cases "find (decides doListen) cs")
    case None
    with w show ?thesis by (auto simp: inetPassiveSocket_def)
  next
    case (Some c)
    then have "decides doListen c" by (rule find_SomeD)
    with w Some show ?thesis
      by (cases doListen)
        (auto simp: inetPassiveSocket_def decides_def sys_listen_def Let_def fresh_ne split: option.splits)
  qed
qed

text \<open>
  \<open>CreateListeningSocket\<close> stops at an assertion when the address cannot be looked up, and
  otherwise returns a socket bound to the first candidate that can be bound, or \<open>-1\<close>, leaving
  no other descriptor open; the socket it returns is listening only if \<open>listen\<close> succeeded,
  which it does not check. The service it looks up is the port converted to a \<open>short\<close>: for the
  ports of the two servers, 50000 and 49152, it is a negative number.
\<close>

theorem CreateListeningSocket_outcome:
  "case gai (listening_service port) of
     Inl ret \<Rightarrow> CreateListeningSocket gai opt port st = Inl Assert_Fail
   | Inr cs \<Rightarrow> \<exists>fd st'. CreateListeningSocket gai opt port st = Inr (fd, st') \<and>
       (case find (\<lambda>c. ca_socket c = None \<and> ca_bind c = None) cs of
          None \<Rightarrow> fd = -1 \<and> n_open st' = n_open st \<and> n_listening st' = n_listening st
        | Some c \<Rightarrow> fd = fresh_fd (n_open st) \<and> n_open st' = fd # n_open st
            \<and> n_listening st' = (if ca_listen c = None then fd # n_listening st else n_listening st))"
proof (cases "gai (listening_service port)")
  case (Inl s)
  then show ?thesis by (simp add: CreateListeningSocket_def)
next
  case (Inr cs)
  have call: "n_open (snd (sys_call opt st)) = n_open st" "n_listening (snd (sys_call opt st)) = n_listening st" for st
    by (simp_all add: sys_call_def split: option.splits)
  show ?thesis using Inr listening.walk_first [of cs st]
    by (auto simp: CreateListeningSocket_def call split: option.splits dest: find_SomeD)
qed

text \<open>
  The port \<open>CreateListeningSocket\<close> asks for: the service text is the number of the port
  only up to 32767; above, a port is asked for as a negative number, and in every case the text
  fits the ten bytes of \<open>Serverservice\<close> with its terminating zero.
\<close>

theorem listening_service_wraps:
  assumes "0 \<le> port" and "port \<le> 65535"
  shows "listening_service port = show_int (if port \<le> 32767 then port else port - 65536)
    \<and> length (listening_service port) < 10"
proof -
  have eq: "c_short port = (if port \<le> 32767 then port else port - 65536)"
  proof (cases "port \<le> 32767")
    case True
    with assms show ?thesis by (simp add: c_short_def c_signed_def)
  next
    case False
    have "(port + 32768) mod 65536 = (port - 32768 + 65536) mod 65536" by (simp add: add.commute)
    also have "\<dots> = port - 32768" using assms False by (simp only: mod_add_self2 mod_pos_pos_trivial)
    finally show ?thesis using False by (simp add: c_short_def c_signed_def)
  qed
  have "length (decimal (nat port)) \<le> 5" "length (decimal (nat (65536 - port))) \<le> 5"
    using assms by (auto intro!: length_decimal)
  then show ?thesis using assms by (auto simp: listening_service_def eq show_int_def)
qed

theorem listening_service_wraps_witness:
  "listening_service 50000 = ''-15536'' \<and> listening_service 49152 = ''-16384''"
  using listening_service_wraps [of 50000] listening_service_wraps [of 49152]
  by (simp add: show_int_def decimal.simps digit_char_def char_of_def bit_0)

section \<open>Addresses\<close>

text \<open>
  A port in network byte order is the pair of its high and its low byte, an address the list of
  its bytes. Name lookups are arguments. A call of \<open>error\<close> with a status prints the message
  and ends the process.
\<close>

definition htons :: "u16 \<Rightarrow> byte \<times> byte" where
  "htons w = (ucast (drop_bit 8 w), ucast w)"

definition ntohs :: "byte \<times> byte \<Rightarrow> u16" where
  "ntohs p = or (push_bit 8 (ucast (fst p))) (ucast (snd p))"

record name_env =
  ne_aton :: "string \<Rightarrow> byte list option"
  ne_gethostbyname :: "string \<Rightarrow> byte list option"
  ne_getservbyname :: "string \<Rightarrow> string \<Rightarrow> (byte \<times> byte) option"

record sockaddr_in =
  sin_addr :: "byte list"
  sin_port :: "byte \<times> byte"

definition error_message :: "string \<Rightarrow> string \<Rightarrow> string" where
  "error_message msg arg = msg @ '': '' @ arg @ [CHR 10, CHR 10]"

definition host_address :: "name_env \<Rightarrow> string option \<Rightarrow> string + byte list" where
  "host_address env hname = (case hname of
     Some h \<Rightarrow> (case ne_aton env h of Some a \<Rightarrow> Inr a
       | None \<Rightarrow> (case ne_gethostbyname env h of None \<Rightarrow> Inl (error_message ''unknown host'' h) | Some a \<Rightarrow> Inr a))
   | None \<Rightarrow> Inr [0, 0, 0, 0])"

definition set_address :: "name_env \<Rightarrow> string option \<Rightarrow> string \<Rightarrow> string \<Rightarrow> string + sockaddr_in" where
  "set_address env hname sname protocol = (case host_address env hname of Inl out \<Rightarrow> Inl out
     | Inr a \<Rightarrow>
       let (v, endptr, _) = strtol 0 sname; port = c_short v
       in if endptr = [] then Inr \<lparr>sin_addr = a, sin_port = htons (word_of_int port)\<rparr>
          else (case ne_getservbyname env sname protocol of
              None \<Rightarrow> Inl (error_message ''unknown service'' sname)
            | Some p \<Rightarrow> Inr \<lparr>sin_addr = a, sin_port = p\<rparr>))"

text \<open>
  The four functions that open a socket for a host and a service. What the calls answer for the
  address that \<open>set_address\<close> computed is \<open>ask\<close>; a call that fails ends the process with a
  message.
\<close>

definition failed :: "string \<Rightarrow> net \<Rightarrow> (string + 'a) \<times> net" where
  "failed msg st = (Inl msg, st)"

definition tcp_client :: "name_env \<Rightarrow> (sockaddr_in \<Rightarrow> cand) \<Rightarrow> string option \<Rightarrow> string \<Rightarrow> net \<Rightarrow> (string + int) \<times> net" where
  "tcp_client env ask hname sname st = (case set_address env hname sname ''tcp'' of Inl out \<Rightarrow> (Inl out, st)
     | Inr peer \<Rightarrow>
       let c = ask peer; (s, st) = sys_socket (ca_socket c) st
       in if \<not> s \<ge> 0 then failed ''socket call failed'' st
          else let (r, st) = sys_call (ca_connect c) st
               in if r \<noteq> 0 then failed ''connect failed'' st else (Inr s, st))"

definition tcp_server :: "name_env \<Rightarrow> (sockaddr_in \<Rightarrow> cand) \<Rightarrow> string option \<Rightarrow> string \<Rightarrow> net \<Rightarrow> (string + int) \<times> net" where
  "tcp_server env ask hname sname st = (case set_address env hname sname ''tcp'' of Inl out \<Rightarrow> (Inl out, st)
     | Inr loc \<Rightarrow>
       let c = ask loc; (s, st) = sys_socket (ca_socket c) st
       in if \<not> s \<ge> 0 then failed ''socket call failed'' st
          else let (r, st) = sys_call (ca_opt c) st
          in if r \<noteq> 0 then failed ''setsockopt failed'' st
          else let (r, st) = sys_call (ca_bind c) st
          in if r \<noteq> 0 then failed ''bind failed'' st
          else let (r, st) = sys_listen (ca_listen c) s st
          in if r \<noteq> 0 then failed ''listen failed'' st else (Inr s, st))"

definition udp_client :: "name_env \<Rightarrow> (sockaddr_in \<Rightarrow> cand) \<Rightarrow> string option \<Rightarrow> string \<Rightarrow> net
    \<Rightarrow> (string + int \<times> sockaddr_in) \<times> net" where
  "udp_client env ask hname sname st = (case set_address env hname sname ''udp'' of Inl out \<Rightarrow> (Inl out, st)
     | Inr sap \<Rightarrow>
       let (s, st) = sys_socket (ca_socket (ask sap)) st
       in if \<not> s \<ge> 0 then failed ''socket call failed'' st else (Inr (s, sap), st))"

definition udp_server :: "name_env \<Rightarrow> (sockaddr_in \<Rightarrow> cand) \<Rightarrow> string option \<Rightarrow> string \<Rightarrow> net \<Rightarrow> (string + int) \<times> net" where
  "udp_server env ask hname sname st = (case set_address env hname sname ''udp'' of Inl out \<Rightarrow> (Inl out, st)
     | Inr loc \<Rightarrow>
       let c = ask loc; (s, st) = sys_socket (ca_socket c) st
       in if \<not> s \<ge> 0 then failed ''socket call failed'' st
          else let (r, st) = sys_call (ca_bind c) st
               in if r \<noteq> 0 then failed ''bind failed'' st else (Inr s, st))"

text \<open>
  \<open>inetAddressStr\<close> writes into a buffer of characters; \<open>snprintf\<close> stores at most \<open>n\<close> of them,
  the last one the terminating zero. The size of the buffer is an \<open>int\<close>, converted to
  \<open>size_t\<close> for \<open>snprintf\<close> and used as an index afterwards.
\<close>

definition snprintf :: "char list \<Rightarrow> nat \<Rightarrow> string \<Rightarrow> char list cres" where
  "snprintf buf n text =
     (if n = 0 then Inr buf
      else let out = take (n - 1) text @ [CHR 0x00]
           in if length out \<le> length buf then Inr (out @ drop (length out) buf) else Inl Out_Of_Bounds)"

definition inetAddressStr :: "(string \<times> string) option \<Rightarrow> char list \<Rightarrow> int \<Rightarrow> char list cres" where
  "inetAddressStr names addrStr addrStrLen =
     cbind (case names of
         Some (host, service) \<Rightarrow> snprintf addrStr (c_size addrStrLen) (''('' @ host @ '', '' @ service @ '')'')
       | None \<Rightarrow> snprintf addrStr (c_size addrStrLen) ''(?UNKNOWN?)'')
       (\<lambda>buf. aset buf (addrStrLen - 1) (CHR 0x00))"

definition c_text :: "char list \<Rightarrow> string" where
  "c_text buf = takeWhile (\<lambda>c. c \<noteq> CHR 0x00) buf"

section \<open>Properties of addresses\<close>

lemma ntohs_htons: "ntohs (htons w) = w"
  by (auto simp: bit_eq_iff ntohs_def htons_def bit_or_iff bit_push_bit_iff bit_ucast_iff bit_drop_bit_eq
      dest: bit_imp_le_length)

lemma word_c_short: "(word_of_int (c_short v) :: u16) = word_of_int v"
  unfolding c_short_def c_signed_def word_of_int_eq_iff take_bit_eq_mod by (simp add: mod_diff_left_eq)

lemma decimal_pos: "0 < n \<Longrightarrow> \<exists>d s. decimal n = digit_char d # s \<and> 0 < d \<and> d < 10"
proof (induction n rule: decimal.induct)
  case (1 n)
  show ?case
  proof (cases "n < 10")
    case True
    with 1(2) show ?thesis by (subst decimal.simps) auto
  next
    case False
    then have "0 < n div 10" by auto
    with 1(1) [OF False] obtain d s where "decimal (n div 10) = digit_char d # s" "0 < d" "d < 10" by blast
    with False show ?thesis by (subst decimal.simps) auto
  qed
qed

lemma strtol0_decimal:
  assumes "int n \<le> LONG_MAX"
  shows "strtol 0 (decimal n) = (int n, [], False)"
proof (cases "n = 0")
  case True
  have "digit_char 0 = CHR ''0''" by (simp add: digit_char_def char_of_def bit_0)
  then show ?thesis by (simp add: True decimal.simps [of 0] strtol_def is_space_def base_of_def is_digit_def
        digits_val_def digit_val_def)
next
  case False
  then obtain d s where d: "decimal n = digit_char d # s" "0 < d" "d < 10" using decimal_pos by blast
  have head: "\<not> is_space (digit_char d)" "digit_char d \<noteq> CHR ''-''" "digit_char d \<noteq> CHR ''+''"
    using decimal_head [of "digit_char d" n] by (simp_all add: d(1))
  have "digit_val (digit_char d) = Some d" by (rule digit_val_char [OF d(3)])
  then have zero: "digit_char d \<noteq> CHR ''0''" using d(2) by (auto simp: digit_val_def)
  then have "\<not> hex_prefix (decimal n)" by (cases "decimal n" rule: hex_prefix.cases) (auto simp: d(1))
  then have "base_of 0 (decimal n) = (10, decimal n)" using zero by (simp add: base_of_def d(1))
  moreover have "sign_of (dropWhile is_space (decimal n)) = (False, decimal n)" using head by (simp add: d(1))
  ultimately show ?thesis using assms by (simp add: strtol_def digits_val_decimal)
qed

text \<open>
  \<open>set_address\<close> on a port number: the address is the host's, and the port is the number
  modulo 65536, without an error for a number that is no port. A name that cannot be looked up
  ends the process whatever the port.
\<close>

theorem set_address_decimal:
  assumes "int n \<le> LONG_MAX"
  shows "case host_address env hname of
      Inl out \<Rightarrow> set_address env hname (decimal n) protocol = Inl out
    | Inr a \<Rightarrow> \<exists>sa. set_address env hname (decimal n) protocol = Inr sa \<and> sin_addr sa = a
        \<and> unat (ntohs (sin_port sa)) = n mod 65536"
proof -
  have "unat (ntohs (htons (word_of_int (c_short (int n))))) = n mod 65536"
    by (simp add: ntohs_htons word_c_short unat_of_nat)
  then show ?thesis
    by (simp add: set_address_def strtol0_decimal [OF assms] split: sum.splits)
qed

theorem set_address_decimal_witness:
  "\<exists>sa. set_address \<lparr>ne_aton = (\<lambda>_. None), ne_gethostbyname = (\<lambda>_. None), ne_getservbyname = (\<lambda>_ _. None)\<rparr>
      None (decimal 65616) ''tcp'' = Inr sa \<and> unat (ntohs (sin_port sa)) = 80"
  using set_address_decimal [of 65616 "\<lparr>ne_aton = (\<lambda>_. None), ne_gethostbyname = (\<lambda>_. None), ne_getservbyname = (\<lambda>_ _. None)\<rparr>" None "''tcp''"]
  by (auto simp: host_address_def)

definition address_text :: "(string \<times> string) option \<Rightarrow> string" where
  "address_text names = (case names of Some (host, service) \<Rightarrow> ''('' @ host @ '', '' @ service @ '')''
     | None \<Rightarrow> ''(?UNKNOWN?)'')"

lemma inetAddressStr_text:
  "inetAddressStr names buf n = cbind (snprintf buf (c_size n) (address_text names)) (\<lambda>b. aset b (n - 1) (CHR 0x00))"
  by (simp add: inetAddressStr_def address_text_def split: option.splits prod.splits)

lemma c_text_prefix: "CHR 0x00 \<notin> set xs \<Longrightarrow> c_text (xs @ CHR 0x00 # ys) = xs"
  by (induction xs) (auto simp: c_text_def)

lemma snprintf_terminated:
  assumes "CHR 0x00 \<notin> set text" and "0 < length buf"
  shows "\<exists>b. snprintf buf (length buf) text = Inr b \<and> length b = length buf
    \<and> c_text (b[length buf - 1 := CHR 0x00]) = take (length buf - 1) text"
proof -
  let ?n = "length buf" and ?t = "take (length buf - 1) text"
  let ?b = "?t @ [CHR 0x00] @ drop (Suc (length ?t)) buf"
  have len: "Suc (length ?t) \<le> ?n" using assms(2) by (cases buf) simp_all
  have clean: "CHR 0x00 \<notin> set ?t" using assms(1) by (meson in_set_takeD)
  have "\<exists>ys. ?b[?n - 1 := CHR 0x00] = ?t @ CHR 0x00 # ys"
    by (cases "?n - 1 < length ?t") (auto simp: list_update_append split: nat.splits)
  moreover have "snprintf buf ?n text = Inr ?b"
    using assms(2) len by (simp add: snprintf_def Let_def)
  ultimately show ?thesis using len c_text_prefix [OF clean] by auto
qed

text \<open>
  \<open>inetAddressStr\<close> with the size of its buffer: the buffer ends up holding the text
  \<open>(host, service)\<close>, or the text for an unknown address, cut to one less than the size, and is
  always terminated; but a buffer of size 0 is written at index \<open>-1\<close>.
\<close>

theorem inetAddressStr_terminates:
  assumes "CHR 0x00 \<notin> set (address_text names)" and "int (length buf) \<le> INT_MAX"
  shows "if buf = [] then inetAddressStr names buf 0 = Inl Out_Of_Bounds
    else \<exists>b. inetAddressStr names buf (int (length buf)) = Inr b \<and> length b = length buf
      \<and> c_text b = take (length buf - 1) (address_text names)"
proof (cases "buf = []")
  case True
  then show ?thesis by (simp add: inetAddressStr_text snprintf_def aset_def c_size_def)
next
  case False
  then obtain b where b: "snprintf buf (length buf) (address_text names) = Inr b" "length b = length buf"
    "c_text (b[length buf - 1 := CHR 0x00]) = take (length buf - 1) (address_text names)"
    using snprintf_terminated [OF assms(1), of buf] by auto
  have "nat (int (length buf) - 1) = length buf - 1" by simp
  then have "inetAddressStr names buf (int (length buf)) = Inr (b[length buf - 1 := CHR 0x00])"
    using b(1,2) assms(2) False by (simp add: inetAddressStr_text aset_def)
  with b False show ?thesis by simp
qed

theorem inetAddressStr_terminates_witness:
  "\<exists>b. inetAddressStr (Some (''::1'', ''80'')) (replicate 6 (CHR ''x'')) 6 = Inr b \<and> c_text b = ''(::1,''"
  using inetAddressStr_terminates [of "Some (''::1'', ''80'')" "replicate 6 (CHR ''x'')"]
  by (simp add: address_text_def) blast

text \<open>
  The four endpoints: each returns a socket exactly when the address can be computed and
  every call it makes on that address succeeds; the socket is then a new descriptor and the
  only one opened, and that of \<open>tcp_server\<close> is listening. Otherwise the process ends with a
  message.
\<close>

theorem endpoints_outcome:
  "(case tcp_client env ask hname sname st of
      (Inr fd, st') \<Rightarrow> \<exists>a. set_address env hname sname ''tcp'' = Inr a \<and> ca_socket (ask a) = None
        \<and> ca_connect (ask a) = None \<and> fd \<notin> set (n_open st) \<and> n_open st' = fd # n_open st
    | (Inl msg, _) \<Rightarrow> \<not> (\<exists>a. set_address env hname sname ''tcp'' = Inr a \<and> ca_socket (ask a) = None
        \<and> ca_connect (ask a) = None)) \<and>
   (case tcp_server env ask hname sname st of
      (Inr fd, st') \<Rightarrow> \<exists>a. set_address env hname sname ''tcp'' = Inr a \<and> ca_socket (ask a) = None
        \<and> ca_opt (ask a) = None \<and> ca_bind (ask a) = None \<and> ca_listen (ask a) = None
        \<and> fd \<notin> set (n_open st) \<and> n_open st' = fd # n_open st \<and> fd \<in> set (n_listening st')
    | (Inl msg, _) \<Rightarrow> \<not> (\<exists>a. set_address env hname sname ''tcp'' = Inr a \<and> ca_socket (ask a) = None
        \<and> ca_opt (ask a) = None \<and> ca_bind (ask a) = None \<and> ca_listen (ask a) = None)) \<and>
   (case udp_server env ask hname sname st of
      (Inr fd, st') \<Rightarrow> \<exists>a. set_address env hname sname ''udp'' = Inr a \<and> ca_socket (ask a) = None
        \<and> ca_bind (ask a) = None \<and> fd \<notin> set (n_open st) \<and> n_open st' = fd # n_open st
    | (Inl msg, _) \<Rightarrow> \<not> (\<exists>a. set_address env hname sname ''udp'' = Inr a \<and> ca_socket (ask a) = None
        \<and> ca_bind (ask a) = None)) \<and>
   (case udp_client env ask hname sname st of
      (Inr (fd, sap), st') \<Rightarrow> set_address env hname sname ''udp'' = Inr sap \<and> ca_socket (ask sap) = None
        \<and> fd \<notin> set (n_open st) \<and> n_open st' = fd # n_open st
    | (Inl msg, _) \<Rightarrow> \<not> (\<exists>a. set_address env hname sname ''udp'' = Inr a \<and> ca_socket (ask a) = None))"
  using fresh_fd [of "n_open st"]
  by (intro conjI) (auto simp: tcp_client_def tcp_server_def udp_server_def udp_client_def sys_defs
    failed_def Let_def split: sum.splits option.splits)

end
