(* ===== verification/ErrorFunctions.thy ===== *)
theory ErrorFunctions
  imports Prelude
begin

text \<open>
  The error reporting of \<open>lib/src/error_functions.c\<close> with the table of \<open>lib/inc/ename.c.inc\<close>.
  A process is what it has written, in order, what waits in the buffer of \<open>stdout\<close>, errno and
  the environment variable \<open>EF_DUMPCORE\<close>. A message is given as the text the format expands
  to; the text of \<open>strerror\<close> and the errno that the output calls leave are arguments.
\<close>

section \<open>The table of names\<close>

definition ename :: "string list" where
  "ename = [
     '''', ''EPERM'', ''ENOENT'', ''ESRCH'', ''EINTR'', ''EIO'', ''ENXIO'', ''E2BIG'', ''ENOEXEC'',
     ''EBADF'', ''ECHILD'', ''EAGAIN/EWOULDBLOCK'', ''ENOMEM'', ''EACCES'', ''EFAULT'', ''ENOTBLK'',
     ''EBUSY'', ''EEXIST'', ''EXDEV'', ''ENODEV'', ''ENOTDIR'', ''EISDIR'', ''EINVAL'', ''ENFILE'',
     ''EMFILE'', ''ENOTTY'', ''ETXTBSY'', ''EFBIG'', ''ENOSPC'', ''ESPIPE'', ''EROFS'', ''EMLINK'',
     ''EPIPE'', ''EDOM'', ''ERANGE'', ''EDEADLK/EDEADLOCK'', ''ENAMETOOLONG'', ''ENOLCK'',
     ''ENOSYS'', ''ENOTEMPTY'', ''ELOOP'', '''', ''ENOMSG'', ''EIDRM'', ''ECHRNG'', ''EL2NSYNC'',
     ''EL3HLT'', ''EL3RST'', ''ELNRNG'', ''EUNATCH'', ''ENOCSI'', ''EL2HLT'', ''EBADE'', ''EBADR'',
     ''EXFULL'', ''ENOANO'', ''EBADRQC'', ''EBADSLT'', '''', ''EBFONT'', ''ENOSTR'', ''ENODATA'',
     ''ETIME'', ''ENOSR'', ''ENONET'', ''ENOPKG'', ''EREMOTE'', ''ENOLINK'', ''EADV'', ''ESRMNT'',
     ''ECOMM'', ''EPROTO'', ''EMULTIHOP'', ''EDOTDOT'', ''EBADMSG'', ''EOVERFLOW'', ''ENOTUNIQ'',
     ''EBADFD'', ''EREMCHG'', ''ELIBACC'', ''ELIBBAD'', ''ELIBSCN'', ''ELIBMAX'', ''ELIBEXEC'',
     ''EILSEQ'', ''ERESTART'', ''ESTRPIPE'', ''EUSERS'', ''ENOTSOCK'', ''EDESTADDRREQ'',
     ''EMSGSIZE'', ''EPROTOTYPE'', ''ENOPROTOOPT'', ''EPROTONOSUPPORT'', ''ESOCKTNOSUPPORT'',
     ''EOPNOTSUPP/ENOTSUP'', ''EPFNOSUPPORT'', ''EAFNOSUPPORT'', ''EADDRINUSE'', ''EADDRNOTAVAIL'',
     ''ENETDOWN'', ''ENETUNREACH'', ''ENETRESET'', ''ECONNABORTED'', ''ECONNRESET'', ''ENOBUFS'',
     ''EISCONN'', ''ENOTCONN'', ''ESHUTDOWN'', ''ETOOMANYREFS'', ''ETIMEDOUT'', ''ECONNREFUSED'',
     ''EHOSTDOWN'', ''EHOSTUNREACH'', ''EALREADY'', ''EINPROGRESS'', ''ESTALE'', ''EUCLEAN'',
     ''ENOTNAM'', ''ENAVAIL'', ''EISNAM'', ''EREMOTEIO'', ''EDQUOT'', ''ENOMEDIUM'', ''EMEDIUMTYPE'',
     ''ECANCELED'', ''ENOKEY'', ''EKEYEXPIRED'', ''EKEYREVOKED'', ''EKEYREJECTED'', ''EOWNERDEAD'',
     ''ENOTRECOVERABLE'', ''ERFKILL'', ''EHWPOISON'']"

definition MAX_ENAME :: int where "MAX_ENAME = 133"

section \<open>Processes\<close>

datatype stream = Stdout | Stderr

record process =
  p_log :: "(stream \<times> string) list"
  p_pending :: string
  p_errno :: int
  p_dumpcore :: "string option"

datatype ending = Exited int | Killed_Abort

definition put_log :: "stream \<Rightarrow> string \<Rightarrow> process \<Rightarrow> process" where
  "put_log f text p = (if text = [] then p else p\<lparr>p_log := p_log p @ [(f, text)]\<rparr>)"

definition flush_stdout :: "process \<Rightarrow> process" where
  "flush_stdout p = (put_log Stdout (p_pending p) p)\<lparr>p_pending := []\<rparr>"

text \<open>\<open>exit\<close> flushes the buffers, \<open>_exit\<close> and \<open>abort\<close> lose what they hold.\<close>

definition terminate :: "bool \<Rightarrow> process \<Rightarrow> ending \<times> process" where
  "terminate useExit3 p =
     (case p_dumpcore p of
        Some (c # s) \<Rightarrow> (Killed_Abort, p\<lparr>p_pending := []\<rparr>)
      | _ \<Rightarrow> if useExit3 then (Exited 1, flush_stdout p) else (Exited 1, p\<lparr>p_pending := []\<rparr>))"

section \<open>Reports\<close>

definition BUF_SIZE :: nat where "BUF_SIZE = 500"

text \<open>What \<open>snprintf\<close> leaves in a buffer of \<open>n\<close> bytes.\<close>

definition snprint :: "nat \<Rightarrow> string \<Rightarrow> string" where
  "snprint n text = take (n - 1) text"

definition error_name :: "int \<Rightarrow> string cres" where
  "error_name err = (if err > 0 \<and> err \<le> MAX_ENAME then aget ename err else Inr ''?UNKNOWN?'')"

definition report :: "(int \<Rightarrow> string) \<Rightarrow> bool \<Rightarrow> int \<Rightarrow> string \<Rightarrow> string cres" where
  "report strerr useErr err text =
     (let userMsg = snprint BUF_SIZE text
      in cbind (if useErr then cbind (error_name err) (\<lambda>name.
                   Inr (snprint BUF_SIZE ('' ['' @ name @ '' '' @ strerr err @ '']'')))
                else Inr (snprint BUF_SIZE '':''))
         (\<lambda>errText. Inr (snprint BUF_SIZE (''ERROR'' @ errText @ '' '' @ userMsg @ [CHR 10]))))"

definition outputError :: "(int \<Rightarrow> string) \<Rightarrow> int \<Rightarrow> bool \<Rightarrow> int \<Rightarrow> bool \<Rightarrow> string \<Rightarrow> process \<Rightarrow> process cres" where
  "outputError strerr io_errno useErr err flushStdout text p =
     cbind (report strerr useErr err text) (\<lambda>buf.
       let p = (if flushStdout then flush_stdout p else p)
       in Inr ((put_log Stderr buf p)\<lparr>p_errno := io_errno\<rparr>))"

definition errMsg :: "(int \<Rightarrow> string) \<Rightarrow> int \<Rightarrow> string \<Rightarrow> process \<Rightarrow> process cres" where
  "errMsg strerr io_errno text p =
     (let savedErrno = p_errno p
      in cbind (outputError strerr io_errno True (p_errno p) True text p) (\<lambda>p. Inr (p\<lparr>p_errno := savedErrno\<rparr>)))"

definition errExit :: "(int \<Rightarrow> string) \<Rightarrow> int \<Rightarrow> string \<Rightarrow> process \<Rightarrow> (ending \<times> process) cres" where
  "errExit strerr io_errno text p =
     cbind (outputError strerr io_errno True (p_errno p) True text p) (\<lambda>p. Inr (terminate True p))"

definition err_exit :: "(int \<Rightarrow> string) \<Rightarrow> int \<Rightarrow> string \<Rightarrow> process \<Rightarrow> (ending \<times> process) cres" where
  "err_exit strerr io_errno text p =
     cbind (outputError strerr io_errno True (p_errno p) False text p) (\<lambda>p. Inr (terminate False p))"

definition errExitEN :: "(int \<Rightarrow> string) \<Rightarrow> int \<Rightarrow> int \<Rightarrow> string \<Rightarrow> process \<Rightarrow> (ending \<times> process) cres" where
  "errExitEN strerr io_errno errnum text p =
     cbind (outputError strerr io_errno True errnum True text p) (\<lambda>p. Inr (terminate True p))"

definition fatal :: "(int \<Rightarrow> string) \<Rightarrow> int \<Rightarrow> string \<Rightarrow> process \<Rightarrow> (ending \<times> process) cres" where
  "fatal strerr io_errno text p =
     cbind (outputError strerr io_errno False 0 True text p) (\<lambda>p. Inr (terminate True p))"

text \<open>The two usage messages are not cut, and end the process whatever \<open>EF_DUMPCORE\<close> says.\<close>

definition usageErr :: "string \<Rightarrow> process \<Rightarrow> ending \<times> process" where
  "usageErr text p = (Exited 1, put_log Stderr (''Usage: '' @ text) (flush_stdout p))"

definition cmdLineErr :: "string \<Rightarrow> process \<Rightarrow> ending \<times> process" where
  "cmdLineErr text p = (Exited 1, put_log Stderr (''Command-line usage error: '' @ text) (flush_stdout p))"

section \<open>Properties\<close>

lemma length_ename: "length ename = 134"
  by (simp add: ename_def)

text \<open>The report as it would be if the buffers had no bound.\<close>

definition full_report :: "(int \<Rightarrow> string) \<Rightarrow> bool \<Rightarrow> int \<Rightarrow> string \<Rightarrow> string" where
  "full_report strerr useErr err text =
     ''ERROR'' @ (if useErr then '' ['' @ (if 0 < err \<and> err \<le> 133 then ename ! nat err else ''?UNKNOWN?'')
        @ '' '' @ strerr err @ '']'' else '':'') @ '' '' @ text @ [CHR 10]"

lemma take_cut: "take n (xs @ take n ys @ zs) = take n (xs @ ys @ zs)"
  by (cases "length ys \<le> n") (auto simp: min_def)

lemma take_two_cuts: "take n (as @ take n es @ bs @ take n ts @ cs) = take n (as @ es @ bs @ ts @ cs)"
  using take_cut [of n as es "bs @ take n ts @ cs"] take_cut [of n "as @ es @ bs" ts cs] by simp

lemma report_full: "report strerr useErr err text = Inr (take 499 (full_report strerr useErr err text))"
proof -
  have "error_name err = Inr (if 0 < err \<and> err \<le> 133 then ename ! nat err else ''?UNKNOWN?'')"
    by (simp add: error_name_def aget_def length_ename MAX_ENAME_def)
  then have "report strerr useErr err text = Inr (take 499 (''ERROR'' @ take 499 (if useErr then '' ['' @
      (if 0 < err \<and> err \<le> 133 then ename ! nat err else ''?UNKNOWN?'') @ '' '' @ strerr err @ '']'' else '':'')
      @ '' '' @ take 499 text @ [CHR 10]))"
    by (cases useErr) (simp_all add: report_def snprint_def BUF_SIZE_def Let_def)
  then show ?thesis unfolding take_two_cuts full_report_def .
qed

lemma names_one_line: "CHR 10 \<notin> set (ename ! i)" if "i < 134"
proof -
  have "list_all (\<lambda>s. CHR 10 \<notin> set s) ename" by (simp add: ename_def)
  with that show ?thesis by (simp add: list_all_length length_ename)
qed

lemma full_report_body:
  assumes "CHR 10 \<notin> set text" and "CHR 10 \<notin> set (strerr err)"
  obtains body where "full_report strerr useErr err text = body @ [CHR 10]" "CHR 10 \<notin> set body"
proof -
  have "CHR 10 \<notin> set (ename ! nat err)" if "err \<le> 133" using that by (intro names_one_line) auto
  then show thesis
    using assms by (intro that [of "butlast (full_report strerr useErr err text)"])
      (auto simp: full_report_def butlast_append split: if_splits)
qed

text \<open>
  Every report is the text \<open>ERROR [NAME strerror] message\<close>, with a name from the table for
  every errno from 1 to 133 and without a fault for any other, cut to 499 characters; so it ends
  with its newline exactly when the whole text fits.
\<close>

theorem report_cut:
  assumes "CHR 10 \<notin> set text" and "CHR 10 \<notin> set (strerr err)"
  shows "\<exists>line. report strerr useErr err text = Inr line \<and> length line \<le> 499
    \<and> (\<exists>rest. line @ rest = full_report strerr useErr err text)
    \<and> (CHR 10 \<in> set line \<longleftrightarrow> line = full_report strerr useErr err text)"
proof -
  obtain body where b: "full_report strerr useErr err text = body @ [CHR 10]" "CHR 10 \<notin> set body"
    using assms by (rule full_report_body)
  let ?line = "take 499 (full_report strerr useErr err text)"
  have "CHR 10 \<in> set ?line \<longleftrightarrow> ?line = full_report strerr useErr err text"
  proof (cases "length body < 499")
    case False
    then have "?line = take 499 body" by (simp add: b(1))
    moreover have "CHR 10 \<notin> set (take 499 body)" using b(2) by (meson in_set_takeD)
    ultimately show ?thesis using False by (metis b(1) append_take_drop_id in_set_conv_decomp)
  qed (simp add: b(1))
  moreover have "?line @ drop 499 (full_report strerr useErr err text) = full_report strerr useErr err text"
    by (rule append_take_drop_id)
  moreover have "length ?line \<le> 499" by simp
  ultimately show ?thesis unfolding report_full by blast
qed

theorem report_cut_witness:
  "\<exists>line. report (\<lambda>_. ''Resource temporarily unavailable'') True 11 (replicate 500 (CHR ''x'')) = Inr line
    \<and> CHR 10 \<notin> set line"
proof -
  obtain line where l: "report (\<lambda>_. ''Resource temporarily unavailable'') True 11 (replicate 500 (CHR ''x'')) = Inr line"
    "length line \<le> 499" "CHR 10 \<in> set line \<longleftrightarrow> line = full_report (\<lambda>_. ''Resource temporarily unavailable'') True 11 (replicate 500 (CHR ''x''))"
    using report_cut [of "replicate 500 (CHR ''x'')" "\<lambda>_. ''Resource temporarily unavailable''" 11 True] by auto
  moreover have "500 < length (full_report (\<lambda>_. ''Resource temporarily unavailable'') True 11 (replicate 500 (CHR ''x'')))"
    by (simp add: full_report_def)
  ultimately show ?thesis by force
qed

definition waiting :: "process \<Rightarrow> (stream \<times> string) list" where
  "waiting p = (if p_pending p = [] then [] else [(Stdout, p_pending p)])"

definition end_of :: "process \<Rightarrow> ending" where
  "end_of p = (case p_dumpcore p of Some (c # s) \<Rightarrow> Killed_Abort | _ \<Rightarrow> Exited 1)"

lemma report_line: "\<exists>line. report strerr useErr err text = Inr line \<and> line \<noteq> []"
  by (simp add: report_full full_report_def)

lemma terminate_flushed: "p_pending p = [] \<Longrightarrow> terminate b p = (end_of p, p)"
  by (auto simp: terminate_def end_of_def flush_stdout_def put_log_def split: option.splits list.splits)

text \<open>For the callers: reports always succeed, and the functions that end the process end it as \<open>end_of\<close> says.\<close>

lemma outputError_flushed:
  obtains p' where "outputError strerr e useErr err True msg p = Inr p'" "p_pending p' = []" "end_of p' = end_of p"
proof -
  obtain line where l: "report strerr useErr err msg = Inr line" using report_line by blast
  show thesis
    by (rule that [of "(put_log Stderr line (flush_stdout p))\<lparr>p_errno := e\<rparr>"])
      (simp_all add: outputError_def l put_log_def flush_stdout_def end_of_def)
qed

lemma errExit_ends: "\<exists>p'. errExit strerr e msg p = Inr (end_of p, p')"
  using outputError_flushed [of strerr e True "p_errno p" msg p] terminate_flushed
  by (metis cbind_simps(2) errExit_def)

lemma fatal_ends: "\<exists>p'. fatal strerr e msg p = Inr (end_of p, p')"
  using outputError_flushed [of strerr e False 0 msg p] terminate_flushed
  by (metis cbind_simps(2) fatal_def)

lemma errMsg_returns: "\<exists>p'. errMsg strerr e msg p = Inr p' \<and> end_of p' = end_of p"
proof -
  obtain p' where "outputError strerr e True (p_errno p) True msg p = Inr p'" "end_of p' = end_of p"
    by (rule outputError_flushed)
  then show ?thesis by (simp add: errMsg_def Let_def end_of_def)
qed

lemma end_of_nonzero: "end_of p \<noteq> Exited 0"
  by (simp add: end_of_def split: option.splits list.splits)

text \<open>
  What each function leaves. \<open>errMsg\<close> returns with errno as it was. It and the functions that
  end the process write what waits in \<open>stdout\<close> first and the report after it, except \<open>err_exit\<close>,
  which writes the report only and loses what waits. With \<open>EF_DUMPCORE\<close> set to a nonempty text
  the process is aborted instead of exiting, but not by the two usage functions, which always
  exit with status 1.
\<close>

theorem error_functions_outcome:
  "\<exists>line. report strerr True (p_errno p) text = Inr line
    \<and> errMsg strerr e text p = Inr (p\<lparr>p_log := p_log p @ waiting p @ [(Stderr, line)], p_pending := []\<rparr>)
    \<and> errExit strerr e text p
        = Inr (end_of p, p\<lparr>p_log := p_log p @ waiting p @ [(Stderr, line)], p_pending := [], p_errno := e\<rparr>)
    \<and> err_exit strerr e text p
        = Inr (end_of p, p\<lparr>p_log := p_log p @ [(Stderr, line)], p_pending := [], p_errno := e\<rparr>)
    \<and> fst (usageErr text p) = Exited 1 \<and> fst (cmdLineErr text p) = Exited 1
    \<and> p_log (snd (usageErr text p)) = p_log p @ waiting p @ [(Stderr, ''Usage: '' @ text)]
    \<and> p_log (snd (cmdLineErr text p)) = p_log p @ waiting p @ [(Stderr, ''Command-line usage error: '' @ text)]"
proof -
  obtain line where l: "report strerr True (p_errno p) text = Inr line" "line \<noteq> []" using report_line by blast
  let ?p = "\<lambda>out. p\<lparr>p_log := p_log p @ out @ [(Stderr, line)], p_pending := [], p_errno := e\<rparr>"
  have fl: "(put_log Stderr line (flush_stdout p))\<lparr>p_errno := e\<rparr> = ?p (waiting p)"
    using l(2) by (simp add: put_log_def flush_stdout_def waiting_def)
  have out: "outputError strerr e True (p_errno p) True text p = Inr (?p (waiting p))"
    using fl by (simp add: outputError_def l(1) Let_def)
  have "terminate True (?p (waiting p)) = (end_of p, ?p (waiting p))"
    using terminate_flushed [of "?p (waiting p)" True] by (simp add: end_of_def)
  then have "errExit strerr e text p = Inr (end_of p, ?p (waiting p))" by (simp add: errExit_def out)
  moreover have "errMsg strerr e text p = Inr (p\<lparr>p_log := p_log p @ waiting p @ [(Stderr, line)], p_pending := []\<rparr>)"
    by (simp add: errMsg_def out Let_def)
  moreover have "terminate False ((put_log Stderr line p)\<lparr>p_errno := e\<rparr>) = (end_of p, ?p [])"
    using l(2) by (auto simp: terminate_def end_of_def put_log_def split: option.splits list.splits)
  then have "err_exit strerr e text p = Inr (end_of p, ?p [])"
    by (simp add: err_exit_def outputError_def l(1) Let_def)
  moreover have "p_log (snd (usageErr text p)) = p_log p @ waiting p @ [(Stderr, ''Usage: '' @ text)]"
    "p_log (snd (cmdLineErr text p)) = p_log p @ waiting p @ [(Stderr, ''Command-line usage error: '' @ text)]"
    by (simp_all add: usageErr_def cmdLineErr_def put_log_def flush_stdout_def waiting_def)
  ultimately show ?thesis using l(1) by (simp add: usageErr_def cmdLineErr_def)
qed

text \<open>
  The table of names covers exactly the numbers 0 to \<open>MAX_ENAME\<close>, and no name in it stands for
  two numbers.
\<close>

theorem ename_table:
  "int (length ename) = MAX_ENAME + 1 \<and> distinct (filter (\<lambda>n. n \<noteq> []) ename)
    \<and> ename ! 4 = ''EINTR'' \<and> ename ! 11 = ''EAGAIN/EWOULDBLOCK'' \<and> ename ! 32 = ''EPIPE''"
  by (simp add: ename_def MAX_ENAME_def)

end
