(* ===== verification/Heartbeat.thy ===== *)
theory Heartbeat
  imports Streams
begin

text \<open>
  The heartbeat client and server of \<open>sockapi/demo/heartBeat1\<close>, with time. What the peer does
  is a list of arrivals, each with the time that passes before it; after the last one the peer
  is silent. \<open>select\<close> waits for the next arrival at most as long as \<open>tv\<close> says and, as on Linux,
  leaves in \<open>tv\<close> the time that was not slept; times are in microseconds. Both loops share their
  structure: what they do on a timeout, and how they fill a message from several reads.
\<close>

section \<open>Messages and constants\<close>

definition MSG_TYPE1 :: u32 where "MSG_TYPE1 = 1"
definition MSG_TYPE2 :: u32 where "MSG_TYPE2 = 2"
definition MSG_HEARTBEAT :: u32 where "MSG_HEARTBEAT = 3"
definition T1 :: nat where "T1 = 60"
definition T2 :: nat where "T2 = 10"

lemmas hb_consts = MSG_TYPE1_def MSG_TYPE2_def MSG_HEARTBEAT_def T1_def T2_def

text \<open>A \<open>msg_t\<close> is its 2004 bytes, the first four the type in network byte order.\<close>

definition msg_size :: nat where "msg_size = 2004"

definition htonl :: "u32 \<Rightarrow> byte list" where
  "htonl w = [ucast (drop_bit 24 w), ucast (drop_bit 16 w), ucast (drop_bit 8 w), ucast w]"

definition ntohl :: "byte list \<Rightarrow> u32" where
  "ntohl bs = (case bs of a # b # c # d # _ \<Rightarrow>
       or (or (or (push_bit 24 (ucast a)) (push_bit 16 (ucast b))) (push_bit 8 (ucast c))) (ucast d)
     | _ \<Rightarrow> 0)"

section \<open>Time and select\<close>

datatype arrival = A_Data byte "byte list" | A_Eof | A_Err | A_Select_Err

type_synonym arrivals = "(nat \<times> arrival) list"

record hb =
  hb_tv :: nat               \<comment> \<open>microseconds\<close>
  hb_count :: int            \<comment> \<open>\<open>heartbeats\<close>, or \<open>missed_heartbeats\<close>\<close>
  hb_cnt :: nat              \<comment> \<open>bytes of the message still to come\<close>
  hb_msg :: "byte list"
  hb_time :: nat
  hb_sent :: "byte list list"
  hb_got :: "byte list list"

definition seconds :: "nat \<Rightarrow> nat" where
  "seconds n = n * 1000000"

text \<open>Setting \<open>tv.tv_sec\<close> leaves \<open>tv.tv_usec\<close> as it is.\<close>

definition set_sec :: "nat \<Rightarrow> hb \<Rightarrow> hb" where
  "set_sec n st = st\<lparr>hb_tv := seconds n + hb_tv st mod 1000000\<rparr>"

datatype hb_end =
    Connection_Dead | Peer_Terminated | Select_Failure | Recv_Failure | Send_Failure | Unknown_Type u32

datatype outcome = Stop hb_end hb | Go arrivals hb

text \<open>
  One call of \<open>select\<close> and what follows it; \<open>late\<close> is the branch for a timeout, \<open>full\<close> what is
  done with a complete message. Data that is not taken stays to be read at once.
\<close>

definition put_msg :: "byte list \<Rightarrow> nat \<Rightarrow> byte list \<Rightarrow> byte list" where
  "put_msg msg pos bs = take pos msg @ bs @ drop (pos + length bs) msg"

definition rest_arrivals :: "byte list \<Rightarrow> arrivals \<Rightarrow> arrivals" where
  "rest_arrivals bs arr = (case bs of [] \<Rightarrow> arr | b # bs' \<Rightarrow> (0, A_Data b bs') # arr)"

definition on_data :: "nat \<Rightarrow> (hb \<Rightarrow> hb + hb_end \<times> hb) \<Rightarrow> byte list \<Rightarrow> arrivals \<Rightarrow> hb \<Rightarrow> outcome" where
  "on_data idle full bs arr st =
     (let cnt = hb_cnt st; got = take cnt bs;
          st = st\<lparr>hb_msg := put_msg (hb_msg st) (msg_size - hb_cnt st) got, hb_count := 0\<rparr>;
          st = set_sec idle st;
          st = st\<lparr>hb_cnt := hb_cnt st - length got\<rparr>;
          arr = rest_arrivals (drop cnt bs) arr
      in if hb_cnt st > 0 then Go arr st
         else let st = st\<lparr>hb_cnt := msg_size\<rparr>
              in (case full st of Inl st \<Rightarrow> Go arr st | Inr (e, st) \<Rightarrow> Stop e st))"

definition iteration ::
    "nat \<Rightarrow> (hb \<Rightarrow> hb + hb_end \<times> hb) \<Rightarrow> (hb \<Rightarrow> hb + hb_end \<times> hb) \<Rightarrow> arrivals \<Rightarrow> hb \<Rightarrow> outcome" where
  "iteration idle late full arr st = (case arr of
     (gap, a) # rest \<Rightarrow>
       if gap \<le> hb_tv st
       then let st = st\<lparr>hb_time := hb_time st + gap, hb_tv := hb_tv st - gap\<rparr>
            in (case a of A_Eof \<Rightarrow> Stop Peer_Terminated st | A_Err \<Rightarrow> Stop Recv_Failure st | A_Select_Err \<Rightarrow> Stop Select_Failure st
                | A_Data b bs \<Rightarrow> on_data idle full (b # bs) rest st)
       else let st' = st\<lparr>hb_time := hb_time st + hb_tv st, hb_tv := 0\<rparr>
            in (case late st' of Inl st' \<Rightarrow> Go ((gap - hb_tv st, a) # rest) st' | Inr (e, st') \<Rightarrow> Stop e st')
   | [] \<Rightarrow>
       let st' = st\<lparr>hb_time := hb_time st + hb_tv st, hb_tv := 0\<rparr>
       in (case late st' of Inl st' \<Rightarrow> Go [] st' | Inr (e, st') \<Rightarrow> Stop e st'))"

section \<open>The client\<close>

text \<open>\<open>send_ok k\<close> says whether the \<open>k\<close>-th message can be sent. The heartbeat is built in \<open>msg\<close>.\<close>

definition send_msg :: "(nat \<Rightarrow> bool) \<Rightarrow> hb \<Rightarrow> hb + hb_end \<times> hb" where
  "send_msg send_ok st =
     (if send_ok (length (hb_sent st)) then Inl (st\<lparr>hb_sent := hb_sent st @ [hb_msg st]\<rparr>)
      else Inr (Send_Failure, st))"

definition client_late :: "(nat \<Rightarrow> bool) \<Rightarrow> hb \<Rightarrow> hb + hb_end \<times> hb" where
  "client_late send_ok st =
     (let st = st\<lparr>hb_count := hb_count st + 1\<rparr>
      in if hb_count st > 3 then Inr (Connection_Dead, st)
         else case send_msg send_ok (st\<lparr>hb_msg := put_msg (hb_msg st) 0 (htonl MSG_HEARTBEAT)\<rparr>) of
             Inr r \<Rightarrow> Inr r | Inl st \<Rightarrow> Inl (set_sec T2 st))"

definition client_full :: "hb \<Rightarrow> hb + hb_end \<times> hb" where
  "client_full st = Inl (st\<lparr>hb_got := hb_got st @ [hb_msg st]\<rparr>)"

definition hb_start :: "nat \<Rightarrow> byte list \<Rightarrow> hb" where
  "hb_start idle junk = \<lparr>hb_tv = seconds idle, hb_count = 0, hb_cnt = msg_size, hb_msg = junk, hb_time = 0,
     hb_sent = [], hb_got = []\<rparr>"

section \<open>The server\<close>

definition server_late :: "hb \<Rightarrow> hb + hb_end \<times> hb" where
  "server_late st =
     (let st = st\<lparr>hb_count := hb_count st + 1\<rparr>
      in if hb_count st > 3 then Inr (Connection_Dead, st) else Inl (set_sec T2 st))"

definition server_full :: "(nat \<Rightarrow> bool) \<Rightarrow> hb \<Rightarrow> hb + hb_end \<times> hb" where
  "server_full send_ok st =
     (let t = ntohl (hb_msg st); st' = st\<lparr>hb_got := hb_got st @ [hb_msg st]\<rparr>
      in if t = MSG_TYPE1 \<or> t = MSG_TYPE2 then Inl st'
         else if t = MSG_HEARTBEAT then send_msg send_ok st'
         else Inr (Unknown_Type t, st))"

partial_function (option) hb_loop ::
    "nat \<Rightarrow> (hb \<Rightarrow> hb + hb_end \<times> hb) \<Rightarrow> (hb \<Rightarrow> hb + hb_end \<times> hb) \<Rightarrow> arrivals \<Rightarrow> hb \<Rightarrow> (hb_end \<times> hb) option" where
  "hb_loop idle late full arr st = (case iteration idle late full arr st of
     Stop e st \<Rightarrow> Some (e, st) | Go arr st \<Rightarrow> hb_loop idle late full arr st)"

definition client_main :: "(nat \<Rightarrow> bool) \<Rightarrow> byte list \<Rightarrow> arrivals \<Rightarrow> (hb_end \<times> hb) option" where
  "client_main send_ok junk arr = hb_loop T1 (client_late send_ok) client_full arr (hb_start T1 junk)"

definition server_main :: "(nat \<Rightarrow> bool) \<Rightarrow> byte list \<Rightarrow> arrivals \<Rightarrow> (hb_end \<times> hb) option" where
  "server_main send_ok junk arr = hb_loop (T1 + T2) server_late (server_full send_ok) arr (hb_start (T1 + T2) junk)"

section \<open>What both loops do in time\<close>

fun weight :: "arrivals \<Rightarrow> nat" where
  "weight [] = 0"
| "weight ((gap, a) # rest) = Suc (case a of A_Data b bs \<Rightarrow> Suc (length bs) | _ \<Rightarrow> 0) + weight rest"

lemma weight_rest: "weight (rest_arrivals bs arr) \<le> Suc (length bs) + weight arr"
    "bs = [] \<Longrightarrow> weight (rest_arrivals bs arr) = weight arr"
  by (cases bs; simp add: rest_arrivals_def)+

text \<open>The arrivals as a stream, whether they end with the peer closing, and how long they let one wait.\<close>

fun bytes_of :: "arrivals \<Rightarrow> byte list" where
  "bytes_of ((_, A_Data b bs) # rest) = b # bs @ bytes_of rest"
| "bytes_of _ = []"

fun closes :: "arrivals \<Rightarrow> bool" where
  "closes [] \<longleftrightarrow> False"
| "closes ((_, a) # rest) \<longleftrightarrow> (case a of A_Data _ _ \<Rightarrow> closes rest | _ \<Rightarrow> True)"

fun in_time :: "nat \<Rightarrow> nat \<Rightarrow> arrivals \<Rightarrow> bool" where
  "in_time first later [] \<longleftrightarrow> True"
| "in_time first later ((gap, _) # rest) \<longleftrightarrow> gap \<le> first \<and> in_time later later rest"

lemma rest_arrivals_simps [simp]:
  "bytes_of (rest_arrivals bs arr) = bs @ bytes_of arr" "closes (rest_arrivals bs arr) = closes arr"
  by (cases bs; simp add: rest_arrivals_def)+

text \<open>The time at which the last arrival comes.\<close>

fun span :: "arrivals \<Rightarrow> nat" where
  "span [] = 0"
| "span ((gap, _) # rest) = gap + span rest"

lemma in_time_mono: "in_time p l arr \<Longrightarrow> p \<le> q \<Longrightarrow> in_time q l arr"
  by (cases arr) auto

lemma in_time_rest: "in_time l l arr \<Longrightarrow> in_time l l (rest_arrivals bs arr)"
  by (cases bs) (simp_all add: rest_arrivals_def)

text \<open>The ends that are not for the peer to cause.\<close>

definition own_fault :: "hb_end \<Rightarrow> bool" where
  "own_fault e \<longleftrightarrow> (case e of Send_Failure \<Rightarrow> True | Unknown_Type _ \<Rightarrow> True | _ \<Rightarrow> False)"

lemma own_fault_simps [simp]: "own_fault Send_Failure" "own_fault (Unknown_Type t)" "\<not> own_fault Connection_Dead"
  by (simp_all add: own_fault_def)

locale heartbeat =
  fixes idle :: nat
    and late :: "hb \<Rightarrow> hb + hb_end \<times> hb"
    and full :: "hb \<Rightarrow> hb + hb_end \<times> hb"
  assumes late_dead: "3 \<le> hb_count st \<Longrightarrow>
      \<exists>st'. late st = Inr (Connection_Dead, st') \<and> hb_time st' = hb_time st"
    and late_wait: "hb_count st < 3 \<Longrightarrow>
      (\<exists>st'. late st = Inl st' \<and> hb_count st' = hb_count st + 1 \<and> hb_tv st' = seconds T2 + hb_tv st mod 1000000
        \<and> hb_cnt st' = hb_cnt st \<and> hb_time st' = hb_time st) \<or> (\<exists>st'. late st = Inr (Send_Failure, st'))"
    and full_law: "case full st of
        Inl st' \<Rightarrow> hb_count st' = hb_count st \<and> hb_tv st' = hb_tv st \<and> hb_cnt st' = hb_cnt st \<and> hb_time st' = hb_time st
      | Inr (e, st') \<Rightarrow> own_fault e"
begin

text \<open>How long the loop will wait for the next arrival.\<close>

definition patience :: "hb \<Rightarrow> nat" where
  "patience st = hb_tv st + nat (3 - hb_count st) * seconds T2"

definition limit :: nat where
  "limit = seconds idle + 3 * seconds T2"

definition running :: "hb \<Rightarrow> bool" where
  "running st \<longleftrightarrow> 0 < hb_cnt st \<and> 0 \<le> hb_count st \<and> hb_count st \<le> 3"

lemma on_data_cases:
  assumes "running st" "bs \<noteq> []"
  obtains (Stop) e st' where "on_data idle full bs arr st = Stop e st'" "own_fault e"
  | (Go) st' where "on_data idle full bs arr st = Go (rest_arrivals (drop (hb_cnt st) bs) arr) st'"
      "running st'" "limit \<le> patience st'" "patience st' < limit + seconds 1" "hb_time st' = hb_time st"
proof -
  let ?got = "take (hb_cnt st) bs"
  let ?st = "(set_sec idle (st\<lparr>hb_msg := put_msg (hb_msg st) (msg_size - hb_cnt st) ?got, hb_count := 0\<rparr>))
     \<lparr>hb_cnt := hb_cnt st - length ?got\<rparr>"
  have run: "on_data idle full bs arr st = (if hb_cnt ?st > 0 then Go (rest_arrivals (drop (hb_cnt st) bs) arr) ?st
      else case full (?st\<lparr>hb_cnt := msg_size\<rparr>) of Inl st' \<Rightarrow> Go (rest_arrivals (drop (hb_cnt st) bs) arr) st'
        | Inr (e, st') \<Rightarrow> Stop e st')"
    by (simp add: on_data_def Let_def set_sec_def)
  have pat: "limit \<le> patience ?st" "patience ?st < limit + seconds 1" "hb_time ?st = hb_time st" "hb_count ?st = 0"
    by (simp_all add: limit_def patience_def set_sec_def seconds_def)
  show thesis
  proof (cases "hb_cnt ?st > 0")
    case True
    then show thesis using Go [of ?st] run pat by (simp add: running_def)
  next
    case False
    let ?st2 = "?st\<lparr>hb_cnt := msg_size\<rparr>"
    show thesis
    proof (cases "full ?st2")
      case (Inl st')
      then have "patience st' = patience ?st" "hb_time st' = hb_time ?st" "running st'"
        using full_law [of ?st2] pat(4) by (simp_all add: running_def patience_def msg_size_def)
      then show thesis using Go [of st'] run pat False Inl by simp
    next
      case (Inr r)
      then show thesis using Stop [of "fst r" "snd r"] run False full_law [of ?st2]
        by (cases r) simp
    qed
  qed
qed

text \<open>A wait that ends in a timeout.\<close>

definition waited :: "arrivals \<Rightarrow> nat \<Rightarrow> arrivals" where
  "waited arr tv = (case arr of [] \<Rightarrow> [] | (gap, a) # rest \<Rightarrow> (gap - tv, a) # rest)"

definition silent :: "arrivals \<Rightarrow> nat \<Rightarrow> bool" where
  "silent arr tv \<longleftrightarrow> (case arr of [] \<Rightarrow> True | (gap, a) # rest \<Rightarrow> tv < gap)"

lemma wait_cases:
  assumes "running st" "silent arr (hb_tv st)"
  obtains (Dead) st' where "iteration idle late full arr st = Stop Connection_Dead st'"
      "hb_count st = 3" "hb_time st' = hb_time st + hb_tv st"
  | (Fail) st' where "iteration idle late full arr st = Stop Send_Failure st'"
  | (Go) st' where "iteration idle late full arr st = Go (waited arr (hb_tv st)) st'" "running st'"
      "hb_count st < 3" "hb_count st' = hb_count st + 1" "hb_tv st' = seconds T2"
      "hb_time st' = hb_time st + hb_tv st"
proof -
  let ?st = "st\<lparr>hb_time := hb_time st + hb_tv st, hb_tv := 0\<rparr>"
  have it: "iteration idle late full arr st =
      (case late ?st of Inl st' \<Rightarrow> Go (waited arr (hb_tv st)) st' | Inr (e, st') \<Rightarrow> Stop e st')"
    using assms(2) by (cases arr) (auto simp: iteration_def silent_def waited_def Let_def split: sum.splits)
  show thesis
  proof (cases "hb_count st = 3")
    case True
    then show thesis using late_dead [of ?st] Dead it by auto
  next
    case False
    then have "hb_count ?st < 3" using assms(1) by (simp add: running_def)
    from late_wait [OF this] show thesis
      using Fail Go it assms(1) False by (auto simp: running_def)
  qed
qed

lemma hb_loop_Stop: "iteration idle late full arr st = Stop e st' \<Longrightarrow> hb_loop idle late full arr st = Some (e, st')"
  by (subst hb_loop.simps) simp

lemma hb_loop_Go: "iteration idle late full arr st = Go arr' st' \<Longrightarrow>
    hb_loop idle late full arr st = hb_loop idle late full arr' st'"
  by (subst hb_loop.simps) simp

lemma iteration_ready: "\<not> silent ((gap, a) # rest) (hb_tv st) \<Longrightarrow> iteration idle late full ((gap, a) # rest) st =
    (let st = st\<lparr>hb_time := hb_time st + gap, hb_tv := hb_tv st - gap\<rparr>
     in (case a of A_Eof \<Rightarrow> Stop Peer_Terminated st | A_Err \<Rightarrow> Stop Recv_Failure st | A_Select_Err \<Rightarrow> Stop Select_Failure st
         | A_Data b bs \<Rightarrow> on_data idle full (b # bs) rest st))"
  by (simp add: iteration_def silent_def)

definition rank :: "arrivals \<Rightarrow> hb \<Rightarrow> nat" where
  "rank arr st = 5 * weight arr + nat (4 - hb_count st)"

lemma waited_simps [simp]: "weight (waited arr t) = weight arr" "closes (waited arr t) = closes arr"
  by (auto simp: waited_def split: list.split arrival.split)

lemma waited_bytes [simp]: "bytes_of (waited arr t) = bytes_of arr"
  by (induction arr rule: bytes_of.induct) (simp_all add: waited_def)

lemma rank_wait: "hb_count st' = hb_count st + 1 \<Longrightarrow> hb_count st < 3 \<Longrightarrow> rank (waited arr t) st' < rank arr st"
  by (simp add: rank_def)

lemma rank_data: "running st \<Longrightarrow> running st' \<Longrightarrow>
    rank (rest_arrivals (drop (hb_cnt st) (b # bs)) arr) st' < rank ((gap, A_Data b bs) # arr) st"
proof -
  assume run: "running st" "running st'"
  then have "length (drop (hb_cnt st) (b # bs)) \<le> length bs"
    by (cases "hb_cnt st") (simp_all add: running_def)
  then have "weight (rest_arrivals (drop (hb_cnt st) (b # bs)) arr) \<le> Suc (length bs) + weight arr"
    using weight_rest(1) [of "drop (hb_cnt st) (b # bs)" arr] by linarith
  moreover have "nat (4 - hb_count st') < 5 + nat (4 - hb_count st)" using run by (simp add: running_def) linarith
  ultimately show ?thesis by (simp add: rank_def)
qed

text \<open>The three ways an iteration goes, and that every one that goes on makes progress.\<close>

lemma iteration_cases:
  assumes "running st"
  obtains (Data) gap b bs rest where "arr = (gap, A_Data b bs) # rest" "gap \<le> hb_tv st"
      "iteration idle late full arr st
        = on_data idle full (b # bs) rest (st\<lparr>hb_time := hb_time st + gap, hb_tv := hb_tv st - gap\<rparr>)"
  | (Ended) gap a rest e st' where "arr = (gap, a) # rest" "gap \<le> hb_tv st" "bytes_of arr = []" "closes arr"
      "iteration idle late full arr st = Stop e st'" "e \<noteq> Connection_Dead" "e \<noteq> Send_Failure" "hb_got st' = hb_got st"
      "hb_sent st' = hb_sent st"
  | (Wait) "silent arr (hb_tv st)"
proof (cases "silent arr (hb_tv st)")
  case False
  then obtain gap a rest where arr: "arr = (gap, a) # rest" and le: "gap \<le> hb_tv st"
    by (cases arr) (auto simp: silent_def)
  note it = iteration_ready [OF False [unfolded arr]]
  show thesis
  proof (cases a)
    case (A_Data b bs)
    then show thesis using Data [OF arr [unfolded A_Data] le] it arr by (simp add: Let_def)
  qed (use Ended [OF arr le] it arr in \<open>simp_all add: Let_def\<close>)
qed

lemma iteration_Go:
  assumes "running st" "iteration idle late full arr st = Go arr' st'"
  shows "running st' \<and> rank arr' st' < rank arr st"
  using assms(1)
proof (cases rule: iteration_cases [where arr = arr])
  case (Data gap b bs rest)
  let ?st = "st\<lparr>hb_time := hb_time st + gap, hb_tv := hb_tv st - gap\<rparr>"
  have run: "running ?st" using assms(1) by (simp add: running_def)
  show ?thesis using run list.distinct(2) [of b bs]
  proof (cases rule: on_data_cases [where arr = rest])
    case (Go st2)
    then have "arr' = rest_arrivals (drop (hb_cnt ?st) (b # bs)) rest" "st' = st2"
      using assms(2) Data(3) by simp_all
    then show ?thesis using rank_data [OF run, of st2 b bs rest gap] Go(2) Data(1)
      by (simp add: rank_def)
  qed (use assms(2) Data(3) in simp)
next
  case Wait
  show ?thesis using assms(1) Wait
  proof (cases rule: wait_cases)
    case (Go st2)
    then show ?thesis using assms(2) rank_wait by simp
  qed (use assms(2) in simp_all)
qed (use assms(2) in simp)

text \<open>The loop ends, and what every iteration that goes on preserves holds before the last one.\<close>

lemma loop_ends:
  assumes "running st" "P arr st"
    and step: "\<And>arr st arr' st'. running st \<Longrightarrow> P arr st \<Longrightarrow> iteration idle late full arr st = Go arr' st' \<Longrightarrow> P arr' st'"
  shows "\<exists>arr' st' e st''. hb_loop idle late full arr st = Some (e, st'') \<and> running st' \<and> P arr' st'
    \<and> iteration idle late full arr' st' = Stop e st''"
  using assms(1,2)
proof (induction "rank arr st" arbitrary: arr st rule: less_induct)
  case less
  show ?case
  proof (cases "iteration idle late full arr st")
    case (Stop e st'')
    then show ?thesis using less.prems hb_loop_Stop by blast
  next
    case (Go arr' st')
    then have "running st'" "rank arr' st' < rank arr st" "P arr' st'"
      using iteration_Go [OF less.prems(1) Go] step [OF less.prems Go] by auto
    from less.hyps [OF this(2,1,3)] show ?thesis unfolding hb_loop_Go [OF Go] .
  qed
qed

text \<open>
  The point in time at which a loop that started in time gives up: at most a second more than
  the limit after the last arrival.
\<close>

definition on_time :: "nat \<Rightarrow> bool \<Rightarrow> arrivals \<Rightarrow> hb \<Rightarrow> bool" where
  "on_time D c arr st \<longleftrightarrow> in_time (patience st) limit arr \<and> closes arr = c \<and>
     (if arr = [] then D \<le> hb_time st + patience st \<and> hb_time st + patience st < D + seconds 1
      else hb_time st + span arr + limit = D)"

lemma on_time_data:
  assumes "in_time p limit ((gap, A_Data b bs) # rest)" "limit \<le> patience st'" "patience st' < limit + seconds 1"
    and "hb_time st' + span rest + limit = D"
  shows "on_time D (closes rest) (rest_arrivals bs' rest) st'"
  using assms in_time_mono in_time_rest
  by (cases bs'; cases rest) (auto simp: on_time_def rest_arrivals_def)

lemma on_time_step:
  assumes "running st" "on_time D c arr st" "iteration idle late full arr st = Go arr' st'"
  shows "on_time D c arr' st'"
  using assms(1)
proof (cases rule: iteration_cases [where arr = arr])
  case (Data gap b bs rest)
  let ?st = "st\<lparr>hb_time := hb_time st + gap, hb_tv := hb_tv st - gap\<rparr>"
  have run: "running ?st" using assms(1) by (simp add: running_def)
  show ?thesis using run list.distinct(2) [of b bs]
  proof (cases rule: on_data_cases [where arr = rest])
    case (Go st2)
    then have "arr' = rest_arrivals (drop (hb_cnt ?st) (b # bs)) rest" "st' = st2"
      using assms(3) Data(3) by simp_all
    moreover have "in_time (patience st) limit ((gap, A_Data b bs) # rest)" "closes rest = c"
      "hb_time st2 + span rest + limit = D"
      using assms(2) Go(5) by (simp_all add: on_time_def Data(1))
    ultimately show ?thesis using on_time_data [OF _ Go(3,4)] by blast
  qed (use assms(3) Data(3) in simp)
next
  case Wait
  show ?thesis using assms(1) Wait
  proof (cases rule: wait_cases)
    case (Go st2)
    have "nat (3 - hb_count st) = Suc (nat (3 - hb_count st2))" using Go(3,4) by simp
    then have "patience st = hb_tv st + patience st2" by (simp add: patience_def Go(5))
    then show ?thesis
      using assms(2,3) Go(1,6) Wait by (cases arr) (auto simp: on_time_def waited_def silent_def)
  qed (use assms(3) in simp_all)
qed (use assms(3) in simp)

lemma alarm_exact:
  assumes "running st" "patience st = limit" "in_time limit limit arr"
  shows "\<exists>e st'. hb_loop idle late full arr st = Some (e, st') \<and>
    (if closes arr then e \<noteq> Connection_Dead
     else own_fault e \<or> e = Connection_Dead \<and> hb_time st + span arr + limit \<le> hb_time st' \<and>
       hb_time st' < hb_time st + span arr + limit + seconds 1)"
proof -
  let ?D = "hb_time st + span arr + limit"
  have start: "on_time ?D (closes arr) arr st" using assms by (auto simp: on_time_def seconds_def)
  have "\<exists>arr' st' e st''. hb_loop idle late full arr st = Some (e, st'') \<and> running st' \<and>
      on_time ?D (closes arr) arr' st' \<and> iteration idle late full arr' st' = Stop e st''"
    by (rule loop_ends [where P = "on_time (hb_time st + span arr + limit) (closes arr)", OF assms(1) start])
      (rule on_time_step)
  then obtain arr' st' e st'' where fin: "hb_loop idle late full arr st = Some (e, st'')" "running st'"
    "on_time ?D (closes arr) arr' st'" "iteration idle late full arr' st' = Stop e st''" by blast
  have "own_fault e \<or> (if closes arr then e \<noteq> Connection_Dead
      else e = Connection_Dead \<and> ?D \<le> hb_time st'' \<and> hb_time st'' < ?D + seconds 1)"
    using fin(2)
  proof (cases rule: iteration_cases [where arr = arr'])
    case (Data gap b bs rest)
    have "running (st'\<lparr>hb_time := hb_time st' + gap, hb_tv := hb_tv st' - gap\<rparr>)"
      using fin(2) by (simp add: running_def)
    then show ?thesis using list.distinct(2) [of b bs]
      by (cases rule: on_data_cases [where arr = rest]) (use fin(4) Data(3) in simp_all)
  next
    case Wait
    show ?thesis using fin(2) Wait
    proof (cases rule: wait_cases)
      case (Dead st2)
      then show ?thesis using fin(3,4) Wait
        by (cases arr') (auto simp: on_time_def patience_def silent_def)
    qed (use fin(4) in simp_all)
  qed (use fin(3,4) in \<open>simp add: on_time_def\<close>)
  with fin(1) show ?thesis by (auto split: if_splits)
qed

end

section \<open>The client and the server keep the contract\<close>

interpretation hc: heartbeat T1 "client_late send_ok" client_full for send_ok
  by unfold_locales
    (auto simp: client_late_def send_msg_def client_full_def set_sec_def Let_def split: sum.splits if_splits)

interpretation hs: heartbeat "T1 + T2" server_late "server_full send_ok" for send_ok
  by unfold_locales
    (auto simp: server_late_def server_full_def send_msg_def set_sec_def Let_def split: sum.splits if_splits)

lemma hb_limits: "hc.limit = seconds 90" "hs.limit = seconds 100"
  unfolding hc.limit_def hs.limit_def by (simp_all add: hb_consts seconds_def)

lemma hb_start_ok: "hc.running (hb_start idle junk)" "hs.running (hb_start idle junk)"
    "hc.patience (hb_start T1 junk) = hc.limit" "hs.patience (hb_start (T1 + T2) junk) = hs.limit"
    "hb_time (hb_start idle junk) = 0"
  by (simp_all add: hc.running_def hs.running_def hc.patience_def hs.patience_def hc.limit_def hs.limit_def
      hb_start_def msg_size_def)

lemma seconds_more: "seconds 90 + seconds 1 = seconds 91" "seconds 100 + seconds 1 = seconds 101"
  by (simp_all add: seconds_def)

text \<open>
  C36. Heartbeat client: if the server never lets it wait longer than 90 seconds (the idle time
  and three heartbeats, 60 + 3 * 10), the loop ends, and not because it takes the connection for
  dead when the server closes it or fails. If the server falls silent without closing, the
  client finds that out between 90 and 91 seconds after the last arrival, unless it could not
  send a heartbeat. The second comes from the microseconds that setting \<open>tv_sec\<close> leaves.
\<close>

theorem client_alarm:
  assumes "in_time (seconds 90) (seconds 90) arr"
  shows "\<exists>e st. client_main send_ok junk arr = Some (e, st) \<and>
    (if closes arr then e \<noteq> Connection_Dead
     else own_fault e \<or> e = Connection_Dead \<and> span arr + seconds 90 \<le> hb_time st \<and>
       hb_time st < span arr + seconds 91)"
  using hc.alarm_exact [OF hb_start_ok(1) [of T1 junk] hb_start_ok(3) assms [folded hb_limits(1)], of send_ok]
  unfolding client_main_def hb_limits hb_start_ok add_0 add.assoc seconds_more .

theorem client_alarm_witness:
  "\<exists>e st. client_main (\<lambda>_. True) [] [(1500000, A_Data 7 [8, 9])] = Some (e, st) \<and>
    (own_fault e \<or> e = Connection_Dead \<and> 91500000 \<le> hb_time st \<and> hb_time st < 92500000)"
  using client_alarm [of "[(1500000, A_Data 7 [8, 9])]" "\<lambda>_. True" "[]"] by (simp add: seconds_def)

text \<open>
  Heartbeat server: the same with 100 seconds, ten more than the client has, so that three
  heartbeats of the client can be missed.
\<close>

theorem server_alarm:
  assumes "in_time (seconds 100) (seconds 100) arr"
  shows "\<exists>e st. server_main send_ok junk arr = Some (e, st) \<and>
    (if closes arr then e \<noteq> Connection_Dead
     else own_fault e \<or> e = Connection_Dead \<and> span arr + seconds 100 \<le> hb_time st \<and>
       hb_time st < span arr + seconds 101)"
  using hs.alarm_exact [OF hb_start_ok(2) [of "T1 + T2" junk] hb_start_ok(4) assms [folded hb_limits(2)], of send_ok]
  unfolding server_main_def hb_limits hb_start_ok add_0 add.assoc seconds_more .

theorem server_alarm_witness:
  "\<exists>e st. server_main (\<lambda>_. True) [] [(99000000, A_Data 7 [8, 9]), (100000000, A_Eof)] = Some (e, st) \<and>
    e \<noteq> Connection_Dead"
  using server_alarm [of "[(99000000, A_Data 7 [8, 9]), (100000000, A_Eof)]" "\<lambda>_. True" "[]"]
  by (simp add: seconds_def)

section \<open>What is received\<close>

lemma put_msg_facts:
  assumes "pos + length bs \<le> length msg"
  shows "length (put_msg msg pos bs) = length msg" "take (pos + length bs) (put_msg msg pos bs) = take pos msg @ bs"
  using assms by (simp_all add: put_msg_def)

definition beat :: "byte list \<Rightarrow> bool" where
  "beat m \<longleftrightarrow> ntohl m = MSG_HEARTBEAT"

definition well_formed :: "byte list \<Rightarrow> bool" where
  "well_formed m \<longleftrightarrow> length m = msg_size \<and> ntohl m \<in> {MSG_TYPE1, MSG_TYPE2, MSG_HEARTBEAT}"

definition received :: "byte list \<Rightarrow> arrivals \<Rightarrow> hb \<Rightarrow> bool" where
  "received B arr st \<longleftrightarrow> length (hb_msg st) = msg_size \<and> hb_cnt st \<le> msg_size \<and>
     concat (hb_got st) @ take (msg_size - hb_cnt st) (hb_msg st) @ bytes_of arr = B \<and>
     hb_sent st = filter beat (hb_got st) \<and> (\<forall>m\<in>set (hb_got st). well_formed m)"

definition handed_over :: "byte list \<Rightarrow> hb_end \<Rightarrow> hb \<Rightarrow> bool" where
  "handed_over B e st \<longleftrightarrow> (\<forall>m\<in>set (hb_got st). well_formed m) \<and>
     hb_sent st = (if e = Send_Failure then butlast (filter beat (hb_got st)) else filter beat (hb_got st)) \<and>
     (\<exists>part. concat (hb_got st) @ part = B \<and> (e = Peer_Terminated \<longrightarrow> length part < msg_size))"

lemma server_full_received:
  assumes "length (hb_msg st) = msg_size" "hb_sent st = filter beat (hb_got st)"
    "\<forall>m\<in>set (hb_got st). well_formed m"
  shows "case server_full send_ok st of
      Inl st' \<Rightarrow> hb_got st' = hb_got st @ [hb_msg st] \<and> hb_sent st' = filter beat (hb_got st') \<and>
        (\<forall>m\<in>set (hb_got st'). well_formed m) \<and> hb_msg st' = hb_msg st \<and> hb_cnt st' = hb_cnt st
    | Inr (e, st') \<Rightarrow> hb_got st' = hb_got st \<and> e \<noteq> Send_Failure \<and> hb_sent st' = hb_sent st \<and> e \<noteq> Peer_Terminated
        \<or> e = Send_Failure \<and> hb_got st' = hb_got st @ [hb_msg st] \<and> beat (hb_msg st) \<and> well_formed (hb_msg st) \<and>
          hb_sent st' = hb_sent st"
  using assms by (auto simp: server_full_def send_msg_def beat_def well_formed_def hb_consts Let_def)

lemma server_data:
  assumes "received B ((gap, A_Data b bs) # rest) st" "0 < hb_cnt st"
  shows "case on_data idle (server_full send_ok) (b # bs) rest (st\<lparr>hb_time := t, hb_tv := v\<rparr>) of
      Go arr' st' \<Rightarrow> received B arr' st' | Stop e st' \<Rightarrow> handed_over B e st'"
proof -
  let ?n = "msg_size - hb_cnt st"
  let ?got = "take (hb_cnt st) (b # bs)"
  let ?msg = "put_msg (hb_msg st) ?n ?got"
  let ?st = "(set_sec idle (st\<lparr>hb_time := t, hb_tv := v, hb_msg := ?msg, hb_count := 0\<rparr>))\<lparr>hb_cnt := hb_cnt st - length ?got\<rparr>"
  note inv = assms(1) [unfolded received_def bytes_of.simps]
  have fits: "?n + length ?got \<le> length (hb_msg st)" using inv by simp
  note msg = put_msg_facts [OF fits]
  have "take (?n + length ?got) ?msg @ drop (hb_cnt st) (b # bs) = take ?n (hb_msg st) @ b # bs"
    by (simp only: msg(2) append.assoc append_take_drop_id)
  moreover have "concat (hb_got st) @ (take ?n (hb_msg st) @ b # bs) @ bytes_of rest = B" using inv by simp
  ultimately have all: "concat (hb_got st) @ take (?n + length ?got) ?msg @ drop (hb_cnt st) (b # bs) @ bytes_of rest = B"
    by (metis append.assoc)
  have on: "on_data idle (server_full send_ok) (b # bs) rest (st\<lparr>hb_time := t, hb_tv := v\<rparr>) =
      (let arr = rest_arrivals (drop (hb_cnt st) (b # bs)) rest in
       if hb_cnt ?st > 0 then Go arr ?st else
       case server_full send_ok (?st\<lparr>hb_cnt := msg_size\<rparr>) of Inl st \<Rightarrow> Go arr st | Inr (e, st) \<Rightarrow> Stop e st)"
    by (simp add: on_data_def Let_def set_sec_def)
  show ?thesis
  proof (cases "hb_cnt ?st > 0")
    case True
    have "msg_size - (c - l) = (msg_size - c) + l" if "l < c" "c \<le> msg_size" for c l using that by linarith
    then have "msg_size - hb_cnt ?st = ?n + length ?got" using True inv by (simp del: length_take)
    moreover have "hb_cnt ?st \<le> msg_size" using inv by (simp add: le_diff_conv)
    moreover have "on_data idle (server_full send_ok) (b # bs) rest (st\<lparr>hb_time := t, hb_tv := v\<rparr>) =
        Go (rest_arrivals (drop (hb_cnt st) (b # bs)) rest) ?st"
      using True on by (simp only: Let_def if_True)
    ultimately show ?thesis using inv msg(1) all by (simp add: received_def set_sec_def)
  next
    case False
    then have whole: "?n + length ?got = length ?msg" using inv msg(1) by simp
    then have "concat (hb_got st) @ ?msg @ drop (hb_cnt st) (b # bs) @ bytes_of rest = B" using all by simp
    with False show ?thesis using inv msg(1) server_full_received [of "?st\<lparr>hb_cnt := msg_size\<rparr>" send_ok]
      by (auto simp: on received_def handed_over_def set_sec_def Let_def split: sum.splits)
  qed
qed

lemma server_step:
  assumes "hs.running st" "received B arr st"
  shows "case iteration (T1 + T2) server_late (server_full send_ok) arr st of
      Go arr' st' \<Rightarrow> received B arr' st' | Stop e st' \<Rightarrow> handed_over B e st'"
  using assms(1)
proof (cases rule: hs.iteration_cases [where arr = arr and send_ok = send_ok])
  case (Data gap b bs rest)
  then show ?thesis using server_data [of B gap b bs rest st] assms by (simp add: hs.running_def)
next
  case (Ended gap a rest e st')
  then show ?thesis using assms by (auto simp: received_def handed_over_def hs.running_def msg_size_def)
next
  case Wait
  let ?st = "st\<lparr>hb_time := hb_time st + hb_tv st, hb_tv := 0\<rparr>"
  have it: "iteration (T1 + T2) server_late (server_full send_ok) arr st =
      (case server_late ?st of Inl st' \<Rightarrow> Go (hs.waited arr (hb_tv st)) st' | Inr (e, st') \<Rightarrow> Stop e st')"
    using Wait by (cases arr) (auto simp: iteration_def hs.silent_def hs.waited_def Let_def split: sum.splits)
  show ?thesis using assms(2) unfolding it
    by (auto simp: server_late_def set_sec_def received_def handed_over_def Let_def)
qed

text \<open>
  Heartbeat server: however the bytes of the client arrive - cut anywhere, at any time - the
  messages it processes are the first complete blocks of 2004 bytes, in order and each of a known
  type, and it sends back exactly the heartbeats among them; when the client closes, less than
  one message is left unprocessed.
\<close>

theorem server_hands_over:
  assumes "length junk = msg_size"
  shows "\<exists>e st. server_main send_ok junk arr = Some (e, st) \<and> handed_over (bytes_of arr) e st"
proof -
  have "received (bytes_of arr) arr (hb_start (T1 + T2) junk)"
    using assms by (simp add: received_def hb_start_def)
  from hs.loop_ends [where P = "received (bytes_of arr)" and send_ok = send_ok, OF hb_start_ok(2) this]
  obtain arr' st' e st'' where "server_main send_ok junk arr = Some (e, st'')" "hs.running st'"
    "received (bytes_of arr) arr' st'" "iteration (T1 + T2) server_late (server_full send_ok) arr' st' = Stop e st''"
    using server_step [of _ "bytes_of arr" _ send_ok] by (fastforce simp: server_main_def)
  then show ?thesis using server_step [of st' "bytes_of arr" arr' send_ok] by auto
qed

theorem server_hands_over_witness:
  "\<exists>e st. server_main (\<lambda>_. True) (replicate 2004 0) [(5, A_Data 0 [0, 0]), (100, A_Data 3 (replicate 2000 65)), (7, A_Eof)]
      = Some (e, st) \<and> handed_over ([0, 0, 0, 3] @ replicate 2000 65) e st"
  using server_hands_over [of "replicate 2004 0" "\<lambda>_. True"
      "[(5, A_Data 0 [0, 0]), (100, A_Data 3 (replicate 2000 65)), (7, A_Eof)]"]
  by (simp add: msg_size_def)

lemma on_data_whole:
  assumes "length bs = hb_cnt st"
  shows "on_data idle client_full bs arr st = (let msg = put_msg (hb_msg st) (msg_size - hb_cnt st) bs in
     Go arr ((set_sec idle st)\<lparr>hb_msg := msg, hb_count := 0, hb_cnt := msg_size, hb_got := hb_got st @ [msg]\<rparr>))"
  using assms by (simp add: on_data_def client_full_def rest_arrivals_def set_sec_def Let_def)

text \<open>
  The client builds its heartbeat in the buffer it is receiving into: if a message from the
  server arrives in two parts with a timeout between them, its first four bytes, the type, come
  out as those of a heartbeat, and the heartbeat sent carries the received part of the message.
\<close>

theorem client_beat_overwrites:
  assumes "length junk = msg_size" "length m = msg_size" "4 \<le> k" "k < msg_size"
  shows "\<exists>st. client_main (\<lambda>_. True) junk
      [(0, A_Data (m ! 0) (tl (take k m))), (seconds 61, A_Data (m ! k) (drop (Suc k) m)), (0, A_Eof)]
      = Some (Peer_Terminated, st) \<and>
    hb_got st = [htonl MSG_HEARTBEAT @ drop 4 m] \<and>
    hb_sent st = [htonl MSG_HEARTBEAT @ drop 4 (take k m) @ drop k junk]"
proof -
  have cut: "m ! 0 # tl (take k m) = take k m" "m ! k # drop (Suc k) m = drop k m"
    using assms by (cases m; cases k; simp add: Cons_nth_drop_Suc)+
  have four: "length (htonl MSG_HEARTBEAT) = 4" by (simp add: htonl_def)
  let ?arr1 = "[(seconds 61, A_Data (m ! k) (drop (Suc k) m)), (0, A_Eof)]"
  let ?arr2 = "[(seconds 1, A_Data (m ! k) (drop (Suc k) m)), (0, A_Eof)]"
  let ?m1 = "take k m @ drop k junk"
  let ?m2 = "htonl MSG_HEARTBEAT @ drop 4 ?m1"
  let ?st = "\<lambda>tv n cnt msg t sent got. \<lparr>hb_tv = seconds tv, hb_count = n, hb_cnt = cnt, hb_msg = msg,
      hb_time = seconds t, hb_sent = sent, hb_got = got\<rparr>"
  have 1: "iteration T1 (client_late (\<lambda>_. True)) client_full ((0, A_Data (m ! 0) (tl (take k m))) # ?arr1) (hb_start T1 junk)
      = Go ?arr1 (?st T1 0 (msg_size - k) ?m1 0 [] [])"
    using assms cut by (simp add: iteration_def on_data_def hb_start_def put_msg_def rest_arrivals_def set_sec_def
      seconds_def T1_def Let_def)
  have 2: "iteration T1 (client_late (\<lambda>_. True)) client_full ?arr1 (?st T1 0 (msg_size - k) ?m1 0 [] [])
      = Go ?arr2 (?st T2 1 (msg_size - k) ?m2 60 [?m2] [])"
    using four by (simp add: iteration_def client_late_def send_msg_def put_msg_def set_sec_def seconds_def T1_def T2_def Let_def)
  have m1: "drop 4 ?m1 = drop 4 (take k m) @ drop k junk" using assms by simp
  have "drop 4 (take k m) @ drop k m = drop 4 (take k m @ drop k m)" using assms by (simp del: append_take_drop_id)
  then have m2: "take k ?m2 @ drop k m = htonl MSG_HEARTBEAT @ drop 4 m" "drop msg_size ?m2 = []"
    using assms four unfolding m1 by simp_all
  have "put_msg ?m2 (msg_size - (msg_size - k)) (drop k m) = htonl MSG_HEARTBEAT @ drop 4 m"
    using m2 assms unfolding put_msg_def by (simp del: take_append drop_append)
  then have 3: "iteration T1 (client_late (\<lambda>_. True)) client_full ?arr2 (?st T2 1 (msg_size - k) ?m2 60 [?m2] [])
      = Go [(0, A_Eof)] (?st T1 0 msg_size (htonl MSG_HEARTBEAT @ drop 4 m) 61 [?m2] [htonl MSG_HEARTBEAT @ drop 4 m])"
    using assms(2) cut(2)
    by (simp add: iteration_def on_data_whole set_sec_def seconds_def T1_def T2_def Let_def del: take_append drop_append)
  have 4: "iteration T1 (client_late (\<lambda>_. True)) client_full [(0, A_Eof)]
        (?st T1 0 msg_size (htonl MSG_HEARTBEAT @ drop 4 m) 61 [?m2] [htonl MSG_HEARTBEAT @ drop 4 m])
      = Stop Peer_Terminated (?st T1 0 msg_size (htonl MSG_HEARTBEAT @ drop 4 m) 61 [?m2] [htonl MSG_HEARTBEAT @ drop 4 m])"
    by (simp add: iteration_def)
  show ?thesis
    unfolding client_main_def hc.hb_loop_Go [OF 1] hc.hb_loop_Go [OF 2] hc.hb_loop_Go [OF 3] hc.hb_loop_Stop [OF 4]
    using m1 by simp
qed

theorem client_beat_overwrites_witness:
  "\<exists>st. client_main (\<lambda>_. True) (replicate msg_size 0)
      [(0, A_Data 0 [0, 0, 1, 65]), (seconds 61, A_Data 66 (replicate 1998 67)), (0, A_Eof)]
      = Some (Peer_Terminated, st) \<and> hb_got st = [[0, 0, 0, 3, 65, 66] @ replicate 1998 67]"
  using client_beat_overwrites [of "replicate msg_size 0" "[0, 0, 0, 1, 65, 66] @ replicate 1998 67" 5]
  by (auto simp: msg_size_def htonl_def MSG_HEARTBEAT_def)

end
