(* ===== verification/Accounts.thy ===== *)
theory Accounts
  imports GetNum
begin

text \<open>
  Users and groups: the four look-ups of \<open>users_groups/src/ugid_functions.c\<close> and the program
  \<open>users_groups/src/check_password.c\<close>. The password and group databases, the shadow file, the
  terminal and \<open>crypt\<close> are arguments; a look-up that returns \<open>NULL\<close> is \<open>None\<close>.
\<close>

section \<open>Names and identifiers\<close>

record passwd =
  pw_name :: string
  pw_passwd :: string
  pw_uid :: u32

record group =
  gr_name :: string
  gr_gid :: u32

definition userNameFromId :: "(u32 \<Rightarrow> passwd option) \<Rightarrow> u32 \<Rightarrow> string option" where
  "userNameFromId getpwuid uid = map_option pw_name (getpwuid uid)"

text \<open>\<open>u\<close> is a \<open>uid_t\<close>: the \<open>long\<close> of \<open>strtol\<close> is reduced to its low 32 bits.\<close>

definition userIdFromName :: "(string \<Rightarrow> passwd option) \<Rightarrow> string option \<Rightarrow> u32" where
  "userIdFromName getpwnam name =
     (if name = None \<or> name = Some [] then -1
      else let (l, endptr, _) = strtol 10 (the name); u = word_of_int l
           in if endptr = [] then u
              else case getpwnam (the name) of None \<Rightarrow> -1 | Some pwd \<Rightarrow> pw_uid pwd)"

definition groupNameFromId :: "(u32 \<Rightarrow> group option) \<Rightarrow> u32 \<Rightarrow> string option" where
  "groupNameFromId getgrgid gid = map_option gr_name (getgrgid gid)"

definition groupIdFromName :: "(string \<Rightarrow> group option) \<Rightarrow> string option \<Rightarrow> u32" where
  "groupIdFromName getgrnam name =
     (if name = None \<or> name = Some [] then -1
      else let (l, endptr, _) = strtol 10 (the name); g = word_of_int l
           in if endptr = [] then g
              else case getgrnam (the name) of None \<Rightarrow> -1 | Some grp \<Rightarrow> gr_gid grp)"

text \<open>A name that is taken for a number, and the number.\<close>

definition numeric :: "string \<Rightarrow> bool" where
  "numeric s \<longleftrightarrow> fst (snd (strtol 10 s)) = []"

lemma numeric_show_int: "LONG_MIN \<le> i \<Longrightarrow> i \<le> LONG_MAX \<Longrightarrow> numeric (show_int i)"
  by (simp add: numeric_def strtol_show_int)

lemma show_int_ne [simp]: "show_int i \<noteq> []"
  by (simp add: show_int_def)

lemma userIdFromName_cases:
  "userIdFromName db (Some s) = (if s = [] then -1 else if numeric s then word_of_int (fst (strtol 10 s))
     else case db s of None \<Rightarrow> -1 | Some pwd \<Rightarrow> pw_uid pwd)"
  by (simp add: userIdFromName_def numeric_def case_prod_unfold)

lemma groupIdFromName_cases:
  "groupIdFromName db (Some s) = (if s = [] then -1 else if numeric s then word_of_int (fst (strtol 10 s))
     else case db s of None \<Rightarrow> -1 | Some grp \<Rightarrow> gr_gid grp)"
  by (simp add: groupIdFromName_def numeric_def case_prod_unfold)

text \<open>
  The decimal text of any \<open>long\<close> is accepted as a user identifier, without consulting the
  password database and reduced modulo \<open>2 ^ 32\<close>: every multiple of \<open>2 ^ 32\<close> names the super-user.
\<close>

theorem userIdFromName_number:
  assumes "LONG_MIN \<le> i" "i \<le> LONG_MAX"
  shows "userIdFromName db (Some (show_int i)) = word_of_int i \<and>
    uint (userIdFromName db (Some (show_int i))) = i mod 2 ^ 32 \<and>
    groupIdFromName gdb (Some (show_int i)) = word_of_int i"
  using assms numeric_show_int [OF assms]
  by (simp add: userIdFromName_cases groupIdFromName_cases strtol_show_int uint_word_of_int)

theorem userIdFromName_number_witness:
  "userIdFromName (\<lambda>_. Some \<lparr>pw_name = ''x'', pw_passwd = [], pw_uid = 7\<rparr>) (Some (show_int 4294967296)) = 0"
  using userIdFromName_number [of 4294967296 "\<lambda>_. Some \<lparr>pw_name = ''x'', pw_passwd = [], pw_uid = 7\<rparr>" "\<lambda>_. None"]
  by simp

text \<open>
  With a database in which each record is found under its own name, a user identifier
  survives the trip to its name and back, for users whose names are not numbers; a user with a
  numeric name is taken for the number.
\<close>

theorem user_id_roundtrip:
  assumes "\<And>u p. getpwuid u = Some p \<Longrightarrow> pw_uid p = u \<and> getpwnam (pw_name p) = Some p \<and> pw_name p \<noteq> []"
    and "userNameFromId getpwuid u = Some name"
  shows "userIdFromName getpwnam (Some name) = (if numeric name then word_of_int (fst (strtol 10 name)) else u)"
  using assms by (auto simp: userNameFromId_def userIdFromName_cases)

definition two_users :: "passwd list" where
  "two_users = [\<lparr>pw_name = ''root'', pw_passwd = ''x'', pw_uid = 0\<rparr>, \<lparr>pw_name = ''0'', pw_passwd = ''x'', pw_uid = 77\<rparr>]"

theorem user_id_roundtrip_witness:
  "userIdFromName (\<lambda>s. find (\<lambda>p. pw_name p = s) two_users) (Some ''root'') = 0 \<and>
   userIdFromName (\<lambda>s. find (\<lambda>p. pw_name p = s) two_users) (Some ''0'') = 0"
proof -
  let ?uid = "\<lambda>u. find (\<lambda>p. pw_uid p = u) two_users"
  let ?nam = "\<lambda>s. find (\<lambda>p. pw_name p = s) two_users"
  have db: "?uid u = Some p \<Longrightarrow> pw_uid p = u \<and> ?nam (pw_name p) = Some p \<and> pw_name p \<noteq> []" for u p
    by (auto simp: two_users_def split: if_splits)
  have "numeric ''0''" "fst (strtol 10 ''0'') = 0" "\<not> numeric ''root''"
    by (simp_all add: numeric_def strtol_def base_of_def is_digit_def digit_val_def is_space_def digits_val_def Let_def)
  then show ?thesis
    using user_id_roundtrip [where getpwuid = ?uid and getpwnam = ?nam and u = 0 and name = "''root''", OF db]
      user_id_roundtrip [where getpwuid = ?uid and getpwnam = ?nam and u = 77 and name = "''0''", OF db]
    by (simp add: userNameFromId_def two_users_def)
qed

section \<open>Checking a password\<close>

record auth_env =
  au_login_max :: int                        \<comment> \<open>\<open>sysconf(_SC_LOGIN_NAME_MAX)\<close>\<close>
  au_malloc :: "int \<Rightarrow> bool"
  au_stdin :: "string option"                \<comment> \<open>the next line with its newline; \<open>None\<close> at the end\<close>
  au_getpwnam :: "string \<Rightarrow> passwd option"
  au_getspnam :: "string \<Rightarrow> string option"     \<comment> \<open>\<open>sp_pwdp\<close>\<close>
  au_shadow_eacces :: bool
  au_getpass :: "string option"              \<comment> \<open>the password in memory, or \<open>NULL\<close>\<close>
  au_crypt :: "string \<Rightarrow> string \<Rightarrow> string option"

datatype auth =
    Malloc_Failed | End_Of_Input | No_Record | No_Permission
  | Crypt_Failed | Incorrect_Password | Authenticated u32

text \<open>The characters of a C string up to its first zero.\<close>

definition c_str :: "string \<Rightarrow> string" where
  "c_str s = takeWhile (\<lambda>c. c \<noteq> CHR 0x00) s"

definition fgets :: "int \<Rightarrow> string option \<Rightarrow> string option" where
  "fgets n stream = (case stream of None \<Rightarrow> None
     | Some line \<Rightarrow> if n \<le> 0 then None else Some (take (nat (n - 1)) line))"

text \<open>\<open>username[len-1]\<close> is outside the buffer when the line begins with a zero byte.\<close>

definition strip_newline :: "string \<Rightarrow> string cres" where
  "strip_newline u =
     (if u = [] then Inl Out_Of_Bounds else Inr (if last u = CHR 0x0A then butlast u else u))"

text \<open>\<open>for(p = password; *p != '\0'; ) *p++ = '\0';\<close>\<close>

fun erase :: "string \<Rightarrow> string" where
  "erase [] = []"
| "erase (c # cs) = (if c = CHR 0x00 then c # cs else CHR 0x00 # erase cs)"

text \<open>
  The outcome, and the characters of the clear-text password left in memory. When \<open>getpass\<close>
  has returned \<open>NULL\<close>, \<open>crypt\<close> and the loop that erases the password are given \<open>NULL\<close> to read.
\<close>

definition authenticate :: "auth_env \<Rightarrow> passwd \<Rightarrow> (auth \<times> string) cres" where
  "authenticate env pwd = (case au_getpass env of
     None \<Rightarrow> Inl Null_Deref
   | Some password \<Rightarrow>
     (let encrypted = au_crypt env (c_str password) (pw_passwd pwd);
          password = erase password
      in case encrypted of None \<Rightarrow> Inr (Crypt_Failed, password)
         | Some e \<Rightarrow> if e = pw_passwd pwd then Inr (Authenticated (pw_uid pwd), password)
                     else Inr (Incorrect_Password, password)))"

definition check_password :: "auth_env \<Rightarrow> (auth \<times> string) cres" where
  "check_password env =
     (let lnmax = (if au_login_max env = -1 then 256 else au_login_max env)
      in if \<not> au_malloc env lnmax then Inr (Malloc_Failed, [])
         else case fgets (c_int lnmax) (au_stdin env) of None \<Rightarrow> Inr (End_Of_Input, []) | Some line \<Rightarrow>
           cbind (strip_newline (c_str line)) (\<lambda>username.
             case au_getpwnam env username of None \<Rightarrow> Inr (No_Record, []) | Some pwd \<Rightarrow>
               (case au_getspnam env username of
                  None \<Rightarrow> if au_shadow_eacces env then Inr (No_Permission, []) else authenticate env pwd
                | Some sp \<Rightarrow> authenticate env (pwd\<lparr>pw_passwd := sp\<rparr>))))"

lemma c_str_Nil [simp]: "c_str [] = []"
  by (simp add: c_str_def)

lemma c_str_erase [simp]: "c_str (erase s) = []"
  by (cases s) (simp_all add: c_str_def)

text \<open>What the password is checked against.\<close>

definition stored :: "auth_env \<Rightarrow> string \<Rightarrow> passwd \<Rightarrow> string option" where
  "stored env user pwd = (case au_getspnam env user of Some sp \<Rightarrow> Some sp
     | None \<Rightarrow> if au_shadow_eacces env then None else Some (pw_passwd pwd))"

text \<open>The bytes of the password after the loop that erases it.\<close>

definition zeroed :: "string \<Rightarrow> string" where
  "zeroed p = replicate (length (c_str p)) (CHR 0x00) @ drop (length (c_str p)) p"

lemma erase_zeroed: "erase p = zeroed p"
  by (induction p) (simp_all add: zeroed_def c_str_def)

lemma authenticate_iff:
  "authenticate env pwd = Inr (Authenticated u, mem) \<longleftrightarrow> (\<exists>p. au_getpass env = Some p \<and>
     au_crypt env (c_str p) (pw_passwd pwd) = Some (pw_passwd pwd) \<and> u = pw_uid pwd \<and> mem = zeroed p)"
  by (auto simp: authenticate_def erase_zeroed Let_def split: option.splits)

lemma authenticate_fault: "authenticate env pwd = Inl f \<longleftrightarrow> au_getpass env = None \<and> f = Null_Deref"
  by (auto simp: authenticate_def Let_def split: option.splits)

text \<open>The size of the buffer for the name.\<close>

definition name_size :: "auth_env \<Rightarrow> int" where
  "name_size env = (if au_login_max env = -1 then 256 else au_login_max env)"

text \<open>The name that is looked up: the line without its newline, cut to what fits the buffer.\<close>

lemma name_read:
  assumes "CHR 0x00 \<notin> set user" "CHR 0x0A \<notin> set user" "2 \<le> n"
    and "nl = [CHR 0x0A] \<or> nl = [] \<and> user \<noteq> []"
  shows "strip_newline (c_str (take (nat (n - 1)) (user @ nl))) = Inr (take (nat (n - 1)) user)"
proof -
  let ?k = "nat (n - 1)"
  have "CHR 0x00 \<notin> set (take ?k (user @ nl))" using assms(1,4) by (auto dest: in_set_takeD)
  then have str: "c_str (take ?k (user @ nl)) = take ?k (user @ nl)"
    by (auto simp: c_str_def takeWhile_eq_all_conv)
  have k: "0 < ?k" using assms(3) by simp
  show ?thesis
  proof (cases "nl = [CHR 0x0A] \<and> length user < ?k")
    case True
    then have all: "take ?k (user @ nl) = user @ nl" "take ?k user = user" by (auto simp del: take_append)
    show ?thesis unfolding str unfolding all using True by (simp add: strip_newline_def)
  next
    case False
    then have cut: "take ?k (user @ nl) = take ?k user" using assms(4) by auto
    have ne: "take ?k user \<noteq> []" using False assms(4) k by auto
    then have "last (take ?k user) \<in> set user" by (meson in_set_takeD last_in_set)
    then have "last (take ?k user) \<noteq> CHR 0x0A" using assms(2) by auto
    then show ?thesis unfolding str unfolding cut using ne by (simp add: strip_newline_def)
  qed
qed

text \<open>
  C38. The program authenticates a user exactly when the buffer could be allocated, the line
  read names a user of the password database, the stored hash - the shadow one if there is one,
  and never the other when the shadow file may not be read - is what \<open>crypt\<close> makes of the
  password with it as the salt; the identifier it reports is that user's, and by then the
  clear-text password is all zeros. The name is the line without its newline (which the last
  line of a file need not have), cut to what fits the buffer of \<open>sysconf(_SC_LOGIN_NAME_MAX)\<close>
  bytes, or 256 if that is indeterminate. The only fault, for a line without zero bytes, is the
  \<open>NULL\<close> that \<open>getpass\<close> returns when there is no terminal, which is then read.
\<close>

theorem check_password_iff:
  assumes "au_stdin env = Some (user @ nl)" "nl = [CHR 0x0A] \<or> nl = [] \<and> user \<noteq> []"
    and "CHR 0x00 \<notin> set user" "CHR 0x0A \<notin> set user" "2 \<le> name_size env" "name_size env \<le> INT_MAX"
  shows "let name = take (nat (name_size env - 1)) user in
    (check_password env = Inr (Authenticated u, mem) \<longleftrightarrow>
      au_malloc env (name_size env) \<and> (\<exists>pwd h p. au_getpwnam env name = Some pwd \<and>
        stored env name pwd = Some h \<and> au_getpass env = Some p \<and> au_crypt env (c_str p) h = Some h \<and>
        u = pw_uid pwd \<and> mem = zeroed p)) \<and>
    (check_password env = Inl f \<longleftrightarrow> au_malloc env (name_size env) \<and> f = Null_Deref \<and>
      (\<exists>pwd h. au_getpwnam env name = Some pwd \<and> stored env name pwd = Some h \<and> au_getpass env = None))"
proof -
  let ?k = "nat (name_size env - 1)"
  have size: "(if au_login_max env = -1 then 256 else au_login_max env) = name_size env"
    by (simp add: name_size_def)
  have line: "fgets (c_int (name_size env)) (au_stdin env) = Some (take ?k (user @ nl))"
    using assms(1,5,6) by (simp add: fgets_def del: take_append)
  note name = name_read [OF assms(3,4,5,2)]
  show ?thesis
    unfolding check_password_def size line Let_def option.case name
    by (auto simp: authenticate_iff authenticate_fault stored_def split: option.splits)
qed

text \<open>On Linux the buffer has 256 bytes.\<close>

definition login :: auth_env where
  "login = \<lparr>au_login_max = 256, au_malloc = \<lambda>_. True, au_stdin = Some ''root\<newline>'',
     au_getpwnam = \<lambda>s. find (\<lambda>p. pw_name p = s) two_users, au_getspnam = \<lambda>s. if s = ''root'' then Some ''$1$abc'' else None,
     au_shadow_eacces = False, au_getpass = Some ''abc'', au_crypt = \<lambda>k salt. Some (take 3 salt @ k)\<rparr>"

theorem check_password_iff_witness:
  "check_password login = Inr (Authenticated 0, [CHR 0x00, CHR 0x00, CHR 0x00]) \<and>
   check_password (login\<lparr>au_getpass := None\<rparr>) = Inl Null_Deref"
  using check_password_iff [of login "''root''" "''\<newline>''" 0 "[CHR 0x00, CHR 0x00, CHR 0x00]"]
    check_password_iff [of "login\<lparr>au_getpass := None\<rparr>" "''root''" "''\<newline>''" 0 "[]" Null_Deref]
  by (simp add: login_def stored_def two_users_def numeral_3_eq_3 name_size_def zeroed_def c_str_def Let_def)

text \<open>
  Whatever happens - a failing \<open>crypt\<close> included - no character of the password survives the
  program, and it faults exactly when the line begins with a zero byte (or the buffer has
  no room for a character), so that \<open>username[len-1]\<close> is outside the buffer, or when \<open>getpass\<close>
  has returned \<open>NULL\<close>.
\<close>

theorem check_password_erases:
  "case check_password env of
     Inl f \<Rightarrow> f = Null_Deref \<and> au_getpass env = None \<or> f = Out_Of_Bounds \<and>
       (\<exists>line. fgets (c_int (name_size env)) (au_stdin env) = Some line \<and> c_str line = [])
   | Inr (r, mem) \<Rightarrow> c_str mem = []"
proof -
  have auth: "case authenticate env pwd of Inl f \<Rightarrow> f = Null_Deref \<and> au_getpass env = None
      | Inr (r, mem) \<Rightarrow> c_str mem = []" for pwd
    by (simp add: authenticate_def Let_def split: option.split)
  have size: "(if au_login_max env = -1 then 256 else au_login_max env) = name_size env"
    by (simp add: name_size_def)
  show ?thesis
  proof (cases "fgets (c_int (name_size env)) (au_stdin env)")
    case (Some line)
    have "case authenticate env pwd of Inl f \<Rightarrow> f = Null_Deref \<and> au_getpass env = None \<or> f = Out_Of_Bounds \<and> P
      | Inr (r, mem) \<Rightarrow> c_str mem = []" for pwd P
      using auth [of pwd] by (auto split: sum.splits)
    with Some show ?thesis unfolding check_password_def size
      by (cases "c_str line = []") (simp_all add: strip_newline_def Let_def split: option.split)
  qed (simp add: check_password_def size Let_def)
qed

end
