(* ===== verification/Uart.thy ===== *)
theory Uart
  imports Prelude
begin

text \<open>
  The serial port of \<open>serialPortapi/uart.c\<close>. The terminal's attributes are a \<open>termios\<close>; what
  \<open>open\<close>, \<open>tcgetattr\<close> and \<open>tcsetattr\<close> answer and what \<open>cfsetispeed\<close> and \<open>cfsetospeed\<close> make of the
  attributes are arguments. The flags have their Linux values.
\<close>

unbundle bit_operations_syntax

section \<open>Flags and attributes\<close>

definition flag :: "nat \<Rightarrow> u32" where
  "flag k = push_bit k 1"

definition INPCK :: u32 where "INPCK = flag 4"
definition IXON :: u32 where "IXON = flag 10"
definition IXANY :: u32 where "IXANY = flag 11"
definition IXOFF :: u32 where "IXOFF = flag 12"
definition OPOST :: u32 where "OPOST = flag 0"
definition CS5 :: u32 where "CS5 = 0"
definition CS6 :: u32 where "CS6 = flag 4"
definition CS7 :: u32 where "CS7 = flag 5"
definition CS8 :: u32 where "CS8 = flag 4 OR flag 5"
definition CSIZE :: u32 where "CSIZE = flag 4 OR flag 5"
definition CSTOPB :: u32 where "CSTOPB = flag 6"
definition CREAD :: u32 where "CREAD = flag 7"
definition PARENB :: u32 where "PARENB = flag 8"
definition PARODD :: u32 where "PARODD = flag 9"
definition CLOCAL :: u32 where "CLOCAL = flag 11"
definition CRTSCTS :: u32 where "CRTSCTS = flag 31"
definition ISIG :: u32 where "ISIG = flag 0"
definition ICANON :: u32 where "ICANON = flag 1"
definition ECHO :: u32 where "ECHO = flag 3"
definition ECHOE :: u32 where "ECHOE = flag 4"

lemmas termios_flags = INPCK_def IXON_def IXANY_def IXOFF_def OPOST_def CS5_def CS6_def CS7_def CS8_def CSIZE_def
  CSTOPB_def CREAD_def PARENB_def PARODD_def CLOCAL_def CRTSCTS_def ISIG_def ICANON_def ECHO_def ECHOE_def

lemma bit_flag: "bit (flag k) n \<longleftrightarrow> k = n \<and> n < 32"
  by (auto simp: flag_def bit_simps)

lemmas termios_bits = termios_flags bit_flag bit_and_iff bit_or_iff bit_not_iff_eq

record termios =
  c_iflag :: u32
  c_oflag :: u32
  c_cflag :: u32
  c_lflag :: u32
  c_vtime :: byte    \<comment> \<open>\<open>c_cc[VTIME]\<close>\<close>
  c_vmin :: byte     \<comment> \<open>\<open>c_cc[VMIN]\<close>\<close>
  c_speed :: "int \<times> int"

record uart_env =
  ua_open :: int
  ua_get :: int
  ua_ispeed :: "int \<Rightarrow> termios \<Rightarrow> termios"
  ua_ospeed :: "int \<Rightarrow> termios \<Rightarrow> termios"
  ua_set :: int

section \<open>The operations\<close>

definition open_uart :: "uart_env \<Rightarrow> int set \<Rightarrow> int \<times> int set" where
  "open_uart env fds = (let uartFd = ua_open env in if uartFd < 0 then (-1, fds) else (uartFd, insert uartFd fds))"

definition close_uart :: "int \<Rightarrow> int set \<Rightarrow> int set" where
  "close_uart uartFd fds = fds - {uartFd}"

definition set_flow :: "int \<Rightarrow> termios \<Rightarrow> termios" where
  "set_flow flowCtrl opt =
     (if flowCtrl = 0 then opt\<lparr>c_iflag := c_iflag opt AND NOT CRTSCTS\<rparr>
      else if flowCtrl = 1 then opt\<lparr>c_iflag := c_iflag opt OR CRTSCTS\<rparr>
      else if flowCtrl = 2 then opt\<lparr>c_iflag := c_iflag opt OR (IXON OR IXOFF OR IXANY)\<rparr>
      else opt)"

definition set_data_bits :: "int \<Rightarrow> termios \<Rightarrow> termios option" where
  "set_data_bits dataBits opt =
     (let opt = opt\<lparr>c_cflag := c_cflag opt AND NOT CSIZE\<rparr>
      in if dataBits = 5 then Some (opt\<lparr>c_cflag := c_cflag opt OR CS5\<rparr>)
         else if dataBits = 6 then Some (opt\<lparr>c_cflag := c_cflag opt OR CS6\<rparr>)
         else if dataBits = 7 then Some (opt\<lparr>c_cflag := c_cflag opt OR CS7\<rparr>)
         else if dataBits = 8 then Some (opt\<lparr>c_cflag := c_cflag opt OR CS8\<rparr>)
         else None)"

text \<open>The characters are their codes, as the \<open>int\<close> they are passed as.\<close>

definition ch :: "char \<Rightarrow> int" where "ch c = of_char c"

definition set_parity :: "int \<Rightarrow> termios \<Rightarrow> termios option" where
  "set_parity parity opt =
     (if parity = ch CHR ''n'' \<or> parity = ch CHR ''N''
      then Some (opt\<lparr>c_cflag := c_cflag opt AND NOT PARENB, c_iflag := c_iflag opt AND NOT INPCK\<rparr>)
      else if parity = ch CHR ''o'' \<or> parity = ch CHR ''O''
      then Some (opt\<lparr>c_cflag := c_cflag opt OR (PARODD OR PARENB), c_iflag := c_iflag opt OR INPCK\<rparr>)
      else if parity = ch CHR ''e'' \<or> parity = ch CHR ''E''
      then Some (opt\<lparr>c_cflag := (c_cflag opt OR PARENB) AND NOT PARODD, c_iflag := c_iflag opt OR INPCK\<rparr>)
      else if parity = ch CHR ''s'' \<or> parity = ch CHR ''S''
      then Some (opt\<lparr>c_cflag := c_cflag opt AND NOT PARENB\<rparr>)
      else None)"

definition set_stop_bits :: "int \<Rightarrow> termios \<Rightarrow> termios option" where
  "set_stop_bits stopBits opt =
     (if stopBits = 1 then Some (opt\<lparr>c_cflag := c_cflag opt AND NOT CSTOPB\<rparr>)
      else if stopBits = 2 then Some (opt\<lparr>c_cflag := c_cflag opt OR CSTOPB\<rparr>)
      else None)"

definition set_raw :: "uart_env \<Rightarrow> int \<Rightarrow> termios \<Rightarrow> termios" where
  "set_raw env bandRate opt =
     (let opt = ua_ispeed env bandRate opt; opt = ua_ospeed env bandRate opt;
          opt = opt\<lparr>c_cflag := c_cflag opt OR CLOCAL\<rparr>;
          opt = opt\<lparr>c_cflag := c_cflag opt OR CREAD\<rparr>;
          opt = opt\<lparr>c_oflag := c_oflag opt AND NOT OPOST\<rparr>
      in opt\<lparr>c_lflag := c_lflag opt AND NOT (ECHO OR ICANON OR ECHOE OR ISIG)\<rparr>)"

text \<open>The result, and the attributes the device has afterwards.\<close>

definition set_uart_attr ::
    "uart_env \<Rightarrow> int \<Rightarrow> int \<Rightarrow> int \<Rightarrow> int \<Rightarrow> int \<Rightarrow> termios \<Rightarrow> int \<times> termios" where
  "set_uart_attr env bandRate dataBits stopBits parity flowCtrl dev =
     (if ua_get env \<noteq> 0 then (-1, dev)
      else case set_data_bits dataBits (set_flow flowCtrl (set_raw env bandRate dev)) of None \<Rightarrow> (-1, dev) | Some opt \<Rightarrow>
        (case set_parity parity opt of None \<Rightarrow> (-1, dev) | Some opt \<Rightarrow>
          (case set_stop_bits stopBits opt of None \<Rightarrow> (-1, dev) | Some opt \<Rightarrow>
            let opt = opt\<lparr>c_vtime := 50\<rparr>; opt = opt\<lparr>c_vmin := 255\<rparr>
            in if ua_set env \<noteq> 0 then (-1, dev) else (0, opt))))"

section \<open>What the device is left with\<close>

text \<open>A frame, read back from the attributes as the driver reads them.\<close>

definition frame_data :: "termios \<Rightarrow> int" where
  "frame_data t = 5 + of_bool (bit (c_cflag t) 4) + 2 * of_bool (bit (c_cflag t) 5)"

definition frame_stop :: "termios \<Rightarrow> int" where
  "frame_stop t = 1 + of_bool (bit (c_cflag t) 6)"

datatype parity = No_Parity | Odd | Even

definition frame_parity :: "termios \<Rightarrow> parity" where
  "frame_parity t = (if \<not> bit (c_cflag t) 8 then No_Parity else if bit (c_cflag t) 9 then Odd else Even)"

definition raw_mode :: "termios \<Rightarrow> bool" where
  "raw_mode t \<longleftrightarrow> c_lflag t AND (ECHO OR ICANON OR ECHOE OR ISIG) = 0 \<and> c_oflag t AND OPOST = 0 \<and>
     bit (c_cflag t) 7 \<and> bit (c_cflag t) 11 \<and> c_vtime t = 50 \<and> c_vmin t = 255"

definition parity_of :: "int \<Rightarrow> parity option" where
  "parity_of p = (if p \<in> ch ` {CHR ''n'', CHR ''N'', CHR ''s'', CHR ''S''} then Some No_Parity
     else if p \<in> ch ` {CHR ''o'', CHR ''O''} then Some Odd
     else if p \<in> ch ` {CHR ''e'', CHR ''E''} then Some Even else None)"

definition same_bits :: "nat set \<Rightarrow> u32 \<Rightarrow> u32 \<Rightarrow> bool" where
  "same_bits S v w \<longleftrightarrow> (\<forall>n<32. n \<notin> S \<longrightarrow> bit v n = bit w n)"

lemma same_bitsD: "same_bits S v w \<Longrightarrow> n < 32 \<Longrightarrow> n \<notin> S \<Longrightarrow> bit v n = bit w n"
  by (simp add: same_bits_def)

definition keeps :: "termios \<Rightarrow> termios \<Rightarrow> bool" where
  "keeps t t' \<longleftrightarrow> c_oflag t = c_oflag t' \<and> c_lflag t = c_lflag t' \<and> c_speed t = c_speed t'"

lemma set_data_bits_spec:
  "case set_data_bits d opt of None \<Rightarrow> d \<notin> {5..8}
   | Some t \<Rightarrow> d \<in> {5..8} \<and> frame_data t = d \<and> keeps t opt \<and> c_iflag t = c_iflag opt \<and> same_bits {4, 5} (c_cflag t) (c_cflag opt)"
proof -
  have "d \<in> {5..8} \<Longrightarrow> d = 5 \<or> d = 6 \<or> d = 7 \<or> d = 8" for d :: int by auto
  then show ?thesis
    by (auto simp: set_data_bits_def Let_def frame_data_def same_bits_def keeps_def termios_bits)
qed

lemma set_stop_bits_spec:
  "case set_stop_bits d opt of None \<Rightarrow> d \<notin> {1, 2}
   | Some t \<Rightarrow> d \<in> {1, 2} \<and> frame_stop t = d \<and> keeps t opt \<and> c_iflag t = c_iflag opt \<and> same_bits {6} (c_cflag t) (c_cflag opt)"
  by (auto simp: set_stop_bits_def frame_stop_def same_bits_def keeps_def termios_bits)

lemma set_parity_spec:
  "case set_parity p opt of None \<Rightarrow> parity_of p = None
   | Some t \<Rightarrow> Some (frame_parity t) = parity_of p \<and>
       keeps t opt \<and>
       same_bits {8, 9} (c_cflag t) (c_cflag opt) \<and> same_bits {4} (c_iflag t) (c_iflag opt)"
  by (auto simp: set_parity_def parity_of_def ch_def frame_parity_def same_bits_def keeps_def termios_bits)

lemma set_flow_keeps: "c_cflag (set_flow f opt) = c_cflag opt" "keeps (set_flow f opt) opt"
  by (simp_all add: set_flow_def keeps_def)

lemma set_raw_c:
  "bit (c_cflag (set_raw env b dev)) 7" "bit (c_cflag (set_raw env b dev)) 11"
  by (simp_all add: set_raw_def Let_def termios_bits)

lemma and_not_and: "(x AND NOT m) AND m = (0::u32)"
  by (rule bit_eqI) (simp add: bit_and_iff bit_not_iff_eq)

lemma set_raw_fields:
  "c_lflag (set_raw env b dev) = c_lflag (ua_ospeed env b (ua_ispeed env b dev)) AND NOT (ECHO OR ICANON OR ECHOE OR ISIG)"
  "c_oflag (set_raw env b dev) = c_oflag (ua_ospeed env b (ua_ispeed env b dev)) AND NOT OPOST"
  "c_cflag (set_raw env b dev) = c_cflag (ua_ospeed env b (ua_ispeed env b dev)) OR (CLOCAL OR CREAD)"
  "c_iflag (set_raw env b dev) = c_iflag (ua_ospeed env b (ua_ispeed env b dev))"
  by (simp_all add: set_raw_def Let_def or.assoc)

lemma set_raw_off:
  "c_lflag (set_raw env b dev) AND (ECHO OR ICANON OR ECHOE OR ISIG) = 0" "c_oflag (set_raw env b dev) AND OPOST = 0"
  by (simp_all only: set_raw_fields and_not_and)

text \<open>What success means, in terms of the device's attributes before and after.\<close>

lemma set_uart_attr_cases:
  obtains (Set) opt where "set_uart_attr env b d s p f dev = (0, opt)" "ua_get env = 0" "ua_set env = 0"
      "d \<in> {5..8}" "s \<in> {1, 2}" "Some (frame_parity opt) = parity_of p" "frame_data opt = d" "frame_stop opt = s"
      "same_bits {4, 5, 6, 8, 9} (c_cflag opt) (c_cflag (set_raw env b dev))"
      "same_bits {4} (c_iflag opt) (c_iflag (set_flow f (set_raw env b dev)))"
      "keeps opt (set_raw env b dev)" "c_vtime opt = 50" "c_vmin opt = 255"
  | (Refused) "set_uart_attr env b d s p f dev = (-1, dev)"
      "ua_get env \<noteq> 0 \<or> ua_set env \<noteq> 0 \<or> d \<notin> {5..8} \<or> s \<notin> {1, 2} \<or> parity_of p = None"
proof -
  let ?opt = "set_flow f (set_raw env b dev)"
  consider (no) "ua_get env \<noteq> 0 \<or> set_data_bits d ?opt = None"
    | (nop) o1 where "ua_get env = 0" "set_data_bits d ?opt = Some o1" "set_parity p o1 = None"
    | (nos) o1 o2 where "ua_get env = 0" "set_data_bits d ?opt = Some o1" "set_parity p o1 = Some o2" "set_stop_bits s o2 = None"
    | (all) o1 o2 o3 where "ua_get env = 0" "set_data_bits d ?opt = Some o1" "set_parity p o1 = Some o2" "set_stop_bits s o2 = Some o3"
    by (cases "set_data_bits d ?opt"; fastforce)
  then show thesis
  proof cases
    case no
    then show thesis using set_data_bits_spec [of d ?opt] Refused by (auto simp: set_uart_attr_def)
  next
    case nop
    then show thesis using set_parity_spec [of p o1] Refused by (auto simp: set_uart_attr_def)
  next
    case nos
    then show thesis using set_stop_bits_spec [of s o2] Refused by (auto simp: set_uart_attr_def)
  next
    case all
    note 1 = set_data_bits_spec [of d ?opt, unfolded all(2) option.case]
    note 2 = set_parity_spec [of p o1, unfolded all(3) option.case]
    note 3 = set_stop_bits_spec [of s o2, unfolded all(4) option.case]
    let ?o = "o3\<lparr>c_vtime := 50, c_vmin := 255\<rparr>"
    have run: "set_uart_attr env b d s p f dev = (if ua_set env \<noteq> 0 then (-1, dev) else (0, ?o))"
      using all by (simp add: set_uart_attr_def Let_def)
    show thesis
    proof (cases "ua_set env = 0")
      case True
      have b2: "same_bits {4, 5} (c_cflag o1) (c_cflag ?opt)" "same_bits {8, 9} (c_cflag o2) (c_cflag o1)"
        "same_bits {6} (c_cflag o3) (c_cflag o2)" "same_bits {4} (c_iflag o2) (c_iflag o1)"
        using 1 2 3 by blast+
      have keep: "keeps ?o (set_raw env b dev)" "c_iflag o3 = c_iflag o2" "c_iflag o1 = c_iflag ?opt"
        using 1 2 3 set_flow_keeps(2) by (simp_all add: keeps_def)
      have "frame_data ?o = frame_data o1"
        using b2(2,3) [THEN same_bitsD, of 4] b2(2,3) [THEN same_bitsD, of 5] by (simp add: frame_data_def)
      moreover have "frame_parity ?o = frame_parity o2"
        using b2(3) [THEN same_bitsD, of 8] b2(3) [THEN same_bitsD, of 9] by (simp add: frame_parity_def)
      moreover have "same_bits {4, 5, 6, 8, 9} (c_cflag o3) (c_cflag (set_raw env b dev))"
        using b2(1-3) by (simp add: same_bits_def set_flow_keeps)
      ultimately show thesis
        using Set [of ?o] run True all(1) 1 2 3 b2(4) keep by (simp add: frame_stop_def)
    next
      case False
      then show thesis using run Refused by simp
    qed
  qed
qed

text \<open>
  \<open>set_uart_attr\<close> succeeds exactly for 5 to 8 data bits, one of the letters \<open>nNoOeEsS\<close> for
  parity and 1 or 2 stop bits, when the device's attributes can be read and written; it then
  leaves the device in raw mode with the frame asked for (space parity becomes none), and
  otherwise it returns \<open>-1\<close> with the device as it was.
\<close>

theorem set_uart_attr_frame:
  "case set_uart_attr env bandRate dataBits stopBits parity flowCtrl dev of (r, dev') \<Rightarrow>
     if ua_get env = 0 \<and> ua_set env = 0 \<and> dataBits \<in> {5..8} \<and> stopBits \<in> {1, 2} \<and> parity_of parity \<noteq> None
     then r = 0 \<and> frame_data dev' = dataBits \<and> frame_stop dev' = stopBits \<and>
       Some (frame_parity dev') = parity_of parity \<and> raw_mode dev'
     else r = -1 \<and> dev' = dev"
proof -
  show ?thesis
  proof (cases rule: set_uart_attr_cases [of env bandRate dataBits stopBits parity flowCtrl dev])
    case (Set opt)
    have "bit (c_cflag opt) 7" "bit (c_cflag opt) 11"
      using Set(9) [THEN same_bitsD, of 7] Set(9) [THEN same_bitsD, of 11] set_raw_c [where env = env] by simp_all
    then have "raw_mode opt"
      using Set(11-13) set_raw_off [of env bandRate dev] by (simp add: raw_mode_def keeps_def)
    then show ?thesis using Set(1-8) by (auto simp flip: Set(6))
  next
    case Refused
    then show ?thesis by auto
  qed
qed

text \<open>
  The flow control is not what it is called: \<open>CRTSCTS\<close> is a control flag but is set and
  cleared among the input flags, so asking for hardware flow control (1) or for none (0) leaves
  the device's \<open>CRTSCTS\<close> as it was and changes bit 31 of the input flags instead; asking for
  none or for hardware does not end the software flow control either.
\<close>

theorem flow_control_not_set:
  assumes "set_uart_attr env bandRate dataBits stopBits parity flowCtrl dev = (0, dev')" "flowCtrl \<in> {0, 1}"
  shows "let speeds = ua_ospeed env bandRate (ua_ispeed env bandRate dev) in
    bit (c_cflag dev') 31 = bit (c_cflag speeds) 31 \<and>
    (bit (c_iflag dev') 31 \<longleftrightarrow> flowCtrl = 1) \<and>
    (\<forall>n\<in>{10, 11, 12}. bit (c_iflag dev') n = bit (c_iflag speeds) n)"
proof (cases rule: set_uart_attr_cases [of env bandRate dataBits stopBits parity flowCtrl dev])
  case (Set opt)
  have opt: "opt = dev'" using Set(1) assms(1) by simp
  have "bit (c_iflag dev') n = bit (c_iflag (set_flow flowCtrl (set_raw env bandRate dev))) n" if "n < 32" "n \<noteq> 4" for n
    using Set(10) [THEN same_bitsD, of n] that by (simp add: opt)
  moreover have "bit (c_cflag dev') 31 = bit (c_cflag (set_raw env bandRate dev)) 31"
    using Set(9) [THEN same_bitsD, of 31] by (simp add: opt)
  ultimately show ?thesis
    using assms(2) by (auto simp: Let_def set_raw_fields set_flow_def termios_bits)
qed (use assms(1) in simp)

definition plain_uart :: uart_env where
  "plain_uart = \<lparr>ua_open = 3, ua_get = 0, ua_ispeed = \<lambda>b t. t\<lparr>c_speed := (b, snd (c_speed t))\<rparr>,
     ua_ospeed = \<lambda>b t. t\<lparr>c_speed := (fst (c_speed t), b)\<rparr>, ua_set = 0\<rparr>"

definition dev0 :: termios where
  "dev0 = \<lparr>c_iflag = IXON, c_oflag = 1, c_cflag = 0, c_lflag = 0, c_vtime = 0, c_vmin = 1, c_speed = (0, 0)\<rparr>"

theorem flow_control_not_set_witness:
  "\<not> bit (c_cflag (snd (set_uart_attr plain_uart 13 8 1 (ch CHR ''N'') 1 dev0))) 31 \<and>
   bit (c_iflag (snd (set_uart_attr plain_uart 13 8 1 (ch CHR ''N'') 1 dev0))) 31"
proof -
  obtain dev' where run: "set_uart_attr plain_uart 13 8 1 (ch CHR ''N'') 1 dev0 = (0, dev')"
    by (simp add: set_uart_attr_def plain_uart_def set_data_bits_def set_parity_def set_stop_bits_def Let_def)
  have "\<not> bit (c_cflag dev') 31 \<and> bit (c_iflag dev') 31"
    using flow_control_not_set [OF run] by (simp add: plain_uart_def dev0_def)
  then show ?thesis by (simp add: run)
qed

end
