(* ===== verification/Daemon.thy ===== *)
theory Daemon
  imports Prelude
begin

text \<open>
  \<open>becomeDaemon\<close> of \<open>daemonapi/src/becomeDaemon.c\<close>. A process is its identifier, session, umask,
  working directory and descriptor table. \<open>fork\<close> makes two processes of one, so the result is a
  list: what became of each process, the caller first. Which calls fail, the identifiers of the
  children and what \<open>sysconf\<close> answers are arguments.
\<close>

record proc =
  p_pid :: nat
  p_sid :: nat                     \<comment> \<open>its session, named after the session's leader\<close>
  p_umask :: nat
  p_cwd :: string
  p_fds :: "nat \<Rightarrow> string option"   \<comment> \<open>the open descriptors and what they refer to\<close>

record kernel =
  k_fork :: "nat option \<times> nat option"   \<comment> \<open>the child's identifier, for the two calls\<close>
  k_sysconf :: int              \<comment> \<open>a \<open>long\<close>; the code keeps it in an \<open>int\<close>\<close>
  k_open_null :: bool              \<comment> \<open>whether \<open>/dev/null\<close> can be opened\<close>
  k_dup_ok :: "nat \<Rightarrow> bool"
  k_limit :: nat                   \<comment> \<open>the number of descriptors a process may have\<close>
  k_chdir_ok :: bool

definition BD_NO_CHDIR :: u32 where "BD_NO_CHDIR = 1"
definition BD_NO_CLOSE_FILES :: u32 where "BD_NO_CLOSE_FILES = 2"
definition BD_NO_REOPEN_STD_FDS :: u32 where "BD_NO_REOPEN_STD_FDS = 4"
definition BD_NO_UMASK0 :: u32 where "BD_NO_UMASK0 = 8"
definition BD_MAX_CLOSE :: int where "BD_MAX_CLOSE = 8192"

lemmas bd_flags = BD_NO_CHDIR_def BD_NO_CLOSE_FILES_def BD_NO_REOPEN_STD_FDS_def BD_NO_UMASK0_def

datatype fate = Exit_Success | Returned int

type_synonym fates = "(fate \<times> proc) list"

section \<open>System calls\<close>

text \<open>\<open>setsid\<close> fails for a leader: of its session, and so of a process group, here.\<close>

definition sys_setsid :: "proc \<Rightarrow> proc option" where
  "sys_setsid p = (if p_sid p = p_pid p then None else Some (p\<lparr>p_sid := p_pid p\<rparr>))"

definition sys_close :: "nat \<Rightarrow> proc \<Rightarrow> proc" where
  "sys_close fd p = p\<lparr>p_fds := (p_fds p)(fd := None)\<rparr>"

definition sys_open_null :: "kernel \<Rightarrow> proc \<Rightarrow> int \<times> proc" where
  "sys_open_null k p = (case find (\<lambda>fd. p_fds p fd = None) [0..<k_limit k] of
     Some fd \<Rightarrow> if k_open_null k then (int fd, p\<lparr>p_fds := (p_fds p)(fd := Some ''/dev/null'')\<rparr>) else (-1, p)
   | None \<Rightarrow> (-1, p))"

definition sys_dup2 :: "kernel \<Rightarrow> nat \<Rightarrow> nat \<Rightarrow> proc \<Rightarrow> int \<times> proc" where
  "sys_dup2 k from to p = (if k_dup_ok k to \<and> p_fds p from \<noteq> None \<and> to < k_limit k
     then (int to, p\<lparr>p_fds := (p_fds p)(to := p_fds p from)\<rparr>) else (-1, p))"

section \<open>The code\<close>

fun close_all :: "nat list \<Rightarrow> proc \<Rightarrow> proc" where
  "close_all [] p = p"
| "close_all (fd # fds) p = close_all fds (sys_close fd p)"

definition reopen_std :: "kernel \<Rightarrow> proc \<Rightarrow> int \<times> proc" where
  "reopen_std k p =
     (let p = sys_close 0 p; (fd, p) = sys_open_null k p
      in if fd \<noteq> 0 then (-1, p)
         else let (r, p) = sys_dup2 k 0 1 p in if r \<noteq> 1 then (-1, p)
         else let (r, p) = sys_dup2 k 0 2 p in if r \<noteq> 2 then (-1, p)
         else (0, p))"

definition in_grandchild :: "kernel \<Rightarrow> u32 \<Rightarrow> proc \<Rightarrow> int \<times> proc" where
  "in_grandchild k flags p =
     (let p = (if and flags BD_NO_UMASK0 = 0 then p\<lparr>p_umask := 0\<rparr> else p);
          p = (if and flags BD_NO_CHDIR = 0 \<and> k_chdir_ok k then p\<lparr>p_cwd := ''/''\<rparr> else p);
          p = (if and flags BD_NO_CLOSE_FILES = 0
               then let maxfd = c_int (k_sysconf k); maxfd = (if maxfd = -1 then BD_MAX_CLOSE else maxfd)
                    in close_all [0..<nat maxfd] p
               else p)
      in if and flags BD_NO_REOPEN_STD_FDS = 0 then reopen_std k p else (0, p))"

definition becomeDaemon :: "kernel \<Rightarrow> u32 \<Rightarrow> proc \<Rightarrow> fates" where
  "becomeDaemon k flags p = (case fst (k_fork k) of
     None \<Rightarrow> [(Returned (-1), p)]
   | Some pid1 \<Rightarrow> (Exit_Success, p) #
       (case sys_setsid (p\<lparr>p_pid := pid1\<rparr>) of
          None \<Rightarrow> [(Returned (-1), p\<lparr>p_pid := pid1\<rparr>)]
        | Some c \<Rightarrow> (case snd (k_fork k) of
            None \<Rightarrow> [(Returned (-1), c)]
          | Some pid2 \<Rightarrow> [(Exit_Success, c),
              (let (r, d) = in_grandchild k flags (c\<lparr>p_pid := pid2\<rparr>) in (Returned r, d))])))"

section \<open>What the daemon is\<close>

lemma close_all_simps [simp]: "p_pid (close_all fds p) = p_pid p" "p_sid (close_all fds p) = p_sid p"
    "p_umask (close_all fds p) = p_umask p" "p_cwd (close_all fds p) = p_cwd p"
    "p_fds (close_all fds p) fd = (if fd \<in> set fds then None else p_fds p fd)"
  by (induction fds p rule: close_all.induct) (auto simp: sys_close_def)

lemma find_first_free: "p 0 \<Longrightarrow> 0 < n \<Longrightarrow> find p [0..<n] = Some 0"
  by (simp add: upt_rec)

lemma reopen_std_cases:
  assumes "3 \<le> k_limit k"
  shows "let (r, q) = reopen_std k p in
    p_pid q = p_pid p \<and> p_sid q = p_sid p \<and> p_umask q = p_umask p \<and> p_cwd q = p_cwd p \<and>
    (if k_open_null k \<and> k_dup_ok k 1 \<and> k_dup_ok k 2
     then r = 0 \<and> p_fds q = (p_fds p)(0 := Some ''/dev/null'', 1 := Some ''/dev/null'', 2 := Some ''/dev/null'')
     else r = -1)"
  using assms
  by (auto simp: reopen_std_def sys_open_null_def sys_close_def sys_dup2_def find_first_free Let_def
      split: option.split)

text \<open>The descriptor table the daemon ends up with.\<close>

definition closes_up_to :: "kernel \<Rightarrow> u32 \<Rightarrow> nat" where
  "closes_up_to k flags = (if and flags BD_NO_CLOSE_FILES \<noteq> 0 then 0
     else if c_int (k_sysconf k) = -1 then 8192 else nat (c_int (k_sysconf k)))"

definition daemon_fds :: "kernel \<Rightarrow> u32 \<Rightarrow> (nat \<Rightarrow> string option) \<Rightarrow> nat \<Rightarrow> string option" where
  "daemon_fds k flags fds fd =
     (if and flags BD_NO_REOPEN_STD_FDS = 0 \<and> fd < 3 then Some ''/dev/null''
      else if fd < closes_up_to k flags then None else fds fd)"

definition std_ok :: "kernel \<Rightarrow> u32 \<Rightarrow> bool" where
  "std_ok k flags \<longleftrightarrow> and flags BD_NO_REOPEN_STD_FDS \<noteq> 0 \<or> k_open_null k \<and> k_dup_ok k 1 \<and> k_dup_ok k 2"

lemma in_grandchild_cases:
  assumes "3 \<le> k_limit k"
  shows "let (r, d) = in_grandchild k flags p in
    p_pid d = p_pid p \<and> p_sid d = p_sid p \<and>
    p_umask d = (if and flags BD_NO_UMASK0 = 0 then 0 else p_umask p) \<and>
    p_cwd d = (if and flags BD_NO_CHDIR = 0 \<and> k_chdir_ok k then ''/'' else p_cwd p) \<and>
    (if std_ok k flags then r = 0 \<and> p_fds d = daemon_fds k flags (p_fds p) else r = -1)"
proof -
  let ?p = "p\<lparr>p_umask := (if and flags BD_NO_UMASK0 = 0 then 0 else p_umask p),
    p_cwd := (if and flags BD_NO_CHDIR = 0 \<and> k_chdir_ok k then ''/'' else p_cwd p)\<rparr>"
  let ?q = "close_all [0..<closes_up_to k flags] ?p"
  have run: "in_grandchild k flags p = (if and flags BD_NO_REOPEN_STD_FDS = 0 then reopen_std k ?q else (0, ?q))"
    by (simp add: in_grandchild_def Let_def closes_up_to_def BD_MAX_CLOSE_def)
  have fds: "p_fds ?q = (\<lambda>fd. if fd < closes_up_to k flags then None else p_fds p fd)" by (rule ext) simp
  show ?thesis
  proof (cases "and flags BD_NO_REOPEN_STD_FDS = 0")
    case True
    obtain r d where rd: "reopen_std k ?q = (r, d)" by (cases "reopen_std k ?q")
    have "(\<lambda>fd. if fd < closes_up_to k flags then None else p_fds p fd)
        (0 := Some ''/dev/null'', 1 := Some ''/dev/null'', 2 := Some ''/dev/null'') = daemon_fds k flags (p_fds p)"
      using True by (auto simp: daemon_fds_def fun_eq_iff)
    then show ?thesis
      using reopen_std_cases [OF assms, of ?q, unfolded rd fds] True
      unfolding run by (simp add: rd std_ok_def)
  next
    case False
    then show ?thesis
      unfolding run by (simp add: std_ok_def fds daemon_fds_def fun_eq_iff)
  qed
qed

text \<open>
  C37. When the forks and \<open>setsid\<close> succeed and \<open>/dev/null\<close> can be opened, both parents exit with
  success and one process returns 0: it is in a new session of which it is not the leader, so it
  cannot acquire a terminal, and its umask, working directory and descriptors are what the flags
  ask for - by default 0, the root, and nothing but \<open>/dev/null\<close> on 0, 1 and 2 (as long as no
  descriptor is above the limit that \<open>sysconf\<close> reports).
\<close>

theorem becomeDaemon_ok:
  assumes "k_fork k = (Some pid1, Some pid2)" "pid1 \<noteq> p_sid p" "pid2 \<noteq> pid1" "3 \<le> k_limit k" "std_ok k flags"
  shows "\<exists>c d. becomeDaemon k flags p = [(Exit_Success, p), (Exit_Success, c), (Returned 0, d)] \<and>
    p_sid d = pid1 \<and> p_sid d \<noteq> p_sid p \<and> p_pid d = pid2 \<and> p_sid d \<noteq> p_pid d \<and>
    p_umask d = (if and flags BD_NO_UMASK0 = 0 then 0 else p_umask p) \<and>
    p_cwd d = (if and flags BD_NO_CHDIR = 0 \<and> k_chdir_ok k then ''/'' else p_cwd p) \<and>
    p_fds d = daemon_fds k flags (p_fds p)"
  using assms in_grandchild_cases [OF assms(4), of flags "p\<lparr>p_sid := pid1, p_pid := pid2\<rparr>"]
  by (auto simp: becomeDaemon_def sys_setsid_def Let_def split: prod.splits)

definition plain_kernel :: kernel where
  "plain_kernel = \<lparr>k_fork = (Some 11, Some 12), k_sysconf = 1024, k_open_null = True, k_dup_ok = \<lambda>_. True,
     k_limit = 1024, k_chdir_ok = True\<rparr>"

definition shell_child :: proc where
  "shell_child = \<lparr>p_pid = 10, p_sid = 5, p_umask = 18, p_cwd = ''/home'',
     p_fds = [0 \<mapsto> ''tty'', 1 \<mapsto> ''tty'', 2 \<mapsto> ''tty'', 7 \<mapsto> ''log'']\<rparr>"

theorem becomeDaemon_ok_witness:
  "\<exists>c d. becomeDaemon plain_kernel 0 shell_child = [(Exit_Success, shell_child), (Exit_Success, c), (Returned 0, d)] \<and>
    p_sid d = 11 \<and> p_pid d = 12 \<and> p_umask d = 0 \<and> p_cwd d = ''/'' \<and> p_fds d 7 = None \<and> p_fds d 2 = Some ''/dev/null''"
proof -
  have "\<exists>c d. becomeDaemon plain_kernel 0 shell_child = [(Exit_Success, shell_child), (Exit_Success, c), (Returned 0, d)] \<and>
    p_sid d = 11 \<and> p_sid d \<noteq> p_sid shell_child \<and> p_pid d = 12 \<and> p_sid d \<noteq> p_pid d \<and>
    p_umask d = (if and 0 BD_NO_UMASK0 = 0 then 0 else p_umask shell_child) \<and>
    p_cwd d = (if and 0 BD_NO_CHDIR = 0 \<and> k_chdir_ok plain_kernel then ''/'' else p_cwd shell_child) \<and>
    p_fds d = daemon_fds plain_kernel 0 (p_fds shell_child)"
    by (rule becomeDaemon_ok) (simp_all add: plain_kernel_def shell_child_def std_ok_def)
  moreover have "daemon_fds plain_kernel 0 (p_fds shell_child) 7 = None"
    "daemon_fds plain_kernel 0 (p_fds shell_child) 2 = Some ''/dev/null''"
    by (simp_all add: daemon_fds_def closes_up_to_def plain_kernel_def)
  ultimately show ?thesis by (auto simp: plain_kernel_def)
qed

text \<open>
  Whatever fails, exactly one process returns from \<open>becomeDaemon\<close>, the last of those made,
  with 0 or \<open>-1\<close>, and every other one has exited with success - so the caller of a daemon that
  could not be set up sees a successful exit of the process it started.
\<close>

theorem becomeDaemon_one_returns:
  assumes "3 \<le> k_limit k"
  shows "\<exists>pre r d. becomeDaemon k flags p = pre @ [(Returned r, d)] \<and> (\<forall>x\<in>set pre. fst x = Exit_Success) \<and>
    (r = (if (\<exists>pid1 pid2. k_fork k = (Some pid1, Some pid2) \<and> pid1 \<noteq> p_sid p) \<and> std_ok k flags then 0 else -1)) \<and>
    length pre = (if fst (k_fork k) = None then 0
      else if fst (k_fork k) = Some (p_sid p) \<or> snd (k_fork k) = None then 1 else 2)"
proof -
  obtain f1 f2 where f: "k_fork k = (f1, f2)" by (cases "k_fork k")
  consider "f1 = None" | pid1 where "f1 = Some pid1" "pid1 = p_sid p \<or> f2 = None"
    | pid1 pid2 where "f1 = Some pid1" "f2 = Some pid2" "pid1 \<noteq> p_sid p"
    by (cases f1; cases f2) auto
  then show ?thesis
  proof cases
    case 1
    then show ?thesis by (intro exI [of _ "[]"]) (auto simp: becomeDaemon_def f)
  next
    case (2 pid1)
    then show ?thesis
      by (intro exI [of _ "[(Exit_Success, p)]"]) (auto simp: becomeDaemon_def sys_setsid_def f split: option.splits)
  next
    case (3 pid1 pid2)
    let ?c = "p\<lparr>p_pid := pid1, p_sid := pid1\<rparr>"
    from 3 show ?thesis
      using in_grandchild_cases [OF assms, of flags "?c\<lparr>p_pid := pid2\<rparr>"]
      by (intro exI [of _ "[(Exit_Success, p), (Exit_Success, ?c)]"])
        (auto simp: becomeDaemon_def sys_setsid_def f split: prod.splits)
  qed
qed

theorem becomeDaemon_one_returns_witness:
  "\<exists>pre r d. becomeDaemon (plain_kernel\<lparr>k_open_null := False\<rparr>) 0 shell_child = pre @ [(Returned (-1), d)] \<and> length pre = 2"
  using becomeDaemon_one_returns [of "plain_kernel\<lparr>k_open_null := False\<rparr>" 0 shell_child]
  by (auto simp: plain_kernel_def std_ok_def shell_child_def)

end
