(* ===== verification/Timers.thy ===== *)
theory Timers
  imports Prelude "HOL-Library.Multiset"
begin

text \<open>
  The class \<open>TIMER\<close> of the C++ server (\<open>c1000kPracticeGuide/cppserver/src/timers.cc\<close>): two
  \<open>std::multimap\<close>s, one from times to items and one back. A multimap is the list of its entries
  in the order an iterator visits them; an equal key is inserted after those already there.
\<close>

section \<open>Addresses\<close>

text \<open>
  What a \<open>void *\<close> of the server points to: the item of a descriptor, or the place in the array
  \<open>gFDITEM\<close> that points to the item. How addresses compare plays no part beyond being an order.
\<close>

datatype addr = Null_Addr | Slot nat | Item nat

fun addr_code :: "addr \<Rightarrow> nat" where
  "addr_code Null_Addr = 0"
| "addr_code (Slot n) = 2 * n + 1"
| "addr_code (Item n) = 2 * n + 2"

lemma addr_code_inject: "addr_code a = addr_code b \<longleftrightarrow> a = b"
proof (cases a; cases b)
  fix m n assume ab: "a = Slot m" "b = Item n"
  have "even (addr_code b)" "odd (addr_code a)" by (simp_all add: ab)
  then have "addr_code a \<noteq> addr_code b" by metis
  then show ?thesis using ab by blast
next
  fix m n assume ab: "a = Item m" "b = Slot n"
  have "even (addr_code a)" "odd (addr_code b)" by (simp_all add: ab)
  then have "addr_code a \<noteq> addr_code b" by metis
  then show ?thesis using ab by blast
qed auto

instantiation addr :: linorder
begin

definition less_eq_addr :: "addr \<Rightarrow> addr \<Rightarrow> bool" where
  "less_eq_addr a b \<longleftrightarrow> addr_code a \<le> addr_code b"

definition less_addr :: "addr \<Rightarrow> addr \<Rightarrow> bool" where
  "less_addr a b \<longleftrightarrow> addr_code a < addr_code b"

instance
  by standard (auto simp: less_eq_addr_def less_addr_def addr_code_inject)

end

section \<open>Multimaps\<close>

fun mm_insert :: "'k::linorder \<Rightarrow> 'v \<Rightarrow> ('k \<times> 'v) list \<Rightarrow> ('k \<times> 'v) list" where
  "mm_insert k v [] = [(k, v)]"
| "mm_insert k v ((k', v') # m) = (if k < k' then (k, v) # (k', v') # m else (k', v') # mm_insert k v m)"

definition mm_ok :: "('k::linorder \<times> 'v) list \<Rightarrow> bool" where
  "mm_ok m \<longleftrightarrow> sorted (map fst m)"

lemma mset_mm_insert [simp]: "mset (mm_insert k v m) = add_mset (k, v) (mset m)"
  by (induction k v m rule: mm_insert.induct) auto

lemma set_mm_insert: "set (mm_insert k v m) = insert (k, v) (set m)"
  by (metis mset_mm_insert set_mset_mset set_mset_add_mset_insert)

lemma mm_ok_insert [simp]: "mm_ok m \<Longrightarrow> mm_ok (mm_insert k v m)"
  by (induction k v m rule: mm_insert.induct) (fastforce simp: mm_ok_def set_mm_insert)+

lemma mm_ok_filter: "mm_ok m \<Longrightarrow> mm_ok (filter p m)"
  by (simp add: mm_ok_def sorted_filter)

section \<open>The class\<close>

record TIMER =
  timer_arg_time :: "(addr \<times> int) list"
  timer_time_arg :: "(int \<times> addr) list"

text \<open>What the C++ standard does not define: reading the end of a map, or an entry that was erased.\<close>

datatype ub = Deref_End | Read_Erased

definition mintimer :: int where "mintimer = 1000"

definition add_timer :: "addr \<Rightarrow> int \<Rightarrow> TIMER \<Rightarrow> TIMER" where
  "add_timer fditem timeStamp t =
     (let t = t\<lparr>timer_time_arg := mm_insert timeStamp fditem (timer_time_arg t)\<rparr>
      in t\<lparr>timer_arg_time := mm_insert fditem timeStamp (timer_arg_time t)\<rparr>)"

text \<open>The first entry of a key with the given value, erased.\<close>

fun erase_first :: "'k \<Rightarrow> 'v \<Rightarrow> ('k \<times> 'v) list \<Rightarrow> ('k \<times> 'v) list option" where
  "erase_first k v [] = None"
| "erase_first k v ((k', v') # m) =
     (if k' = k \<and> v' = v then Some m else map_option (Cons (k', v')) (erase_first k v m))"

text \<open>
  The result of \<open>get_timer\<close>, with the undefined reads on the way: \<open>iter->second\<close> before the
  check against the end, and \<open>iter->first\<close> and \<open>iter->second\<close> after the entry is erased. The
  value read from an erased entry is taken to be still there.
\<close>

definition get_timer :: "int \<Rightarrow> TIMER \<Rightarrow> (ub list \<times> addr \<times> TIMER) cres" where
  "get_timer timeStamp t = (case timer_time_arg t of
     [] \<Rightarrow> Inr ([Deref_End], Null_Addr, t)
   | (time, fditem) # rest \<Rightarrow>
       if time > timeStamp then Inr ([], Null_Addr, t)
       else let t = t\<lparr>timer_time_arg := rest\<rparr>
            in case erase_first fditem time (timer_arg_time t) of
                 None \<Rightarrow> Inl Assert_Fail
               | Some m \<Rightarrow> Inr ([Read_Erased], fditem, t\<lparr>timer_arg_time := m\<rparr>))"

text \<open>The two loops of \<open>remove_timer\<close>: over the entries of the item, and for each over those of its time.\<close>

fun erase_pairs :: "'k \<Rightarrow> 'v \<Rightarrow> ('k \<times> 'v) list \<Rightarrow> ('k \<times> 'v) list" where
  "erase_pairs t fditem [] = []"
| "erase_pairs t fditem ((k, v) # m) =
     (if k = t \<and> v = fditem then erase_pairs t fditem m else (k, v) # erase_pairs t fditem m)"

fun remove_loop :: "addr \<Rightarrow> (addr \<times> int) list \<Rightarrow> (int \<times> addr) list \<Rightarrow> (addr \<times> int) list \<times> (int \<times> addr) list" where
  "remove_loop fditem [] ta = ([], ta)"
| "remove_loop fditem ((a, t) # m) ta =
     (if a = fditem then remove_loop fditem m (erase_pairs t fditem ta)
      else (let (m', ta') = remove_loop fditem m ta in ((a, t) # m', ta')))"

definition remove_timer :: "addr \<Rightarrow> TIMER \<Rightarrow> TIMER" where
  "remove_timer fditem t =
     (let (at, ta) = remove_loop fditem (timer_arg_time t) (timer_time_arg t)
      in t\<lparr>timer_arg_time := at, timer_time_arg := ta\<rparr>)"

definition get_mintimer :: "int \<Rightarrow> TIMER \<Rightarrow> int" where
  "get_mintimer now t = (case timer_time_arg t of
     [] \<Rightarrow> mintimer
   | (time, _) # _ \<Rightarrow> let d = now - time in if d \<ge> 0 then 0 else - d)"

definition get_arg_time_size :: "TIMER \<Rightarrow> nat" where
  "get_arg_time_size t = length (timer_arg_time t)"

definition new_timer :: TIMER where
  "new_timer = \<lparr>timer_arg_time = [], timer_time_arg = []\<rparr>"

section \<open>The two maps agree\<close>

definition timer_ok :: "TIMER \<Rightarrow> bool" where
  "timer_ok t \<longleftrightarrow> mm_ok (timer_time_arg t) \<and> mm_ok (timer_arg_time t) \<and>
     mset (timer_arg_time t) = image_mset prod.swap (mset (timer_time_arg t)) \<and>
     Null_Addr \<notin> snd ` set (timer_time_arg t)"

definition timers :: "TIMER \<Rightarrow> (int \<times> addr) multiset" where
  "timers t = mset (timer_time_arg t)"

lemma erase_first_Some:
  "(k, v) \<in> set m \<Longrightarrow> \<exists>m'. erase_first k v m = Some m' \<and> mset m = add_mset (k, v) (mset m') \<and> (mm_ok m \<longrightarrow> mm_ok m')"
proof (induction k v m rule: erase_first.induct)
  case (2 k v k' v' m)
  show ?case
  proof (cases "k' = k \<and> v' = v")
    case False
    with 2 obtain m' where "erase_first k v m = Some m'" "mset m = add_mset (k, v) (mset m')" "mm_ok m \<longrightarrow> mm_ok m'"
      by auto
    moreover from this have "set m' \<subseteq> set m" by (metis set_mset_mset set_mset_add_mset_insert subset_insertI)
    ultimately show ?thesis using False by (fastforce simp: mm_ok_def)
  qed (simp add: mm_ok_def)
qed simp

lemma erase_pairs_filter: "erase_pairs t a m = filter (\<lambda>e. e \<noteq> (t, a)) m"
  by (induction t a m rule: erase_pairs.induct) auto

lemma remove_loop_filter:
  "remove_loop a m ta = (filter (\<lambda>e. fst e \<noteq> a) m, filter (\<lambda>e. \<not> (snd e = a \<and> (a, fst e) \<in> set m)) ta)"
proof (induction a m ta rule: remove_loop.induct)
  case (2 a b t m ta)
  show ?case
  proof (cases "b = a")
    case True
    then show ?thesis using 2(1)
      by (auto simp: erase_pairs_filter intro!: filter_cong)
  next
    case False
    then show ?thesis using 2(2) by simp
  qed
qed simp

lemma timer_ok_mem: "timer_ok t \<Longrightarrow> (a, s) \<in> set (timer_arg_time t) \<longleftrightarrow> (s, a) \<in> set (timer_time_arg t)"
proof -
  assume "timer_ok t"
  then have "set (timer_arg_time t) = prod.swap ` set (timer_time_arg t)"
    unfolding timer_ok_def by (metis set_image_mset set_mset_mset)
  then show ?thesis by (force simp: image_iff)
qed

section \<open>The contract\<close>

text \<open>
  What the event loop relies on: a queue of items with times, from which the earliest is handed
  out once it is due. The laws speak of the queue as a multiset.
\<close>

locale timer_queue =
  fixes add :: "'a \<Rightarrow> int \<Rightarrow> 't \<Rightarrow> 't"
    and get :: "int \<Rightarrow> 't \<Rightarrow> ('u \<times> 'a \<times> 't) cres"
    and remove :: "'a \<Rightarrow> 't \<Rightarrow> 't"
    and null :: 'a
    and inv :: "'t \<Rightarrow> bool"
    and queue :: "'t \<Rightarrow> (int \<times> 'a) multiset"
  assumes add_law: "inv t \<Longrightarrow> a \<noteq> null \<Longrightarrow> inv (add a s t) \<and> queue (add a s t) = add_mset (s, a) (queue t)"
    and get_law: "inv t \<Longrightarrow>
      (\<exists>u. get ts t = Inr (u, null, t)) \<and> (\<forall>e\<in>#queue t. ts < fst e) \<or>
      (\<exists>u s a t'. get ts t = Inr (u, a, t') \<and> a \<noteq> null \<and> s \<le> ts \<and> inv t' \<and>
        queue t = add_mset (s, a) (queue t') \<and> (\<forall>e\<in>#queue t'. s \<le> fst e))"
    and remove_law: "inv t \<Longrightarrow> inv (remove a t) \<and> queue (remove a t) = filter_mset (\<lambda>e. snd e \<noteq> a) (queue t)"
begin

definition due :: "int \<Rightarrow> 't \<Rightarrow> (int \<times> 'a) multiset" where
  "due ts t = filter_mset (\<lambda>e. fst e \<le> ts) (queue t)"

lemma get_cases:
  assumes "inv t"
  obtains (Null) u where "get ts t = Inr (u, null, t)" "due ts t = {#}"
  | (Fired) u s a t' where "get ts t = Inr (u, a, t')" "a \<noteq> null" "inv t'" "s \<le> ts"
      "queue t = add_mset (s, a) (queue t')" "due ts t = add_mset (s, a) (due ts t')" "\<forall>e\<in>#due ts t'. s \<le> fst e"
proof -
  from get_law [OF assms, of ts] consider
    (n) u where "get ts t = Inr (u, null, t)" "\<forall>e\<in>#queue t. ts < fst e"
  | (f) u s a t' where "get ts t = Inr (u, a, t')" "a \<noteq> null" "s \<le> ts" "inv t'"
      "queue t = add_mset (s, a) (queue t')" "\<forall>e\<in>#queue t'. s \<le> fst e" by blast
  then show thesis
  proof cases
    case n
    then have "due ts t = {#}" by (auto simp: due_def simp flip: set_mset_eq_empty_iff)
    with n(1) show thesis by (rule Null)
  next
    case f
    then show thesis using Fired [of u a t' s] by (auto simp: due_def)
  qed
qed

lemma due_add_later: "inv t \<Longrightarrow> a \<noteq> null \<Longrightarrow> ts < s \<Longrightarrow> due ts (add a s t) = due ts t"
  by (simp add: due_def add_law)

lemma due_remove: "inv t \<Longrightarrow> due ts (remove a t) = filter_mset (\<lambda>e. snd e \<noteq> a) (due ts t)"
  by (simp add: due_def remove_law filter_filter_mset conj_commute)

lemma remove_clears: "inv t \<Longrightarrow> a \<notin> snd ` set_mset (queue (remove a t))"
  by (auto simp: remove_law)

end

lemma add_timer_ok: "timer_ok t \<Longrightarrow> a \<noteq> Null_Addr \<Longrightarrow> timer_ok (add_timer a s t) \<and> timers (add_timer a s t) = add_mset (s, a) (timers t)"
  by (auto simp: timer_ok_def add_timer_def timers_def set_mm_insert)

lemma remove_timer_filter:
  "remove_timer a t = t\<lparr>timer_arg_time := filter (\<lambda>e. fst e \<noteq> a) (timer_arg_time t),
     timer_time_arg := filter (\<lambda>e. \<not> (snd e = a \<and> (a, fst e) \<in> set (timer_arg_time t))) (timer_time_arg t)\<rparr>"
  by (simp add: remove_timer_def remove_loop_filter)

lemma remove_timer_lists:
  assumes "timer_ok t"
  shows "timer_arg_time (remove_timer a t) = filter (\<lambda>e. fst e \<noteq> a) (timer_arg_time t)"
    "timer_time_arg (remove_timer a t) = filter (\<lambda>e. snd e \<noteq> a) (timer_time_arg t)"
  using timer_ok_mem [OF assms] by (auto simp: remove_timer_filter intro!: filter_cong)

lemma remove_timer_ok:
  assumes "timer_ok t"
  shows "timer_ok (remove_timer a t)"
proof -
  have "mset (timer_arg_time (remove_timer a t)) = image_mset prod.swap (mset (timer_time_arg (remove_timer a t)))"
    using assms unfolding remove_timer_lists [OF assms] timer_ok_def mset_filter
    by (simp add: filter_mset_image_mset comp_def)
  then show ?thesis
    using assms by (auto simp: remove_timer_lists timer_ok_def mm_ok_filter)
qed

lemma get_timer_spec:
  assumes "timer_ok t"
  shows "case timer_time_arg t of
      [] \<Rightarrow> get_timer ts t = Inr ([Deref_End], Null_Addr, t)
    | (time, item) # rest \<Rightarrow>
        if ts < time then get_timer ts t = Inr ([], Null_Addr, t)
        else \<exists>t'. get_timer ts t = Inr ([Read_Erased], item, t') \<and> item \<noteq> Null_Addr \<and> timer_time_arg t' = rest \<and>
          timer_ok t' \<and> (\<forall>e\<in>set rest. time \<le> fst e)"
proof (cases "timer_time_arg t")
  case (Cons e rest)
  obtain time item where e: "e = (time, item)" by (cases e)
  let ?t = "t\<lparr>timer_time_arg := rest\<rparr>"
  have ok: "mm_ok (timer_time_arg t)" "mm_ok (timer_arg_time t)" "item \<noteq> Null_Addr"
    "mset (timer_arg_time t) = add_mset (item, time) (image_mset prod.swap (mset rest))"
    using assms by (auto simp: timer_ok_def Cons e)
  then have "(item, time) \<in> set (timer_arg_time t)" by (metis set_mset_mset set_mset_add_mset_insert insertI1)
  from erase_first_Some [OF this] obtain m where m: "erase_first item time (timer_arg_time t) = Some m"
    "mset (timer_arg_time t) = add_mset (item, time) (mset m)" "mm_ok m" using ok(2) by auto
  have "timer_ok (?t\<lparr>timer_arg_time := m\<rparr>)" "\<forall>e\<in>set rest. time \<le> fst e"
    using assms ok m by (auto simp: timer_ok_def Cons e mm_ok_def)
  moreover have "get_timer ts t = (if time > ts then Inr ([], Null_Addr, t)
      else Inr ([Read_Erased], item, ?t\<lparr>timer_arg_time := m\<rparr>))"
    by (simp add: get_timer_def Cons e m(1))
  ultimately show ?thesis using ok(3) by (simp add: Cons e)
qed (simp add: get_timer_def)

definition three_timers :: TIMER where
  "three_timers = add_timer (Item 5) 300 (add_timer (Item 7) 200 (add_timer (Item 6) 200 new_timer))"

lemma new_timer_ok: "timer_ok new_timer"
  by (simp add: timer_ok_def new_timer_def mm_ok_def)

lemma three_timers_ok: "timer_ok three_timers"
  using new_timer_ok by (simp add: three_timers_def add_timer_ok)

interpretation tq: timer_queue add_timer get_timer remove_timer Null_Addr timer_ok timers
proof
  fix t ts
  assume ok: "timer_ok t"
  show "(\<exists>u. get_timer ts t = Inr (u, Null_Addr, t)) \<and> (\<forall>e\<in>#timers t. ts < fst e) \<or>
      (\<exists>u s a t'. get_timer ts t = Inr (u, a, t') \<and> a \<noteq> Null_Addr \<and> s \<le> ts \<and> timer_ok t' \<and>
        timers t = add_mset (s, a) (timers t') \<and> (\<forall>e\<in>#timers t'. s \<le> fst e))"
  proof (cases "timer_time_arg t")
    case Nil
    then show ?thesis by (simp add: get_timer_def timers_def)
  next
    case (Cons e rest)
    obtain time item where e: "e = (time, item)" by (cases e)
    show ?thesis
    proof (cases "ts < time")
      case True
      have "\<forall>e\<in>set rest. time \<le> fst e" using ok by (auto simp: timer_ok_def mm_ok_def Cons e)
      then show ?thesis using True by (auto simp: get_timer_def timers_def Cons e)
    next
      case False
      with Cons e get_timer_spec [OF ok, of ts] show ?thesis
        by (auto simp: timers_def)
    qed
  qed
qed (use remove_timer_ok add_timer_ok in \<open>auto simp: remove_timer_lists timers_def\<close>)

lemma mm_insert_split:
  "mm_ok m \<Longrightarrow> mm_insert k v m = takeWhile (\<lambda>e. fst e \<le> k) m @ (k, v) # dropWhile (\<lambda>e. fst e \<le> k) m"
  by (induction k v m rule: mm_insert.induct) (auto simp: mm_ok_def)

text \<open>
  C10. The two maps of a \<open>TIMER\<close> stay in step and behave as one agenda in the order of times, equal
  times in the order of insertion: \<open>add_timer\<close> puts an entry after those not later, \<open>remove_timer\<close>
  takes out all of an item, and \<open>get_timer\<close> never reaches its \<open>assert(0)\<close>: it takes out the first
  entry if it is due. When the agenda is empty it first reads the entry at the end of the map;
  when it returns an item it has read the entry it just erased.
\<close>

theorem timer_agenda:
  assumes "timer_ok t" "item \<noteq> Null_Addr"
  shows "timer_ok (add_timer item s t) \<and> timer_ok (remove_timer a t) \<and>
    timer_time_arg (add_timer item s t) =
      takeWhile (\<lambda>e. fst e \<le> s) (timer_time_arg t) @ (s, item) # dropWhile (\<lambda>e. fst e \<le> s) (timer_time_arg t) \<and>
    timer_time_arg (remove_timer a t) = filter (\<lambda>e. snd e \<noteq> a) (timer_time_arg t) \<and>
    (case timer_time_arg t of
      [] \<Rightarrow> get_timer ts t = Inr ([Deref_End], Null_Addr, t)
    | (time, item) # rest \<Rightarrow>
        if ts < time then get_timer ts t = Inr ([], Null_Addr, t)
        else \<exists>t'. get_timer ts t = Inr ([Read_Erased], item, t') \<and> timer_time_arg t' = rest \<and> timer_ok t')"
proof -
  have "timer_time_arg (add_timer item s t) = mm_insert s item (timer_time_arg t)" "mm_ok (timer_time_arg t)"
    using assms(1) by (simp_all add: add_timer_def timer_ok_def)
  moreover have "case timer_time_arg t of
      [] \<Rightarrow> get_timer ts t = Inr ([Deref_End], Null_Addr, t)
    | (time, item) # rest \<Rightarrow>
        if ts < time then get_timer ts t = Inr ([], Null_Addr, t)
        else \<exists>t'. get_timer ts t = Inr ([Read_Erased], item, t') \<and> timer_time_arg t' = rest \<and> timer_ok t'"
    using get_timer_spec [OF assms(1), of ts] by (cases "timer_time_arg t") (auto split: if_splits)
  ultimately show ?thesis
    using add_timer_ok [OF assms] remove_timer_ok [OF assms(1)] remove_timer_lists(2) [OF assms(1)]
    by (simp add: mm_insert_split)
qed

theorem timer_agenda_witness:
  "timer_time_arg (remove_timer (Item 7) three_timers) = [(200, Item 6), (300, Item 5)] \<and>
   (\<exists>t'. get_timer 250 three_timers = Inr ([Read_Erased], Item 6, t') \<and> timer_time_arg t' = [(200, Item 7), (300, Item 5)])"
proof -
  have l: "timer_time_arg three_timers = [(200, Item 6), (200, Item 7), (300, Item 5)]"
    by (simp add: three_timers_def add_timer_def new_timer_def)
  show ?thesis
    using timer_agenda [OF three_timers_ok addr.distinct(4), where a = "Item 7" and ts = 250] by (auto simp: l)
qed

text \<open>
  The wait that \<open>get_mintimer\<close> allows ends exactly when the first timer is due: nothing falls
  due before, and \<open>get_timer\<close> then returns an item.
\<close>

theorem get_mintimer_exact:
  assumes "timer_ok t" "timer_time_arg t \<noteq> []" "ts < now + get_mintimer now t" "now \<le> ts"
  shows "\<exists>t'. get_timer ts t = Inr ([], Null_Addr, t) \<and>
    (\<exists>item. get_timer (now + get_mintimer now t) t = Inr ([Read_Erased], item, t') \<and> item \<noteq> Null_Addr)"
proof -
  obtain time item rest where l: "timer_time_arg t = (time, item) # rest"
    using assms(2) by (metis list.exhaust surj_pair)
  then have "now + get_mintimer now t = max now time" by (simp add: get_mintimer_def Let_def)
  then show ?thesis
    using get_timer_spec [OF assms(1), of "max now time"] get_timer_spec [OF assms(1), of ts] assms(3,4) l
    by (auto simp: max_def split: if_splits)
qed

theorem get_mintimer_exact_witness:
  "get_mintimer 150 three_timers = 50 \<and> get_timer 199 three_timers = Inr ([], Null_Addr, three_timers)"
proof -
  have l: "timer_time_arg three_timers = [(200, Item 6), (200, Item 7), (300, Item 5)]"
    by (simp add: three_timers_def add_timer_def new_timer_def)
  then have "get_mintimer 150 three_timers = 50" by (simp add: get_mintimer_def)
  then show ?thesis using get_mintimer_exact [OF three_timers_ok, of 199 150] l by simp
qed

end
