(* ===== verification/FdItems.thy ===== *)
theory FdItems
  imports Timers
begin

text \<open>
  What the threads of the C++ server (\<open>c1000kPracticeGuide/cppserver\<close>) work on: the table
  \<open>gFDITEM\<close> of \<open>network.h\<close>, the timers and the descriptors a worker's \<open>epoll\<close> watches; and how
  the number of a descriptor is a string of bytes on the channel to a worker.
\<close>

definition MAX_FD :: int where "MAX_FD = 220 * 10 * 1024"
definition MAXACCEPTSIZE :: nat where "MAXACCEPTSIZE = 1024"
definition MAX_CPU :: nat where "MAX_CPU = 128"

section \<open>Items\<close>

text \<open>The functions that an item's pointers point to; the last has a type of its own.\<close>

datatype handler = Accept_Readfun | Readfun_GetConnections | Client_Readfun | Client_Writefun | Client_Closefun

datatype timeout_handler = Client_Timeoutfun

record fditem =
  m_readfun :: "handler option"
  m_writefun :: "handler option"
  m_closefun :: "handler option"
  m_timeoutfun :: "timeout_handler option"
  m_sended :: int
  m_lastread :: int
  m_activeclose :: bool

definition init_item :: "int \<Rightarrow> fditem" where
  "init_item now = \<lparr>m_readfun = None, m_writefun = None, m_closefun = None, m_timeoutfun = None,
     m_sended = 0, m_lastread = now, m_activeclose = False\<rparr>"

text \<open>The side of the listening thread.\<close>

record dispatch =
  d_list :: "int list list"    \<comment> \<open>\<open>acceptedFDlist\<close>\<close>
  d_sum :: int                 \<comment> \<open>\<open>sum\<close>, a \<open>long\<close>: the batches dealt, taken to be fewer than \<open>2 ^ 63\<close>\<close>
  d_buff :: "byte list list"   \<comment> \<open>\<open>sendfdBuff\<close>, of each the first \<open>needSendLen\<close> bytes\<close>
  d_wire :: "int \<Rightarrow> byte list"  \<comment> \<open>what each descriptor has been sent\<close>
  d_closed :: "int list"

text \<open>A thread's view.\<close>

record world =
  w_items :: "int \<Rightarrow> fditem"
  w_timer :: TIMER
  w_epoll :: "int list"      \<comment> \<open>added, oldest first\<close>
  w_closed :: "int list"
  w_sent :: "int \<Rightarrow> byte list"  \<comment> \<open>to each descriptor since it was opened\<close>
  w_log :: "byte list list"
  w_ub :: "ub list"
  w_dispatch :: dispatch

text \<open>An access to \<open>gFDITEM[fd]\<close>.\<close>

definition item :: "int \<Rightarrow> world \<Rightarrow> fditem cres" where
  "item fd w = (if 0 \<le> fd \<and> fd < MAX_FD then Inr (w_items w fd) else Inl Out_Of_Bounds)"

definition set_item :: "int \<Rightarrow> (fditem \<Rightarrow> fditem) \<Rightarrow> world \<Rightarrow> world cres" where
  "set_item fd f w = cbind (item fd w) (\<lambda>it. Inr (w\<lparr>w_items := (w_items w)(fd := f it)\<rparr>))"

definition item_addr :: "int \<Rightarrow> addr" where "item_addr fd = Item (nat fd)"
definition slot_addr :: "int \<Rightarrow> addr" where "slot_addr fd = Slot (nat fd)"

lemma set_item_ok: "0 \<le> fd \<Longrightarrow> fd < MAX_FD \<Longrightarrow> set_item fd f w = Inr (w\<lparr>w_items := (w_items w)(fd := f (w_items w fd))\<rparr>)"
  by (simp add: set_item_def item_def)

text \<open>The process ends, or goes on.\<close>

datatype 'a proceeds = Exits int | Goes 'a

definition pbind :: "'a proceeds cres \<Rightarrow> ('a \<Rightarrow> 'b proceeds cres) \<Rightarrow> 'b proceeds cres" where
  "pbind r f = (case r of Inl e \<Rightarrow> Inl e | Inr (Exits n) \<Rightarrow> Inr (Exits n) | Inr (Goes x) \<Rightarrow> f x)"

lemma pbind_simps [simp]: "pbind (Inl e) f = Inl e" "pbind (Inr (Exits n)) f = Inr (Exits n)" "pbind (Inr (Goes x)) f = f x"
  by (simp_all add: pbind_def)

lemma pbind_Goes_iff: "pbind r f = Inr (Goes y) \<longleftrightarrow> (\<exists>x. r = Inr (Goes x) \<and> f x = Inr (Goes y))"
  by (simp add: pbind_def split: sum.split proceeds.split)

section \<open>Descriptors as bytes\<close>

definition enc_int :: "int \<Rightarrow> byte list" where
  "enc_int x = [word_of_int x, word_of_int (x div 256), word_of_int (x div 65536), word_of_int (x div 16777216)]"

fun dec_int :: "byte list \<Rightarrow> int" where
  "dec_int [a, b, c, d] = c_int (uint a + 256 * uint b + 65536 * uint c + 16777216 * uint d)"
| "dec_int _ = 0"

lemma length_enc_int [simp]: "length (enc_int x) = 4"
  by (simp add: enc_int_def)

lemma dec_enc_int:
  assumes "0 \<le> x" "x \<le> 2147483647"
  shows "dec_int (enc_int x) = x"
proof -
  let ?a = "x div 256" and ?b = "x div 256 div 256" and ?c = "x div 256 div 256 div 256"
  have div: "x div 65536 = ?b" "x div 16777216 = ?c" by (simp_all add: zdiv_zmult2_eq [symmetric])
  have "0 \<le> ?c" "?c < 256" using assms by (simp_all add: div [symmetric])
  then have "?c mod 256 = ?c" by simp
  moreover have "x = 256 * ?a + x mod 256" "?a = 256 * ?b + ?a mod 256" "?b = 256 * ?c + ?b mod 256"
    by simp_all
  ultimately have "x mod 256 + 256 * (?a mod 256) + 65536 * (?b mod 256) + 16777216 * (?c mod 256) = x"
    by linarith
  moreover have "c_int x = x" using assms by (simp add: c_int_id)
  ultimately show ?thesis by (simp add: enc_int_def uint_word_of_int div)
qed

text \<open>The complete numbers in a string of bytes, and the bytes that are left.\<close>

fun ints_of :: "byte list \<Rightarrow> int list" where
  "ints_of (a # b # c # d # bs) = dec_int [a, b, c, d] # ints_of bs"
| "ints_of _ = []"

fun rest_of :: "byte list \<Rightarrow> byte list" where
  "rest_of (a # b # c # d # bs) = rest_of bs"
| "rest_of bs = bs"

lemma rest_of_short: "length (rest_of bs) = length bs mod 4"
  by (induction bs rule: rest_of.induct) auto

lemma ints_of_append: "ints_of (bs @ cs) = ints_of bs @ ints_of (rest_of bs @ cs)"
  by (induction bs rule: rest_of.induct) auto

lemma rest_of_append: "rest_of (bs @ cs) = rest_of (rest_of bs @ cs)"
  by (induction bs rule: rest_of.induct) auto

lemma ints_of_enc:
  assumes "\<forall>x\<in>set xs. 0 \<le> x \<and> x \<le> 2147483647"
  shows "ints_of (concat (map enc_int xs)) = xs \<and> rest_of (concat (map enc_int xs)) = []"
  using assms
proof (induction xs)
  case (Cons x xs)
  then have "dec_int (enc_int x) = x" by (intro dec_enc_int) auto
  with Cons show ?case by (simp add: enc_int_def)
qed simp

end
