(* ===== verification/Dispatch.thy ===== *)
theory Dispatch
  imports FdItems
begin

text \<open>
  The connections' way to the workers (\<open>cppserver/src/listenfd.cc\<close>): \<open>accept_readfun\<close> collects
  what \<open>accept\<close> returns in batches, \<open>dispatch_conn\<close> takes the list of batches under the lock and
  deals them out to the workers' channels in turn, \<open>sendConnectionsToWorker\<close> writes what it can.
  The list changes hands only under the lock, so a run is a sequence of these calls.
\<close>

section \<open>State\<close>

definition SEND_BUFF :: nat where "SEND_BUFF = 4 * 30000"

datatype accept_answer = Accepted int | Accept_Err int

definition EINTR :: int where "EINTR = 4"
definition EAGAIN :: int where "EAGAIN = 11"
definition EPROTO :: int where "EPROTO = 71"
definition ECONNABORTED :: int where "ECONNABORTED = 103"

lemmas accept_errnos = EINTR_def EAGAIN_def EPROTO_def ECONNABORTED_def

section \<open>Accepting\<close>

definition push_batch :: "int list \<Rightarrow> dispatch \<Rightarrow> dispatch" where
  "push_batch fdBuff d = d\<lparr>d_list := fdBuff # d_list d\<rparr>"

text \<open>
  The loop over the answers of \<open>accept\<close>; after the last of them there is no connection left,
  which \<open>accept\<close> reports as \<open>EAGAIN\<close>. \<open>fdBuff\<close> holds the first \<open>acceptindex\<close> entries.
\<close>

fun accept_loop :: "accept_answer list \<Rightarrow> int list \<Rightarrow> dispatch \<Rightarrow> dispatch proceeds" where
  "accept_loop [] fdBuff d = Goes (if fdBuff \<noteq> [] then push_batch fdBuff d else d)"
| "accept_loop (Accept_Err e # rs) fdBuff d =
     (if e \<noteq> EAGAIN \<and> e \<noteq> ECONNABORTED \<and> e \<noteq> EPROTO \<and> e \<noteq> EINTR then Exits 0
      else Goes (if fdBuff \<noteq> [] then push_batch fdBuff d else d))"
| "accept_loop (Accepted fd # rs) fdBuff d =
     (if fd > 0
      then if fd \<ge> MAX_FD then accept_loop rs fdBuff (d\<lparr>d_closed := d_closed d @ [fd]\<rparr>)
           else let fdBuff = fdBuff @ [fd]
                in if length fdBuff < MAXACCEPTSIZE then accept_loop rs fdBuff d
                   else accept_loop rs [] (push_batch fdBuff d)
      else Exits 1)"

definition accept_readfun :: "accept_answer list \<Rightarrow> dispatch \<Rightarrow> dispatch proceeds" where
  "accept_readfun answers d = accept_loop answers [] d"

section \<open>Sending\<close>

text \<open>\<open>send\<close> takes as many bytes as \<open>answers\<close> says, no more than it is given; then it fails.\<close>

fun send_loop :: "int list \<Rightarrow> byte list \<Rightarrow> byte list \<times> byte list" where
  "send_loop answers [] = ([], [])"
| "send_loop [] buff = ([], buff)"
| "send_loop (c # answers) buff =
     (if c > 0
      then let (sended, rest) = send_loop answers (drop (nat c) buff) in (take (nat c) buff @ sended, rest)
      else ([], buff))"

definition sendConnectionsToWorker :: "int list \<Rightarrow> int \<Rightarrow> dispatch \<Rightarrow> (int \<times> dispatch) cres" where
  "sendConnectionsToWorker answers fd d =
     cbind (aget (d_buff d) fd) (\<lambda>buff.
       let (sended, rest) = send_loop answers buff in
       cbind (aset (d_buff d) fd rest) (\<lambda>bs.
         Inr (int (length sended), d\<lparr>d_buff := bs, d_wire := (d_wire d)(fd := d_wire d fd @ sended)\<rparr>)))"

definition fdsend_writefun :: "int list \<Rightarrow> int \<Rightarrow> dispatch \<Rightarrow> (int \<times> dispatch) cres" where
  "fdsend_writefun answers sendfd d = sendConnectionsToWorker answers sendfd d"

section \<open>Dealing out\<close>

text \<open>\<open>pairs\<close> is \<open>sockfdpair[i][0]\<close>; \<open>answers\<close> is what \<open>send\<close> answers for the batch with number \<open>sum\<close>.\<close>

definition batch_bytes :: "int list \<Rightarrow> byte list" where
  "batch_bytes fds = concat (map enc_int fds)"

definition channel :: "int \<Rightarrow> int \<Rightarrow> int cres" where
  "channel cpu_num n = cbind (c_rem n (cpu_num - 1)) (\<lambda>r. Inr (r + 1))"

definition append_buff :: "int \<Rightarrow> byte list \<Rightarrow> dispatch \<Rightarrow> dispatch cres" where
  "append_buff fd bs d =
     cbind (aget (d_buff d) fd) (\<lambda>buff.
       if length buff + length bs > SEND_BUFF then Inl Out_Of_Bounds
       else cbind (aset (d_buff d) fd (buff @ bs)) (\<lambda>bufs. Inr (d\<lparr>d_buff := bufs\<rparr>)))"

definition deal :: "int \<Rightarrow> int list \<Rightarrow> (int \<Rightarrow> int list) \<Rightarrow> int list \<Rightarrow> dispatch \<Rightarrow> dispatch cres" where
  "deal cpu_num pairs answers fds d =
     cbind (channel cpu_num (d_sum d)) (\<lambda>ch.
     cbind (aget pairs ch) (\<lambda>workerPeerfd.
     cbind (append_buff workerPeerfd (batch_bytes fds) d) (\<lambda>d.
     cbind (sendConnectionsToWorker (answers (d_sum d)) workerPeerfd d) (\<lambda>(_, d).
       Inr (d\<lparr>d_sum := d_sum d + 1\<rparr>)))))"

fun deal_all :: "int \<Rightarrow> int list \<Rightarrow> (int \<Rightarrow> int list) \<Rightarrow> int list list \<Rightarrow> dispatch \<Rightarrow> dispatch cres" where
  "deal_all cpu_num pairs answers [] d = Inr d"
| "deal_all cpu_num pairs answers (fds # paccept) d =
     cbind (deal cpu_num pairs answers fds d) (deal_all cpu_num pairs answers paccept)"

text \<open>One round of \<open>dispatch_conn\<close>; it waits while the list is empty.\<close>

definition dispatch_conn :: "int \<Rightarrow> int list \<Rightarrow> (int \<Rightarrow> int list) \<Rightarrow> dispatch \<Rightarrow> dispatch cres" where
  "dispatch_conn cpu_num pairs answers d =
     (if d_list d = [] then Inr d
      else deal_all cpu_num pairs answers (d_list d) (d\<lparr>d_list := []\<rparr>))"

section \<open>Accepting loses nothing\<close>

text \<open>The connections accepted before the first error, and those kept.\<close>

fun until_error :: "accept_answer list \<Rightarrow> int list" where
  "until_error (Accepted fd # rs) = fd # until_error rs"
| "until_error _ = []"

fun first_error :: "accept_answer list \<Rightarrow> int" where
  "first_error [] = EAGAIN"
| "first_error (Accept_Err e # rs) = e"
| "first_error (Accepted _ # rs) = first_error rs"

definition tolerated :: "int \<Rightarrow> bool" where
  "tolerated e \<longleftrightarrow> e \<in> {EAGAIN, ECONNABORTED, EPROTO, EINTR}"

definition batches_ok :: "int list list \<Rightarrow> bool" where
  "batches_ok bs \<longleftrightarrow> (\<forall>b\<in>set bs. b \<noteq> [] \<and> length b \<le> MAXACCEPTSIZE \<and> (\<forall>fd\<in>set b. 0 < fd \<and> fd < MAX_FD))"

lemma accept_loop_spec:
  assumes "length fdBuff < MAXACCEPTSIZE" "\<forall>fd\<in>set fdBuff. 0 < fd \<and> fd < MAX_FD" "batches_ok (d_list d)"
  shows "case accept_loop rs fdBuff d of
      Exits n \<Rightarrow> n = 0 \<and> \<not> tolerated (first_error rs) \<or> n = 1 \<and> (\<exists>fd\<in>set (until_error rs). fd \<le> 0)
    | Goes d' \<Rightarrow> tolerated (first_error rs) \<and> batches_ok (d_list d') \<and>
        concat (rev (d_list d')) = concat (rev (d_list d)) @ fdBuff @ filter (\<lambda>fd. fd < MAX_FD) (until_error rs) \<and>
        d_closed d' = d_closed d @ filter (\<lambda>fd. MAX_FD \<le> fd) (until_error rs) \<and>
        d_sum d' = d_sum d \<and> d_buff d' = d_buff d \<and> d_wire d' = d_wire d"
  using assms
proof (induction rs fdBuff d rule: accept_loop.induct)
  case (1 fdBuff d)
  then show ?case by (auto simp: batches_ok_def push_batch_def tolerated_def)
next
  case (2 e rs fdBuff d)
  then show ?case by (auto simp: batches_ok_def push_batch_def tolerated_def)
next
  case (3 fd rs fdBuff d)
  show ?case
  proof (cases "fd > 0")
    case pos: True
    show ?thesis
    proof (cases "fd \<ge> MAX_FD")
      case True
      with pos 3(1) 3(4-) show ?thesis by (fastforce split: proceeds.splits)
    next
      case small: False
      show ?thesis
      proof (cases "length (fdBuff @ [fd]) < MAXACCEPTSIZE")
        case True
        with pos small 3(2) 3(4-) show ?thesis by (fastforce split: proceeds.splits)
      next
        case False
        then have "batches_ok (d_list (push_batch (fdBuff @ [fd]) d))"
          using 3(4-) pos small by (auto simp: batches_ok_def push_batch_def)
        with pos small False 3(3) 3(4-) show ?thesis
          by (fastforce simp: push_batch_def MAXACCEPTSIZE_def split: proceeds.splits)
      qed
    qed
  qed simp
qed

text \<open>
  C11. \<open>accept_readfun\<close> ends the process only on an error other than \<open>EAGAIN\<close>, \<open>ECONNABORTED\<close>,
  \<open>EPROTO\<close> and \<open>EINTR\<close> (or for a descriptor 0); otherwise each connection accepted before the
  first error is closed if its number is \<open>MAX_FD\<close> or more and is in exactly one batch if not,
  the batches oldest first being the order of arrival. Every batch has 1 to 1024 connections.
\<close>

theorem accept_readfun_keeps_all:
  assumes "batches_ok (d_list d)"
  shows "case accept_readfun rs d of
      Exits n \<Rightarrow> n = 0 \<and> \<not> tolerated (first_error rs) \<or> n = 1 \<and> (\<exists>fd\<in>set (until_error rs). fd \<le> 0)
    | Goes d' \<Rightarrow> tolerated (first_error rs) \<and> batches_ok (d_list d') \<and>
        concat (rev (d_list d')) = concat (rev (d_list d)) @ filter (\<lambda>fd. fd < MAX_FD) (until_error rs) \<and>
        d_closed d' = d_closed d @ filter (\<lambda>fd. MAX_FD \<le> fd) (until_error rs)"
  using accept_loop_spec [of "[]" d rs] assms
  by (simp add: accept_readfun_def MAXACCEPTSIZE_def split: proceeds.splits)

definition no_dispatch :: dispatch where
  "no_dispatch = \<lparr>d_list = [], d_sum = 0, d_buff = replicate MAX_CPU [], d_wire = \<lambda>_. [], d_closed = []\<rparr>"

theorem accept_readfun_keeps_all_witness:
  "case accept_readfun [Accepted 9, Accepted 3000000, Accepted 10, Accept_Err ECONNABORTED, Accepted 11] no_dispatch of
     Goes d' \<Rightarrow> concat (rev (d_list d')) = [9, 10] \<and> d_closed d' = [3000000]
   | Exits _ \<Rightarrow> False"
  using accept_readfun_keeps_all [of no_dispatch
      "[Accepted 9, Accepted 3000000, Accepted 10, Accept_Err ECONNABORTED, Accepted 11]"]
  by (auto simp: no_dispatch_def batches_ok_def tolerated_def MAX_FD_def accept_errnos split: proceeds.splits)

section \<open>Dealing out loses nothing\<close>

text \<open>What a channel has been sent or will be.\<close>

definition channel_bytes :: "dispatch \<Rightarrow> int \<Rightarrow> byte list" where
  "channel_bytes d fd = d_wire d fd @ (if 0 \<le> fd \<and> fd < int (length (d_buff d)) then d_buff d ! nat fd else [])"

lemma channel_bytes_list [simp]: "channel_bytes (d\<lparr>d_list := bs\<rparr>) = channel_bytes d"
  by (simp add: channel_bytes_def fun_eq_iff)

lemma send_loop_append: "fst (send_loop answers buff) @ snd (send_loop answers buff) = buff"
  by (induction answers buff rule: send_loop.induct) (auto simp: Let_def split: prod.splits)

lemma send_loop_all: "0 < c \<Longrightarrow> length buff \<le> nat c \<Longrightarrow> send_loop [c] buff = (buff, [])"
  by (cases buff) simp_all

lemma aget_cases: "aget xs i = (if 0 \<le> i \<and> i < int (length xs) then Inr (xs ! nat i) else Inl Out_Of_Bounds)"
  by (simp add: aget_def)

lemma send_stream:
  assumes "0 \<le> fd" "fd < int (length (d_buff d))"
  obtains n d' where "sendConnectionsToWorker answers fd d = Inr (n, d')" "channel_bytes d' = channel_bytes d"
    "length (d_buff d') = length (d_buff d)" "d_list d' = d_list d" "d_sum d' = d_sum d"
    "d_buff d' ! nat fd = snd (send_loop answers (d_buff d ! nat fd))"
proof -
  let ?b = "d_buff d ! nat fd"
  let ?d = "d\<lparr>d_buff := (d_buff d)[nat fd := snd (send_loop answers ?b)],
    d_wire := (d_wire d)(fd := d_wire d fd @ fst (send_loop answers ?b))\<rparr>"
  have run: "sendConnectionsToWorker answers fd d = Inr (int (length (fst (send_loop answers ?b))), ?d)"
    using assms by (simp add: sendConnectionsToWorker_def aget_def aset_def case_prod_unfold Let_def)
  have "channel_bytes ?d g = channel_bytes d g" for g
  proof (cases "g = fd")
    case True
    then show ?thesis using assms by (simp add: channel_bytes_def send_loop_append)
  next
    case False
    then have "0 \<le> g \<Longrightarrow> nat g \<noteq> nat fd" using assms(1) by auto
    with False show ?thesis by (auto simp: channel_bytes_def)
  qed
  then show thesis using that [OF run] assms by fastforce
qed

lemma append_stream:
  assumes "0 \<le> fd" "fd < int (length (d_buff d))" "length (d_buff d ! nat fd) + length bs \<le> SEND_BUFF"
  obtains d' where "append_buff fd bs d = Inr d'" "\<And>g. channel_bytes d' g = channel_bytes d g @ (if g = fd then bs else [])"
    "length (d_buff d') = length (d_buff d)" "d_list d' = d_list d" "d_sum d' = d_sum d"
    "d_buff d' ! nat fd = d_buff d ! nat fd @ bs"
proof -
  let ?d = "d\<lparr>d_buff := (d_buff d)[nat fd := d_buff d ! nat fd @ bs]\<rparr>"
  have run: "append_buff fd bs d = Inr ?d"
    using assms by (simp add: append_buff_def aget_def aset_def)
  have "channel_bytes ?d g = channel_bytes d g @ (if g = fd then bs else [])" for g
  proof (cases "g = fd")
    case False
    then have "0 \<le> g \<Longrightarrow> nat g \<noteq> nat fd" using assms(1) by auto
    with False show ?thesis by (auto simp: channel_bytes_def)
  qed (use assms in \<open>simp add: channel_bytes_def\<close>)
  then show thesis using that [OF run] assms by fastforce
qed

lemma channel_ok: "2 \<le> cpu_num \<Longrightarrow> 0 \<le> n \<Longrightarrow> channel cpu_num n = Inr (n mod (cpu_num - 1) + 1)"
  by (cases "n = 0") (simp_all add: channel_def c_rem_def sgn_if)

lemma length_batch_bytes [simp]: "length (batch_bytes fds) = 4 * length fds"
  by (induction fds) (simp_all add: batch_bytes_def)

text \<open>The worker's descriptor that the batch with number \<open>n\<close> goes to.\<close>

definition peer :: "int \<Rightarrow> int list \<Rightarrow> int \<Rightarrow> int" where
  "peer cpu_num pairs n = pairs ! nat (n mod (cpu_num - 1) + 1)"

text \<open>Dealing out one batch.\<close>

lemma deal_spec:
  assumes "2 \<le> cpu_num" "0 \<le> d_sum d" "cpu_num \<le> int (length pairs)" "0 \<le> peer cpu_num pairs (d_sum d)"
  defines "g \<equiv> peer cpu_num pairs (d_sum d)"
  shows "if g < int (length (d_buff d)) \<and> length (d_buff d ! nat g) + 4 * length fds \<le> SEND_BUFF
    then \<exists>d'. deal cpu_num pairs answers fds d = Inr d' \<and>
      (\<forall>h. channel_bytes d' h = channel_bytes d h @ (if h = g then batch_bytes fds else [])) \<and>
      d_list d' = d_list d \<and> d_sum d' = d_sum d + 1 \<and> length (d_buff d') = length (d_buff d) \<and>
      d_buff d' ! nat g = snd (send_loop (answers (d_sum d)) (d_buff d ! nat g @ batch_bytes fds))
    else deal cpu_num pairs answers fds d = Inl Out_Of_Bounds"
proof -
  have "0 \<le> d_sum d mod (cpu_num - 1)" "d_sum d mod (cpu_num - 1) < cpu_num - 1" using assms(1) by simp_all
  then have ch: "aget pairs (d_sum d mod (cpu_num - 1) + 1) = Inr g"
    using assms(3) by (simp add: aget_def g_def peer_def)
  have run: "deal cpu_num pairs answers fds d =
      cbind (append_buff g (batch_bytes fds) d) (\<lambda>d.
      cbind (sendConnectionsToWorker (answers (d_sum d)) g d) (\<lambda>(_, d). Inr (d\<lparr>d_sum := d_sum d + 1\<rparr>)))"
    using assms(1,2) ch by (simp add: deal_def channel_ok)
  show ?thesis
  proof (cases "g < int (length (d_buff d)) \<and> length (d_buff d ! nat g) + 4 * length fds \<le> SEND_BUFF")
    case True
    have g: "0 \<le> g" using assms(4) by (simp add: g_def)
    obtain d1 where d1: "append_buff g (batch_bytes fds) d = Inr d1"
      "\<And>h. channel_bytes d1 h = channel_bytes d h @ (if h = g then batch_bytes fds else [])"
      "length (d_buff d1) = length (d_buff d)" "d_list d1 = d_list d" "d_sum d1 = d_sum d"
      "d_buff d1 ! nat g = d_buff d ! nat g @ batch_bytes fds"
      using append_stream [OF g, of d "batch_bytes fds"] True by auto
    obtain n d2 where d2: "sendConnectionsToWorker (answers (d_sum d1)) g d1 = Inr (n, d2)" "channel_bytes d2 = channel_bytes d1"
      "length (d_buff d2) = length (d_buff d1)" "d_list d2 = d_list d1" "d_sum d2 = d_sum d1"
      "d_buff d2 ! nat g = snd (send_loop (answers (d_sum d1)) (d_buff d1 ! nat g))"
      using send_stream [OF g, of d1 "answers (d_sum d1)"] True d1(3) by auto
    have "channel_bytes (d2\<lparr>d_sum := d_sum d2 + 1\<rparr>) = channel_bytes d2" by (simp add: channel_bytes_def fun_eq_iff)
    then show ?thesis using True d1 d2 by (simp add: run)
  next
    case False
    then show ?thesis using assms(4) by (auto simp: run append_buff_def aget_def g_def)
  qed
qed

text \<open>The bytes that a list of batches, the first with number \<open>n\<close>, adds to the stream of \<open>g\<close>.\<close>

fun dealt :: "int \<Rightarrow> int list \<Rightarrow> int \<Rightarrow> int \<Rightarrow> int list list \<Rightarrow> byte list" where
  "dealt cpu_num pairs n g [] = []"
| "dealt cpu_num pairs n g (fds # bs) =
     (if g = peer cpu_num pairs n then batch_bytes fds else []) @ dealt cpu_num pairs (n + 1) g bs"

definition peers_ok :: "int \<Rightarrow> int list \<Rightarrow> dispatch \<Rightarrow> bool" where
  "peers_ok cpu_num pairs d \<longleftrightarrow> 2 \<le> cpu_num \<and> cpu_num \<le> int (length pairs) \<and> 0 \<le> d_sum d \<and>
     (\<forall>p\<in>set pairs. 0 \<le> p)"

lemma peers_okD:
  assumes "peers_ok cpu_num pairs d"
  shows "0 \<le> peer cpu_num pairs (d_sum d)" "peer cpu_num pairs (d_sum d) \<in> set pairs"
proof -
  have "0 \<le> d_sum d mod (cpu_num - 1)" "d_sum d mod (cpu_num - 1) < cpu_num - 1"
    using assms by (simp_all add: peers_ok_def)
  then have "nat (d_sum d mod (cpu_num - 1) + 1) < length pairs"
    using assms by (auto simp: peers_ok_def nat_less_iff)
  then show "peer cpu_num pairs (d_sum d) \<in> set pairs" by (simp add: peer_def)
  then show "0 \<le> peer cpu_num pairs (d_sum d)" using assms by (simp add: peers_ok_def)
qed

lemma deal_all_spec:
  assumes "peers_ok cpu_num pairs d"
  shows "case deal_all cpu_num pairs answers bs d of
      Inl f \<Rightarrow> f = Out_Of_Bounds
    | Inr d' \<Rightarrow> (\<forall>g. channel_bytes d' g = channel_bytes d g @ dealt cpu_num pairs (d_sum d) g bs) \<and>
        d_list d' = d_list d \<and> d_sum d' = d_sum d + int (length bs)"
  using assms
proof (induction bs arbitrary: d)
  case (Cons fds bs)
  let ?g = "peer cpu_num pairs (d_sum d)"
  have spec: "if ?g < int (length (d_buff d)) \<and> length (d_buff d ! nat ?g) + 4 * length fds \<le> SEND_BUFF
    then \<exists>d'. deal cpu_num pairs answers fds d = Inr d' \<and>
      (\<forall>h. channel_bytes d' h = channel_bytes d h @ (if h = ?g then batch_bytes fds else [])) \<and>
      d_list d' = d_list d \<and> d_sum d' = d_sum d + 1 \<and> length (d_buff d') = length (d_buff d) \<and>
      d_buff d' ! nat ?g = snd (send_loop (answers (d_sum d)) (d_buff d ! nat ?g @ batch_bytes fds))
    else deal cpu_num pairs answers fds d = Inl Out_Of_Bounds"
    using Cons.prems peers_okD(1) [OF Cons.prems] by (intro deal_spec) (simp_all add: peers_ok_def)
  show ?case
  proof (cases "deal cpu_num pairs answers fds d")
    case (Inl f)
    then show ?thesis using spec by (auto split: if_splits)
  next
    case (Inr d')
    then have d': "\<forall>h. channel_bytes d' h = channel_bytes d h @ (if h = ?g then batch_bytes fds else [])"
      "d_list d' = d_list d" "d_sum d' = d_sum d + 1" using spec by (auto split: if_splits)
    then have "peers_ok cpu_num pairs d'" using Cons.prems by (simp add: peers_ok_def)
    from Cons.IH [OF this] show ?thesis using d' Inr by (auto split: sum.splits)
  qed
qed simp

lemma no_dispatch_stream: "channel_bytes no_dispatch g = []"
  by (auto simp: channel_bytes_def no_dispatch_def)

lemma no_dispatch_fields: "d_sum no_dispatch = 0"
  by (simp add: no_dispatch_def)

text \<open>
  C12. A round of \<open>dispatch_conn\<close> loses, repeats and reorders nothing on any channel: what a worker
  has been sent together with what waits for it in its buffer grows by exactly the batches whose
  turn it was, whatever \<open>send\<close> accepted; the list is left empty. The one way it fails is to write
  outside the buffers.
\<close>

theorem dispatch_conn_conserves:
  assumes "peers_ok cpu_num pairs d"
  shows "case dispatch_conn cpu_num pairs answers d of
      Inl f \<Rightarrow> f = Out_Of_Bounds
    | Inr d' \<Rightarrow> (\<forall>g. channel_bytes d' g = channel_bytes d g @ dealt cpu_num pairs (d_sum d) g (d_list d)) \<and>
        d_list d' = [] \<and> d_sum d' = d_sum d + int (length (d_list d))"
proof -
  have "peers_ok cpu_num pairs (d\<lparr>d_list := []\<rparr>)" using assms by (simp add: peers_ok_def)
  then show ?thesis
    using deal_all_spec [of cpu_num pairs "d\<lparr>d_list := []\<rparr>" "d_list d" answers]
    by (auto simp: dispatch_conn_def split: sum.splits)
qed

theorem dispatch_conn_conserves_witness:
  "case dispatch_conn 3 [0, 6, 8] (\<lambda>_. [3]) (no_dispatch\<lparr>d_list := [[20], [21], [22]]\<rparr>) of
     Inl f \<Rightarrow> f = Out_Of_Bounds
   | Inr d' \<Rightarrow> channel_bytes d' 6 = enc_int 20 @ enc_int 22 \<and> channel_bytes d' 8 = enc_int 21"
  using dispatch_conn_conserves [of 3 "[0, 6, 8]" "no_dispatch\<lparr>d_list := [[20], [21], [22]]\<rparr>" "\<lambda>_. [3]"]
  by (auto simp: peers_ok_def no_dispatch_stream no_dispatch_fields peer_def batch_bytes_def split: sum.splits)

text \<open>
  C13. Dealing out a batch writes outside the buffers exactly when the worker's descriptor is 128
  or more - there is a buffer for each processor, but they are indexed by the descriptor - or when
  the worker is so far behind that the batch does not fit in its 120000 bytes; and with a single
  processor it divides by zero.
\<close>

theorem deal_faults:
  assumes "peers_ok cpu_num pairs d" "length (d_buff d) = MAX_CPU"
  shows "(deal cpu_num pairs answers fds d = Inl Out_Of_Bounds \<longleftrightarrow>
      128 \<le> peer cpu_num pairs (d_sum d) \<or>
      120000 < length (d_buff d ! nat (peer cpu_num pairs (d_sum d))) + 4 * length fds) \<and>
    deal 1 pairs answers fds d = Inl Div_By_Zero"
proof -
  let ?g = "peer cpu_num pairs (d_sum d)"
  have "if ?g < int (length (d_buff d)) \<and> length (d_buff d ! nat ?g) + 4 * length fds \<le> SEND_BUFF
    then \<exists>d'. deal cpu_num pairs answers fds d = Inr d' \<and>
      (\<forall>h. channel_bytes d' h = channel_bytes d h @ (if h = ?g then batch_bytes fds else [])) \<and>
      d_list d' = d_list d \<and> d_sum d' = d_sum d + 1 \<and> length (d_buff d') = length (d_buff d) \<and>
      d_buff d' ! nat ?g = snd (send_loop (answers (d_sum d)) (d_buff d ! nat ?g @ batch_bytes fds))
    else deal cpu_num pairs answers fds d = Inl Out_Of_Bounds"
    using assms(1) peers_okD(1) [OF assms(1)] by (intro deal_spec) (simp_all add: peers_ok_def)
  moreover have "deal 1 pairs answers fds d = Inl Div_By_Zero"
    by (simp add: deal_def channel_def c_rem_def)
  ultimately show ?thesis by (auto simp: assms(2) MAX_CPU_def SEND_BUFF_def split: if_splits)
qed

theorem deal_faults_witness:
  "deal 2 [0, 130] (\<lambda>_. []) [20] no_dispatch = Inl Out_Of_Bounds"
  using deal_faults [of 2 "[0, 130]" no_dispatch "\<lambda>_. []" "[20]"]
  by (simp add: peers_ok_def no_dispatch_def peer_def)

end
