(* ===== verification/Workers.thy ===== *)
theory Workers
  imports Dispatch
begin

text \<open>
  How a worker takes over connections (\<open>cppserver/src/worker.cc\<close>): \<open>readfun_getConnections\<close>
  reads its channel until there is nothing left and \<open>process_connection\<close> registers a descriptor
  for every four bytes. The chunks that \<open>recv\<close> returns, the clock, and which calls of \<open>fcntl\<close>
  and \<open>epoll_ctl\<close> fail are arguments.
\<close>

section \<open>The code\<close>

record worker_env =
  we_fcntl_ok :: "int \<Rightarrow> bool"
  we_epoll_ok :: "int \<Rightarrow> bool"
  we_now :: "nat \<Rightarrow> int"      \<comment> \<open>the clock, by the number of descriptors watched\<close>

definition set_client :: "fditem \<Rightarrow> fditem" where
  "set_client it = it\<lparr>m_readfun := Some Client_Readfun, m_writefun := Some Client_Writefun,
     m_closefun := Some Client_Closefun, m_timeoutfun := Some Client_Timeoutfun\<rparr>"

definition watch :: "worker_env \<Rightarrow> int \<Rightarrow> world \<Rightarrow> world" where
  "watch env fd w = w\<lparr>w_epoll := w_epoll w @ [fd],
     w_timer := add_timer (item_addr fd) (we_now env (length (w_epoll w)) + 10 * 1000) (w_timer w)\<rparr>"

definition register :: "worker_env \<Rightarrow> int \<Rightarrow> world \<Rightarrow> world proceeds cres" where
  "register env fd w =
     (if \<not> we_fcntl_ok env fd then Inr (Exits 1)
      else cbind (set_item fd set_client w) (\<lambda>w.
        if \<not> we_epoll_ok env fd then Inr (Exits (-1)) else Inr (Goes (watch env fd w))))"

text \<open>The bytes of the buffer that are no complete number are moved to its start.\<close>

fun process_connection :: "worker_env \<Rightarrow> byte list \<Rightarrow> world \<Rightarrow> (byte list \<times> world) proceeds cres" where
  "process_connection env (a # b # c # d # buffer) w =
     (case register env (dec_int [a, b, c, d]) w of
        Inl f \<Rightarrow> Inl f | Inr (Exits n) \<Rightarrow> Inr (Exits n) | Inr (Goes w) \<Rightarrow> process_connection env buffer w)"
| "process_connection env buffer w = Inr (Goes (buffer, w))"

text \<open>What \<open>recv\<close> returns; at the end of the list it returns \<open>-1\<close> with \<open>EAGAIN\<close>.\<close>

datatype recv_answer = Recv "byte list" | Recv_Closed | Recv_Err

fun recv_size :: "recv_answer list \<Rightarrow> nat" where
  "recv_size [] = 0"
| "recv_size (Recv bs # rs) = Suc (length bs) + recv_size rs"
| "recv_size (_ # rs) = Suc (recv_size rs)"

definition BUFFER :: nat where "BUFFER = 10 * 1024"

function get_connections ::
    "worker_env \<Rightarrow> recv_answer list \<Rightarrow> byte list \<Rightarrow> world \<Rightarrow> world proceeds cres" where
  "get_connections env [] buffer w = Inr (Goes w)"
| "get_connections env (Recv bs # rs) buffer w =
     (let room = BUFFER - length buffer; got = take room bs; left = drop room bs;
          rs = (if left = [] then rs else Recv left # rs)
      in if got \<noteq> [] \<and> length buffer + length got \<ge> 4
         then case process_connection env (buffer @ got) w of
                Inl f \<Rightarrow> Inl f
              | Inr (Exits n) \<Rightarrow> Inr (Exits n)
              | Inr (Goes (buffer, w)) \<Rightarrow> get_connections env rs buffer w
         else Inl Assert_Fail)"
| "get_connections env (Recv_Closed # rs) buffer w = Inl Assert_Fail"
| "get_connections env (Recv_Err # rs) buffer w = Inl Assert_Fail"
  by pat_completeness auto
termination
  by (relation "measure (\<lambda>(env, rs, buffer, w). recv_size rs)") auto

declare get_connections.simps(2) [simp del]

definition readfun_getConnections :: "worker_env \<Rightarrow> recv_answer list \<Rightarrow> world \<Rightarrow> world proceeds cres" where
  "readfun_getConnections env rs w = get_connections env rs [] w"

section \<open>Which descriptors are registered\<close>

definition admissible :: "worker_env \<Rightarrow> int \<Rightarrow> bool" where
  "admissible env fd \<longleftrightarrow> 0 \<le> fd \<and> fd < MAX_FD \<and> we_fcntl_ok env fd \<and> we_epoll_ok env fd"

definition admit :: "worker_env \<Rightarrow> int \<Rightarrow> world \<Rightarrow> world" where
  "admit env fd w = watch env fd (w\<lparr>w_items := (w_items w)(fd := set_client (w_items w fd))\<rparr>)"

lemma register_admit: "admissible env fd \<Longrightarrow> register env fd w = Inr (Goes (admit env fd w))"
  by (simp add: register_def admissible_def set_item_ok admit_def)

lemma process_connection_ok:
  assumes "\<forall>fd\<in>set (ints_of bs). admissible env fd"
  shows "process_connection env bs w = Inr (Goes (rest_of bs, fold (admit env) (ints_of bs) w))"
  using assms
  by (induction env bs w rule: process_connection.induct) (simp_all add: register_admit)

text \<open>
  How the bytes may be cut: no call of \<open>recv\<close> may leave the worker with fewer than four bytes,
  counting the \<open>r\<close> that were left over before. A chunk that does not fit into the buffer is
  read in several calls.
\<close>

function cuts_ok :: "nat \<Rightarrow> byte list list \<Rightarrow> bool" where
  "cuts_ok r [] \<longleftrightarrow> True"
| "cuts_ok r (c # cs) \<longleftrightarrow> (let got = min (length c) (BUFFER - r); left = drop got c in
     if got = 0 \<or> r + got < 4 then False
     else cuts_ok ((r + got) mod 4) (if left = [] then cs else left # cs))"
  by pat_completeness auto
termination
  by (relation "measure (\<lambda>(r, cs). sum_list (map (Suc \<circ> length) cs))") auto

declare cuts_ok.simps(2) [simp del]

lemma cuts_ok_fits:
  "length c \<le> BUFFER - r \<Longrightarrow>
     cuts_ok r (c # cs) \<longleftrightarrow> c \<noteq> [] \<and> 4 \<le> r + length c \<and> cuts_ok ((r + length c) mod 4) cs"
  by (auto simp: cuts_ok.simps(2) Let_def)

lemma get_connections_cuts:
  assumes "length buffer < 4"
    and "\<forall>fd\<in>set (ints_of (buffer @ concat cs)). admissible env fd"
  shows "get_connections env (map Recv cs) buffer w =
    (if cuts_ok (length buffer) cs then Inr (Goes (fold (admit env) (ints_of (buffer @ concat cs)) w)) else Inl Assert_Fail)"
  using assms
proof (induction "length buffer" cs arbitrary: buffer w rule: cuts_ok.induct)
  case 1
  then have "ints_of buffer = []" by (cases buffer rule: ints_of.cases) auto
  then show ?case by simp
next
  case (2 c cs)
  define room where "room = BUFFER - length buffer"
  define cs' where "cs' = (if drop room c = [] then cs else drop room c # cs)"
  have cs': "take room c @ concat cs' = concat (c # cs)"
    using append_take_drop_id [of room c] by (cases "drop room c = []") (auto simp: cs'_def simp del: append_take_drop_id)
  have read: "(if drop room c = [] then map Recv cs else Recv (drop room c) # map Recv cs) = map Recv cs'"
    by (simp add: cs'_def)
  let ?b = "buffer @ take room c"
  have got: "min (length c) room = length (take room c)" "drop (length (take room c)) c = drop room c"
    by (simp_all add: min_def)
  have ints: "ints_of (buffer @ concat (c # cs)) = ints_of ?b @ ints_of (rest_of ?b @ concat cs')"
    using ints_of_append [of ?b "concat cs'"] cs' by simp
  have run: "process_connection env ?b w = Inr (Goes (rest_of ?b, fold (admit env) (ints_of ?b) w))"
    using 2(3) by (intro process_connection_ok) (simp only: ints set_append Un_iff, blast)
  show ?case
  proof (cases "take room c = [] \<or> length buffer + length (take room c) < 4")
    case False
    have len: "(length buffer + length (take room c)) mod 4 = length (rest_of ?b)" by (simp add: rest_of_short)
    have small: "length (rest_of ?b) < 4" by (simp add: rest_of_short)
    have "\<forall>fd\<in>set (ints_of (rest_of ?b @ concat cs')). admissible env fd" using 2(3) by (simp add: ints del: concat.simps)
    with 2(1) [OF refl refl, folded room_def, unfolded got, folded cs'_def] len small False
    have IH: "get_connections env (map Recv cs') (rest_of ?b) v =
        (if cuts_ok (length (rest_of ?b)) cs' then Inr (Goes (fold (admit env) (ints_of (rest_of ?b @ concat cs')) v))
         else Inl Assert_Fail)" for v
      by blast
    have "cuts_ok (length buffer) (c # cs) = cuts_ok (length (rest_of ?b)) cs'"
      unfolding cuts_ok.simps(2) Let_def room_def [symmetric] got len [symmetric] cs'_def using False by simp
    moreover have "get_connections env (map Recv (c # cs)) buffer w =
        get_connections env (map Recv cs') (rest_of ?b) (fold (admit env) (ints_of ?b) w)"
      unfolding list.map get_connections.simps(2) Let_def room_def [symmetric] read run using False by simp
    ultimately show ?thesis by (simp only: IH ints fold_append o_apply)
  next
    case True
    have "\<not> cuts_ok (length buffer) (c # cs)"
      unfolding cuts_ok.simps(2) Let_def room_def [symmetric] got using True by auto
    moreover have "get_connections env (map Recv (c # cs)) buffer w = Inl Assert_Fail"
      unfolding list.map get_connections.simps(2) Let_def room_def [symmetric] using True by auto
    ultimately show ?thesis by simp
  qed
qed

lemma ints_of_batch:
  assumes "\<forall>fd\<in>set fds. admissible env fd"
  shows "ints_of (batch_bytes fds) = fds"
proof -
  have "\<forall>x\<in>set fds. 0 \<le> x \<and> x \<le> 2147483647" using assms by (force simp: admissible_def MAX_FD_def)
  then show ?thesis using ints_of_enc [of fds] by (simp add: batch_bytes_def)
qed

text \<open>
  Whatever the chunks in which the bytes of the channel arrive, a worker registers exactly the
  descriptors they spell, in order - provided that no chunk leaves it with fewer than four bytes:
  then, and only then, the process is aborted by \<open>assert(false)\<close>.
\<close>

theorem getConnections_outcome:
  assumes "concat cs = batch_bytes fds" "\<forall>fd\<in>set fds. admissible env fd"
  shows "readfun_getConnections env (map Recv cs) w =
    (if cuts_ok 0 cs then Inr (Goes (fold (admit env) fds w)) else Inl Assert_Fail)"
  using get_connections_cuts [of "[]" cs env w] assms(2) ints_of_batch [OF assms(2)]
  by (simp add: readfun_getConnections_def assms(1))

definition all_fine :: worker_env where
  "all_fine = \<lparr>we_fcntl_ok = \<lambda>_. True, we_epoll_ok = \<lambda>_. True, we_now = \<lambda>_. 0\<rparr>"

definition new_world :: world where
  "new_world = \<lparr>w_items = \<lambda>_. init_item 0, w_timer = new_timer, w_epoll = [], w_closed = [],
     w_sent = \<lambda>_. [], w_log = [], w_ub = [], w_dispatch = no_dispatch\<rparr>"

lemma all_fine_admissible [simp]: "admissible all_fine fd \<longleftrightarrow> 0 \<le> fd \<and> fd < MAX_FD"
  by (simp add: admissible_def all_fine_def)

theorem getConnections_outcome_witness:
  "readfun_getConnections all_fine (map Recv [[20, 0, 0, 0, 21], [0, 0, 0]]) new_world
     = Inr (Goes (fold (admit all_fine) [20, 21] new_world)) \<and>
   readfun_getConnections all_fine (map Recv [[20, 0, 0], [0, 21, 0, 0, 0]]) new_world = Inl Assert_Fail"
  using getConnections_outcome [of "[[20, 0, 0, 0, 21], [0, 0, 0]]" "[20, 21]" all_fine new_world]
    getConnections_outcome [of "[[20, 0, 0], [0, 21, 0, 0, 0]]" "[20, 21]" all_fine new_world]
  by (simp add: batch_bytes_def enc_int_def MAX_FD_def cuts_ok_fits BUFFER_def)

text \<open>
  The bytes left over when the channel is empty are in a local buffer and are lost: if the
  twelve bytes of three descriptors are read six by six in two calls, the first call registers
  the first descriptor and the second one a number made of the second half of the second and
  the first half of the third.
\<close>

theorem partial_descriptor_lost:
  assumes "admissible env f1" "admissible env g" "g = dec_int (drop 2 (enc_int f2) @ take 2 (enc_int f3))"
  shows "let bs = batch_bytes [f1, f2, f3] in
    readfun_getConnections env [Recv (take 6 bs)] w = Inr (Goes (admit env f1 w)) \<and>
    readfun_getConnections env [Recv (drop 6 bs)] (admit env f1 w) = Inr (Goes (admit env g (admit env f1 w)))"
proof -
  obtain a b c d where f1: "enc_int f1 = [a, b, c, d]" by (simp add: enc_int_def)
  obtain p q r s where f2: "enc_int f2 = [p, q, r, s]" by (simp add: enc_int_def)
  obtain t u v x where f3: "enc_int f3 = [t, u, v, x]" by (simp add: enc_int_def)
  have "dec_int (enc_int f1) = f1" using assms(1) by (intro dec_enc_int) (simp_all add: admissible_def MAX_FD_def)
  then have "ints_of [a, b, c, d, p, q] = [f1]" "ints_of [r, s, t, u, v, x] = [g]"
    using assms(3) by (simp_all add: f1 f2 f3)
  then have "get_connections env (map Recv [[a, b, c, d, p, q]]) [] w = Inr (Goes (admit env f1 w))"
    "get_connections env (map Recv [[r, s, t, u, v, x]]) [] (admit env f1 w) = Inr (Goes (admit env g (admit env f1 w)))"
    using assms(1,2) by (subst get_connections_cuts; simp add: cuts_ok_fits BUFFER_def)+
  moreover have "take 6 (batch_bytes [f1, f2, f3]) = [a, b, c, d, p, q]"
    "drop 6 (batch_bytes [f1, f2, f3]) = [r, s, t, u, v, x]"
    by (simp_all add: batch_bytes_def f1 f2 f3)
  ultimately show ?thesis by (simp add: readfun_getConnections_def Let_def)
qed

theorem partial_descriptor_lost_witness:
  "readfun_getConnections all_fine [Recv (drop 6 (batch_bytes [6, 7, 8]))] (admit all_fine 6 new_world)
     = Inr (Goes (admit all_fine 524288 (admit all_fine 6 new_world)))"
proof -
  have "word_of_int (7 div 65536) = (0 :: byte)" "word_of_int (8 div 256) = (0 :: byte)" by simp_all
  then have "dec_int (drop 2 (enc_int 7) @ take 2 (enc_int 8)) = 524288"
    by (simp add: enc_int_def c_int_def c_signed_def)
  note lost = partial_descriptor_lost [OF _ _ this [symmetric], of all_fine 6 new_world, unfolded Let_def, THEN conjunct2]
  show ?thesis by (rule lost) (simp_all add: MAX_FD_def)
qed

text \<open>The descriptors of the batches that \<open>g\<close> is dealt.\<close>

fun dealt_fds :: "int \<Rightarrow> int list \<Rightarrow> int \<Rightarrow> int \<Rightarrow> int list list \<Rightarrow> int list" where
  "dealt_fds cpu_num pairs n g [] = []"
| "dealt_fds cpu_num pairs n g (fds # bs) =
     (if g = peer cpu_num pairs n then fds else []) @ dealt_fds cpu_num pairs (n + 1) g bs"

lemma dealt_bytes: "dealt cpu_num pairs n g bs = batch_bytes (dealt_fds cpu_num pairs n g bs)"
  by (induction bs arbitrary: n) (simp_all add: batch_bytes_def)

lemma dealt_subset: "set (dealt_fds cpu_num pairs n g bs) \<subseteq> set (concat bs)"
  by (induction bs arbitrary: n) auto

lemma ints_of_take: "ints_of (take k (batch_bytes fds)) = take (k div 4) (ints_of (batch_bytes fds))"
proof (induction fds arbitrary: k)
  case (Cons fd fds)
  obtain a b c d where e: "enc_int fd = [a, b, c, d]" by (simp add: enc_int_def)
  show ?case
  proof (cases "k < 4")
    case True
    then consider "k = 0" | "k = 1" | "k = 2" | "k = 3" by linarith
    then show ?thesis by cases (simp_all add: batch_bytes_def e take_Cons')
  next
    case False
    then obtain m where "k = Suc (Suc (Suc (Suc m)))" using that [of "k - 4"] by simp
    moreover have "Suc (Suc (Suc (Suc m))) div 4 = Suc (m div 4)" by simp
    ultimately show ?thesis using Cons.IH [of m] by (simp add: batch_bytes_def e)
  qed
qed (simp add: batch_bytes_def)

text \<open>
  C8. From \<open>accept\<close> to a worker. \<open>accept_readfun\<close> runs over any answers of \<open>accept\<close>,
  \<open>dispatch_conn\<close> deals the batches whatever \<open>send\<close> takes, and in one call the worker whose
  channel is \<open>g\<close> reads what has been sent to it or any first part of that, in any chunks. The
  batches hold the connections below \<open>MAX_FD\<close> in the order of arrival, but the newest batch is
  dealt first; what was sent together with what still waits in the buffer spells the batches
  whose turn was \<open>g\<close>'s. If \<open>fcntl\<close> and \<open>epoll_ctl\<close> work, the worker registers exactly the
  descriptors whose four bytes it read completely, each once, in the order of dealing - unless
  some call of \<open>recv\<close> leaves it with fewer than four bytes, when the process is aborted by
  \<open>assert(false)\<close>. (The bytes of a descriptor that it read only in part are lost with the call:
  \<open>partial_descriptor_lost\<close>.)
\<close>

theorem connections_reach_worker:
  assumes "d_list d = []" and "accept_readfun rs d = Goes d1"
    and "peers_ok cpu_num pairs d" "dispatch_conn cpu_num pairs answers d1 = Inr d2"
    and "channel_bytes d g = []"
    and "concat cs = take k (d_wire d2 g)"
    and "\<forall>fd\<in>set (until_error rs). we_fcntl_ok env fd \<and> we_epoll_ok env fd"
  shows "let fds = dealt_fds cpu_num pairs (d_sum d) g (d_list d1) in
    concat (rev (d_list d1)) = filter (\<lambda>fd. fd < MAX_FD) (until_error rs) \<and>
    channel_bytes d2 g = batch_bytes fds \<and>
    readfun_getConnections env (map Recv cs) w =
      (if cuts_ok 0 cs then Inr (Goes (fold (admit env) (take (length (concat cs) div 4) fds) w))
       else Inl Assert_Fail)"
proof -
  let ?fds = "dealt_fds cpu_num pairs (d_sum d) g (d_list d1)"
  have acc: "batches_ok (d_list d1)" "concat (rev (d_list d1)) = filter (\<lambda>fd. fd < MAX_FD) (until_error rs)"
    "d_sum d1 = d_sum d" "d_buff d1 = d_buff d" "d_wire d1 = d_wire d"
    using accept_loop_spec [of "[]" d rs] assms(1,2)
    by (simp_all add: accept_readfun_def MAXACCEPTSIZE_def batches_ok_def)
  have "channel_bytes d1 g = channel_bytes d g" using acc by (simp add: channel_bytes_def)
  then have "channel_bytes d1 g = []" using assms(5) by simp
  moreover have "peers_ok cpu_num pairs (d1\<lparr>d_list := []\<rparr>)" using assms(3) acc by (simp add: peers_ok_def)
  ultimately have sent: "channel_bytes d2 g = batch_bytes ?fds"
    using deal_all_spec [of cpu_num pairs "d1\<lparr>d_list := []\<rparr>" "d_list d1" answers] assms(4) acc(3)
    by (auto simp: dispatch_conn_def dealt_bytes batch_bytes_def split: if_splits)
  have "admissible env fd" if "fd \<in> set ?fds" for fd
  proof -
    from that have fd: "fd \<in> set (concat (d_list d1))" using dealt_subset by blast
    then have "fd \<in> set (concat (rev (d_list d1)))" by simp
    then have "fd \<in> set (until_error rs)" "fd < MAX_FD" by (simp_all only: acc(2) set_filter mem_Collect_eq)
    moreover have "0 < fd" using fd acc(1) by (auto simp: batches_ok_def)
    ultimately show ?thesis using assms(7) by (simp add: admissible_def)
  qed
  then have "\<forall>fd\<in>set ?fds. admissible env fd" by blast
  note fds = this ints_of_batch [OF this]
  have "d_wire d2 g = take (length (d_wire d2 g)) (batch_bytes ?fds)"
    using sent by (metis append_eq_conv_conj channel_bytes_def)
  then have cs: "concat cs = take (length (concat cs)) (batch_bytes ?fds)"
    using assms(6) by (metis length_take min.commute min.left_idem take_take)
  from ints_of_take [of "length (concat cs)" ?fds] cs fds(2)
  have ints: "ints_of (concat cs) = take (length (concat cs) div 4) ?fds" by simp
  have "\<forall>fd\<in>set (ints_of (concat cs)). admissible env fd" using fds(1) by (auto simp: ints dest: in_set_takeD)
  then show ?thesis
    using get_connections_cuts [of "[]" cs env w] acc(2) sent ints
    by (simp add: readfun_getConnections_def Let_def)
qed

text \<open>
  A run: of three connections accepted in one batch the first two are read whole and the third
  is cut; and a first chunk of three bytes aborts the process.
\<close>

theorem connections_reach_worker_witness:
  "\<exists>d1 d2. accept_readfun [Accepted 20, Accepted 21, Accepted 22] no_dispatch = Goes d1 \<and>
     dispatch_conn 3 [0, 6, 8] (\<lambda>_. [12]) d1 = Inr d2 \<and>
     readfun_getConnections all_fine (map Recv [[20, 0, 0, 0, 21], [0, 0, 0, 22]]) new_world
       = Inr (Goes (fold (admit all_fine) [20, 21] new_world)) \<and>
     readfun_getConnections all_fine (map Recv [[20, 0, 0]]) new_world = Inl Assert_Fail"
proof -
  let ?rs = "[Accepted 20, Accepted 21, Accepted 22]" and ?d = "no_dispatch\<lparr>d_list := [[20, 21, 22]]\<rparr>"
  have acc: "accept_readfun ?rs no_dispatch = Goes ?d"
    by (simp add: accept_readfun_def push_batch_def MAX_FD_def MAXACCEPTSIZE_def no_dispatch_def)
  have "\<exists>d'. dispatch_conn 3 [0, 6, 8] (\<lambda>_. [12]) ?d = Inr d' \<and> d_wire d' 6 = batch_bytes [20, 21, 22]"
    using send_loop_all [of 12 "batch_bytes [20, 21, 22]"]
    by (simp add: dispatch_conn_def deal_def channel_ok aget_def append_buff_def aset_def sendConnectionsToWorker_def
        no_dispatch_def SEND_BUFF_def MAX_CPU_def Let_def case_prod_unfold)
  then obtain d2 where d2: "dispatch_conn 3 [0, 6, 8] (\<lambda>_. [12]) ?d = Inr d2"
    "d_wire d2 6 = batch_bytes [20, 21, 22]" by blast
  have ok: "peers_ok 3 [0, 6, 8] no_dispatch" by (simp add: peers_ok_def no_dispatch_fields)
  have stream: "channel_bytes no_dispatch 6 = []" "d_list no_dispatch = []" "d_sum no_dispatch = 0"
    "\<forall>fd\<in>set (until_error ?rs). we_fcntl_ok all_fine fd \<and> we_epoll_ok all_fine fd"
    by (simp_all add: no_dispatch_stream) (simp_all add: no_dispatch_def all_fine_def)
  have bytes: "batch_bytes [20, 21, 22] = [20, 0, 0, 0, 21, 0, 0, 0, 22, 0, 0, 0]"
    by (simp add: batch_bytes_def enc_int_def)
  have "concat [[20, 0, 0, 0, 21], [0, 0, 0, 22]] = take 9 (d_wire d2 6)" by (simp add: d2(2) bytes)
  note cut = connections_reach_worker [OF stream(2) acc ok d2(1) stream(1) this stream(4), of new_world]
  have "concat [[20, 0, 0]] = take 3 (d_wire d2 6)" by (simp add: d2(2) bytes)
  note short = connections_reach_worker [OF stream(2) acc ok d2(1) stream(1) this stream(4), of new_world]
  have "readfun_getConnections all_fine (map Recv [[20, 0, 0, 0, 21], [0, 0, 0, 22]]) new_world
      = Inr (Goes (fold (admit all_fine) [20, 21] new_world))"
    using cut by (simp add: stream(3) peer_def cuts_ok_fits BUFFER_def Let_def)
  moreover have "readfun_getConnections all_fine (map Recv [[20, 0, 0]]) new_world = Inl Assert_Fail"
    using short by (simp add: stream(3) cuts_ok_fits BUFFER_def Let_def)
  ultimately show ?thesis using acc d2(1) by blast
qed

end
