(* ===== verification/EventLoop.thy ===== *)
theory EventLoop
  imports Workers
begin

text \<open>
  The event loop of the threads of the C++ server: \<open>cppserver/src/process_event.cc\<close> and the
  functions of a client in \<open>worker.cc\<close>. What the calls on the descriptors answer during a round
  is an argument, and so are the events of \<open>epoll_wait\<close> and the clock.
\<close>

section \<open>The functions of a client\<close>

definition EPOLLIN :: u32 where "EPOLLIN = 0x001"
definition EPOLLOUT :: u32 where "EPOLLOUT = 0x004"
definition EPOLLRDHUP :: u32 where "EPOLLRDHUP = 0x2000"

text \<open>What \<open>read\<close> returns; at the end of the list it returns \<open>-1\<close>.\<close>

datatype read_answer = Rd "byte list" | Rd_Eof

record loop_env =
  le_worker :: worker_env
  le_channel :: "recv_answer list"
  le_accepts :: "accept_answer list"
  le_reads :: "int \<Rightarrow> read_answer list"
  le_write :: "int \<Rightarrow> int"
  le_now :: int

text \<open>The text that a buffer holds, up to its first zero; \<open>None\<close> is a byte never written.\<close>

fun printed :: "byte option list \<Rightarrow> byte list cres" where
  "printed [] = Inl Out_Of_Bounds"
| "printed (None # bs) = Inl Uninit_Read"
| "printed (Some b # bs) = (if b = 0 then Inr [] else cbind (printed bs) (\<lambda>t. Inr (b # t)))"

fun read_size :: "read_answer list \<Rightarrow> nat" where
  "read_size [] = 0"
| "read_size (Rd bs # rs) = Suc (length bs) + read_size rs"
| "read_size (Rd_Eof # rs) = Suc (read_size rs)"

definition active_close :: "fditem \<Rightarrow> fditem" where
  "active_close it = it\<lparr>m_activeclose := True\<rparr>"

function read_loop :: "int \<Rightarrow> read_answer list \<Rightarrow> byte option list \<Rightarrow> world \<Rightarrow> (int \<times> world) cres" where
  "read_loop fd [] buff w = Inr (1, w)"
| "read_loop fd (Rd_Eof # rs) buff w = cbind (set_item fd active_close w) (\<lambda>w. Inr (-1, w))"
| "read_loop fd (Rd bs # rs) buff w =
     (if bs = [] then cbind (set_item fd active_close w) (\<lambda>w. Inr (-1, w))
      else let got = take 1023 bs; left = drop 1023 bs;
               buff = map Some got @ drop (length got) buff
           in case printed buff of
                Inl f \<Rightarrow> Inl f
              | Inr text \<Rightarrow> read_loop fd (if left = [] then rs else Rd left # rs) buff (w\<lparr>w_log := w_log w @ [text]\<rparr>))"
  by pat_completeness auto
termination
  by (relation "measure (\<lambda>(fd, rs, buff, w). read_size rs)") auto

declare read_loop.simps(3) [simp del]

definition client_readfun :: "read_answer list \<Rightarrow> int \<Rightarrow> world \<Rightarrow> (int \<times> world) cres" where
  "client_readfun rs fd w = read_loop fd rs (replicate 1024 None) w"

text \<open>\<open>senddata\<close> as \<open>main\<close> fills it, and what \<open>client_writefun\<close> and \<open>client_timeoutfun\<close> share.\<close>

definition senddata :: "byte list" where
  "senddata = map (\<lambda>i. of_nat (i mod 26) + 97) [0..<2048]"

definition presend :: int where "presend = 500"

definition client_write :: "int \<Rightarrow> int \<Rightarrow> world \<Rightarrow> world cres" where
  "client_write answer fd w =
     cbind (item fd w) (\<lambda>it.
       let len = presend - m_sended it; len = min answer len
       in if len = 0 then set_item fd active_close w
          else if len > 0
          then let w = w\<lparr>w_sent := (w_sent w)(fd := w_sent w fd @ take (nat len) (drop (nat (m_sended it)) senddata))\<rparr>
               in set_item fd (\<lambda>it. let it = it\<lparr>m_sended := m_sended it + len\<rparr>
                    in if m_sended it = presend then it\<lparr>m_sended := 0\<rparr> else it) w
          else Inr w)"

definition client_writefun :: "int \<Rightarrow> int \<Rightarrow> world \<Rightarrow> (int \<times> world) cres" where
  "client_writefun answer fd w = cbind (client_write answer fd w) (\<lambda>w. Inr (1, w))"

definition client_timeoutfun :: "int \<Rightarrow> int \<Rightarrow> int \<Rightarrow> world \<Rightarrow> (int \<times> world) cres" where
  "client_timeoutfun answer fd tnow w =
     cbind (client_write answer fd w) (\<lambda>w.
       Inr (0, w\<lparr>w_timer := add_timer (item_addr fd) (tnow + 10 * 1000) (w_timer w)\<rparr>))"

definition client_closefun :: "int \<Rightarrow> int \<Rightarrow> world \<Rightarrow> (int \<times> world) cres" where
  "client_closefun now fd w =
     (let w = w\<lparr>w_timer := remove_timer (item_addr fd) (w_timer w)\<rparr>
      in cbind (set_item fd (\<lambda>_. init_item now) w) (\<lambda>w.
        Inr (1, w\<lparr>w_closed := w_closed w @ [fd], w_sent := (w_sent w)(fd := [])\<rparr>)))"

section \<open>The loop\<close>

definition call :: "loop_env \<Rightarrow> handler \<Rightarrow> int \<Rightarrow> world \<Rightarrow> (int \<times> world) proceeds cres" where
  "call env h fd w = (case h of
     Accept_Readfun \<Rightarrow> (case accept_readfun (le_accepts env) (w_dispatch w) of
         Exits n \<Rightarrow> Inr (Exits n) | Goes d \<Rightarrow> Inr (Goes (1, w\<lparr>w_dispatch := d\<rparr>)))
   | Readfun_GetConnections \<Rightarrow> pbind (readfun_getConnections (le_worker env) (le_channel env) w) (\<lambda>w. Inr (Goes (1, w)))
   | Client_Readfun \<Rightarrow> cbind (client_readfun (le_reads env fd) fd w) (\<lambda>r. Inr (Goes r))
   | Client_Writefun \<Rightarrow> cbind (client_writefun (le_write env fd) fd w) (\<lambda>r. Inr (Goes r))
   | Client_Closefun \<Rightarrow> cbind (client_closefun (le_now env) fd w) (\<lambda>r. Inr (Goes r)))"

definition call_if :: "bool \<Rightarrow> loop_env \<Rightarrow> handler option \<Rightarrow> int \<Rightarrow> world \<Rightarrow> world proceeds cres" where
  "call_if ready env fn fd w = (case fn of
     Some h \<Rightarrow> if ready
       then pbind (call env h fd w) (\<lambda>(r, w).
         cbind (if 0 > r then set_item fd active_close w else Inr w) (\<lambda>w. Inr (Goes w)))
       else Inr (Goes w)
   | None \<Rightarrow> Inr (Goes w))"

text \<open>\<open>remove_timer\<close> is given the address of the place in \<open>gFDITEM\<close>, not of the item.\<close>

definition process_one_event :: "loop_env \<Rightarrow> int \<times> u32 \<Rightarrow> world \<Rightarrow> world proceeds cres" where
  "process_one_event env ev w = (case ev of (fd, events) \<Rightarrow>
     cbind (item fd w) (\<lambda>it. pbind (call_if (\<not> m_activeclose it \<and> and events EPOLLIN \<noteq> 0) env (m_readfun it) fd w) (\<lambda>w.
     cbind (item fd w) (\<lambda>it. pbind (call_if (\<not> m_activeclose it \<and> and events EPOLLOUT \<noteq> 0) env (m_writefun it) fd w) (\<lambda>w.
     cbind (item fd w) (\<lambda>it. cbind (if \<not> m_activeclose it \<and> and events EPOLLRDHUP \<noteq> 0 then set_item fd active_close w else Inr w) (\<lambda>w.
     cbind (item fd w) (\<lambda>it.
       if m_activeclose it
       then let w = w\<lparr>w_timer := remove_timer (slot_addr fd) (w_timer w)\<rparr>
            in case m_closefun it of
                 None \<Rightarrow> Inl Null_Deref
               | Some h \<Rightarrow> pbind (call env h fd w) (\<lambda>(_, w). Inr (Goes w))
       else Inr (Goes w)))))))))"

fun process_events :: "loop_env \<Rightarrow> (int \<times> u32) list \<Rightarrow> world \<Rightarrow> world proceeds cres" where
  "process_events env [] w = Inr (Goes w)"
| "process_events env (ev # evs) w = pbind (process_one_event env ev w) (process_events env evs)"

text \<open>What \<open>get_timer\<close> returns is taken for an item; a timer never holds anything else.\<close>

definition timeout_of :: "(int \<Rightarrow> int) \<Rightarrow> int \<Rightarrow> nat \<Rightarrow> world \<Rightarrow> world cres" where
  "timeout_of answer tnow n w =
     cbind (item (int n) w) (\<lambda>it. case m_timeoutfun it of
       None \<Rightarrow> Inl Null_Deref
     | Some Client_Timeoutfun \<Rightarrow> cbind (client_timeoutfun (answer (int n)) (int n) tnow w) (\<lambda>(_, w). Inr w))"

definition due_count :: "int \<Rightarrow> TIMER \<Rightarrow> nat" where
  "due_count ts t = length (filter (\<lambda>e. fst e \<le> ts) (timer_time_arg t))"

lemma due_count_get: "get_timer ts t = Inr (u, a, t') \<Longrightarrow> a \<noteq> Null_Addr \<Longrightarrow> due_count ts t' < due_count ts t"
  by (auto simp: get_timer_def due_count_def Let_def split: list.splits if_splits option.splits)

lemma due_count_add: "ts < s \<Longrightarrow> due_count ts (add_timer a s t) = due_count ts t"
proof -
  assume "ts < s"
  then have "length (filter (\<lambda>e. fst e \<le> ts) (mm_insert s a m)) = length (filter (\<lambda>e. fst e \<le> ts) m)" for m :: "(int \<times> addr) list"
    by (induction s a m rule: mm_insert.induct) auto
  then show ?thesis by (simp add: due_count_def add_timer_def)
qed

lemma client_write_timer: "client_write answer fd w = Inr w' \<Longrightarrow> w_timer w' = w_timer w"
  by (auto simp: client_write_def set_item_def cbind_def Let_def split: sum.splits if_splits)

lemma due_count_timeout: "timeout_of answer ts n w = Inr w' \<Longrightarrow> due_count ts (w_timer w') = due_count ts (w_timer w)"
  by (auto simp: timeout_of_def client_timeoutfun_def cbind_def due_count_add client_write_timer
      split: sum.splits option.splits timeout_handler.splits)

function drain :: "(int \<Rightarrow> int) \<Rightarrow> int \<Rightarrow> world \<Rightarrow> world cres" where
  "drain answer timeStamp w = (case get_timer timeStamp (w_timer w) of
     Inl f \<Rightarrow> Inl f
   | Inr (u, fditem, t) \<Rightarrow>
       let w = w\<lparr>w_timer := t, w_ub := w_ub w @ u\<rparr>
       in case fditem of
            Null_Addr \<Rightarrow> Inr w
          | Slot _ \<Rightarrow> Inl Uninit_Read
          | Item n \<Rightarrow> (case timeout_of answer timeStamp n w of
                Inl f \<Rightarrow> Inl f | Inr w \<Rightarrow> drain answer timeStamp w))"
  by pat_completeness auto
termination
proof (relation "measure (\<lambda>(answer, ts, w). due_count ts (w_timer w))", goal_cases)
  case (2 answer ts w x u y a t w1 n w2)
  then have "due_count ts t < due_count ts (w_timer w)" using due_count_get [of ts "w_timer w" u a t] by auto
  moreover have "due_count ts (w_timer w2) = due_count ts (w_timer w1)" using 2 due_count_timeout by auto
  ultimately show ?case using 2 by simp
qed simp

declare drain.simps [simp del]

definition process_event :: "loop_env \<Rightarrow> (int \<times> u32) list \<Rightarrow> int \<Rightarrow> world \<Rightarrow> world proceeds cres" where
  "process_event env evs timeStamp w =
     pbind (process_events env evs w) (\<lambda>w. cbind (drain (le_write env) timeStamp w) (\<lambda>w. Inr (Goes w)))"

definition next_timeout :: "int \<Rightarrow> TIMER \<Rightarrow> int" where
  "next_timeout now t = (if get_arg_time_size t > 0 then get_mintimer now t else 1000)"

definition worker_start :: "worker_env \<Rightarrow> int \<Rightarrow> world \<Rightarrow> world proceeds cres" where
  "worker_start env orderfd w =
     (if \<not> we_fcntl_ok env orderfd then Inr (Exits 1)
      else cbind (set_item orderfd (\<lambda>it. it\<lparr>m_readfun := Some Readfun_GetConnections\<rparr>) w) (\<lambda>w.
        if \<not> we_epoll_ok env orderfd then Inr (Exits (-1)) else Inr (Goes (w\<lparr>w_epoll := w_epoll w @ [orderfd]\<rparr>))))"

section \<open>What the loop keeps\<close>

text \<open>The bytes sent to a client are the first 500 of \<open>senddata\<close> over and over.\<close>

definition pattern :: "nat \<Rightarrow> byte list" where
  "pattern n = map (\<lambda>i. senddata ! (i mod 500)) [0..<n]"

definition in_pattern :: "world \<Rightarrow> int \<Rightarrow> bool" where
  "in_pattern w fd \<longleftrightarrow> (let n = length (w_sent w fd) in
     w_sent w fd = pattern n \<and> m_sended (w_items w fd) = int (n mod 500))"

definition armed :: "world \<Rightarrow> addr \<Rightarrow> bool" where
  "armed w a \<longleftrightarrow> (\<exists>n. a = Item n \<and> int n < MAX_FD \<and> m_timeoutfun (w_items w (int n)) = Some Client_Timeoutfun)"

definition loop_ok :: "world \<Rightarrow> bool" where
  "loop_ok w \<longleftrightarrow> timer_ok (w_timer w) \<and> (\<forall>e\<in>set (timer_time_arg (w_timer w)). armed w (snd e)) \<and>
     (\<forall>fd. in_pattern w fd)"

definition same_core :: "world \<Rightarrow> world \<Rightarrow> bool" where
  "same_core w w' \<longleftrightarrow> w_timer w' = w_timer w \<and> w_sent w' = w_sent w \<and>
     (\<forall>fd. m_sended (w_items w' fd) = m_sended (w_items w fd) \<and> m_timeoutfun (w_items w' fd) = m_timeoutfun (w_items w fd))"

lemma same_core_ok: "same_core w w' \<Longrightarrow> loop_ok w \<Longrightarrow> loop_ok w'"
  by (simp add: same_core_def loop_ok_def in_pattern_def armed_def)

lemma same_core_refl [simp]: "same_core w w"
  by (simp add: same_core_def)

lemma same_core_trans: "same_core u v \<Longrightarrow> same_core v w \<Longrightarrow> same_core u w"
  by (simp add: same_core_def)

lemma set_item_Inr: "set_item fd f w = Inr w' \<longleftrightarrow> 0 \<le> fd \<and> fd < MAX_FD \<and> w' = w\<lparr>w_items := (w_items w)(fd := f (w_items w fd))\<rparr>"
  by (auto simp: set_item_def item_def)

lemma item_Inr: "item fd w = Inr it \<longleftrightarrow> 0 \<le> fd \<and> fd < MAX_FD \<and> it = w_items w fd"
  by (auto simp: item_def)

lemma active_close_core: "set_item fd active_close w = Inr w' \<Longrightarrow> same_core w w'"
  by (auto simp: set_item_Inr same_core_def active_close_def)

lemma length_senddata: "length senddata = 2048"
  by (simp add: senddata_def)

lemma pattern_extend:
  assumes "k \<le> 500 - n mod 500"
  shows "pattern n @ take k (drop (n mod 500) senddata) = pattern (n + k)"
proof -
  have "take k (drop (n mod 500) senddata) = map (\<lambda>i. senddata ! (i mod 500)) [n..<n + k]"
  proof (rule nth_equalityI)
    have "n mod 500 < 500" by simp
    then show len: "length (take k (drop (n mod 500) senddata)) = length (map (\<lambda>i. senddata ! (i mod 500)) [n..<n + k])"
      using assms by (simp add: length_senddata)
    fix i assume "i < length (take k (drop (n mod 500) senddata))"
    then have i: "i < k" by simp
    then have small: "n mod 500 + i < 500" using assms by linarith
    have "(n + i) mod 500 = (n mod 500 + i) mod 500" by (simp add: mod_add_left_eq)
    then have "(n + i) mod 500 = n mod 500 + i" using small by simp
    then show "take k (drop (n mod 500) senddata) ! i = map (\<lambda>i. senddata ! (i mod 500)) [n..<n + k] ! i"
      using i small by (simp add: length_senddata)
  qed
  then show ?thesis by (simp add: pattern_def upt_add_eq_append [of 0 n k, simplified])
qed

lemma client_write_cases:
  assumes "client_write answer fd w = Inr w'"
  defines "len \<equiv> min answer (presend - m_sended (w_items w fd))"
  obtains (Sent) "0 < len" "w_timer w' = w_timer w"
      "w_sent w' = (w_sent w)(fd := w_sent w fd @ take (nat len) (drop (nat (m_sended (w_items w fd))) senddata))"
      "\<And>g. m_timeoutfun (w_items w' g) = m_timeoutfun (w_items w g)"
      "\<And>g. m_sended (w_items w' g) = (if g = fd then
         if m_sended (w_items w fd) + len = presend then 0 else m_sended (w_items w fd) + len
         else m_sended (w_items w g))"
  | (Other) "len \<le> 0" "same_core w w'"
proof -
  have it: "item fd w = Inr (w_items w fd)"
    using assms(1) by (auto simp: client_write_def item_def cbind_def split: if_splits)
  note run = assms(1) [unfolded client_write_def it cbind_simps Let_def, folded len_def]
  show thesis
  proof (cases "len > 0")
    case True
    with run show thesis by (intro Sent) (auto simp: set_item_Inr)
  next
    case False
    with run show thesis by (intro Other) (auto simp: active_close_core split: if_splits)
  qed
qed

lemma wrap_500:
  assumes "n mod 500 + l \<le> 500"
  shows "int ((n + l) mod 500) = (if int (n mod 500) + int l = 500 then 0 else int (n mod 500) + int l)"
proof -
  have "(n + l) mod 500 = (n mod 500 + l) mod 500" by (simp add: mod_add_left_eq)
  then have "(n + l) mod 500 = (if n mod 500 + l = 500 then 0 else n mod 500 + l)"
    using assms by (cases "n mod 500 + l = 500") simp_all
  then show ?thesis by auto
qed

lemma client_write_pattern:
  assumes "client_write answer fd w = Inr w'" "\<forall>g. in_pattern w g"
  shows "in_pattern w' g"
proof -
  let ?s = "m_sended (w_items w fd)" and ?n = "length (w_sent w fd)"
  let ?len = "min answer (presend - ?s)"
  have pat: "w_sent w fd = pattern ?n" "?s = int (?n mod 500)"
    using assms(2) by (simp_all add: in_pattern_def Let_def)
  show ?thesis using assms(1)
  proof (cases rule: client_write_cases)
    case Sent
    show ?thesis
    proof (cases "g = fd")
      case True
      have k: "nat ?len \<le> 500 - ?n mod 500" by (simp add: pat(2) presend_def)
      have "w_sent w' fd = pattern (?n + nat ?len)"
        using Sent(3) pattern_extend [OF k] pat by simp
      moreover have "m_sended (w_items w' fd) = int ((?n + nat ?len) mod 500)"
      proof -
        obtain l where l: "?len = int l" using Sent(1) by (metis zero_le_imp_eq_int order_less_imp_le)
        then have "?n mod 500 + l \<le> 500" using k by linarith
        moreover have "m_sended (w_items w' fd) = (if ?s + int l = presend then 0 else ?s + int l)"
          using Sent(5) [of fd] unfolding l by simp
        ultimately show ?thesis using wrap_500 [of ?n l] pat(2) unfolding l by (simp add: presend_def)
      qed
      moreover have "length (pattern m) = m" for m by (simp add: pattern_def)
      ultimately show ?thesis by (simp add: in_pattern_def True)
    next
      case False
      then show ?thesis using assms(2) Sent by (simp add: in_pattern_def)
    qed
  next
    case Other
    then show ?thesis using assms(2) by (simp add: in_pattern_def same_core_def)
  qed
qed

lemma client_write_ok:
  assumes "client_write answer fd w = Inr w'" "loop_ok w"
  shows "loop_ok w'"
proof -
  have "armed w' a = armed w a" for a
    using assms(1) by (cases rule: client_write_cases) (simp_all add: armed_def same_core_def)
  then show ?thesis
    using client_write_pattern [OF assms(1)] client_write_timer [OF assms(1)] assms(2) by (simp add: loop_ok_def)
qed

lemma armed_timer [simp]: "armed (w\<lparr>w_timer := t\<rparr>) a = armed w a" "in_pattern (w\<lparr>w_timer := t\<rparr>) fd = in_pattern w fd"
  by (simp_all add: armed_def in_pattern_def)

lemma armed_not_null: "armed w a \<Longrightarrow> a \<noteq> Null_Addr"
  by (auto simp: armed_def)

lemma add_timer_loop_ok:
  assumes "loop_ok w" "armed w a"
  shows "loop_ok (w\<lparr>w_timer := add_timer a s (w_timer w)\<rparr>)"
  using assms tq.add_law [of "w_timer w" a s] armed_not_null [OF assms(2)]
  by (auto simp: loop_ok_def add_timer_def set_mm_insert)

lemma remove_timer_loop_ok: "loop_ok w \<Longrightarrow> loop_ok (w\<lparr>w_timer := remove_timer a (w_timer w)\<rparr>)"
  using tq.remove_law [of "w_timer w" a] remove_timer_lists [of "w_timer w" a] by (auto simp: loop_ok_def)

lemma watch_ok:
  assumes "loop_ok w" "armed w (item_addr fd)"
  shows "loop_ok (watch env fd w)"
proof -
  have "loop_ok (w\<lparr>w_timer := add_timer (item_addr fd) (we_now env (length (w_epoll w)) + 10 * 1000) (w_timer w)\<rparr>)"
    by (rule add_timer_loop_ok [OF assms])
  then show ?thesis by (simp add: watch_def loop_ok_def armed_def in_pattern_def)
qed

lemma register_ok:
  assumes "register env fd w = Inr (Goes w')" "loop_ok w"
  shows "loop_ok w'"
proof -
  let ?w = "w\<lparr>w_items := (w_items w)(fd := set_client (w_items w fd))\<rparr>"
  have w': "w' = watch env fd ?w" "0 \<le> fd" "fd < MAX_FD"
    using assms(1) by (auto simp: register_def cbind_def set_item_Inr split: if_splits sum.splits)
  have "armed ?w a" if "armed w a" for a using that by (auto simp: armed_def set_client_def)
  moreover have "in_pattern ?w g = in_pattern w g" for g by (simp add: in_pattern_def set_client_def)
  ultimately have "loop_ok ?w" using assms(2) by (simp add: loop_ok_def)
  moreover have "armed ?w (item_addr fd)" using w'(2,3) by (simp add: armed_def item_addr_def set_client_def)
  ultimately show ?thesis unfolding w'(1) by (rule watch_ok)
qed

lemma process_connection_loop_ok:
  "process_connection env bs w = Inr (Goes (rest, w')) \<Longrightarrow> loop_ok w \<Longrightarrow> loop_ok w'"
  by (induction env bs w rule: process_connection.induct) (auto split: sum.splits proceeds.splits dest: register_ok)

lemma get_connections_loop_ok:
  "get_connections env rs bs w = Inr (Goes w') \<Longrightarrow> loop_ok w \<Longrightarrow> loop_ok w'"
proof (induction env rs bs w rule: get_connections.induct)
  case (2 env bs rs buffer w)
  let ?got = "take (BUFFER - length buffer) bs"
  obtain rest w1 where step: "process_connection env (buffer @ ?got) w = Inr (Goes (rest, w1))"
    using "2.prems"(1) by (auto simp: get_connections.simps(2) Let_def split: if_splits sum.splits proceeds.splits)
  moreover have "?got \<noteq> [] \<and> 4 \<le> length buffer + length ?got"
    using "2.prems"(1) by (auto simp: get_connections.simps(2) Let_def split: if_splits)
  ultimately show ?case
    using 2 process_connection_loop_ok [OF step] by (simp add: get_connections.simps(2) Let_def)
qed simp_all

lemma read_loop_core: "read_loop fd rs buff w = Inr (r, w') \<Longrightarrow> same_core w w'"
proof (induction fd rs buff w rule: read_loop.induct)
  case (3 fd bs rs buff w)
  show ?case
  proof (cases "bs = []")
    case True
    with 3(2) show ?thesis by (auto simp: read_loop.simps(3) cbind_def active_close_core split: sum.splits)
  next
    case False
    let ?buff = "map Some (take 1023 bs) @ drop (length (take 1023 bs)) buff"
    obtain t where t: "printed ?buff = Inr t" using 3(2) False by (auto simp: read_loop.simps(3) Let_def split: sum.splits)
    have "same_core (w\<lparr>w_log := w_log w @ [t]\<rparr>) w'"
      using 3 False t by (simp add: read_loop.simps(3) Let_def)
    moreover have "same_core w (w\<lparr>w_log := w_log w @ [t]\<rparr>)" by (simp add: same_core_def)
    ultimately show ?thesis using same_core_trans by blast
  qed
qed (auto simp: cbind_def active_close_core split: sum.splits)

lemma closefun_ok:
  assumes "client_closefun now fd w = Inr (r, w')" "loop_ok w"
  shows "loop_ok w'"
proof -
  let ?t = "remove_timer (item_addr fd) (w_timer w)"
  have w': "w_timer w' = ?t" "w_items w' = (w_items w)(fd := init_item now)" "w_sent w' = (w_sent w)(fd := [])" "0 \<le> fd"
    using assms(1) by (auto simp: client_closefun_def cbind_def set_item_Inr Let_def split: sum.splits)
  have ok: "timer_ok (w_timer w)" using assms(2) by (simp add: loop_ok_def)
  have "armed w' (snd e)" if "e \<in> set (timer_time_arg ?t)" for e
  proof -
    have "armed w (snd e)" "snd e \<noteq> item_addr fd"
      using that assms(2) by (auto simp: remove_timer_lists [OF ok] loop_ok_def)
    then show ?thesis using w'(4) by (auto simp: armed_def w'(2) item_addr_def)
  qed
  moreover have "in_pattern w' g" for g
    using assms(2) by (auto simp: in_pattern_def w' init_item_def pattern_def loop_ok_def)
  ultimately show ?thesis using remove_timer_ok [OF ok] by (simp add: loop_ok_def w'(1))
qed

lemma call_ok:
  assumes "call env h fd w = Inr (Goes (r, w'))" "loop_ok w"
  shows "loop_ok w'"
proof (cases h)
  case Accept_Readfun
  then have "same_core w w'" using assms(1) by (auto simp: call_def same_core_def split: proceeds.splits)
  then show ?thesis using assms(2) by (rule same_core_ok)
next
  case Readfun_GetConnections
  then show ?thesis using assms
    by (auto simp: call_def pbind_Goes_iff readfun_getConnections_def dest: get_connections_loop_ok)
next
  case Client_Readfun
  then show ?thesis using assms
    by (auto simp: call_def client_readfun_def cbind_Inr_iff dest: read_loop_core same_core_ok)
next
  case Client_Writefun
  then show ?thesis using assms by (auto simp: call_def client_writefun_def cbind_Inr_iff dest: client_write_ok)
next
  case Client_Closefun
  then show ?thesis using assms by (auto simp: call_def cbind_Inr_iff dest: closefun_ok)
qed

lemma active_close_ok: "set_item fd active_close w = Inr w' \<Longrightarrow> loop_ok w \<Longrightarrow> loop_ok w'"
  using active_close_core same_core_ok by blast

lemma call_if_ok:
  assumes "call_if ready env fn fd w = Inr (Goes w')" "loop_ok w"
  shows "loop_ok w'"
  using assms call_ok active_close_ok
  by (auto simp: call_if_def pbind_Goes_iff cbind_Inr_iff split: option.splits if_splits)

lemma process_one_event_ok:
  assumes "process_one_event env ev w = Inr (Goes w')" "loop_ok w"
  shows "loop_ok w'"
proof -
  obtain fd events where ev: "ev = (fd, events)" by (cases ev)
  obtain w1 w2 w3 where
    1: "call_if (\<not> m_activeclose (w_items w fd) \<and> and events EPOLLIN \<noteq> 0) env (m_readfun (w_items w fd)) fd w = Inr (Goes w1)" and
    2: "call_if (\<not> m_activeclose (w_items w1 fd) \<and> and events EPOLLOUT \<noteq> 0) env (m_writefun (w_items w1 fd)) fd w1 = Inr (Goes w2)" and
    3: "(if \<not> m_activeclose (w_items w2 fd) \<and> and events EPOLLRDHUP \<noteq> 0 then set_item fd active_close w2 else Inr w2) = Inr w3" and
    4: "(if m_activeclose (w_items w3 fd)
       then let w = w3\<lparr>w_timer := remove_timer (slot_addr fd) (w_timer w3)\<rparr>
            in case m_closefun (w_items w3 fd) of None \<Rightarrow> Inl Null_Deref
               | Some h \<Rightarrow> pbind (call env h fd w) (\<lambda>(_, w). Inr (Goes w))
       else Inr (Goes w3)) = Inr (Goes w')"
    using assms(1) unfolding ev process_one_event_def
    by (auto simp: cbind_Inr_iff pbind_Goes_iff item_Inr)
  have "loop_ok w3"
    using call_if_ok [OF 1 assms(2)] call_if_ok [OF 2] 3 active_close_ok by (auto split: if_splits)
  then show ?thesis
    using 4 call_ok remove_timer_loop_ok [of w3 "slot_addr fd"]
    by (auto simp: pbind_Goes_iff Let_def split: if_splits option.splits)
qed

lemma process_events_ok: "process_events env evs w = Inr (Goes w') \<Longrightarrow> loop_ok w \<Longrightarrow> loop_ok w'"
  by (induction env evs w rule: process_events.induct) (auto simp: pbind_Goes_iff dest: process_one_event_ok)

section \<open>Timers that are due\<close>

lemma client_write_total: "0 \<le> fd \<Longrightarrow> fd < MAX_FD \<Longrightarrow> \<exists>w'. client_write answer fd w = Inr w'"
  by (simp add: client_write_def item_def set_item_ok Let_def)

lemma client_write_ub: "client_write answer fd w = Inr w' \<Longrightarrow> w_ub w' = w_ub w"
  by (auto simp: client_write_def set_item_Inr cbind_Inr_iff item_Inr Let_def split: if_splits)

lemma timeout_of_armed:
  assumes "loop_ok w" "armed w (Item n)"
  obtains w' where "timeout_of answer ts n w = Inr w'" "loop_ok w'" "w_ub w' = w_ub w"
    "w_timer w' = add_timer (Item n) (ts + 10000) (w_timer w)"
proof -
  have n: "int n < MAX_FD" "m_timeoutfun (w_items w (int n)) = Some Client_Timeoutfun"
    using assms(2) by (auto simp: armed_def)
  obtain w1 where w1: "client_write (answer (int n)) (int n) w = Inr w1"
    using client_write_total [of "int n"] n(1) by auto
  have "armed w1 (Item n)"
    using w1 assms(2) by (cases rule: client_write_cases) (simp_all add: armed_def same_core_def)
  then have "loop_ok (w1\<lparr>w_timer := add_timer (Item n) (ts + 10000) (w_timer w1)\<rparr>)"
    using client_write_ok [OF w1 assms(1)] add_timer_loop_ok by blast
  moreover have "timeout_of answer ts n w = Inr (w1\<lparr>w_timer := add_timer (Item n) (ts + 10000) (w_timer w1)\<rparr>)"
    using n w1 by (simp add: timeout_of_def item_def client_timeoutfun_def item_addr_def)
  ultimately show thesis using that client_write_timer [OF w1] client_write_ub [OF w1] by fastforce
qed

text \<open>Every item that is due is called once and gets a new time, ten seconds on.\<close>

definition rearmed :: "int \<Rightarrow> (int \<times> addr) multiset \<Rightarrow> (int \<times> addr) multiset" where
  "rearmed ts q = filter_mset (\<lambda>e. ts < fst e) q + image_mset (\<lambda>e. (ts + 10000, snd e)) (filter_mset (\<lambda>e. fst e \<le> ts) q)"

lemma drain_spec:
  assumes "loop_ok w"
  shows "\<exists>w'. drain answer ts w = Inr w' \<and> loop_ok w' \<and> timers (w_timer w') = rearmed ts (timers (w_timer w)) \<and>
    w_ub w' = w_ub w @ replicate (size (tq.due ts (w_timer w))) Read_Erased @
      (if timer_time_arg (w_timer w) = [] then [Deref_End] else [])"
  using assms
proof (induction "due_count ts (w_timer w)" arbitrary: w rule: less_induct)
  case less
  have ok: "timer_ok (w_timer w)" using less.prems by (simp add: loop_ok_def)
  have core: "loop_ok (w\<lparr>w_ub := u\<rparr>)" for u
    using less.prems by (simp add: loop_ok_def armed_def in_pattern_def)
  note get = get_timer_spec [OF ok, of ts]
  show ?case
  proof (cases "timer_time_arg (w_timer w)")
    case Nil
    then show ?thesis using get core
      by (simp add: drain.simps [of answer ts w] rearmed_def tq.due_def timers_def)
  next
    case (Cons e rest)
    obtain time a where e: "e = (time, a)" by (cases e)
    show ?thesis
    proof (cases "ts < time")
      case True
      have "\<forall>e\<in>set (timer_time_arg (w_timer w)). ts < fst e"
        using ok True by (auto simp: timer_ok_def mm_ok_def Cons e)
      then have "filter (\<lambda>e. fst e \<le> ts) (timer_time_arg (w_timer w)) = []"
        "filter (\<lambda>e. ts < fst e) (timer_time_arg (w_timer w)) = timer_time_arg (w_timer w)"
        by (auto simp: filter_empty_conv filter_id_conv)
      then have "tq.due ts (w_timer w) = {#}" "rearmed ts (timers (w_timer w)) = timers (w_timer w)"
        by (simp_all add: tq.due_def rearmed_def timers_def flip: mset_filter)
      then show ?thesis using get core less.prems True Cons
        by (simp add: drain.simps [of answer ts w] e)
    next
      case False
      then obtain t' where t': "get_timer ts (w_timer w) = Inr ([Read_Erased], a, t')" "a \<noteq> Null_Addr"
        "timer_time_arg t' = rest" "timer_ok t'"
        using get by (auto simp: Cons e)
      obtain n where n: "a = Item n" "armed w (Item n)"
        using less.prems by (auto simp: loop_ok_def Cons e armed_def)
      let ?w = "w\<lparr>w_timer := t', w_ub := w_ub w @ [Read_Erased]\<rparr>"
      have "loop_ok ?w" "armed ?w (Item n)"
        using less.prems t'(3,4) n(2) by (auto simp: loop_ok_def armed_def in_pattern_def Cons)
      then obtain w2 where w2: "timeout_of answer ts n ?w = Inr w2" "loop_ok w2" "w_ub w2 = w_ub ?w"
        "w_timer w2 = add_timer (Item n) (ts + 10000) t'"
        by (rule timeout_of_armed) auto
      have add: "timers (w_timer w2) = add_mset (ts + 10000, Item n) (timers t')"
        using tq.add_law [OF t'(4), of "Item n"] by (simp add: w2(4))
      have whole: "timers (w_timer w) = add_mset (time, Item n) (timers t')"
        by (simp add: timers_def Cons e t'(3) n(1))
      have "due_count ts (w_timer w2) < due_count ts (w_timer w)"
        using due_count_get [OF t'(1,2)] by (simp add: w2(4) due_count_add)
      from less.hyps [OF this w2(2)] obtain w' where w': "drain answer ts w2 = Inr w'" "loop_ok w'"
        "timers (w_timer w') = rearmed ts (timers (w_timer w2))"
        "w_ub w' = w_ub w2 @ replicate (size (tq.due ts (w_timer w2))) Read_Erased @
          (if timer_time_arg (w_timer w2) = [] then [Deref_End] else [])" by blast
      have "timer_time_arg (w_timer w2) \<noteq> []" using add by (auto simp: timers_def)
      moreover have "drain answer ts w = drain answer ts w2"
        using t'(1) w2(1) by (simp add: drain.simps [of answer ts w] n(1))
      moreover have "rearmed ts (timers (w_timer w2)) = rearmed ts (timers (w_timer w))"
        using False by (simp add: add whole rearmed_def)
      moreover have "size (tq.due ts (w_timer w)) = Suc (size (tq.due ts (w_timer w2)))"
        using False by (simp add: tq.due_def add whole)
      ultimately show ?thesis using w' by (simp add: w2(3) Cons)
    qed
  qed
qed

text \<open>
  C7. The loop's state stays well formed through whole rounds of events and timers, whatever the
  clients send and the calls answer: the two maps of the timer agree, every timer is that of an
  item with a time-out function - so that function is never called through a null pointer - and
  what each client has been sent since it was opened is the 500-byte pattern repeated, from its
  start and without a gap.
\<close>

theorem process_event_invariant:
  assumes "loop_ok w" "process_event env evs ts w = Inr (Goes w')"
  shows "timer_ok (w_timer w') \<and> (\<forall>e\<in>set (timer_time_arg (w_timer w')). armed w' (snd e)) \<and>
    (\<forall>fd. w_sent w' fd = pattern (length (w_sent w' fd))) \<and> loop_ok w'"
proof -
  obtain w1 where "process_events env evs w = Inr (Goes w1)" "drain (le_write env) ts w1 = Inr w'"
    using assms(2) by (auto simp: process_event_def pbind_Goes_iff cbind_Inr_iff)
  then have "loop_ok w'" using process_events_ok assms(1) drain_spec [of w1 "le_write env" ts] by fastforce
  then show ?thesis by (auto simp: loop_ok_def in_pattern_def Let_def)
qed

text \<open>
  C9. The loop over the timers that are due ends in every well-formed state, without a fault of
  its own: every item that is due is served once and gets a new time ten seconds on, the others
  are untouched. Each service reads the map entry just erased; when there is no timer at all
  the end of the map is read.
\<close>

theorem drain_serves_due:
  assumes "loop_ok w"
  shows "\<exists>w'. drain answer ts w = Inr w' \<and> timers (w_timer w') = rearmed ts (timers (w_timer w)) \<and>
    w_ub w' = w_ub w @ replicate (size (tq.due ts (w_timer w))) Read_Erased @
      (if timer_time_arg (w_timer w) = [] then [Deref_End] else [])"
  using drain_spec [OF assms] by blast

lemma new_world_ok: "loop_ok new_world"
  by (simp add: loop_ok_def new_world_def new_timer_ok in_pattern_def pattern_def init_item_def)
    (simp add: new_timer_def)

definition plain_env :: loop_env where
  "plain_env = \<lparr>le_worker = all_fine, le_channel = [Recv (enc_int 20)], le_accepts = [], le_reads = \<lambda>_. [],
     le_write = \<lambda>_. 100, le_now = 0\<rparr>"

definition accepted_client :: world where
  "accepted_client = admit all_fine 20 new_world"

lemma accepted_client_ok: "loop_ok accepted_client"
  using register_ok [of all_fine 20 new_world accepted_client] register_admit [of all_fine 20 new_world] new_world_ok
  by (simp add: accepted_client_def MAX_FD_def)

lemma accepted_client_timers: "timer_time_arg (w_timer accepted_client) = [(10000, Item 20)]"
  by (simp add: accepted_client_def admit_def watch_def new_world_def new_timer_def add_timer_def all_fine_def item_addr_def)

theorem drain_serves_due_witness:
  "\<exists>w'. drain (\<lambda>_. 100) 12000 accepted_client = Inr w' \<and> timers (w_timer w') = {#(22000, Item 20)#} \<and> w_ub w' = [Read_Erased]"
proof -
  have "w_ub accepted_client = []" by (simp add: accepted_client_def admit_def watch_def new_world_def)
  then show ?thesis
    using drain_serves_due [OF accepted_client_ok, of "\<lambda>_. 100" 12000]
    by (simp add: rearmed_def tq.due_def timers_def accepted_client_timers)
qed

theorem process_event_invariant_witness:
  "\<exists>w'. process_event plain_env [(20, EPOLLOUT)] 5 accepted_client = Inr (Goes w') \<and> w_sent w' 20 = pattern (length (w_sent w' 20))"
proof -
  have items: "w_items accepted_client 20 = set_client (init_item 0)"
    by (simp add: accepted_client_def admit_def watch_def new_world_def)
  have "\<exists>w1. process_events plain_env [(20, EPOLLOUT)] accepted_client = Inr (Goes w1)"
    by (simp add: process_one_event_def item_def MAX_FD_def items set_client_def init_item_def call_if_def call_def
        client_writefun_def client_write_def set_item_ok presend_def plain_env_def EPOLLIN_def EPOLLOUT_def EPOLLRDHUP_def Let_def)
  then obtain w1 where w1: "process_events plain_env [(20, EPOLLOUT)] accepted_client = Inr (Goes w1)" by blast
  then have "\<exists>w'. process_event plain_env [(20, EPOLLOUT)] 5 accepted_client = Inr (Goes w')"
    using drain_spec [OF process_events_ok [OF w1 accepted_client_ok], of "le_write plain_env" 5]
    by (auto simp: process_event_def)
  then obtain w' where "process_event plain_env [(20, EPOLLOUT)] 5 accepted_client = Inr (Goes w')" by blast
  with process_event_invariant [OF accepted_client_ok this] show ?thesis by blast
qed

section \<open>Closing, and what a client sends\<close>

text \<open>
  When a client hangs up, its item is back in its initial state, its descriptor is closed and
  it has no timer left; the call of \<open>remove_timer\<close> in \<open>process_one_event\<close>, which passes the
  address of a place in \<open>gFDITEM\<close>, has no part in it. An item without a close function - the
  listening socket's or a channel's - makes the process call a null pointer.
\<close>

theorem hang_up_outcome:
  assumes "loop_ok w" "0 \<le> fd" "fd < MAX_FD" "\<not> m_activeclose (w_items w fd)"
    and "m_closefun (w_items w fd) \<in> {None, Some Client_Closefun}"
  shows "case process_one_event env (fd, EPOLLRDHUP) w of
      Inl f \<Rightarrow> f = Null_Deref \<and> m_closefun (w_items w fd) = None
    | Inr (Exits n) \<Rightarrow> False
    | Inr (Goes w') \<Rightarrow> m_closefun (w_items w fd) \<noteq> None \<and> w_items w' = (w_items w)(fd := init_item (le_now env)) \<and>
        w_closed w' = w_closed w @ [fd] \<and>
        timer_time_arg (w_timer w') = filter (\<lambda>e. snd e \<noteq> item_addr fd) (timer_time_arg (w_timer w))"
proof -
  have ok: "timer_ok (w_timer w)" "\<forall>e\<in>set (timer_time_arg (w_timer w)). armed w (snd e)"
    using assms(1) by (simp_all add: loop_ok_def)
  then have slot: "timer_time_arg (remove_timer (slot_addr fd) (w_timer w)) = timer_time_arg (w_timer w)"
    by (fastforce simp: remove_timer_lists filter_id_conv armed_def slot_addr_def)
  have "timer_time_arg (remove_timer (item_addr fd) (remove_timer (slot_addr fd) (w_timer w)))
      = filter (\<lambda>e. snd e \<noteq> item_addr fd) (timer_time_arg (w_timer w))"
    using remove_timer_lists(2) [OF remove_timer_ok [OF ok(1)]] slot by simp
  then show ?thesis
    using assms(2-5)
    by (auto simp: process_one_event_def item_def call_if_def call_def client_closefun_def set_item_ok active_close_def
        EPOLLIN_def EPOLLOUT_def EPOLLRDHUP_def Let_def split: option.split)
qed

theorem hang_up_outcome_witness:
  "process_one_event plain_env (20, EPOLLRDHUP) new_world = Inl Null_Deref \<and>
   (\<exists>w'. process_one_event plain_env (20, EPOLLRDHUP) accepted_client = Inr (Goes w') \<and> timer_time_arg (w_timer w') = [])"
proof -
  have items: "w_items accepted_client 20 = set_client (init_item 0)" "w_items new_world 20 = init_item 0"
    by (simp_all add: accepted_client_def admit_def watch_def new_world_def)
  show ?thesis
    using hang_up_outcome [OF new_world_ok, of 20 plain_env] hang_up_outcome [OF accepted_client_ok, of 20 plain_env]
    by (simp add: MAX_FD_def items set_client_def init_item_def accepted_client_timers item_addr_def split: sum.splits proceeds.splits)
qed

lemma printed_written:
  "printed (map Some bs @ replicate n None) =
    (if 0 \<in> set bs then Inr (takeWhile (\<lambda>b. b \<noteq> 0) bs) else if n = 0 then Inl Out_Of_Bounds else Inl Uninit_Read)"
proof (induction bs)
  case Nil
  show ?case by (cases n) simp_all
next
  case (Cons b bs)
  show ?case unfolding list.map append_Cons printed.simps Cons.IH by auto
qed

text \<open>
  \<open>client_readfun\<close> prints its buffer without ending the text: unless the bytes read contain
  a zero it goes on to bytes that were never written; and a second read that is shorter is
  printed with what is left of the first.
\<close>

theorem client_readfun_text:
  assumes "bs \<noteq> []" "length bs \<le> 1023" "cs \<noteq> []" "length cs \<le> length bs"
  shows "client_readfun [Rd bs, Rd cs] fd w =
    (if 0 \<notin> set bs \<or> 0 \<notin> set (cs @ drop (length cs) bs) then Inl Uninit_Read
     else Inr (1, w\<lparr>w_log := w_log w @ [takeWhile (\<lambda>b. b \<noteq> 0) bs, takeWhile (\<lambda>b. b \<noteq> 0) (cs @ drop (length cs) bs)]\<rparr>))"
proof -
  have first: "map Some (take 1023 bs) @ drop (length (take 1023 bs)) (replicate 1024 None) = map Some bs @ replicate (1024 - length bs) None"
    "drop 1023 bs = []"
    using assms(2) by simp_all
  have second: "map Some (take 1023 cs) @ drop (length (take 1023 cs)) (map Some bs @ replicate (1024 - length bs) None)
      = map Some (cs @ drop (length cs) bs) @ replicate (1024 - length bs) None" "drop 1023 cs = []"
    using assms(2,4) by (simp_all add: drop_map)
  show ?thesis
  proof (cases "0 \<in> set bs")
    case True
    have again: "read_loop fd [Rd cs] (map Some bs @ replicate (1024 - length bs) None) v =
        (if 0 \<in> set (cs @ drop (length cs) bs)
         then Inr (1, v\<lparr>w_log := w_log v @ [takeWhile (\<lambda>b. b \<noteq> 0) (cs @ drop (length cs) bs)]\<rparr>) else Inl Uninit_Read)" for v
      unfolding read_loop.simps Let_def second printed_written using assms(2,3) by simp
    then show ?thesis
      unfolding client_readfun_def read_loop.simps(3) Let_def first printed_written
      using assms(1) True by (simp add: again)
  next
    case False
    then show ?thesis
      unfolding client_readfun_def read_loop.simps(3) Let_def first printed_written using assms(1,2) by simp
  qed
qed

theorem client_readfun_text_witness:
  "client_readfun [Rd [104, 105, 0], Rd [97]] 20 new_world = Inr (1, new_world\<lparr>w_log := [[104, 105], [97, 105]]\<rparr>) \<and>
   client_readfun [Rd [104, 105], Rd [97]] 20 new_world = Inl Uninit_Read"
  using client_readfun_text [of "[104, 105, 0]" "[97]" 20 new_world] client_readfun_text [of "[104, 105]" "[97]" 20 new_world]
  by (simp add: new_world_def)

section \<open>Starting up\<close>

text \<open>
  A worker never sleeps past its first timer: the wait it asks for ends when that timer is
  due, and without a timer it wakes once a second.
\<close>

theorem next_timeout_wakes:
  assumes "loop_ok w"
  shows "case timer_time_arg (w_timer w) of
      [] \<Rightarrow> next_timeout now (w_timer w) = 1000
    | (time, _) # _ \<Rightarrow> now + next_timeout now (w_timer w) = max now time \<and> 0 \<le> next_timeout now (w_timer w)"
proof -
  have "timer_ok (w_timer w)" using assms by (simp add: loop_ok_def)
  then have "length (timer_arg_time (w_timer w)) = length (timer_time_arg (w_timer w))"
    unfolding timer_ok_def by (metis size_image_mset size_mset)
  then show ?thesis
    by (auto simp: next_timeout_def get_arg_time_size_def get_mintimer_def Let_def split: list.split)
qed

theorem next_timeout_wakes_witness:
  "next_timeout 4000 (w_timer accepted_client) = 6000"
  using next_timeout_wakes [OF accepted_client_ok, of 4000] by (simp add: accepted_client_timers)

end
