(* ===== verification/ServerStart.thy ===== *)
theory ServerStart
  imports EventLoop
begin

text \<open>
  \<open>main\<close> of the C++ server (\<open>cppserver/src/main.cc\<close>): the listening socket, the table of items,
  a channel to each worker, and the loop of the main thread. The answers of the system calls
  are arguments; \<open>sockfdpair\<close> is zero where no pair was made.
\<close>

section \<open>The code\<close>

record main_env =
  me_socket :: int
  me_reuse :: int
  me_bind :: int
  me_listen :: int
  me_calls :: worker_env            \<comment> \<open>\<open>fcntl\<close> and \<open>epoll_ctl\<close>\<close>
  me_cpus :: int
  me_pair :: "nat \<Rightarrow> int \<times> int"    \<comment> \<open>what \<open>socketpair\<close> makes\<close>
  me_now :: int

text \<open>A descriptor made non-blocking, its item changed, and watched for input.\<close>

definition watch_for :: "worker_env \<Rightarrow> int \<Rightarrow> (fditem \<Rightarrow> fditem) \<Rightarrow> world \<Rightarrow> world proceeds cres" where
  "watch_for env fd f w =
     (if \<not> we_fcntl_ok env fd then Inr (Exits 1)
      else cbind (set_item fd f w) (\<lambda>w.
        if \<not> we_epoll_ok env fd then Inr (Exits (-1)) else Inr (Goes (w\<lparr>w_epoll := w_epoll w @ [fd]\<rparr>))))"

definition set_read :: "handler \<Rightarrow> fditem \<Rightarrow> fditem" where
  "set_read h it = it\<lparr>m_readfun := Some h\<rparr>"

definition set_write :: "handler \<Rightarrow> fditem \<Rightarrow> fditem" where
  "set_write h it = it\<lparr>m_writefun := Some h\<rparr>"

text \<open>The loop over \<open>i\<close> that makes the channels; the result is the array \<open>sockfdpair\<close> and the world.\<close>

fun make_channels :: "main_env \<Rightarrow> nat list \<Rightarrow> (int \<times> int) list \<Rightarrow> world \<Rightarrow> ((int \<times> int) list \<times> world) proceeds cres" where
  "make_channels env [] pairs w = Inr (Goes (pairs, w))"
| "make_channels env (i # is) pairs w =
     (case aset pairs (int i) (me_pair env i) of
        Inl f \<Rightarrow> Inl f
      | Inr pairs \<Rightarrow> (case watch_for (me_calls env) (fst (me_pair env i)) (set_write Accept_Readfun) w of
            Inl f \<Rightarrow> Inl f
          | Inr (Exits n) \<Rightarrow> Inr (Exits n)
          | Inr (Goes w) \<Rightarrow> make_channels env is pairs w))"

definition fresh_world :: "int \<Rightarrow> world" where
  "fresh_world now = \<lparr>w_items = \<lambda>_. init_item now, w_timer = new_timer, w_epoll = [], w_closed = [],
     w_sent = \<lambda>_. [], w_log = [], w_ub = [], w_dispatch = no_dispatch\<rparr>"

definition main :: "main_env \<Rightarrow> ((int \<times> int) list \<times> world) proceeds cres" where
  "main env =
     (let listenfd = me_socket env
      in if listenfd \<le> 0 then Inr (Exits 0)
         else if me_reuse env < 0 then Inr (Exits 1)
         else let w = fresh_world (me_now env)
         in if me_bind env < 0 then Inr (Exits 1)
         else if me_listen env < 0 then Inr (Exits 1)
         else pbind (watch_for (me_calls env) listenfd (set_read Accept_Readfun) w) (\<lambda>w.
           make_channels env [1..<nat (me_cpus env)] (replicate MAX_CPU (0, 0)) w))"

text \<open>The descriptors the workers are started with.\<close>

definition order_fds :: "int \<Rightarrow> (int \<times> int) list \<Rightarrow> int list" where
  "order_fds cpu_num pairs = map (\<lambda>i. snd (pairs ! i)) [1..<nat cpu_num]"

text \<open>A round of \<open>main_thread\<close> or of \<open>worker_thread\<close>: the state and the wait for the next one.\<close>

definition thread_round :: "loop_env \<Rightarrow> (int \<times> u32) list \<Rightarrow> int \<Rightarrow> int \<Rightarrow> world \<Rightarrow> (int \<times> world) proceeds cres" where
  "thread_round env evs timeStamp now w =
     pbind (process_event env evs timeStamp w) (\<lambda>w. Inr (Goes (next_timeout now (w_timer w), w)))"

section \<open>What is set up\<close>

definition usable :: "worker_env \<Rightarrow> int \<Rightarrow> bool" where
  "usable env fd \<longleftrightarrow> 0 < fd \<and> fd < MAX_FD \<and> we_fcntl_ok env fd \<and> we_epoll_ok env fd"

definition writes_to :: "int list \<Rightarrow> (int \<Rightarrow> fditem) \<Rightarrow> int \<Rightarrow> fditem" where
  "writes_to fds items fd = (if fd \<in> set fds then set_write Accept_Readfun (items fd) else items fd)"

lemma watch_for_ok:
  "usable env fd \<Longrightarrow> watch_for env fd f w =
    Inr (Goes (w\<lparr>w_items := (w_items w)(fd := f (w_items w fd)), w_epoll := w_epoll w @ [fd]\<rparr>))"
  by (simp add: watch_for_def usable_def set_item_ok)

lemma make_channels_ok:
  assumes "\<forall>i\<in>set is. i < length pairs \<and> usable (me_calls env) (fst (me_pair env i))" "distinct is"
  shows "\<exists>pairs' w'. make_channels env is pairs w = Inr (Goes (pairs', w')) \<and> length pairs' = length pairs \<and>
    (\<forall>i<length pairs. pairs' ! i = (if i \<in> set is then me_pair env i else pairs ! i)) \<and>
    w' = w\<lparr>w_items := writes_to (map (\<lambda>i. fst (me_pair env i)) is) (w_items w),
      w_epoll := w_epoll w @ map (\<lambda>i. fst (me_pair env i)) is\<rparr>"
  using assms
proof (induction "is" arbitrary: pairs w)
  case Nil
  show ?case by (simp add: writes_to_def)
next
  case (Cons i "is")
  let ?fd = "fst (me_pair env i)"
  let ?w = "w\<lparr>w_items := (w_items w)(?fd := set_write Accept_Readfun (w_items w ?fd)), w_epoll := w_epoll w @ [?fd]\<rparr>"
  have "\<forall>j\<in>set is. j < length (pairs[i := me_pair env i]) \<and> usable (me_calls env) (fst (me_pair env j))" "distinct is"
    using Cons.prems by simp_all
  then obtain pairs' w' where
    IH: "make_channels env is (pairs[i := me_pair env i]) ?w = Inr (Goes (pairs', w'))" "length pairs' = length pairs"
      "\<forall>j<length pairs. pairs' ! j = (if j \<in> set is then me_pair env j else pairs[i := me_pair env i] ! j)"
      "w' = ?w\<lparr>w_items := writes_to (map (\<lambda>i. fst (me_pair env i)) is) (w_items ?w),
        w_epoll := w_epoll ?w @ map (\<lambda>i. fst (me_pair env i)) is\<rparr>"
    using Cons.IH [of "pairs[i := me_pair env i]" ?w] unfolding length_list_update by blast
  have "writes_to (map (\<lambda>i. fst (me_pair env i)) is) (w_items ?w) = writes_to (?fd # map (\<lambda>i. fst (me_pair env i)) is) (w_items w)"
    by (auto simp: writes_to_def set_write_def fun_eq_iff)
  moreover have "make_channels env (i # is) pairs w = make_channels env is (pairs[i := me_pair env i]) ?w"
    using Cons.prems by (simp add: aset_def watch_for_ok)
  ultimately show ?case using IH Cons.prems by (auto simp: nth_list_update)
qed

text \<open>
  C14. With two to 128 processors and calls that succeed, the main thread starts in a well-formed
  state in which it watches the listening socket and its end of every channel, in that order, and
  no other; every worker gets the other end of its own channel; and the channels satisfy what
  dealing out connections relies on.
\<close>

theorem main_sets_up:
  assumes "usable (me_calls env) (me_socket env)" "0 \<le> me_reuse env" "0 \<le> me_bind env" "0 \<le> me_listen env"
    and "2 \<le> me_cpus env" "me_cpus env \<le> 128"
    and "\<forall>i\<in>{1..<nat (me_cpus env)}. usable (me_calls env) (fst (me_pair env i))"
  shows "\<exists>pairs w. main env = Inr (Goes (pairs, w)) \<and> loop_ok w \<and>
    w_epoll w = me_socket env # map (\<lambda>i. fst (me_pair env i)) [1..<nat (me_cpus env)] \<and>
    order_fds (me_cpus env) pairs = map (\<lambda>i. snd (me_pair env i)) [1..<nat (me_cpus env)] \<and>
    peers_ok (me_cpus env) (map fst pairs) (w_dispatch w) \<and>
    m_readfun (w_items w (me_socket env)) = Some Accept_Readfun"
proof -
  let ?w = "(fresh_world (me_now env))\<lparr>w_items := (w_items (fresh_world (me_now env)))
      (me_socket env := set_read Accept_Readfun (w_items (fresh_world (me_now env)) (me_socket env))),
    w_epoll := w_epoll (fresh_world (me_now env)) @ [me_socket env]\<rparr>"
  let ?is = "[1..<nat (me_cpus env)]" and ?pairs = "replicate MAX_CPU (0, 0) :: (int \<times> int) list"
  have run: "main env = make_channels env ?is ?pairs ?w"
    using assms(2-4) watch_for_ok [OF assms(1)] assms(1) by (simp add: main_def usable_def Let_def)
  have "\<forall>i\<in>set ?is. i < length ?pairs \<and> usable (me_calls env) (fst (me_pair env i))" "distinct ?is"
    using assms(6,7) by (auto simp: MAX_CPU_def)
  from make_channels_ok [OF this, of ?w] obtain pairs' w' where
    fin: "make_channels env ?is ?pairs ?w = Inr (Goes (pairs', w'))" "length pairs' = MAX_CPU"
      "\<forall>i<MAX_CPU. pairs' ! i = (if i \<in> set ?is then me_pair env i else (0, 0))"
      "w' = ?w\<lparr>w_items := writes_to (map (\<lambda>i. fst (me_pair env i)) ?is) (w_items ?w),
        w_epoll := w_epoll ?w @ map (\<lambda>i. fst (me_pair env i)) ?is\<rparr>" by auto
  have "order_fds (me_cpus env) pairs' = map (\<lambda>i. snd (me_pair env i)) ?is"
    using fin(3) assms(6) by (auto simp: order_fds_def MAX_CPU_def)
  moreover have "\<forall>p\<in>set (map fst pairs'). 0 \<le> p"
  proof
    fix p assume "p \<in> set (map fst pairs')"
    then obtain i where "i < MAX_CPU" "p = fst (pairs' ! i)" using fin(2) by (auto simp: in_set_conv_nth)
    then have "p = (if i \<in> {1..<nat (me_cpus env)} then fst (me_pair env i) else 0)" using fin(3) by simp
    moreover have "0 \<le> fst (me_pair env i)" if "i \<in> {1..<nat (me_cpus env)}"
      using assms(7) that by (auto simp: usable_def intro: order_less_imp_le)
    ultimately show "0 \<le> p" by simp
  qed
  then have "peers_ok (me_cpus env) (map fst pairs') (w_dispatch w')"
    using assms(5,6) fin(2) by (simp add: peers_ok_def MAX_CPU_def fin(4) fresh_world_def no_dispatch_fields)
  moreover have "loop_ok w'"
    by (auto simp: loop_ok_def fin(4) fresh_world_def new_timer_ok in_pattern_def pattern_def writes_to_def
        set_read_def set_write_def init_item_def) (simp add: new_timer_def)
  moreover have "m_readfun (w_items w' (me_socket env)) = Some Accept_Readfun"
    by (simp add: fin(4) writes_to_def set_read_def set_write_def)
  ultimately show ?thesis using run fin by (simp add: fresh_world_def)
qed

definition two_cpus :: main_env where
  "two_cpus = \<lparr>me_socket = 3, me_reuse = 0, me_bind = 0, me_listen = 0, me_calls = all_fine, me_cpus = 3,
     me_pair = \<lambda>i. (int (4 + 2 * i), int (5 + 2 * i)), me_now = 0\<rparr>"

theorem main_sets_up_witness:
  "\<exists>pairs w. main two_cpus = Inr (Goes (pairs, w)) \<and> w_epoll w = [3, 6, 8] \<and> order_fds 3 pairs = [7, 9]"
proof -
  have cpus: "[1..<nat 3] = [1, 2]" "me_cpus two_cpus = 3" "me_socket two_cpus = 3"
    "map (\<lambda>i. fst (me_pair two_cpus i)) [1, 2] = [6, 8]" "map (\<lambda>i. snd (me_pair two_cpus i)) [1, 2] = [7, 9]"
    by (simp_all add: two_cpus_def upt_rec numeral_3_eq_3)
  have "\<exists>pairs w. main two_cpus = Inr (Goes (pairs, w)) \<and> loop_ok w \<and>
    w_epoll w = me_socket two_cpus # map (\<lambda>i. fst (me_pair two_cpus i)) [1..<nat (me_cpus two_cpus)] \<and>
    order_fds (me_cpus two_cpus) pairs = map (\<lambda>i. snd (me_pair two_cpus i)) [1..<nat (me_cpus two_cpus)] \<and>
    peers_ok (me_cpus two_cpus) (map fst pairs) (w_dispatch w) \<and>
    m_readfun (w_items w (me_socket two_cpus)) = Some Accept_Readfun"
    by (rule main_sets_up) (auto simp: two_cpus_def usable_def MAX_FD_def all_fine_def)
  then show ?thesis unfolding cpus by blast
qed

text \<open>
  What a channel could not take is not written when there is room again: the main thread's
  end has no read function and \<open>accept_readfun\<close> as its write function, so becoming readable does
  nothing and becoming writable would accept connections, not send what is left.
\<close>

theorem channel_not_flushed:
  assumes "item fd w = Inr it" "it = set_write Accept_Readfun (init_item now)"
  shows "process_one_event env (fd, EPOLLIN) w = Inr (Goes w) \<and>
    process_one_event env (fd, EPOLLOUT) w = (case accept_readfun (le_accepts env) (w_dispatch w) of
      Exits n \<Rightarrow> Inr (Exits n) | Goes d \<Rightarrow> Inr (Goes (w\<lparr>w_dispatch := d\<rparr>)))"
proof -
  have fd: "0 \<le> fd" "fd < MAX_FD" "w_items w fd = set_write Accept_Readfun (init_item now)"
    using assms by (auto simp: item_Inr)
  have "process_one_event env (fd, EPOLLIN) w = Inr (Goes w)"
    by (simp add: process_one_event_def item_def fd set_write_def init_item_def call_if_def
        EPOLLIN_def EPOLLOUT_def EPOLLRDHUP_def Let_def)
  moreover have "process_one_event env (fd, EPOLLOUT) w = (case accept_readfun (le_accepts env) (w_dispatch w) of
      Exits n \<Rightarrow> Inr (Exits n) | Goes d \<Rightarrow> Inr (Goes (w\<lparr>w_dispatch := d\<rparr>)))"
    by (cases "accept_readfun (le_accepts env) (w_dispatch w)")
      (simp_all add: process_one_event_def item_def fd set_write_def init_item_def call_if_def call_def
        EPOLLIN_def EPOLLOUT_def EPOLLRDHUP_def Let_def)
  ultimately show ?thesis by blast
qed

theorem channel_not_flushed_witness:
  "process_one_event plain_env (6, EPOLLIN) (new_world\<lparr>w_items := \<lambda>_. set_write Accept_Readfun (init_item 0)\<rparr>)
    = Inr (Goes (new_world\<lparr>w_items := \<lambda>_. set_write Accept_Readfun (init_item 0)\<rparr>))"
  using channel_not_flushed [of 6 "new_world\<lparr>w_items := \<lambda>_. set_write Accept_Readfun (init_item 0)\<rparr>" _ 0 plain_env]
  by (simp add: item_def MAX_FD_def)

end
