(* ===== verification/MsgQueue.thy ===== *)
theory MsgQueue
  imports FdItems
begin

text \<open>
  The POSIX message queue of \<open>mqueue/posix_mq.c\<close>: one thread sends the numbers 0, 1, 2, ...
  and another prints what it receives. A call of a thread is one step, the threads interleave
  in any way, and a signal may interrupt a call of \<open>mq_send\<close> or \<open>mq_receive\<close>. A call that
  would block is a step that is not possible. The queues of the system are a map from names.
\<close>

section \<open>The queue\<close>

record mq =
  mq_maxmsg :: nat
  mq_msgsize :: nat
  mq_msgs :: "byte list list"

datatype 'a mq_call = Blocks | Fails nat | Returns 'a

abbreviation (input) EEXIST :: nat where "EEXIST \<equiv> 17"

text \<open>All messages have priority 0, so the queue is first in, first out. \<open>sig\<close> is an interruption.\<close>

definition mq_send :: "nat option \<Rightarrow> byte list \<Rightarrow> mq \<Rightarrow> mq mq_call" where
  "mq_send sig bs q = (case sig of Some e \<Rightarrow> Fails e | None \<Rightarrow>
     if length bs > mq_msgsize q then Fails EMSGSIZE
     else if length (mq_msgs q) \<ge> mq_maxmsg q then Blocks
     else Returns (q\<lparr>mq_msgs := mq_msgs q @ [bs]\<rparr>))"

definition mq_receive :: "nat option \<Rightarrow> nat \<Rightarrow> mq \<Rightarrow> (byte list \<times> mq) mq_call" where
  "mq_receive sig n q = (case sig of Some e \<Rightarrow> Fails e | None \<Rightarrow>
     if n < mq_msgsize q then Fails EMSGSIZE
     else case mq_msgs q of [] \<Rightarrow> Blocks | m # ms \<Rightarrow> Returns (m, q\<lparr>mq_msgs := ms\<rparr>))"

type_synonym queues = "string \<Rightarrow> mq option"

definition mq_unlink :: "string \<Rightarrow> queues \<Rightarrow> queues" where
  "mq_unlink name qs = qs(name := None)"

text \<open>\<open>mq_open\<close> with \<open>O_CREAT | O_EXCL\<close>; \<open>refuse\<close> is an error for a reason of the system's own.\<close>

definition mq_open :: "nat option \<Rightarrow> string \<Rightarrow> nat \<Rightarrow> nat \<Rightarrow> queues \<Rightarrow> nat + queues" where
  "mq_open refuse name maxmsg msgsize qs = (case refuse of Some e \<Rightarrow> Inl e | None \<Rightarrow>
     if qs name \<noteq> None then Inl EEXIST
     else if maxmsg = 0 \<or> msgsize = 0 then Inl EINVAL
     else Inr (qs(name \<mapsto> \<lparr>mq_maxmsg = maxmsg, mq_msgsize = msgsize, mq_msgs = []\<rparr>)))"

section \<open>The threads\<close>

datatype spc = S_Absent | S_Sending | S_Counting | S_Asleep | S_Overflow
datatype rpc = R_Absent | R_Asking | R_Asleep | R_Receiving | R_Printing

datatype line = Msg_Size nat | Max_Msg nat | Received nat int | Receive_Error nat | Send_Error nat

text \<open>
  \<open>s_msgid\<close> is the number of the sender, \<open>r_msgid\<close> the bytes of the receiver's variable; what
  was printed is a list of lines. \<open>s_ok\<close> and \<open>s_err\<close> record which numbers \<open>mq_send\<close> took and
  for which it failed.
\<close>

record mqsys =
  s_q :: mq
  s_pc :: spc
  s_msgid :: int
  r_pc :: rpc
  r_msgid :: "byte list"
  s_log :: "line list"
  s_ok :: "int list"
  s_err :: "int list"

definition say :: "line \<Rightarrow> mqsys \<Rightarrow> mqsys" where
  "say l s = s\<lparr>s_log := s_log s @ [l]\<rparr>"

definition mq_s_run :: "nat option \<Rightarrow> mqsys \<Rightarrow> mqsys option" where
  "mq_s_run sig s = (case s_pc s of
     S_Sending \<Rightarrow> (case mq_send sig (enc_int (s_msgid s)) (s_q s) of
         Blocks \<Rightarrow> None
       | Fails e \<Rightarrow> Some (say (Send_Error e) (s\<lparr>s_pc := S_Counting, s_err := s_err s @ [s_msgid s]\<rparr>))
       | Returns q \<Rightarrow> Some (s\<lparr>s_q := q, s_pc := S_Counting, s_ok := s_ok s @ [s_msgid s]\<rparr>))
   | S_Counting \<Rightarrow> Some (if s_msgid s < INT_MAX then s\<lparr>s_msgid := s_msgid s + 1, s_pc := S_Asleep\<rparr>
       else s\<lparr>s_pc := S_Overflow\<rparr>)
   | S_Asleep \<Rightarrow> Some (s\<lparr>s_pc := S_Sending\<rparr>)
   | _ \<Rightarrow> None)"

definition mq_r_run :: "nat option \<Rightarrow> mqsys \<Rightarrow> mqsys option" where
  "mq_r_run sig s = (case r_pc s of
     R_Asking \<Rightarrow> Some (say (Max_Msg (mq_maxmsg (s_q s))) (say (Msg_Size (mq_msgsize (s_q s))) (s\<lparr>r_pc := R_Asleep\<rparr>)))
   | R_Asleep \<Rightarrow> Some (s\<lparr>r_pc := R_Receiving\<rparr>)
   | R_Receiving \<Rightarrow> (case mq_receive sig 4 (s_q s) of
         Blocks \<Rightarrow> None
       | Fails e \<Rightarrow> Some (say (Receive_Error e) s)
       | Returns (m, q) \<Rightarrow> Some (s\<lparr>s_q := q, r_msgid := m, r_pc := R_Printing\<rparr>))
   | R_Printing \<Rightarrow> Some (say (Received (length (r_msgid s)) (dec_int (r_msgid s))) (s\<lparr>r_pc := R_Receiving\<rparr>))
   | R_Absent \<Rightarrow> None)"

text \<open>\<open>main\<close> up to its endless loop; \<open>sid\<close> and \<open>rid\<close> say whether the threads can be created.\<close>

definition mq_main :: "nat option \<Rightarrow> bool \<Rightarrow> bool \<Rightarrow> byte list \<Rightarrow> queues \<Rightarrow> int + mqsys \<times> queues" where
  "mq_main refuse sid rid junk qs =
     (let qs = mq_unlink ''/mymq'' qs
      in case mq_open refuse ''/mymq'' 8 4 qs of
           Inl e \<Rightarrow> Inl (- 1)
         | Inr qs \<Rightarrow> Inr (\<lparr>s_q = the (qs ''/mymq''), s_pc = if sid then S_Sending else S_Absent, s_msgid = 0,
             r_pc = if rid then R_Asking else R_Absent, r_msgid = junk, s_log = [], s_ok = [], s_err = []\<rparr>, qs))"

inductive mq_step :: "mqsys \<Rightarrow> mqsys \<Rightarrow> bool" where
  sender: "mq_s_run sig s = Some s' \<Longrightarrow> mq_step s s'"
| receiver: "mq_r_run sig s = Some s' \<Longrightarrow> mq_step s s'"

inductive_cases mq_stepE: "mq_step s s'"

inductive mq_reach :: "bool \<Rightarrow> bool \<Rightarrow> mqsys \<Rightarrow> bool" for sid rid where
  start: "mq_main None sid rid junk qs = Inr (s, qs') \<Longrightarrow> mq_reach sid rid s"
| step: "mq_reach sid rid s \<Longrightarrow> mq_step s s' \<Longrightarrow> mq_reach sid rid s'"

section \<open>The invariant\<close>

fun received :: "line list \<Rightarrow> int list" where
  "received [] = []"
| "received (Received n m # ls) = m # received ls"
| "received (_ # ls) = received ls"

lemma received_append [simp]: "received (ls @ ms) = received ls @ received ms"
  by (induction ls rule: received.induct) simp_all

definition in_hand :: "mqsys \<Rightarrow> int list" where
  "in_hand s = (if r_pc s = R_Printing then [dec_int (r_msgid s)] else [])"

definition pending :: "mqsys \<Rightarrow> int list" where
  "pending s = in_hand s @ map dec_int (mq_msgs (s_q s))"

text \<open>The numbers the sender is through with.\<close>

definition upto_now :: "mqsys \<Rightarrow> int" where
  "upto_now s = (if s_pc s = S_Counting \<or> s_pc s = S_Overflow then s_msgid s + 1 else s_msgid s)"

definition queue_fine :: "mqsys \<Rightarrow> bool" where
  "queue_fine s \<longleftrightarrow> mq_maxmsg (s_q s) = 8 \<and> mq_msgsize (s_q s) = 4 \<and> length (mq_msgs (s_q s)) \<le> 8"

definition in_order :: "mqsys \<Rightarrow> bool" where
  "in_order s \<longleftrightarrow> s_ok s = received (s_log s) @ pending s"

definition accounted :: "mqsys \<Rightarrow> bool" where
  "accounted s \<longleftrightarrow> sorted_wrt (<) (s_ok s) \<and> sorted_wrt (<) (s_err s) \<and> set (s_ok s) \<inter> set (s_err s) = {}
     \<and> set (s_ok s) \<union> set (s_err s) = {0..<upto_now s} \<and> 0 \<le> s_msgid s \<and> s_msgid s \<le> INT_MAX"

definition threads_as :: "bool \<Rightarrow> bool \<Rightarrow> mqsys \<Rightarrow> bool" where
  "threads_as sid rid s \<longleftrightarrow> (s_pc s = S_Absent \<longleftrightarrow> \<not> sid) \<and> (r_pc s = R_Absent \<longleftrightarrow> \<not> rid)"

lemmas mq_inv_defs = queue_fine_def in_order_def accounted_def threads_as_def pending_def in_hand_def upto_now_def

lemma mq_main_start:
  assumes "mq_main None sid rid junk qs = Inr (s, qs')"
  shows "queue_fine s \<and> in_order s \<and> accounted s \<and> threads_as sid rid s"
  using assms by (cases sid; cases rid) (auto simp: mq_main_def mq_unlink_def mq_open_def mq_inv_defs)

lemma sorted_snoc_upto:
  "sorted_wrt (<) xs \<Longrightarrow> set xs \<subseteq> {0..<n} \<Longrightarrow> sorted_wrt (<) (xs @ [n :: int])"
  by (auto simp: sorted_wrt_append)

text \<open>What a step of the sender and of the receiver can be.\<close>

lemma sender_cases:
  assumes "mq_s_run sig s = Some s'"
  obtains (Failed) e where "s_pc s = S_Sending" "s' = say (Send_Error e) (s\<lparr>s_pc := S_Counting, s_err := s_err s @ [s_msgid s]\<rparr>)"
  | (Sent) "s_pc s = S_Sending" "length (mq_msgs (s_q s)) < mq_maxmsg (s_q s)"
      "s' = s\<lparr>s_q := s_q s\<lparr>mq_msgs := mq_msgs (s_q s) @ [enc_int (s_msgid s)]\<rparr>, s_pc := S_Counting, s_ok := s_ok s @ [s_msgid s]\<rparr>"
  | (Count) "s_pc s = S_Counting" "s_msgid s < INT_MAX" "s' = s\<lparr>s_msgid := s_msgid s + 1, s_pc := S_Asleep\<rparr>"
  | (Overflow) "s_pc s = S_Counting" "s' = s\<lparr>s_pc := S_Overflow\<rparr>"
  | (Wake) "s_pc s = S_Asleep" "s' = s\<lparr>s_pc := S_Sending\<rparr>"
  using assms by (auto simp: mq_s_run_def mq_send_def split: spc.splits mq_call.splits option.splits if_splits)

lemma receiver_cases:
  assumes "mq_r_run sig s = Some s'"
  obtains (Ask) a b where "r_pc s = R_Asking" "s' = say (Max_Msg a) (say (Msg_Size b) (s\<lparr>r_pc := R_Asleep\<rparr>))"
  | (Wake) "r_pc s = R_Asleep" "s' = s\<lparr>r_pc := R_Receiving\<rparr>"
  | (Failed) e where "r_pc s = R_Receiving" "s' = say (Receive_Error e) s"
  | (Taken) m ms where "r_pc s = R_Receiving" "mq_msgs (s_q s) = m # ms"
      "s' = s\<lparr>s_q := s_q s\<lparr>mq_msgs := ms\<rparr>, r_msgid := m, r_pc := R_Printing\<rparr>"
  | (Print) "r_pc s = R_Printing" "s' = say (Received (length (r_msgid s)) (dec_int (r_msgid s))) (s\<lparr>r_pc := R_Receiving\<rparr>)"
  using assms by (auto simp: mq_r_run_def mq_receive_def split: rpc.splits mq_call.splits option.splits if_splits list.splits)

lemma sender_keeps:
  assumes "mq_s_run sig s = Some s'" "queue_fine s" "in_order s" "accounted s" "threads_as sid rid s"
  shows "queue_fine s' \<and> in_order s' \<and> accounted s' \<and> threads_as sid rid s'"
  using assms(1)
proof (cases rule: sender_cases)
  case (Failed e)
  moreover have "accounted s'" using Failed assms(4) sorted_snoc_upto [of "s_err s" "s_msgid s"]
    by (auto simp: accounted_def upto_now_def say_def)
  ultimately show ?thesis using assms by (simp add: queue_fine_def in_order_def threads_as_def pending_def in_hand_def say_def)
next
  case Sent
  moreover have "accounted s'" using Sent assms(4) sorted_snoc_upto [of "s_ok s" "s_msgid s"]
    by (auto simp: accounted_def upto_now_def)
  moreover have "in_order s'" using Sent assms(3,4) dec_enc_int [of "s_msgid s"]
    by (simp add: in_order_def pending_def in_hand_def accounted_def)
  ultimately show ?thesis using assms by (simp add: queue_fine_def threads_as_def)
qed (use assms in \<open>auto simp: mq_inv_defs\<close>)

lemma receiver_keeps:
  assumes "mq_r_run sig s = Some s'" "queue_fine s" "in_order s" "accounted s" "threads_as sid rid s"
  shows "queue_fine s' \<and> in_order s' \<and> accounted s' \<and> threads_as sid rid s'"
  using assms(1)
  by (cases rule: receiver_cases) (use assms in \<open>simp_all add: mq_inv_defs say_def\<close>)

lemma mq_reach_inv:
  assumes "mq_reach sid rid s"
  shows "queue_fine s \<and> in_order s \<and> accounted s \<and> threads_as sid rid s"
  using assms
proof induction
  case (start junk qs s qs')
  then show ?case by (rule mq_main_start)
next
  case (step s s')
  from step.hyps(2) show ?case by (rule mq_stepE) (use step.IH sender_keeps receiver_keeps in blast)+
qed

text \<open>The receiver running alone, without interruptions.\<close>

fun receiver_alone :: "nat \<Rightarrow> mqsys \<Rightarrow> mqsys" where
  "receiver_alone 0 s = s"
| "receiver_alone (Suc k) s = (case mq_r_run None s of None \<Rightarrow> s | Some s' \<Rightarrow> receiver_alone k s')"

definition to_do :: "mqsys \<Rightarrow> nat" where
  "to_do s = 2 * length (mq_msgs (s_q s)) + (case r_pc s of R_Asking \<Rightarrow> 2 | R_Asleep \<Rightarrow> 1 | R_Printing \<Rightarrow> 1 | _ \<Rightarrow> 0)"

lemma receiver_stops:
  assumes "mq_r_run None s = None" "r_pc s \<noteq> R_Absent" "mq_msgsize (s_q s) = 4"
  shows "mq_msgs (s_q s) = [] \<and> r_pc s = R_Receiving"
  using assms by (auto simp: mq_r_run_def mq_receive_def split: rpc.splits list.splits)

lemma receiver_progress:
  assumes "mq_r_run None s = Some s'" "mq_msgsize (s_q s) = 4"
  shows "to_do s' < to_do s \<and> s_ok s' = s_ok s \<and> mq_msgsize (s_q s') = mq_msgsize (s_q s) \<and> r_pc s' \<noteq> R_Absent"
  using assms by (auto simp: mq_r_run_def mq_receive_def to_do_def say_def split: rpc.splits list.splits if_splits)

lemma receiver_alone_done:
  assumes "queue_fine s" "in_order s" "accounted s" "threads_as sid True s" "to_do s \<le> k"
  shows "received (s_log (receiver_alone k s)) = s_ok s"
  using assms
proof (induction k arbitrary: s)
  case 0
  then show ?case by (auto simp: to_do_def in_order_def pending_def in_hand_def threads_as_def split: rpc.splits)
next
  case (Suc k)
  show ?case
  proof (cases "mq_r_run None s")
    case None
    with receiver_stops [OF None] Suc.prems show ?thesis
      by (simp add: threads_as_def queue_fine_def in_order_def pending_def in_hand_def)
  next
    case (Some s')
    moreover have "mq_msgsize (s_q s) = 4" using Suc.prems(1) by (simp add: queue_fine_def)
    ultimately show ?thesis using receiver_progress [OF Some] receiver_keeps [OF Some] Suc.prems Suc.IH [of s'] by simp
  qed
qed

section \<open>Properties\<close>

text \<open>
  C16. Whatever the interleaving and whatever calls a signal interrupts, the numbers printed are a
  prefix of those \<open>mq_send\<close> took, in the same increasing order, and at most nine of those taken are
  still to be printed: eight in the queue and one in the receiver's hands.
\<close>
theorem mq_fifo:
  assumes "mq_reach sid rid s"
  shows "\<exists>waiting. s_ok s = received (s_log s) @ waiting \<and> length waiting \<le> 9 \<and> sorted_wrt (<) (s_ok s)"
  using mq_reach_inv [OF assms]
  by (auto simp: queue_fine_def in_order_def accounted_def pending_def in_hand_def)

text \<open>A run: the first number is sent and printed, the second call of \<open>mq_send\<close> is interrupted.\<close>

definition mq_demo :: mqsys where
  "mq_demo = \<lparr>s_q = \<lparr>mq_maxmsg = 8, mq_msgsize = 4, mq_msgs = []\<rparr>, s_pc = S_Counting, s_msgid = 1, r_pc = R_Receiving,
     r_msgid = enc_int 0, s_log = [Msg_Size 4, Max_Msg 8, Received 4 0, Send_Error EINTR], s_ok = [0], s_err = [1]\<rparr>"

fun mq_moves :: "(bool \<times> nat option) list \<Rightarrow> mqsys \<Rightarrow> mqsys option" where
  "mq_moves [] s = Some s"
| "mq_moves ((b, sig) # ms) s = (case if b then mq_s_run sig s else mq_r_run sig s of None \<Rightarrow> None | Some s \<Rightarrow> mq_moves ms s)"

lemma mq_moves_reach: "mq_reach sid rid s \<Longrightarrow> mq_moves ms s = Some s' \<Longrightarrow> mq_reach sid rid s'"
proof (induction ms s rule: mq_moves.induct)
  case (2 b sig ms s)
  then show ?case
    by (auto split: option.splits if_splits intro: mq_reach.step sender receiver)
qed simp

definition mq_first :: mqsys where
  "mq_first = \<lparr>s_q = \<lparr>mq_maxmsg = 8, mq_msgsize = 4, mq_msgs = []\<rparr>, s_pc = S_Sending, s_msgid = 0, r_pc = R_Asking,
     r_msgid = [0, 0, 0, 0], s_log = [], s_ok = [], s_err = []\<rparr>"

lemma mq_first_reach: "mq_reach True True mq_first"
  by (rule mq_reach.start [where junk = "[0, 0, 0, 0]" and qs = "Map.empty"])
    (simp add: mq_main_def mq_unlink_def mq_open_def mq_first_def)

lemma mq_demo_reach: "mq_reach True True mq_demo"
proof (rule mq_moves_reach [OF mq_first_reach])
  show "mq_moves [(True, None), (False, None), (False, None), (False, None), (True, None), (False, None), (True, None), (True, Some EINTR)] mq_first
      = Some mq_demo"
    by (simp add: mq_first_def mq_demo_def mq_s_run_def mq_r_run_def mq_send_def mq_receive_def say_def dec_enc_int)
qed

lemma mq_fifo_witness: "length (s_ok mq_demo) \<le> 9 + length (received (s_log mq_demo))"
  using mq_fifo [OF mq_demo_reach] by auto

text \<open>
  C18. Every number below the sender's counter was offered exactly once: it was taken by the queue
  or its \<open>mq_send\<close> failed, never both. A failed call is not repeated, the number is skipped.
\<close>
theorem mq_accounted:
  assumes "mq_reach sid rid s" "s_pc s = S_Sending"
  shows "set (s_ok s) \<union> set (s_err s) = {0..<s_msgid s} \<and> set (s_ok s) \<inter> set (s_err s) = {}
    \<and> distinct (s_ok s) \<and> distinct (s_err s)"
  using mq_reach_inv [OF assms(1)] assms(2)
  by (simp add: accounted_def upto_now_def strict_sorted_iff)

lemma mq_accounted_witness: "set (s_ok mq_first) \<union> set (s_err mq_first) = {0..<0}"
  using mq_accounted [OF mq_first_reach] by (simp add: mq_first_def)

text \<open>
  The two threads never block each other: until the counter overflows, one of them can go on
  without waiting for a signal.
\<close>
theorem mq_never_stuck:
  assumes "mq_reach True True s" "s_pc s \<noteq> S_Overflow"
  shows "mq_s_run None s \<noteq> None \<or> mq_r_run None s \<noteq> None"
proof (rule ccontr)
  assume "\<not> ?thesis"
  moreover have "queue_fine s" "threads_as True True s" using mq_reach_inv [OF assms(1)] by simp_all
  ultimately have "mq_msgs (s_q s) = []" "mq_s_run None s = None"
    using receiver_stops [of s] by (simp_all add: queue_fine_def threads_as_def)
  with \<open>queue_fine s\<close> \<open>threads_as True True s\<close> assms(2) show False
    by (auto simp: mq_s_run_def mq_send_def queue_fine_def threads_as_def enc_int_def split: spc.splits)
qed

lemma mq_never_stuck_witness: "mq_s_run None mq_demo \<noteq> None \<or> mq_r_run None mq_demo \<noteq> None"
  by (rule mq_never_stuck [OF mq_demo_reach]) (simp add: mq_demo_def)

text \<open>
  C17. Every message the queue took can be delivered: from any state, eighteen steps of the receiver
  alone print all of them.
\<close>
theorem mq_delivers:
  assumes "mq_reach sid True s"
  shows "received (s_log (receiver_alone 18 s)) = s_ok s"
proof (rule receiver_alone_done)
  show "queue_fine s" "in_order s" "accounted s" "threads_as sid True s" using mq_reach_inv [OF assms] by simp_all
  then show "to_do s \<le> 18" by (simp add: to_do_def queue_fine_def split: rpc.splits)
qed

lemma mq_delivers_witness: "received (s_log (receiver_alone 18 mq_demo)) = [0]"
  using mq_delivers [OF mq_demo_reach] by (simp add: mq_demo_def)

text \<open>
  \<open>main\<close> starts with an empty queue of eight places whatever the name stood for before, and
  touches no other queue; when \<open>mq_open\<close> fails it returns -1 and no thread is started.
\<close>
theorem mq_main_fresh:
  "case mq_main refuse sid rid junk qs of
     Inl r \<Rightarrow> r = - 1 \<and> refuse \<noteq> None
   | Inr (s, qs') \<Rightarrow> refuse = None \<and> qs' ''/mymq'' = Some (s_q s) \<and> mq_msgs (s_q s) = [] \<and> mq_maxmsg (s_q s) = 8
       \<and> (\<forall>name. name \<noteq> ''/mymq'' \<longrightarrow> qs' name = qs name)"
  by (cases refuse) (simp_all add: mq_main_def mq_unlink_def mq_open_def)

lemma mq_main_fresh_witness:
  "case mq_main None True True [] (Map.empty(''/mymq'' \<mapsto> \<lparr>mq_maxmsg = 1, mq_msgsize = 1, mq_msgs = [[0]]\<rparr>)) of
     Inl r \<Rightarrow> False | Inr (s, qs') \<Rightarrow> mq_msgs (s_q s) = []"
  using mq_main_fresh [where refuse = None and sid = True and rid = True and junk = "[]" and qs = "Map.empty(''/mymq'' \<mapsto> \<lparr>mq_maxmsg = 1, mq_msgsize = 1, mq_msgs = [[0]]\<rparr>)"]
  by (auto split: sum.splits)

end
