(* ===== verification/CopyLoops.thy ===== *)
theory CopyLoops
  imports Streams
begin

text \<open>
  Loops of the form \<open>while((n = read(fd, buf, size)) > 0) { ... }\<close>, and two programs made of one:
  \<open>test/simpleCopy.c\<close> and \<open>test/myTee.c\<close>. A loop is given its body, which goes on with a new
  state or leaves the program; what the loop sees of a script are the blocks its reads return,
  and every loop is the body fed with these blocks.
\<close>

section \<open>Loops that read\<close>

text \<open>
  The loop ends with what the last \<open>read\<close> returned, an errno or the end of file, and the state,
  or with what the body left the program with.
\<close>

function while_read ::
    "nat \<Rightarrow> (byte list \<Rightarrow> 's \<Rightarrow> 's + 'r) \<Rightarrow> fdin \<Rightarrow> 's \<Rightarrow> nat option \<times> 's + 'r" where
  "while_read n body s st = (case sys_read n s of
     (Inl e, s) \<Rightarrow> Inl (Some e, st)
   | (Inr got, s) \<Rightarrow>
       if got = [] then Inl (None, st)
       else case body got st of Inl st \<Rightarrow> while_read n body s st | Inr r \<Rightarrow> Inr r)"
  by pat_completeness auto
termination
proof (relation "measure (\<lambda>(n, body, s, st). script_size s)", goal_cases)
  case 1
  show ?case by simp
next
  case (2 n body s st p s' got st')
  then have "sys_read n s = (Inr got, s')" "got \<noteq> []" by simp_all
  from script_size_read(2) [OF this(1) refl this(2)] show ?case by simp
qed

declare while_read.simps [simp del]

text \<open>The blocks the reads return until the first that fails or is at the end of file.\<close>

function blocks :: "nat \<Rightarrow> fdin \<Rightarrow> byte list list \<times> nat option" where
  "blocks n s = (case sys_read n s of
     (Inl e, s) \<Rightarrow> ([], Some e)
   | (Inr got, s) \<Rightarrow> if got = [] then ([], None) else (case blocks n s of (cs, e) \<Rightarrow> (got # cs, e)))"
  by pat_completeness auto
termination
proof (relation "measure (\<lambda>(n, s). script_size s)", goal_cases)
  case 1
  show ?case by simp
next
  case (2 n s p s' got)
  then have "sys_read n s = (Inr got, s')" "got \<noteq> []" by simp_all
  from script_size_read(2) [OF this(1) refl this(2)] show ?case by simp
qed

declare blocks.simps [simp del]

fun feed :: "(byte list \<Rightarrow> 's \<Rightarrow> 's + 'r) \<Rightarrow> byte list list \<Rightarrow> 's \<Rightarrow> 's + 'r" where
  "feed body [] st = Inl st"
| "feed body (c # cs) st = (case body c st of Inl st \<Rightarrow> feed body cs st | Inr r \<Rightarrow> Inr r)"

lemma while_read_feed:
  "while_read n body s st = (case feed body (fst (blocks n s)) st of
     Inl st' \<Rightarrow> Inl (snd (blocks n s), st') | Inr r \<Rightarrow> Inr r)"
proof (induction n body s st rule: while_read.induct)
  case (1 n body s st)
  show ?case
  proof (cases "sys_read n s")
    case (Pair r s')
    show ?thesis
    proof (cases r)
      case (Inl e)
      with Pair show ?thesis by (simp add: while_read.simps [of n body s] blocks.simps [of n s])
    next
      case (Inr got)
      show ?thesis
      proof (cases "got = []")
        case True
        with Pair Inr show ?thesis by (simp add: while_read.simps [of n body s] blocks.simps [of n s])
      next
        case False
        with Pair Inr 1 [OF Pair [symmetric] Inr False] show ?thesis
          by (auto simp: while_read.simps [of n body s] blocks.simps [of n s] split: sum.splits prod.splits)
      qed
    qed
  qed
qed

lemma feed_append:
  "feed body (cs @ ds) st = (case feed body cs st of Inl st' \<Rightarrow> feed body ds st' | Inr r \<Rightarrow> Inr r)"
  by (induction cs arbitrary: st) (auto split: sum.splits)

text \<open>The blocks cut the data in front of the first error.\<close>

fun data_of :: "fdin \<Rightarrow> byte list" where
  "data_of (RData b bs # s) = b # bs @ data_of s"
| "data_of _ = []"

fun error_of :: "fdin \<Rightarrow> nat option" where
  "error_of [] = None"
| "error_of (RErr e # s) = Some e"
| "error_of (RData b bs # s) = error_of s"

lemma data_chunk [simp]: "data_of (chunk bs @ s) = bs @ data_of s" "error_of (chunk bs @ s) = error_of s"
  by (cases bs; simp add: chunk_def)+

lemma blocks_cut:
  assumes "0 < n"
  shows "concat (fst (blocks n s)) = data_of s \<and> snd (blocks n s) = error_of s
    \<and> (\<forall>c\<in>set (fst (blocks n s)). c \<noteq> [] \<and> length c \<le> n)"
  using assms
proof (induction n s rule: blocks.induct)
  case (1 n s)
  show ?case
  proof (cases "(n, s)" rule: sys_read.cases)
    case (3 m b bs t)
    then have n: "n = m" and s: "s = RData b bs # t" by simp_all
    let ?got = "take n (b # bs)" and ?s' = "chunk (drop n (b # bs)) @ t"
    have r: "sys_read n s = (Inr ?got, ?s')" using s by simp
    have ne: "?got \<noteq> []" using 1(2) by simp
    have "?got @ drop n (b # bs) = b # bs" by (rule append_take_drop_id)
    then have d: "data_of s = ?got @ data_of ?s'" "error_of s = error_of ?s'" using s
      by (simp_all del: take_Cons' drop_Cons' flip: append_assoc)
    obtain cs e where rest: "blocks n ?s' = (cs, e)" by (cases "blocks n ?s'")
    with r ne have "blocks n s = (?got # cs, e)" by (simp add: blocks.simps [of n s])
    moreover have "length ?got \<le> n" by simp
    ultimately show ?thesis using 1(1) [OF r [symmetric] refl ne 1(2)] rest ne d by simp
  qed (simp_all add: blocks.simps)
qed

section \<open>Bodies that pass on what was read\<close>

text \<open>
  A body that either passes the whole block on or gives up after a part of it; \<open>passed\<close> is what
  a state has passed on, \<open>given_up\<close> what had been passed on when the body left the loop.
\<close>

locale passing_on =
  fixes body :: "byte list \<Rightarrow> 's \<Rightarrow> 's + 'r"
    and passed :: "'s \<Rightarrow> byte list"
    and given_up :: "'r \<Rightarrow> byte list"
  assumes on: "body c st = Inl st' \<Longrightarrow> passed st' = passed st @ c"
    and up: "body c st = Inr r \<Longrightarrow> \<exists>k. given_up r = passed st @ take k c"
begin

lemma feed_on: "feed body cs st = Inl st' \<Longrightarrow> passed st' = passed st @ concat cs"
  by (induction cs arbitrary: st) (auto simp: on split: sum.splits)

lemma feed_up: "feed body cs st = Inr r \<Longrightarrow> \<exists>k. given_up r = passed st @ take k (concat cs)"
proof (induction cs arbitrary: st)
  case (Cons c cs)
  show ?case
  proof (cases "body c st")
    case (Inl st')
    with Cons.prems have "feed body cs st' = Inr r" by simp
    from Cons.IH [OF this] obtain k where "given_up r = passed st @ c @ take k (concat cs)" using on [OF Inl] by auto
    then have "given_up r = passed st @ take (length c + k) (concat (c # cs))" by simp
    then show ?thesis by blast
  next
    case (Inr r')
    with Cons.prems have "body c st = Inr r" by simp
    from up [OF this] obtain k where "given_up r = passed st @ take k c" by blast
    then have "given_up r = passed st @ take (min k (length c)) (concat (c # cs))" by (simp add: min_def)
    then show ?thesis by blast
  qed
qed simp

lemma all_passed:
  assumes "0 < n" "while_read n body s st = Inl (e, st')"
  shows "passed st' = passed st @ data_of s \<and> e = error_of s"
  using assms feed_on [of "fst (blocks n s)" st] blocks_cut [OF assms(1), of s]
  by (auto simp: while_read_feed split: sum.splits)

lemma some_passed:
  assumes "0 < n" "while_read n body s st = Inr r"
  obtains k where "given_up r = passed st @ take k (data_of s)"
  using assms feed_up [of "fst (blocks n s)" st] blocks_cut [OF assms(1), of s]
  by (auto simp: while_read_feed split: sum.splits)

end

section \<open>\<open>test/simpleCopy.c\<close>\<close>

text \<open>
  \<open>n = read(...) > 0\<close> gives \<open>n\<close> the value of the comparison: while the loop runs it is 1, and
  it is 0 afterwards, so the test for a read error is never true.
\<close>

definition BUFFIZE :: nat where "BUFFIZE = 4096"

record copier =
  c_out :: fdout
  c_complaints :: nat

definition simple_body :: "byte list \<Rightarrow> copier \<Rightarrow> copier + int" where
  "simple_body buf st = (let n = 1 in
     case sys_write (take n buf) (c_out st) of
       (Inr k, fd) \<Rightarrow> Inl (st\<lparr>c_out := fd, c_complaints := c_complaints st + (if k \<noteq> n then 1 else 0)\<rparr>)
     | (Inl e, fd) \<Rightarrow> Inl (st\<lparr>c_out := fd, c_complaints := c_complaints st + 1\<rparr>))"

definition simple_main :: "fdin \<Rightarrow> fdout \<Rightarrow> int \<times> copier" where
  "simple_main input out = (case while_read BUFFIZE simple_body input \<lparr>c_out = out, c_complaints = 0\<rparr> of
     Inl (_, st) \<Rightarrow> (let n = 0 :: int in (0, if n < 0 then st\<lparr>c_complaints := c_complaints st + 1\<rparr> else st))
   | Inr r \<Rightarrow> (r, \<lparr>c_out = out, c_complaints = 0\<rparr>))"

section \<open>\<open>test/myTee.c\<close>\<close>

definition MAX_READ :: nat where "MAX_READ = 1024"

type_synonym files = "string \<Rightarrow> byte list option"

text \<open>An open file: its name, what it held after \<open>open\<close>, and the bytes written since.\<close>

record tee =
  t_buffer :: "byte list"
  t_stdout :: "byte list"
  t_file :: "(string \<times> byte list \<times> fdout) option"

definition arg :: "string list \<Rightarrow> nat \<Rightarrow> string option" where
  "arg argv i = (if i < length argv then Some (argv ! i) else None)"

text \<open>
  \<open>open\<close> for appending to a file that is there, and for a file made or cut to nothing. \<open>denied\<close>
  names the files that cannot be opened, \<open>ws name\<close> is what writing to a file will do.
\<close>

definition open_append :: "(string \<Rightarrow> bool) \<Rightarrow> (string \<Rightarrow> wr list) \<Rightarrow> files \<Rightarrow> string option
    \<Rightarrow> (string \<times> byte list \<times> fdout) option" where
  "open_append denied ws fs name = (case name of None \<Rightarrow> None | Some f \<Rightarrow>
     if denied f then None
     else case fs f of None \<Rightarrow> None | Some old \<Rightarrow> Some (f, old, \<lparr>out_script = ws f, out_sent = []\<rparr>))"

definition open_trunc :: "(string \<Rightarrow> bool) \<Rightarrow> (string \<Rightarrow> wr list) \<Rightarrow> string option
    \<Rightarrow> (string \<times> byte list \<times> fdout) option" where
  "open_trunc denied ws name = (case name of None \<Rightarrow> None | Some f \<Rightarrow>
     if denied f then None else Some (f, [], \<lparr>out_script = ws f, out_sent = []\<rparr>))"

text \<open>\<open>ret\<close> is what \<open>getopt\<close> returns; the case \<open>'i'\<close> falls through to the case \<open>'a'\<close>.\<close>

definition tee_open :: "(string \<Rightarrow> bool) \<Rightarrow> (string \<Rightarrow> wr list) \<Rightarrow> files \<Rightarrow> char option \<Rightarrow> string list
    \<Rightarrow> bool \<times> (string \<times> byte list \<times> fdout) option" where
  "tee_open denied ws fs ret argv =
     (if length argv > 1
      then (if ret = Some (CHR ''i'') then (True, open_append denied ws fs (arg argv 2))
            else if ret = Some (CHR ''a'') then (False, open_append denied ws fs (arg argv 2))
            else (False, open_trunc denied ws (arg argv 1)))
      else (False, None))"

text \<open>One block: the zero byte goes to \<open>buffer[n]\<close>, and \<open>printf\<close> stops at the first one.\<close>

definition tee_body :: "byte list \<Rightarrow> tee \<Rightarrow> tee + int cres" where
  "tee_body got st = (let n = length got in
     case cbind (mput (t_buffer st) 0 got) (\<lambda>buffer. aset buffer (int n) 0) of
       Inl f \<Rightarrow> Inr (Inl f)
     | Inr buffer \<Rightarrow>
         let st = st\<lparr>t_buffer := buffer, t_stdout := t_stdout st @ takeWhile (\<lambda>b. b \<noteq> 0) buffer\<rparr>
         in case t_file st of
              None \<Rightarrow> Inl st
            | Some (f, old, fd) \<Rightarrow> (case sys_write (take n buffer) fd of
                (Inl e, fd) \<Rightarrow> Inr (Inr 0)
              | (Inr k, fd) \<Rightarrow> Inl (st\<lparr>t_file := Some (f, old, fd)\<rparr>)))"

text \<open>The exit status and, when \<open>main\<close> comes to its end, what was written.\<close>

definition tee_main :: "byte list \<Rightarrow> (string \<times> byte list \<times> fdout) option \<Rightarrow> fdin \<Rightarrow> (int \<times> tee option) cres" where
  "tee_main junk file input =
     (case while_read MAX_READ tee_body input \<lparr>t_buffer = junk, t_stdout = [], t_file = file\<rparr> of
        Inl (_, st) \<Rightarrow> Inr (0, Some st)
      | Inr (Inl f) \<Rightarrow> Inl f
      | Inr (Inr r) \<Rightarrow> Inr (r, None))"

section \<open>Properties\<close>

lemma feed_simple:
  assumes "out_script (c_out st) = []"
  shows "feed simple_body cs st = Inl (st\<lparr>c_out := (c_out st)\<lparr>out_sent := out_sent (c_out st) @ concat (map (take 1) cs)\<rparr>,
      c_complaints := c_complaints st + length (filter (\<lambda>c. c = []) cs)\<rparr>)"
  using assms
proof (induction cs arbitrary: st)
  case (Cons c cs)
  let ?st = "st\<lparr>c_out := (c_out st)\<lparr>out_sent := out_sent (c_out st) @ take 1 c\<rparr>,
      c_complaints := c_complaints st + (if c = [] then 1 else 0)\<rparr>"
  have "simple_body c st = Inl ?st" using Cons.prems by (cases c) (simp_all add: simple_body_def sys_write_def)
  with Cons.IH [of ?st] Cons.prems show ?case by simp
qed simp

lemma first_bytes:
  "\<forall>c\<in>set cs. c \<noteq> [] \<Longrightarrow> concat (map (take 1) cs) = map hd cs \<and> filter (\<lambda>c. c = []) cs = []"
  by (induction cs) (auto simp: neq_Nil_conv)

text \<open>
  \<open>simpleCopy\<close> does not copy: of every block it reads it writes the first byte only, and it
  exits with status 0 and without a message whatever ended the reading.
\<close>
theorem simple_copies_first_bytes:
  "case simple_main input \<lparr>out_script = [], out_sent = []\<rparr> of
     (r, st) \<Rightarrow> r = 0 \<and> out_sent (c_out st) = map hd (fst (blocks BUFFIZE input)) \<and> c_complaints st = 0"
proof -
  have "\<forall>c\<in>set (fst (blocks BUFFIZE input)). c \<noteq> []" using blocks_cut [of BUFFIZE input] by (simp add: BUFFIZE_def)
  from first_bytes [OF this] show ?thesis by (simp add: simple_main_def while_read_feed feed_simple)
qed

text \<open>What one block does to a tee whose file takes all it is offered.\<close>

definition shown :: "byte list \<Rightarrow> byte list" where
  "shown c = takeWhile (\<lambda>b. b \<noteq> 0) c"

definition file_plus :: "byte list \<Rightarrow> (string \<times> byte list \<times> fdout) option \<Rightarrow> (string \<times> byte list \<times> fdout) option" where
  "file_plus bs file = map_option (\<lambda>(f, old, fd). (f, old, fd\<lparr>out_sent := out_sent fd @ bs\<rparr>)) file"

definition willing :: "(string \<times> byte list \<times> fdout) option \<Rightarrow> bool" where
  "willing file \<longleftrightarrow> (case file of None \<Rightarrow> True | Some (f, old, fd) \<Rightarrow> out_script fd = [])"

lemma file_plus_simps [simp]:
  "file_plus [] file = file" "file_plus cs (file_plus bs file) = file_plus (bs @ cs) file"
  "willing (file_plus bs file) = willing file"
  by (auto simp: file_plus_def willing_def map_option_case split: option.splits)

lemma takeWhile_stop: "takeWhile P (xs @ y # zs) = takeWhile P xs" if "\<not> P y"
  using that by (induction xs) simp_all

lemma tee_body_room:
  assumes "length c < length (t_buffer st)" "willing (t_file st)"
  shows "\<exists>buffer. length buffer = length (t_buffer st) \<and> tee_body c st =
    Inl (st\<lparr>t_buffer := buffer, t_stdout := t_stdout st @ shown c, t_file := file_plus c (t_file st)\<rparr>)"
proof -
  let ?m = "c @ drop (length c) (t_buffer st)" and ?b = "c @ 0 # drop (Suc (length c)) (t_buffer st)"
  have "?m[length c := 0] = ?b" using assms(1) by (simp add: list_update_append drop_take_Suc)
  then have "cbind (mput (t_buffer st) 0 c) (\<lambda>buffer. aset buffer (int (length c)) 0) = Inr ?b"
    using assms(1) by (simp add: mput_def aset_def)
  moreover have "takeWhile (\<lambda>b. b \<noteq> 0) ?b = shown c" by (simp add: takeWhile_stop shown_def)
  ultimately have "tee_body c st = Inl (st\<lparr>t_buffer := ?b, t_stdout := t_stdout st @ shown c, t_file := file_plus c (t_file st)\<rparr>)"
    using assms(2) by (cases "t_file st") (auto simp: tee_body_def Let_def sys_write_def willing_def file_plus_def)
  moreover have "length ?b = length (t_buffer st)" using assms(1) by simp
  ultimately show ?thesis by blast
qed

lemma tee_body_full:
  assumes "length c = length (t_buffer st)"
  shows "tee_body c st = Inr (Inl Out_Of_Bounds)"
  using assms by (simp add: tee_body_def mput_def aset_def)

lemma feed_tee:
  assumes "\<forall>c\<in>set cs. length c < length (t_buffer st)" "willing (t_file st)"
  shows "\<exists>buffer. length buffer = length (t_buffer st) \<and> feed tee_body cs st =
    Inl (st\<lparr>t_buffer := buffer, t_stdout := t_stdout st @ concat (map shown cs), t_file := file_plus (concat cs) (t_file st)\<rparr>)"
  using assms
proof (induction cs arbitrary: st)
  case Nil
  then show ?case by (intro exI [of _ "t_buffer st"]) simp
next
  case (Cons c cs)
  obtain b where b: "length b = length (t_buffer st)"
    "tee_body c st = Inl (st\<lparr>t_buffer := b, t_stdout := t_stdout st @ shown c, t_file := file_plus c (t_file st)\<rparr>)"
    using tee_body_room [of c st] Cons.prems by auto
  with Cons.IH [of "st\<lparr>t_buffer := b, t_stdout := t_stdout st @ shown c, t_file := file_plus c (t_file st)\<rparr>"] Cons.prems
  show ?case by auto
qed

lemma tee_main_room:
  assumes "length junk = 1024" "\<forall>c\<in>set (fst (blocks 1024 input)). length c \<noteq> 1024" "willing file"
  obtains st where "tee_main junk file input = Inr (0, Some st)" "t_file st = file_plus (data_of input) file"
    "t_stdout st = concat (map shown (fst (blocks 1024 input)))"
proof -
  let ?cs = "fst (blocks 1024 input)" and ?st = "\<lparr>t_buffer = junk, t_stdout = [], t_file = file\<rparr>"
  have "\<forall>c\<in>set ?cs. length c < 1024" "concat ?cs = data_of input"
    using blocks_cut [of 1024 input] assms(2) by (auto simp: order.order_iff_strict)
  with feed_tee [of ?cs ?st] assms that show thesis by (auto simp: tee_main_def while_read_feed MAX_READ_def)
qed

text \<open>
  \<open>myTee\<close> as long as no read fills its buffer and the file takes what it is offered: the file
  gets every byte that was read, after what it held, and the standard output gets of each block
  what is in front of its first zero byte.
\<close>
theorem tee_copies:
  assumes "length junk = 1024" "\<forall>c\<in>set (fst (blocks 1024 input)). length c \<noteq> 1024" "willing file"
  shows "\<exists>st. tee_main junk file input = Inr (0, Some st) \<and> t_file st = file_plus (data_of input) file
    \<and> t_stdout st = concat (map shown (fst (blocks 1024 input)))"
  by (rule tee_main_room [OF assms]) blast

lemma tee_copies_witness:
  "\<exists>st. tee_main (replicate 1024 7) (Some (''f'', [1], \<lparr>out_script = [], out_sent = []\<rparr>)) [RData 2 [0, 3], RErr EINTR] = Inr (0, Some st)
    \<and> t_file st = Some (''f'', [1], \<lparr>out_script = [], out_sent = [2, 0, 3]\<rparr>) \<and> t_stdout st = [2]"
proof -
  have "blocks 1024 [RData 2 [0, 3], RErr EINTR] = ([[2, 0, 3]], Some EINTR)" by (simp add: blocks.simps chunk_def)
  then show ?thesis
    using tee_copies [of "replicate 1024 7" "[RData 2 [0, 3], RErr EINTR]" "Some (''f'', [1], \<lparr>out_script = [], out_sent = []\<rparr>)"]
    by (simp add: willing_def file_plus_def shown_def)
qed

text \<open>
  A read that fills the buffer of \<open>myTee\<close> makes it write its zero byte behind it: with a file
  that takes all, the program has a fault exactly when some read returns 1024 bytes.
\<close>
theorem tee_overflows:
  assumes "length junk = 1024" "willing file"
  shows "tee_main junk file input = Inl Out_Of_Bounds \<longleftrightarrow> (\<exists>c\<in>set (fst (blocks 1024 input)). length c = 1024)"
proof
  assume "\<exists>c\<in>set (fst (blocks 1024 input)). length c = 1024"
  then obtain as c bs where cs: "fst (blocks 1024 input) = as @ c # bs" and c: "length c = 1024"
    and as: "\<forall>a\<in>set as. length a \<noteq> 1024" by (rule split_list_first_propE)
  have "\<forall>a\<in>set as. length a < 1024" using as cs blocks_cut [of 1024 input] by (auto simp: order.order_iff_strict)
  with feed_tee [of as "\<lparr>t_buffer = junk, t_stdout = [], t_file = file\<rparr>"] assms c
  show "tee_main junk file input = Inl Out_Of_Bounds"
    by (auto simp: tee_main_def while_read_feed MAX_READ_def cs feed_append tee_body_full)
next
  assume fault: "tee_main junk file input = Inl Out_Of_Bounds"
  show "\<exists>c\<in>set (fst (blocks 1024 input)). length c = 1024"
  proof (rule ccontr)
    assume "\<not> ?thesis"
    then show False using tee_main_room [OF assms(1) _ assms(2), of input] fault by force
  qed
qed

lemma tee_overflows_witness: "tee_main (replicate 1024 7) None [RData 1 (replicate 1023 1)] = Inl Out_Of_Bounds"
proof -
  have "sys_read 1024 [RData 1 (replicate 1023 1)] = (Inr (replicate 1024 1), [])"
    using replicate_Suc [of 1023 "1 :: byte"] by (simp add: chunk_def del: replicate_Suc)
  then have "\<exists>c\<in>set (fst (blocks 1024 [RData 1 (replicate 1023 1)])). length c = 1024"
    by (simp add: blocks.simps split: prod.splits)
  then show ?thesis using tee_overflows [of "replicate 1024 7" None "[RData 1 (replicate 1023 1)]"] by (simp add: willing_def)
qed

end
