(* ===== verification/UnixXfer.thy ===== *)
theory UnixXfer
  imports CopyLoops ErrorFunctions
begin

text \<open>
  The client and the server of \<open>sockapi/demo/unixStream\<close>. The client copies its standard input to
  the socket; the server copies to its standard output what each connection brings, one connection
  after the other. Both end through the functions of \<open>lib/src/error_functions.c\<close>. The results of
  the system calls are arguments: \<open>None\<close> for success, the errno otherwise. \<open>io\<close> is the errno that
  the output functions leave behind.
\<close>

section \<open>What the two programs share\<close>

definition BUF_SIZE :: nat where "BUF_SIZE = 100"

abbreviation (input) ENOENT :: nat where "ENOENT \<equiv> 2"

type_synonym ended = "ending \<times> process"

definition fail :: "(int \<Rightarrow> string) \<Rightarrow> int \<Rightarrow> string \<Rightarrow> nat \<Rightarrow> process \<Rightarrow> ended cres" where
  "fail strerr io text e p = errExit strerr io text (p\<lparr>p_errno := int e\<rparr>)"

text \<open>The body of both loops: \<open>if(write(fd, buf, numRead) != numRead) fatal(...)\<close>.\<close>

definition xfer :: "byte list \<Rightarrow> fdout \<Rightarrow> fdout + fdout" where
  "xfer buf out = (case sys_write buf out of
     (Inr k, out) \<Rightarrow> if k \<noteq> length buf then Inr out else Inl out
   | (Inl e, out) \<Rightarrow> Inr out)"

section \<open>The client\<close>

definition us_xfr_cl ::
    "(int \<Rightarrow> string) \<Rightarrow> int \<Rightarrow> nat option \<Rightarrow> nat option \<Rightarrow> fdin \<Rightarrow> fdout \<Rightarrow> process \<Rightarrow> (fdout \<times> ended) cres" where
  "us_xfr_cl strerr io sock conn input sfd p = (case sock of
     Some e \<Rightarrow> cbind (fail strerr io ''socket'' e p) (\<lambda>r. Inr (sfd, r))
   | None \<Rightarrow> (case conn of
       Some e \<Rightarrow> cbind (fail strerr io ''connect'' e p) (\<lambda>r. Inr (sfd, r))
     | None \<Rightarrow> (case while_read BUF_SIZE xfer input sfd of
         Inr sfd \<Rightarrow> cbind (fatal strerr io ''partial/failed write'' p) (\<lambda>r. Inr (sfd, r))
       | Inl (Some e, sfd) \<Rightarrow> cbind (fail strerr io ''read'' e p) (\<lambda>r. Inr (sfd, r))
       | Inl (None, sfd) \<Rightarrow> Inr (sfd, Exited 0, flush_stdout p))))"

section \<open>The server\<close>

text \<open>
  A connection is an error of \<open>accept\<close>, or what the client sends and how \<open>close\<close> ends. After the
  last one the server waits in \<open>accept\<close>.
\<close>

type_synonym conn = "nat + fdin \<times> nat option"

datatype serving = Waits fdout process | Ends fdout ending process

definition ends :: "fdout \<Rightarrow> ended cres \<Rightarrow> serving cres" where
  "ends out r = cbind r (\<lambda>(e, p). Inr (Ends out e p))"

fun serve :: "(int \<Rightarrow> string) \<Rightarrow> int \<Rightarrow> conn list \<Rightarrow> fdout \<Rightarrow> process \<Rightarrow> serving cres" where
  "serve strerr io [] out p = Inr (Waits out p)"
| "serve strerr io (Inl e # cs) out p = ends out (fail strerr io ''accept'' e p)"
| "serve strerr io (Inr (s, closing) # cs) out p = (case while_read BUF_SIZE xfer s out of
     Inr out \<Rightarrow> ends out (fatal strerr io ''partial/failed write'' p)
   | Inl (Some e, out) \<Rightarrow> ends out (fail strerr io ''read'' e p)
   | Inl (None, out) \<Rightarrow> (case closing of
       None \<Rightarrow> serve strerr io cs out p
     | Some e \<Rightarrow> cbind (errMsg strerr io ''close'' (p\<lparr>p_errno := int e\<rparr>)) (serve strerr io cs out)))"

record start =
  st_socket :: "nat option"
  st_remove :: "nat option"
  st_bind :: "nat option"
  st_listen :: "nat option"

definition us_xfr_sv :: "(int \<Rightarrow> string) \<Rightarrow> int \<Rightarrow> start \<Rightarrow> conn list \<Rightarrow> fdout \<Rightarrow> process \<Rightarrow> serving cres" where
  "us_xfr_sv strerr io st cs out p = (case st_socket st of
     Some e \<Rightarrow> ends out (fail strerr io ''socket'' e p)
   | None \<Rightarrow>
       if st_remove st \<noteq> None \<and> st_remove st \<noteq> Some ENOENT
       then ends out (fail strerr io ''remove-/tmp/us_xfr'' (the (st_remove st)) p)
       else (case st_bind st of
         Some e \<Rightarrow> ends out (fail strerr io ''bind'' e p)
       | None \<Rightarrow> (case st_listen st of
           Some e \<Rightarrow> ends out (fail strerr io ''listen'' e p)
         | None \<Rightarrow> serve strerr io cs out p)))"

section \<open>Copying\<close>

lemma xfer_write: "xfer buf out = Inl out' \<Longrightarrow> out_sent out' = out_sent out @ buf"
    "xfer buf out = Inr out' \<Longrightarrow> \<exists>k. out_sent out' = out_sent out @ take k buf"
  by (auto simp: xfer_def sys_write_def split: list.splits wr.splits if_splits intro: exI [of _ 0])

interpretation xf: passing_on xfer out_sent out_sent
  by unfold_locales (use xfer_write in blast)+

lemma xfer_willing: "out_script out = [] \<Longrightarrow> xfer buf out = Inl (out\<lparr>out_sent := out_sent out @ buf\<rparr>)"
  by (simp add: xfer_def sys_write_def)

lemma feed_willing:
  "out_script out = [] \<Longrightarrow> feed xfer cs out = Inl (out\<lparr>out_sent := out_sent out @ concat cs\<rparr>)"
proof (induction cs arbitrary: out)
  case (Cons c cs)
  then show ?case using Cons.IH [of "out\<lparr>out_sent := out_sent out @ c\<rparr>"] by (simp add: xfer_willing)
qed simp

lemma read_willing:
  assumes "out_script out = []"
  shows "while_read BUF_SIZE xfer s out = Inl (error_of s, out\<lparr>out_sent := out_sent out @ data_of s\<rparr>)"
  using feed_willing [OF assms] blocks_cut [of BUF_SIZE s] by (simp add: while_read_feed BUF_SIZE_def)

lemma fail_ends: "\<exists>p'. fail strerr io msg e p = Inr (end_of p, p')"
  using errExit_ends [of strerr io msg "p\<lparr>p_errno := int e\<rparr>"] by (simp add: fail_def end_of_def)

lemma serve_clean:
  assumes "out_script out = []" "\<forall>c\<in>set ss. error_of (fst c) = None"
  shows "\<exists>p'. end_of p' = end_of p \<and> serve strerr io (map Inr ss @ cs) out p
    = serve strerr io cs (out\<lparr>out_sent := out_sent out @ concat (map (data_of \<circ> fst) ss)\<rparr>) p'"
  using assms
proof (induction ss arbitrary: out p)
  case (Cons c ss)
  obtain s closing where c: "c = (s, closing)" by (cases c)
  let ?out = "out\<lparr>out_sent := out_sent out @ data_of s\<rparr>"
  have "\<exists>q. end_of q = end_of p \<and> serve strerr io (map Inr (c # ss) @ cs) out p = serve strerr io (map Inr ss @ cs) ?out q"
  proof (cases closing)
    case None
    then show ?thesis using Cons.prems by (auto simp: c read_willing)
  next
    case (Some e)
    obtain q where "errMsg strerr io ''close'' (p\<lparr>p_errno := int e\<rparr>) = Inr q" "end_of q = end_of p"
      using errMsg_returns [of strerr io "''close''" "p\<lparr>p_errno := int e\<rparr>"] by (auto simp: end_of_def)
    then show ?thesis using Cons.prems Some by (auto simp: c read_willing)
  qed
  then obtain q where "end_of q = end_of p" "serve strerr io (map Inr (c # ss) @ cs) out p = serve strerr io (map Inr ss @ cs) ?out q"
    by blast
  with Cons.IH [of ?out q] Cons.prems show ?case by (simp add: c)
qed auto

text \<open>The server starts when nothing but a missing socket file is in its way.\<close>

definition starts :: "start \<Rightarrow> bool" where
  "starts st \<longleftrightarrow> st_socket st = None \<and> (st_remove st = None \<or> st_remove st = Some ENOENT) \<and> st_bind st = None \<and> st_listen st = None"

lemma us_xfr_sv_serve: "starts st \<Longrightarrow> us_xfr_sv strerr io st cs out p = serve strerr io cs out p"
  by (auto simp: us_xfr_sv_def starts_def)

section \<open>Properties\<close>

text \<open>
  What the client sends is always the beginning of its input, in order. It exits with status 0
  exactly when it could connect, no read failed and no write was short, and then it sent all of it;
  an interrupted read ends it too.
\<close>
theorem us_xfr_cl_sends:
  "\<exists>out e p' k. us_xfr_cl strerr io sock conn input sfd p = Inr (out, e, p')
    \<and> out_sent out = out_sent sfd @ take k (data_of input)
    \<and> (e = Exited 0 \<longrightarrow> sock = None \<and> conn = None \<and> error_of input = None \<and> length (data_of input) \<le> k)
    \<and> (sock = None \<and> conn = None \<and> error_of input = None \<and> out_script sfd = [] \<longrightarrow> e = Exited 0)"
proof (cases "sock = None \<and> conn = None")
  case False
  then have "\<exists>p'. us_xfr_cl strerr io sock conn input sfd p = Inr (sfd, end_of p, p')"
    using fail_ends [of strerr io _ _ p] by (auto simp: us_xfr_cl_def split: option.splits)
  with False end_of_nonzero [of p] show ?thesis by (auto intro!: exI [of _ 0])
next
  case True
  then show ?thesis
  proof (cases "while_read BUF_SIZE xfer input sfd")
    case (Inr out)
    then obtain k where "out_sent out = out_sent sfd @ take k (data_of input)"
      using xf.some_passed [of BUF_SIZE input sfd out] by (auto simp: BUF_SIZE_def)
    moreover obtain p' where "us_xfr_cl strerr io sock conn input sfd p = Inr (out, end_of p, p')"
      using True Inr fatal_ends [of strerr io "''partial/failed write''" p] by (auto simp: us_xfr_cl_def)
    moreover have "out_script sfd \<noteq> []" using read_willing [of sfd input] Inr by auto
    ultimately show ?thesis using end_of_nonzero [of p] by auto
  next
    case (Inl r)
    then obtain out where r: "r = (error_of input, out)" "out_sent out = out_sent sfd @ data_of input"
      using xf.all_passed [of BUF_SIZE input sfd "fst r" "snd r"] by (cases r) (auto simp: BUF_SIZE_def)
    have "\<exists>p'. us_xfr_cl strerr io sock conn input sfd p = Inr (out, if error_of input = None then Exited 0 else end_of p, p')"
      using True Inl r fail_ends [of strerr io "''read''" _ p] by (auto simp: us_xfr_cl_def split: option.splits)
    then show ?thesis using r(2) True end_of_nonzero [of p] by (auto intro!: exI [of _ "length (data_of input)"])
  qed
qed

lemma us_xfr_cl_sends_witness:
  "\<exists>e p' k out. us_xfr_cl (\<lambda>_. ''Interrupted system call'') 0 None None [RData 1 [2], RErr EINTR, RData 3 []] \<lparr>out_script = [], out_sent = []\<rparr>
      \<lparr>p_log = [], p_pending = [], p_errno = 0, p_dumpcore = None\<rparr> = Inr (out, e, p')
    \<and> out_sent out = take k [1, 2] \<and> e \<noteq> Exited 0"
  using us_xfr_cl_sends [of "\<lambda>_. ''Interrupted system call''" 0 None None "[RData 1 [2], RErr EINTR, RData 3 []]"
      "\<lparr>out_script = [], out_sent = []\<rparr>" "\<lparr>p_log = [], p_pending = [], p_errno = 0, p_dumpcore = None\<rparr>"]
  by fastforce

definition quiet :: process where
  "quiet = \<lparr>p_log = [], p_pending = [], p_errno = 0, p_dumpcore = None\<rparr>"

text \<open>
  C20. The server writes what its clients send, one connection after the other in the order in which
  they are accepted; a failing \<open>close\<close> is only reported. The first connection whose reading fails
  ends the server - after the bytes that came before the failure - and whoever is waiting is not served.
\<close>
theorem us_xfr_sv_serves:
  assumes "starts st" "out_script out = []" "\<forall>c\<in>set ss. error_of (fst c) = None"
  shows "(\<exists>p'. us_xfr_sv strerr io st (map Inr ss) out p
      = Inr (Waits (out\<lparr>out_sent := out_sent out @ concat (map (data_of \<circ> fst) ss)\<rparr>) p'))
    \<and> (\<forall>s e closing cs. error_of s = Some e \<longrightarrow> (\<exists>p'. us_xfr_sv strerr io st (map Inr ss @ Inr (s, closing) # cs) out p
      = Inr (Ends (out\<lparr>out_sent := out_sent out @ concat (map (data_of \<circ> fst) ss) @ data_of s\<rparr>) (end_of p) p')))"
proof (intro conjI allI impI)
  let ?out = "out\<lparr>out_sent := out_sent out @ concat (map (data_of \<circ> fst) ss)\<rparr>"
  show "\<exists>p'. us_xfr_sv strerr io st (map Inr ss) out p = Inr (Waits ?out p')"
    using serve_clean [OF assms(2,3), of p strerr io "[]"] by (auto simp: us_xfr_sv_serve [OF assms(1)])
  fix s e closing cs
  assume e: "error_of s = Some e"
  obtain q where q: "end_of q = end_of p"
    "serve strerr io (map Inr ss @ Inr (s, closing) # cs) out p = serve strerr io (Inr (s, closing) # cs) ?out q"
    using serve_clean [OF assms(2,3), of p strerr io "Inr (s, closing) # cs"] by blast
  obtain p' where "fail strerr io ''read'' e q = Inr (end_of q, p')" using fail_ends by blast
  then show "\<exists>p'. us_xfr_sv strerr io st (map Inr ss @ Inr (s, closing) # cs) out p
      = Inr (Ends (out\<lparr>out_sent := out_sent out @ concat (map (data_of \<circ> fst) ss) @ data_of s\<rparr>) (end_of p) p')"
    using q e assms(2) by (simp add: us_xfr_sv_serve [OF assms(1)] read_willing ends_def)
qed

definition up :: start where
  "up = \<lparr>st_socket = None, st_remove = Some ENOENT, st_bind = None, st_listen = None\<rparr>"

lemma us_xfr_sv_serves_witness:
  "\<exists>p'. us_xfr_sv (\<lambda>_. ''Connection reset by peer'') 0 up
      [Inr ([RData 1 [2]], Some EINTR), Inr ([RData 3 [], RErr 104], None), Inr ([RData 4 []], None)]
      \<lparr>out_script = [], out_sent = []\<rparr> quiet = Inr (Ends \<lparr>out_script = [], out_sent = [1, 2, 3]\<rparr> (Exited 1) p')"
proof -
  have "starts up" "end_of quiet = Exited 1" by (simp_all add: starts_def up_def end_of_def quiet_def)
  then show ?thesis
    using us_xfr_sv_serves [of up "\<lparr>out_script = [], out_sent = []\<rparr>" "[([RData 1 [2]], Some EINTR)]"
      "\<lambda>_. ''Connection reset by peer''" 0 quiet, THEN conjunct2, rule_format, of "[RData 3 [], RErr 104]" 104 None "[Inr ([RData 4 []], None)]"]
    by simp
qed

text \<open>
  C19. From end to end: however the client's reads cut its input and however the socket cuts the
  stream again, the server writes exactly the client's input.
\<close>
theorem us_xfr_roundtrip:
  assumes "starts st" "error_of input = None" "data_of s = out_sent sfd'" "error_of s = None"
    and "us_xfr_cl strerr io None None input \<lparr>out_script = [], out_sent = []\<rparr> p = Inr (sfd', r)"
  shows "\<exists>p'. us_xfr_sv strerr io st [Inr (s, closing)] \<lparr>out_script = [], out_sent = []\<rparr> p
    = Inr (Waits \<lparr>out_script = [], out_sent = data_of input\<rparr> p')"
proof -
  have "out_sent sfd' = data_of input" using assms(2,5) by (auto simp: us_xfr_cl_def read_willing)
  then show ?thesis
    using serve_clean [of "\<lparr>out_script = [], out_sent = []\<rparr>" "[(s, closing)]" p strerr io "[]"] assms(3,4)
    by (auto simp: us_xfr_sv_serve [OF assms(1)])
qed

lemma us_xfr_roundtrip_witness:
  "\<exists>p'. us_xfr_sv (\<lambda>_. []) 0 up [Inr ([RData 1 [], RData 2 [3]], None)] \<lparr>out_script = [], out_sent = []\<rparr> quiet
    = Inr (Waits \<lparr>out_script = [], out_sent = [1, 2, 3]\<rparr> p')"
  using us_xfr_roundtrip [of up "[RData 1 [2, 3]]" "[RData 1 [], RData 2 [3]]" "\<lparr>out_script = [], out_sent = [1, 2, 3]\<rparr>" "\<lambda>_. []" 0 quiet
      "(Exited 0, flush_stdout quiet)" None]
  by (simp add: starts_def up_def us_xfr_cl_def read_willing)

end
