(* ===== verification/UnixDgram.thy ===== *)
theory UnixDgram
  imports UnixXfer
begin

text \<open>
  The client and the server of \<open>sockapi/demo/unixDgram\<close>: the client sends its arguments as
  datagrams and prints the answers, the server answers with the text in capitals. Both receive into
  buffers of ten bytes, and what a datagram has beyond that is lost. The results of the system calls
  are arguments as in the stream programs.
\<close>

section \<open>Datagrams\<close>

definition BUF_SIZE :: nat where "BUF_SIZE = 10"

text \<open>\<open>recvfrom\<close> on a datagram: the bytes counted, and the buffer.\<close>

definition recvfrom :: "byte list \<Rightarrow> byte list \<Rightarrow> nat \<times> byte list" where
  "recvfrom msg buf = (let got = take BUF_SIZE msg in (length got, got @ drop (length got) buf))"

definition toupper :: "byte \<Rightarrow> byte" where
  "toupper b = (if 97 \<le> b \<and> b \<le> 122 then b - 32 else b)"

function upper_loop :: "nat \<Rightarrow> nat \<Rightarrow> byte list \<Rightarrow> byte list" where
  "upper_loop j n buf = (if j < n then upper_loop (j + 1) n (buf[j := toupper (buf ! j)]) else buf)"
  by pat_completeness auto
termination by (relation "measure (\<lambda>(j, n, buf). n - j)") auto

declare upper_loop.simps [simp del]

section \<open>The server\<close>

text \<open>What is received: an error, or a datagram with its sender and how sending the answer ends.\<close>

type_synonym incoming = "nat + byte list \<times> string \<times> nat option"

record ud_server =
  us_buf :: "byte list"
  us_printed :: "(nat \<times> string) list"
  us_sent :: "(string \<times> byte list) list"

datatype ud_serving = Receiving ud_server process | Ended ud_server ending process

fun ud_serve :: "(int \<Rightarrow> string) \<Rightarrow> int \<Rightarrow> incoming list \<Rightarrow> ud_server \<Rightarrow> process \<Rightarrow> ud_serving cres" where
  "ud_serve strerr io [] st p = Inr (Receiving st p)"
| "ud_serve strerr io (Inl e # ms) st p = cbind (fail strerr io ''recvfrom'' e p) (\<lambda>(r, p). Inr (Ended st r p))"
| "ud_serve strerr io (Inr (msg, claddr, sending) # ms) st p = (case recvfrom msg (us_buf st) of (numBytes, buf) \<Rightarrow>
     let st = st\<lparr>us_printed := us_printed st @ [(numBytes, claddr)], us_buf := upper_loop 0 numBytes buf\<rparr>
     in (case sending of
       Some e \<Rightarrow> cbind (fatal strerr io ''sendto'' p) (\<lambda>(r, p). Inr (Ended st r p))
     | None \<Rightarrow> ud_serve strerr io ms (st\<lparr>us_sent := us_sent st @ [(claddr, take numBytes (us_buf st))]\<rparr>) p))"

definition ud_ucase_sv ::
    "(int \<Rightarrow> string) \<Rightarrow> int \<Rightarrow> start \<Rightarrow> byte list \<Rightarrow> incoming list \<Rightarrow> process \<Rightarrow> ud_serving cres" where
  "ud_ucase_sv strerr io go junk ms p =
     (let st = \<lparr>us_buf = junk, us_printed = [], us_sent = []\<rparr>;
          stop = (\<lambda>msg e. cbind (fail strerr io msg e p) (\<lambda>(r, p). Inr (Ended st r p)))
      in case st_socket go of
        Some e \<Rightarrow> stop ''socket'' e
      | None \<Rightarrow>
          if st_remove go \<noteq> None \<and> st_remove go \<noteq> Some ENOENT then stop ''remove-/tmp/ud_ucase'' (the (st_remove go))
          else (case st_bind go of Some e \<Rightarrow> stop ''bind'' e | None \<Rightarrow> ud_serve strerr io ms st p))"

section \<open>The client\<close>

text \<open>
  For each message, how sending it ends and what \<open>recvfrom\<close> returns after it; when there is no
  answer any more the client waits. \<open>uc_printed\<close> holds the responses with their numbers.
\<close>

record ud_client =
  uc_resp :: "byte list"
  uc_bound :: bool
  uc_sent :: "byte list list"
  uc_printed :: "(nat \<times> byte list) list"

datatype ud_asking = Asking ud_client process | Left ud_client ending process

definition leave :: "ud_client \<Rightarrow> ended cres \<Rightarrow> ud_asking cres" where
  "leave st r = cbind r (\<lambda>(e, p). Inr (Left st e p))"

fun ud_ask :: "(int \<Rightarrow> string) \<Rightarrow> int \<Rightarrow> nat \<Rightarrow> byte list list \<Rightarrow> (nat option \<times> (nat + byte list)) list
    \<Rightarrow> ud_client \<Rightarrow> process \<Rightarrow> ud_asking cres" where
  "ud_ask strerr io j [] as st p = Inr (Left (st\<lparr>uc_bound := False\<rparr>) (Exited 0) (flush_stdout p))"
| "ud_ask strerr io j (m # ms) [] st p = Inr (Asking (st\<lparr>uc_sent := uc_sent st @ [m]\<rparr>) p)"
| "ud_ask strerr io j (m # ms) ((sending, a) # as) st p = (case sending of
     Some e \<Rightarrow> leave st (fatal strerr io ''sendto'' p)
   | None \<Rightarrow> let st = st\<lparr>uc_sent := uc_sent st @ [m]\<rparr> in (case a of
       Inl e \<Rightarrow> leave st (fail strerr io ''recvfrom'' e p)
     | Inr msg \<Rightarrow> (case recvfrom msg (uc_resp st) of (numBytes, resp) \<Rightarrow>
         ud_ask strerr io (j + 1) ms as
           (st\<lparr>uc_resp := resp, uc_printed := uc_printed st @ [(j, takeWhile (\<lambda>b. b \<noteq> 0) (take numBytes resp))]\<rparr>) p)))"

definition help_arg :: "byte list" where
  "help_arg = [45, 45, 104, 101, 108, 112]"

definition ud_ucase_cl :: "(int \<Rightarrow> string) \<Rightarrow> int \<Rightarrow> string \<Rightarrow> nat option \<Rightarrow> nat option \<Rightarrow> byte list \<Rightarrow> byte list list
    \<Rightarrow> (nat option \<times> (nat + byte list)) list \<Rightarrow> process \<Rightarrow> ud_asking cres" where
  "ud_ucase_cl strerr io name sock bnd junk args as p =
     (let st = \<lparr>uc_resp = junk, uc_bound = False, uc_sent = [], uc_printed = []\<rparr>
      in if args = [] \<or> hd args = help_arg then leave st (Inr (usageErr (name @ '' msg...'' @ [CHR 10]) p))
         else (case sock of Some e \<Rightarrow> leave st (fail strerr io ''socket'' e p) | None \<Rightarrow>
           (case bnd of Some e \<Rightarrow> leave st (fail strerr io ''bind'' e p) | None \<Rightarrow>
              ud_ask strerr io 1 args as (st\<lparr>uc_bound := True\<rparr>) p)))"

section \<open>Answers\<close>

lemma take_min_length [simp]: "take (min (length xs) n) xs = take n xs"
  by (simp add: min_def)

lemma upper_loop_map:
  "j \<le> n \<Longrightarrow> n \<le> length buf \<Longrightarrow> upper_loop j n buf = take j buf @ map toupper (drop j (take n buf)) @ drop n buf"
proof (induction j n buf rule: upper_loop.induct)
  case (1 j n buf)
  show ?case
  proof (cases "j < n")
    case True
    let ?b = "buf[j := toupper (buf ! j)]"
    have "take (j + 1) ?b = take j buf @ [toupper (buf ! j)]" using True 1(3)
      by (simp add: take_Suc_conv_app_nth)
    moreover have "drop j (take n buf) = buf ! j # drop (j + 1) (take n buf)"
      using True 1(3) by (simp add: drop_take_Suc [of j "take n buf"])
    moreover have "drop (j + 1) (take n ?b) = drop (j + 1) (take n buf)" using True by (simp add: take_update_swap)
    ultimately show ?thesis using 1(1) [OF True] True 1(3) by (simp add: upper_loop.simps [of j n buf])
  next
    case False
    with 1(2) have "j = n" by simp
    then show ?thesis using 1(3) by (simp add: upper_loop.simps [of n n buf])
  qed
qed

definition answer :: "byte list \<Rightarrow> byte list" where
  "answer msg = map toupper (take BUF_SIZE msg)"

lemma answered:
  assumes "length (us_buf st) = BUF_SIZE"
  obtains st' where "length (us_buf st') = BUF_SIZE" "us_sent st' = us_sent st @ [(claddr, answer msg)]"
    "us_printed st' = us_printed st @ [(min (length msg) BUF_SIZE, claddr)]"
    "\<And>ms p. ud_serve strerr io (Inr (msg, claddr, None) # ms) st p = ud_serve strerr io ms st' p"
proof -
  let ?n = "length (take BUF_SIZE msg)" and ?buf = "take BUF_SIZE msg @ drop (length (take BUF_SIZE msg)) (us_buf st)"
  have n: "?n \<le> length ?buf" by simp
  have "take ?n (upper_loop 0 ?n ?buf) = answer msg" "length (upper_loop 0 ?n ?buf) = BUF_SIZE"
    using upper_loop_map [OF le0 n] assms by (simp_all add: answer_def)
  then show thesis
    by (intro that [of "st\<lparr>us_printed := us_printed st @ [(?n, claddr)], us_buf := upper_loop 0 ?n ?buf,
      us_sent := us_sent st @ [(claddr, answer msg)]\<rparr>"]) (simp_all add: recvfrom_def Let_def min.commute)
qed

lemma ud_serve_all:
  assumes "length (us_buf st) = BUF_SIZE"
  shows "\<exists>st'. ud_serve strerr io (map (\<lambda>(m, c). Inr (m, c, None)) ms) st p = Inr (Receiving st' p)
    \<and> us_sent st' = us_sent st @ map (\<lambda>(m, c). (c, answer m)) ms
    \<and> us_printed st' = us_printed st @ map (\<lambda>(m, c). (min (length m) BUF_SIZE, c)) ms"
  using assms
proof (induction ms arbitrary: st)
  case (Cons mc ms)
  obtain m c where mc: "mc = (m, c)" by (cases mc)
  obtain st' where "length (us_buf st') = BUF_SIZE" "us_sent st' = us_sent st @ [(c, answer m)]"
    "us_printed st' = us_printed st @ [(min (length m) BUF_SIZE, c)]"
    "\<And>ms p. ud_serve strerr io (Inr (m, c, None) # ms) st p = ud_serve strerr io ms st' p"
    by (rule answered [OF Cons.prems]) blast
  with Cons.IH [of st'] show ?case by (auto simp: mc)
qed simp

definition visible :: "byte list \<Rightarrow> byte list" where
  "visible msg = takeWhile (\<lambda>b. b \<noteq> 0) (take BUF_SIZE msg)"

lemma ud_ask_all:
  assumes "length (uc_resp st) = BUF_SIZE" "length rs = length ms"
  shows "\<exists>st'. ud_ask strerr io j ms (map (\<lambda>r. (None, Inr r)) rs) st p = Inr (Left st' (Exited 0) (flush_stdout p))
    \<and> uc_sent st' = uc_sent st @ ms \<and> \<not> uc_bound st' \<and> uc_printed st' = uc_printed st @ zip [j..<j + length ms] (map visible rs)"
  using assms
proof (induction ms arbitrary: j rs st)
  case (Cons m ms)
  obtain r rs' where rs: "rs = r # rs'" using Cons.prems by (cases rs) auto
  let ?resp = "take BUF_SIZE r @ drop (length (take BUF_SIZE r)) (uc_resp st)"
  let ?st = "st\<lparr>uc_sent := uc_sent st @ [m], uc_resp := ?resp, uc_printed := uc_printed st @ [(j, visible r)]\<rparr>"
  have step: "ud_ask strerr io j (m # ms) (map (\<lambda>r. (None, Inr r)) rs) st p = ud_ask strerr io (j + 1) ms (map (\<lambda>r. (None, Inr r)) rs') ?st p"
    by (simp add: rs recvfrom_def visible_def Let_def)
  have "length (uc_resp ?st) = BUF_SIZE" using Cons.prems by simp
  moreover have "length rs' = length ms" using Cons.prems(2) rs by simp
  ultimately obtain st' where "ud_ask strerr io (j + 1) ms (map (\<lambda>r. (None, Inr r)) rs') ?st p = Inr (Left st' (Exited 0) (flush_stdout p))"
    "uc_sent st' = uc_sent ?st @ ms" "\<not> uc_bound st'" "uc_printed st' = uc_printed ?st @ zip [j + 1..<j + 1 + length ms] (map visible rs')"
    using Cons.IH by blast
  moreover have "[j..<j + length (m # ms)] = j # [j + 1..<j + 1 + length ms]" by (simp add: upt_conv_Cons del: upt_Suc)
  ultimately show ?case using step rs by (intro exI [of _ st']) simp
qed simp

section \<open>Properties\<close>

text \<open>
  The server prints and answers every datagram, in order and to its sender; the answer is the
  first ten bytes in capitals, whatever longer messages left in the buffer before.
\<close>
theorem ud_server_answers:
  assumes "st_socket go = None" "st_remove go = None \<or> st_remove go = Some ENOENT" "st_bind go = None" "length junk = BUF_SIZE"
  shows "\<exists>st. ud_ucase_sv strerr io go junk (map (\<lambda>(m, c). Inr (m, c, None)) ms) p = Inr (Receiving st p)
    \<and> us_sent st = map (\<lambda>(m, c). (c, map toupper (take 10 m))) ms
    \<and> us_printed st = map (\<lambda>(m, c). (min (length m) 10, c)) ms"
  using ud_serve_all [of "\<lparr>us_buf = junk, us_printed = [], us_sent = []\<rparr>" strerr io ms p] assms
  by (auto simp: ud_ucase_sv_def Let_def answer_def BUF_SIZE_def)

lemma ud_server_answers_witness:
  "\<exists>st. ud_ucase_sv (\<lambda>_. []) 0 up (replicate 10 0) [Inr (replicate 12 97, ''a'', None), Inr ([98, 64], ''b'', None)] quiet = Inr (Receiving st quiet)
    \<and> us_sent st = [(''a'', replicate 10 65), (''b'', [66, 64])]"
  using ud_server_answers [of up "replicate 10 0" "\<lambda>_. []" 0 "[(replicate 12 97, ''a''), ([98, 64], ''b'')]" quiet]
  by (auto simp: up_def BUF_SIZE_def toupper_def)

text \<open>
  C21. Client and server together: when the answers the client receives are those the server sends,
  the client prints the answers in the order of its arguments, each argument's first ten bytes in
  capitals - what is longer is cut without a message -, removes its socket and exits with status 0.
\<close>
theorem ucase_exchange:
  assumes "args \<noteq> []" "hd args \<noteq> help_arg" "\<forall>m\<in>set args. 0 \<notin> set m" "length junk = BUF_SIZE" "length junk' = BUF_SIZE"
    and "ud_ucase_sv strerr io up junk (map (\<lambda>m. Inr (m, me, None)) args) q = Inr (Receiving sv q)"
  shows "\<exists>cl. ud_ucase_cl strerr io name None None junk' args (map (\<lambda>(_, r). (None, Inr r)) (us_sent sv)) p
      = Inr (Left cl (Exited 0) (flush_stdout p))
    \<and> uc_sent cl = args \<and> \<not> uc_bound cl
    \<and> uc_printed cl = zip [1..<1 + length args] (map (\<lambda>m. map toupper (take 10 m)) args)"
proof -
  have "map (\<lambda>m. Inr (m, me, None)) args = map (\<lambda>(m, c). Inr (m, c, None)) (map (\<lambda>m. (m, me)) args)" by simp
  then have sent: "us_sent sv = map (\<lambda>m. (me, answer m)) args"
    using ud_serve_all [of "\<lparr>us_buf = junk, us_printed = [], us_sent = []\<rparr>" strerr io "map (\<lambda>m. (m, me)) args" q] assms(4,6)
    by (auto simp: ud_ucase_sv_def up_def Let_def comp_def)
  have "toupper b \<noteq> 0" if "b \<noteq> 0" for b using that by (auto simp: toupper_def)
  then have "visible (answer m) = answer m" if "m \<in> set args" for m
    using assms(3) that by (auto simp: visible_def answer_def takeWhile_eq_all_conv dest!: in_set_takeD) metis
  then have vis: "map visible (map answer args) = map (\<lambda>m. map toupper (take 10 m)) args"
    by (simp add: answer_def BUF_SIZE_def)
  let ?st = "\<lparr>uc_resp = junk', uc_bound = True, uc_sent = [], uc_printed = []\<rparr>"
  have "ud_ucase_cl strerr io name None None junk' args (map (\<lambda>(_, r). (None, Inr r)) (us_sent sv)) p
      = ud_ask strerr io 1 args (map (\<lambda>r. (None, Inr r)) (map answer args)) ?st p"
    using assms(1,2) by (simp add: ud_ucase_cl_def Let_def sent comp_def)
  with ud_ask_all [of ?st "map answer args" args strerr io 1 p, unfolded vis] assms(5) show ?thesis by (simp del: upt_Suc)
qed

lemma ucase_exchange_witness:
  "\<exists>sv cl. ud_ucase_sv (\<lambda>_. []) 0 up (replicate 10 0) [Inr ([104, 105], ''c'', None)] quiet = Inr (Receiving sv quiet)
    \<and> ud_ucase_cl (\<lambda>_. []) 0 ''cl'' None None (replicate 10 0) [[104, 105]] (map (\<lambda>(_, r). (None, Inr r)) (us_sent sv)) quiet
      = Inr (Left cl (Exited 0) (flush_stdout quiet))
    \<and> uc_printed cl = [(1, [72, 73])]"
proof -
  obtain sv where sv: "ud_ucase_sv (\<lambda>_. []) 0 up (replicate 10 0) [Inr ([104, 105], ''c'', None)] quiet = Inr (Receiving sv quiet)"
    using ud_serve_all [of "\<lparr>us_buf = replicate 10 0, us_printed = [], us_sent = []\<rparr>" "\<lambda>_. []" 0 "[([104, 105], ''c'')]" quiet]
    by (auto simp: ud_ucase_sv_def up_def Let_def BUF_SIZE_def)
  with ucase_exchange [of "[[104, 105]]" "replicate 10 0" "replicate 10 0" "\<lambda>_. []" 0 "''c''" quiet sv "''cl''" quiet]
  show ?thesis by (auto simp: help_arg_def BUF_SIZE_def toupper_def)
qed

end
