(* ===== verification/Heartbeat2.thy ===== *)
theory Heartbeat2
  imports Heartbeat
begin

text \<open>
  The heartbeat client and server of \<open>sockapi/demo/heartBeat2\<close>: the data and the heartbeats have a
  connection each. What the peer and the system do is a list of arrivals, each with the time that
  passes before it and everything that happens at that moment on the two sockets; nothing at all
  stands for a signal, which makes the call that waits fail. After the last arrival the peer is
  silent. The constants are those of \<open>heartBeat1\<close>.
\<close>

section \<open>Two sockets\<close>

datatype closing = Closed_By_Peer | Reset

record sock =
  k_bytes :: "byte list"
  k_end :: "closing option"

datatype happening = On_Data byte "byte list" | On_Hb byte "byte list" | Data_End closing | Hb_End closing

type_synonym arrivals2 = "(nat \<times> happening list) list"

record duo =
  d_tv :: nat               \<comment> \<open>microseconds\<close>
  d_count :: int            \<comment> \<open>\<open>heartbeats\<close>, or \<open>missd_heartbeats\<close>\<close>
  d_time :: nat
  d_data :: sock            \<comment> \<open>\<open>sdata\<close>\<close>
  d_hb :: sock              \<comment> \<open>\<open>chb\<close>, or \<open>shb\<close>\<close>
  d_sent :: "byte list"     \<comment> \<open>sent on the heartbeat connection\<close>
  d_got :: "byte list"      \<comment> \<open>received as data\<close>

definition push_sock :: "byte list \<Rightarrow> sock \<Rightarrow> sock" where
  "push_sock bs k = k\<lparr>k_bytes := k_bytes k @ bs\<rparr>"

definition end_sock :: "closing \<Rightarrow> sock \<Rightarrow> sock" where
  "end_sock c k = k\<lparr>k_end := Some c\<rparr>"

fun happen :: "happening \<Rightarrow> duo \<Rightarrow> duo" where
  "happen (On_Data b bs) st = st\<lparr>d_data := push_sock (b # bs) (d_data st)\<rparr>"
| "happen (On_Hb b bs) st = st\<lparr>d_hb := push_sock (b # bs) (d_hb st)\<rparr>"
| "happen (Data_End c) st = st\<lparr>d_data := end_sock c (d_data st)\<rparr>"
| "happen (Hb_End c) st = st\<lparr>d_hb := end_sock c (d_hb st)\<rparr>"

definition readable :: "sock \<Rightarrow> bool" where
  "readable k \<longleftrightarrow> k_bytes k \<noteq> [] \<or> k_end k \<noteq> None"

datatype waking = Ready arrivals2 duo | Timed_Out arrivals2 duo | Interrupted duo

definition sel2 :: "arrivals2 \<Rightarrow> duo \<Rightarrow> waking" where
  "sel2 arr st =
     (if readable (d_data st) \<or> readable (d_hb st) then Ready arr st
      else case arr of
        [] \<Rightarrow> Timed_Out [] (st\<lparr>d_time := d_time st + d_tv st, d_tv := 0\<rparr>)
      | (gap, hs) # rest \<Rightarrow>
          if gap \<le> d_tv st
          then let st = st\<lparr>d_time := d_time st + gap, d_tv := d_tv st - gap\<rparr>
               in if hs = [] then Interrupted st else Ready rest (fold happen hs st)
          else Timed_Out ((gap - d_tv st, hs) # rest) (st\<lparr>d_time := d_time st + d_tv st, d_tv := 0\<rparr>))"

text \<open>
  \<open>recv\<close> blocks when there is nothing to read, while more arrives on either socket. The lens says
  which socket it reads.
\<close>

datatype received = Bytes "byte list" arrivals2 duo | Zero duo | Minus_One duo | Blocks_Forever duo

type_synonym which = "(duo \<Rightarrow> sock) \<times> ((sock \<Rightarrow> sock) \<Rightarrow> duo \<Rightarrow> duo)"

definition sdata :: which where "sdata = (d_data, d_data_update)"
definition chb :: which where "chb = (d_hb, d_hb_update)"

fun recv2 :: "which \<Rightarrow> nat \<Rightarrow> arrivals2 \<Rightarrow> duo \<Rightarrow> received" where
  "recv2 w n arr st =
     (if k_bytes (fst w st) \<noteq> [] then Bytes (take n (k_bytes (fst w st))) arr (snd w (\<lambda>k. k\<lparr>k_bytes := drop n (k_bytes k)\<rparr>) st)
      else case k_end (fst w st) of
        Some Closed_By_Peer \<Rightarrow> Zero st
      | Some Reset \<Rightarrow> Minus_One st
      | None \<Rightarrow> (case arr of
          [] \<Rightarrow> Blocks_Forever st
        | (gap, hs) # rest \<Rightarrow>
            let st = st\<lparr>d_time := d_time st + gap\<rparr>
            in if hs = [] then Minus_One st else recv2 w n rest (fold happen hs st)))"

declare recv2.simps [simp del]

text \<open>\<open>send_ok k\<close> says whether the byte after the first \<open>k\<close> on the heartbeat connection can be sent.\<close>

definition send2 :: "(nat \<Rightarrow> bool) \<Rightarrow> byte list \<Rightarrow> duo \<Rightarrow> duo option" where
  "send2 send_ok bs st = (if send_ok (length (d_sent st)) then Some (st\<lparr>d_sent := d_sent st @ bs\<rparr>) else None)"

definition tv_sec :: "nat \<Rightarrow> duo \<Rightarrow> duo" where
  "tv_sec n st = st\<lparr>d_tv := seconds n + d_tv st mod 1000000\<rparr>"

section \<open>The client\<close>

datatype duo_end = Dead | Terminated_Hb | Terminated_Data | Bad_Recv | Bad_Select | Bad_Send | Hangs

datatype turn = Ends duo_end duo | Turns arrivals2 duo

definition take_in :: "duo_end \<Rightarrow> received \<Rightarrow> (byte list \<Rightarrow> arrivals2 \<Rightarrow> duo \<Rightarrow> turn) \<Rightarrow> turn" where
  "take_in zero r k = (case r of
     Bytes bs arr st \<Rightarrow> k bs arr st | Zero st \<Rightarrow> Ends zero st | Minus_One st \<Rightarrow> Ends Bad_Recv st | Blocks_Forever st \<Rightarrow> Ends Hangs st)"

text \<open>
  The second half of a turn, from the test of \<open>sdata\<close> on; \<open>data_set\<close> is what \<open>select\<close> left in
  \<open>readfd\<close> for it. The \<open>recv\<close> of the client names \<open>chb\<close> here too.
\<close>

definition client_data :: "bool \<Rightarrow> arrivals2 \<Rightarrow> duo \<Rightarrow> turn" where
  "client_data data_set arr st =
     (let last = (\<lambda>arr st. Turns arr (tv_sec T1 (st\<lparr>d_count := 0\<rparr>)))
      in if data_set
         then take_in Terminated_Data (recv2 chb 1024 arr st) (\<lambda>bs arr st. last arr (st\<lparr>d_got := d_got st @ bs\<rparr>))
         else last arr st)"

definition client_late2 :: "(nat \<Rightarrow> bool) \<Rightarrow> arrivals2 \<Rightarrow> duo \<Rightarrow> turn" where
  "client_late2 send_ok arr st =
     (let st = st\<lparr>d_count := d_count st + 1\<rparr>
      in if d_count st > 3 then Ends Dead st
         else (case send2 send_ok [0] st of None \<Rightarrow> Ends Bad_Send st | Some st \<Rightarrow> Turns arr (tv_sec T2 st)))"

definition client_turn :: "(nat \<Rightarrow> bool) \<Rightarrow> arrivals2 \<Rightarrow> duo \<Rightarrow> turn" where
  "client_turn send_ok arr st = (case sel2 arr st of
     Interrupted st \<Rightarrow> Ends Bad_Select st
   | Timed_Out arr st \<Rightarrow> client_late2 send_ok arr st
   | Ready arr st \<Rightarrow>
       let data_set = readable (d_data st)
       in if readable (d_hb st) then take_in Terminated_Hb (recv2 chb 1 arr st) (\<lambda>_. client_data data_set)
          else client_data data_set arr st)"

section \<open>The server\<close>

definition server_data :: "bool \<Rightarrow> arrivals2 \<Rightarrow> duo \<Rightarrow> turn" where
  "server_data data_set arr st =
     (let last = (\<lambda>arr st. Turns arr (tv_sec (T1 + T2) (st\<lparr>d_count := 0\<rparr>)))
      in if data_set
         then take_in Terminated_Data (recv2 sdata 1024 arr st) (\<lambda>bs arr st. last arr (st\<lparr>d_got := d_got st @ bs\<rparr>))
         else last arr st)"

definition server_late2 :: "arrivals2 \<Rightarrow> duo \<Rightarrow> turn" where
  "server_late2 arr st =
     (let st = st\<lparr>d_count := d_count st + 1\<rparr>
      in if d_count st > 3 then Ends Dead st else Turns arr (tv_sec T2 st))"

definition server_turn :: "(nat \<Rightarrow> bool) \<Rightarrow> arrivals2 \<Rightarrow> duo \<Rightarrow> turn" where
  "server_turn send_ok arr st = (case sel2 arr st of
     Interrupted st \<Rightarrow> Ends Bad_Select st
   | Timed_Out arr st \<Rightarrow> server_late2 arr st
   | Ready arr st \<Rightarrow>
       let data_set = readable (d_data st)
       in if readable (d_hb st)
          then take_in Terminated_Hb (recv2 chb 1 arr st) (\<lambda>bs arr st.
            case send2 send_ok bs st of None \<Rightarrow> Ends Bad_Send st | Some st \<Rightarrow> server_data data_set arr st)
          else server_data data_set arr st)"

partial_function (option) turns :: "(arrivals2 \<Rightarrow> duo \<Rightarrow> turn) \<Rightarrow> arrivals2 \<Rightarrow> duo \<Rightarrow> (duo_end \<times> duo) option" where
  "turns one arr st = (case one arr st of Ends e st \<Rightarrow> Some (e, st) | Turns arr st \<Rightarrow> turns one arr st)"

definition fresh_duo :: "nat \<Rightarrow> duo" where
  "fresh_duo idle = \<lparr>d_tv = seconds idle, d_count = 0, d_time = 0, d_data = \<lparr>k_bytes = [], k_end = None\<rparr>,
     d_hb = \<lparr>k_bytes = [], k_end = None\<rparr>, d_sent = [], d_got = []\<rparr>"

definition client2 :: "(nat \<Rightarrow> bool) \<Rightarrow> arrivals2 \<Rightarrow> (duo_end \<times> duo) option" where
  "client2 send_ok arr = turns (client_turn send_ok) arr (fresh_duo T1)"

definition server2 :: "(nat \<Rightarrow> bool) \<Rightarrow> arrivals2 \<Rightarrow> (duo_end \<times> duo) option" where
  "server2 send_ok arr = turns (server_turn send_ok) arr (fresh_duo (T1 + T2))"

section \<open>What happens on the sockets\<close>

fun data_in :: "happening list \<Rightarrow> byte list" where
  "data_in [] = []"
| "data_in (On_Data b bs # hs) = b # bs @ data_in hs"
| "data_in (_ # hs) = data_in hs"

fun hb_in :: "happening list \<Rightarrow> byte list" where
  "hb_in [] = []"
| "hb_in (On_Hb b bs # hs) = b # bs @ hb_in hs"
| "hb_in (_ # hs) = hb_in hs"

lemma happen_bytes:
  "k_bytes (d_data (fold happen hs st)) = k_bytes (d_data st) @ data_in hs"
  "k_bytes (d_hb (fold happen hs st)) = k_bytes (d_hb st) @ hb_in hs"
  by (induction hs arbitrary: st rule: data_in.induct; simp add: push_sock_def end_sock_def)
    (induction hs arbitrary: st rule: hb_in.induct; simp add: push_sock_def end_sock_def)

lemma happen_rest [simp]:
  "d_tv (fold happen hs st) = d_tv st" "d_count (fold happen hs st) = d_count st"
  "d_time (fold happen hs st) = d_time st" "d_sent (fold happen hs st) = d_sent st" "d_got (fold happen hs st) = d_got st"
  by (induction hs arbitrary: st rule: hb_in.induct; simp)+

lemma happen_ends:
  "k_end (d_data st) \<noteq> None \<Longrightarrow> k_end (d_data (fold happen hs st)) \<noteq> None"
  "k_end (d_hb st) \<noteq> None \<Longrightarrow> k_end (d_hb (fold happen hs st)) \<noteq> None"
  by (induction hs arbitrary: st rule: hb_in.induct; simp add: push_sock_def end_sock_def)+

lemma happen_readable:
  assumes "hs \<noteq> []"
  shows "readable (d_data (fold happen hs st)) \<or> readable (d_hb (fold happen hs st))"
proof -
  obtain h hs' where hs: "hs = h # hs'" using assms by (cases hs) auto
  show ?thesis
    by (cases h) (use happen_ends in \<open>auto simp: hs readable_def happen_bytes push_sock_def end_sock_def\<close>)
qed

definition data_to :: "arrivals2 \<Rightarrow> byte list" where
  "data_to arr = concat (map (data_in \<circ> snd) arr)"

definition hb_to :: "arrivals2 \<Rightarrow> byte list" where
  "hb_to arr = concat (map (hb_in \<circ> snd) arr)"

lemma to_simps [simp]:
  "data_to [] = []" "data_to ((g, hs) # arr) = data_in hs @ data_to arr"
  "hb_to [] = []" "hb_to ((g, hs) # arr) = hb_in hs @ hb_to arr"
  by (simp_all add: data_to_def hb_to_def)

text \<open>Everything that is still to be read, and the arrivals to come.\<close>

definition ahead :: "arrivals2 \<Rightarrow> duo \<Rightarrow> nat" where
  "ahead arr st = length arr + length (k_bytes (d_data st) @ data_to arr) + length (k_bytes (d_hb st) @ hb_to arr)"

lemma sel2_cases:
  obtains (Ready) arr' st' where "sel2 arr st = Ready arr' st'" "readable (d_data st') \<or> readable (d_hb st')"
      "k_bytes (d_data st') @ data_to arr' = k_bytes (d_data st) @ data_to arr"
      "k_bytes (d_hb st') @ hb_to arr' = k_bytes (d_hb st) @ hb_to arr"
      "\<exists>x. k_bytes (d_data st') = k_bytes (d_data st) @ x"
      "length arr' \<le> length arr" "set arr' \<subseteq> set arr"
      "d_count st' = d_count st" "d_sent st' = d_sent st" "d_got st' = d_got st"
  | (Late) "sel2 arr st = Timed_Out [] (st\<lparr>d_time := d_time st + d_tv st, d_tv := 0\<rparr>)" "arr = []"
      "\<not> readable (d_data st)" "\<not> readable (d_hb st)"
  | (Later) gap hs rest where "sel2 arr st = Timed_Out ((gap - d_tv st, hs) # rest) (st\<lparr>d_time := d_time st + d_tv st, d_tv := 0\<rparr>)"
      "arr = (gap, hs) # rest" "d_tv st < gap" "\<not> readable (d_data st)" "\<not> readable (d_hb st)"
  | (Interrupted) st' where "sel2 arr st = Interrupted st'" "d_count st' = d_count st" "d_sent st' = d_sent st" "d_got st' = d_got st"
      "\<exists>x. k_bytes (d_data st') = k_bytes (d_data st) @ x"
proof (cases "readable (d_data st) \<or> readable (d_hb st)")
  case True
  then show thesis by (intro Ready [of arr st]) (auto simp: sel2_def)
next
  case False
  show thesis
  proof (cases arr)
    case Nil
    then show thesis using False Late by (simp add: sel2_def)
  next
    case (Cons a rest)
    then obtain gap hs where arr: "arr = (gap, hs) # rest" by (cases a) auto
    show thesis
    proof (cases "gap \<le> d_tv st")
      case False
      then show thesis using \<open>\<not> (readable (d_data st) \<or> readable (d_hb st))\<close> Later arr by (simp add: sel2_def)
    next
      case True
      let ?st = "st\<lparr>d_time := d_time st + gap, d_tv := d_tv st - gap\<rparr>"
      show thesis
      proof (cases "hs = []")
        case hs: True
        show thesis by (rule Interrupted [of ?st]) (use False True hs arr in \<open>auto simp: sel2_def\<close>)
      next
        case hs: False
        have "sel2 arr st = Ready rest (fold happen hs ?st)" using False True hs arr by (simp add: sel2_def Let_def)
        then show thesis by (rule Ready) (use happen_readable [OF hs] arr in \<open>auto simp: happen_bytes\<close>)
      qed
    qed
  qed
qed

text \<open>A call that ends the loop leaves the counts as they are and takes no data away.\<close>

definition untouched :: "duo \<Rightarrow> duo \<Rightarrow> bool" where
  "untouched st st' \<longleftrightarrow> d_sent st' = d_sent st \<and> d_got st' = d_got st \<and> (\<exists>x. k_bytes (d_data st') = k_bytes (d_data st) @ x)"

lemma untouched_trans: "untouched st st' \<Longrightarrow> untouched st' st'' \<Longrightarrow> untouched st st''"
  by (auto simp: untouched_def)

lemma untouched_happen: "untouched st (fold happen hs (st\<lparr>d_time := t\<rparr>))"
  by (simp add: untouched_def happen_bytes)

definition bytes_ok :: "arrivals2 \<Rightarrow> duo \<Rightarrow> byte list \<Rightarrow> arrivals2 \<Rightarrow> duo \<Rightarrow> bool" where
  "bytes_ok arr st bs arr' st' \<longleftrightarrow> bs \<noteq> [] \<and> bs @ k_bytes (d_hb st') @ hb_to arr' = k_bytes (d_hb st) @ hb_to arr
    \<and> k_bytes (d_data st') @ data_to arr' = k_bytes (d_data st) @ data_to arr \<and> untouched st st'
    \<and> d_count st' = d_count st \<and> length arr' \<le> length arr"

lemma which_simps [simp]: "fst chb = d_hb" "Product_Type.snd chb = d_hb_update" "fst sdata = d_data" "Product_Type.snd sdata = d_data_update"
  by (simp_all add: chb_def sdata_def)

lemma recv2_chb:
  assumes "0 < n"
  shows "case recv2 chb n arr st of
      Bytes bs arr' st' \<Rightarrow> bytes_ok arr st bs arr' st'
    | Zero st' \<Rightarrow> untouched st st' | Minus_One st' \<Rightarrow> untouched st st' | Blocks_Forever st' \<Rightarrow> untouched st st'"
proof (induction arr arbitrary: st)
  case Nil
  show ?case using assms
    by (auto simp: recv2.simps [of chb] bytes_ok_def untouched_def split: option.splits closing.splits)
next
  case (Cons a arr)
  obtain gap hs where a: "a = (gap, hs)" by (cases a)
  show ?case
  proof (cases "k_bytes (d_hb st) \<noteq> [] \<or> k_end (d_hb st) \<noteq> None \<or> hs = []")
    case True
    then show ?thesis using assms
      by (auto simp: recv2.simps [of chb] bytes_ok_def untouched_def a split: option.splits closing.splits)
  next
    case False
    let ?st = "fold happen hs (st\<lparr>d_time := d_time st + gap\<rparr>)"
    have run: "recv2 chb n (a # arr) st = recv2 chb n arr ?st"
      using False by (simp add: recv2.simps [of chb _ "_ # _"] a Let_def)
    have u: "untouched st ?st" by (rule untouched_happen)
    show ?thesis unfolding run using Cons.IH [of ?st] u
      by (auto simp: bytes_ok_def happen_bytes a intro: untouched_trans split: received.splits)
  qed
qed

lemma recv2_sdata:
  assumes "0 < n" "readable (d_data st)"
  shows "case recv2 sdata n arr st of
      Bytes bs arr' st' \<Rightarrow> bs \<noteq> [] \<and> bs @ k_bytes (d_data st') = k_bytes (d_data st) \<and> arr' = arr \<and> d_hb st' = d_hb st
        \<and> d_sent st' = d_sent st \<and> d_got st' = d_got st \<and> d_count st' = d_count st
    | Zero st' \<Rightarrow> st' = st | Minus_One st' \<Rightarrow> st' = st | Blocks_Forever st' \<Rightarrow> False"
  using assms by (auto simp: recv2.simps [of sdata] readable_def split: option.splits closing.splits)

section \<open>Turns\<close>

definition counting :: "duo \<Rightarrow> bool" where
  "counting st \<longleftrightarrow> 0 \<le> d_count st \<and> d_count st \<le> 3"

definition rank2 :: "arrivals2 \<Rightarrow> duo \<Rightarrow> nat" where
  "rank2 arr st = 5 * ahead arr st + nat (4 - d_count st)"

lemma rank2_read: "ahead arr' st' < ahead arr st \<Longrightarrow> counting st \<Longrightarrow> d_count st' = 0 \<Longrightarrow> rank2 arr' st' < rank2 arr st"
  by (simp add: rank2_def counting_def)

lemma rank2_wait: "ahead arr' st' = ahead arr st \<Longrightarrow> counting st \<Longrightarrow> d_count st' = d_count st + 1 \<Longrightarrow> rank2 arr' st' < rank2 arr st"
  by (simp add: rank2_def counting_def)

locale turning =
  fixes one :: "arrivals2 \<Rightarrow> duo \<Rightarrow> turn"
  assumes progress: "counting st \<Longrightarrow> one arr st = Turns arr' st' \<Longrightarrow> counting st' \<and> rank2 arr' st' < rank2 arr st"
begin

lemma turns_ends:
  assumes "counting st" "P arr st"
    and step: "\<And>arr st arr' st'. counting st \<Longrightarrow> P arr st \<Longrightarrow> one arr st = Turns arr' st' \<Longrightarrow> P arr' st'"
  shows "\<exists>arr' st' e st''. turns one arr st = Some (e, st'') \<and> counting st' \<and> P arr' st' \<and> one arr' st' = Ends e st''"
  using assms(1,2)
proof (induction "rank2 arr st" arbitrary: arr st rule: less_induct)
  case less
  show ?case
  proof (cases "one arr st")
    case (Ends e st'')
    then have "turns one arr st = Some (e, st'')" by (subst turns.simps) simp
    then show ?thesis using less.prems Ends by blast
  next
    case (Turns arr' st')
    then have "counting st'" "rank2 arr' st' < rank2 arr st" "P arr' st'"
      using progress [OF less.prems(1) Turns] step [OF less.prems Turns] by auto
    moreover have "turns one arr st = turns one arr' st'" using Turns by (subst turns.simps) simp
    ultimately show ?thesis using less.hyps [of arr' st'] by simp
  qed
qed

end

lemma bytes_ok_ahead:
  assumes "bytes_ok arr st bs arr' st'"
  shows "ahead arr' st' < ahead arr st"
proof -
  have "length (bs @ k_bytes (d_hb st') @ hb_to arr') = length (k_bytes (d_hb st) @ hb_to arr)"
    "length (k_bytes (d_data st') @ data_to arr') = length (k_bytes (d_data st) @ data_to arr)"
    "0 < length bs" "length arr' \<le> length arr"
    using assms by (simp_all add: bytes_ok_def)
  then show ?thesis unfolding ahead_def length_append by linarith
qed

lemma ahead_same:
  assumes "d_data st' = d_data st" "d_hb st' = d_hb st"
  shows "ahead arr st' = ahead arr st"
  using assms by (simp add: ahead_def)

lemma client_data_cases:
  obtains (Turn) arr' st' where "client_data data_set arr st = Turns arr' st'" "d_count st' = 0" "d_sent st' = d_sent st"
      "\<exists>x. k_bytes (d_data st') = k_bytes (d_data st) @ x" "ahead arr' st' \<le> ahead arr st"
      "data_set \<Longrightarrow> ahead arr' st' < ahead arr st"
  | (End) e st' where "client_data data_set arr st = Ends e st'" "e \<noteq> Dead" "e \<noteq> Bad_Send" "untouched st st'"
proof (cases data_set)
  case False
  then show thesis using Turn [of arr "tv_sec T1 (st\<lparr>d_count := 0\<rparr>)"]
    by (simp add: client_data_def tv_sec_def ahead_def)
next
  case True
  have r: "case recv2 chb 1024 arr st of
      Bytes bs arr' st' \<Rightarrow> bytes_ok arr st bs arr' st'
    | Zero st' \<Rightarrow> untouched st st' | Minus_One st' \<Rightarrow> untouched st st' | Blocks_Forever st' \<Rightarrow> untouched st st'"
    by (rule recv2_chb) simp
  show thesis
  proof (cases "recv2 chb 1024 arr st")
    case (Bytes bs arr' st')
    let ?st = "tv_sec T1 (st'\<lparr>d_got := d_got st' @ bs, d_count := 0\<rparr>)"
    have ok: "bytes_ok arr st bs arr' st'" using r Bytes by simp
    then have "ahead arr' ?st < ahead arr st"
      using bytes_ok_ahead [OF ok] ahead_same [of ?st st' arr'] by (simp add: tv_sec_def)
    with ok Bytes True show thesis
      by (intro Turn [of arr' ?st]) (simp_all add: client_data_def take_in_def bytes_ok_def untouched_def tv_sec_def)
  qed (use r True End in \<open>simp_all add: client_data_def take_in_def\<close>)
qed

lemma client_late2_cases:
  assumes "counting st"
  obtains (Wait) st' where "client_late2 send_ok arr st = Turns arr st'" "d_count st < 3" "d_count st' = d_count st + 1"
      "d_data st' = d_data st" "d_hb st' = d_hb st" "d_got st' = d_got st" "d_time st' = d_time st"
      "d_tv st' = seconds T2 + d_tv st mod 1000000" "d_sent st' = d_sent st @ [0]"
  | (End) e st' where "client_late2 send_ok arr st = Ends e st'" "d_sent st' = d_sent st" "d_data st' = d_data st"
proof (cases "d_count st < 3 \<and> send_ok (length (d_sent st))")
  case True
  then show thesis
    by (intro Wait [of "tv_sec T2 (st\<lparr>d_count := d_count st + 1, d_sent := d_sent st @ [0]\<rparr>)"])
      (simp_all add: client_late2_def send2_def tv_sec_def)
next
  case False
  then show thesis using End [of _ "st\<lparr>d_count := d_count st + 1\<rparr>"]
    by (cases "d_count st < 3") (simp_all add: client_late2_def send2_def)
qed

lemma client_turn_cases:
  assumes "counting st"
  obtains (Wait) arr' st' where "client_turn send_ok arr st = Turns arr' st'" "ahead arr' st' = ahead arr st"
      "d_count st < 3" "d_count st' = d_count st + 1" "k_bytes (d_data st) = []"
  | (Read) arr' st' where "client_turn send_ok arr st = Turns arr' st'" "ahead arr' st' < ahead arr st"
      "d_count st' = 0" "d_sent st' = d_sent st" "\<exists>x. k_bytes (d_data st') = k_bytes (d_data st) @ x"
  | (End) e st' where "client_turn send_ok arr st = Ends e st'" "d_sent st' = d_sent st"
      "e \<noteq> Dead \<and> e \<noteq> Bad_Send \<or> k_bytes (d_data st) = []" "\<exists>x. k_bytes (d_data st') = k_bytes (d_data st) @ x"
proof (cases rule: sel2_cases [of arr st])
  case (Ready arr1 st1)
  have u1: "untouched st st1" and c1: "ahead arr1 st1 \<le> ahead arr st" using Ready by (simp_all add: untouched_def ahead_def)
  show thesis
  proof (cases "readable (d_hb st1)")
    case False
    then have run: "client_turn send_ok arr st = client_data True arr1 st1" using Ready by (simp add: client_turn_def)
    show thesis
    proof (cases rule: client_data_cases [of True arr1 st1])
      case (Turn arr' st')
      then show thesis using Read [of arr' st'] run u1 c1 by (auto simp: untouched_def)
    next
      case (End e st')
      then show thesis using that(3) [of e st'] run u1 by (auto simp: untouched_def)
    qed
  next
    case True
    have r: "case recv2 chb 1 arr1 st1 of
        Bytes bs arr' st' \<Rightarrow> bytes_ok arr1 st1 bs arr' st'
      | Zero st' \<Rightarrow> untouched st1 st' | Minus_One st' \<Rightarrow> untouched st1 st' | Blocks_Forever st' \<Rightarrow> untouched st1 st'"
      by (rule recv2_chb) simp
    have run: "client_turn send_ok arr st = take_in Terminated_Hb (recv2 chb 1 arr1 st1) (\<lambda>_. client_data (readable (d_data st1)))"
      using Ready True by (simp add: client_turn_def)
    show thesis
    proof (cases "recv2 chb 1 arr1 st1")
      case (Bytes bs arr2 st2)
      with r have "bytes_ok arr1 st1 bs arr2 st2" by simp
      then have c2: "ahead arr2 st2 < ahead arr1 st1" and u2: "untouched st st2"
        using bytes_ok_ahead untouched_trans [OF u1] by (auto simp: bytes_ok_def)
      show thesis
      proof (cases rule: client_data_cases [of "readable (d_data st1)" arr2 st2])
        case (Turn arr' st')
        then show thesis using Read [of arr' st'] run u2 c1 c2 Bytes by (auto simp: untouched_def take_in_def)
      next
        case (End e st')
        then show thesis using that(3) [of e st'] run u2 Bytes by (auto simp: untouched_def take_in_def)
      qed
    qed (use r run u1 that(3) in \<open>auto simp: take_in_def untouched_def\<close>)
  qed
next
  case Late
  let ?st = "st\<lparr>d_time := d_time st + d_tv st, d_tv := 0\<rparr>"
  have "counting ?st" using assms by (simp add: counting_def)
  then show thesis
  proof (cases rule: client_late2_cases [where send_ok = send_ok and arr = "[]"])
    case (Wait st')
    then show thesis using that(1) [of "[]" st'] Late by (simp add: client_turn_def readable_def ahead_def)
  next
    case (End e st')
    then show thesis using that(3) [of e st'] Late by (simp add: client_turn_def readable_def)
  qed
next
  case (Later gap hs rest)
  let ?st = "st\<lparr>d_time := d_time st + d_tv st, d_tv := 0\<rparr>" and ?arr = "(gap - d_tv st, hs) # rest"
  have "counting ?st" using assms by (simp add: counting_def)
  then show thesis
  proof (cases rule: client_late2_cases [where send_ok = send_ok and arr = ?arr])
    case (Wait st')
    then show thesis using that(1) [of ?arr st'] Later by (simp add: client_turn_def readable_def ahead_def)
  next
    case (End e st')
    then show thesis using that(3) [of e st'] Later by (simp add: client_turn_def readable_def)
  qed
next
  case (Interrupted st1)
  then show thesis using that(3) [of Bad_Select st1] by (simp add: client_turn_def)
qed

interpretation c2: turning "client_turn send_ok" for send_ok
proof
  fix st arr arr' st'
  assume c: "counting st" and t: "client_turn send_ok arr st = Turns arr' st'"
  show "counting st' \<and> rank2 arr' st' < rank2 arr st"
    using c
  proof (cases rule: client_turn_cases [where send_ok = send_ok and arr = arr])
    case Wait
    then show ?thesis using t c rank2_wait by (simp add: counting_def)
  next
    case Read
    then show ?thesis using t c rank2_read by (simp add: counting_def)
  qed (use t in simp)
qed

text \<open>A client to which only data comes waits in the second \<open>recv\<close> until the server closes.\<close>

definition only_data :: "arrivals2 \<Rightarrow> bool" where
  "only_data arr \<longleftrightarrow> (\<forall>(g, hs)\<in>set arr. hs \<noteq> [] \<and> (\<forall>h\<in>set hs. \<exists>b bs. h = On_Data b bs))"

lemma only_data_hb: "\<forall>h\<in>set hs. \<exists>b bs. h = On_Data b bs \<Longrightarrow> d_hb (fold happen hs st) = d_hb st"
  by (induction hs arbitrary: st) auto

text \<open>The server's process ends: both connections are closed, \<open>gap\<close> microseconds after the last arrival.\<close>

definition both_close :: "nat \<Rightarrow> nat \<times> happening list" where
  "both_close gap = (gap, [Data_End Closed_By_Peer, Hb_End Closed_By_Peer])"

definition span_of :: "arrivals2 \<Rightarrow> nat" where
  "span_of arr = sum_list (map fst arr)"

lemma span_of_simps [simp]: "span_of [] = 0" "span_of ((g, hs) # arr) = g + span_of arr"
  by (simp_all add: span_of_def)

lemma recv2_chb_waits:
  assumes "only_data arr" "d_hb st = \<lparr>k_bytes = [], k_end = None\<rparr>"
  shows "\<exists>st'. recv2 chb n (arr @ [both_close gap]) st = Zero st' \<and> d_sent st' = d_sent st \<and> d_got st' = d_got st
    \<and> d_time st' = d_time st + span_of arr + gap \<and> k_bytes (d_data st') = k_bytes (d_data st) @ data_to arr"
  using assms
proof (induction arr arbitrary: st)
  case Nil
  then show ?case
    by (simp add: recv2.simps [of chb] both_close_def end_sock_def Let_def)
next
  case (Cons a arr)
  obtain g hs where a: "a = (g, hs)" by (cases a)
  let ?st = "fold happen hs (st\<lparr>d_time := d_time st + g\<rparr>)"
  have "hs \<noteq> []" "\<forall>h\<in>set hs. \<exists>b bs. h = On_Data b bs" "only_data arr" using Cons.prems(1) by (auto simp: only_data_def a)
  moreover have "d_hb ?st = d_hb st" using only_data_hb [OF calculation(2)] by simp
  ultimately show ?case using Cons.IH [of ?st] Cons.prems(2)
    by (simp add: recv2.simps [of chb _ "_ # _"] a Let_def happen_bytes add.assoc)
qed

section \<open>Turns of the server\<close>

lemma recv2_hb_now:
  assumes "0 < n" "readable (d_hb st)"
  shows "case recv2 chb n arr st of
      Bytes bs arr' st' \<Rightarrow> bs \<noteq> [] \<and> bs @ k_bytes (d_hb st') = k_bytes (d_hb st) \<and> arr' = arr \<and> d_data st' = d_data st
        \<and> k_end (d_hb st') = k_end (d_hb st) \<and> d_sent st' = d_sent st \<and> d_got st' = d_got st \<and> d_count st' = d_count st
    | Zero st' \<Rightarrow> st' = st | Minus_One st' \<Rightarrow> st' = st | Blocks_Forever st' \<Rightarrow> False"
  using assms by (auto simp: recv2.simps [of chb] readable_def split: option.splits closing.splits)

lemma recv2_data_end:
  "recv2 sdata n arr st = Bytes bs arr' st' \<Longrightarrow> readable (d_data st) \<Longrightarrow> k_end (d_data st') = k_end (d_data st)"
  by (auto simp: recv2.simps [of sdata] readable_def split: if_splits option.splits closing.splits list.splits)

text \<open>All that has been or will be taken from each connection.\<close>

definition echoes :: "arrivals2 \<Rightarrow> duo \<Rightarrow> byte list" where
  "echoes arr st = d_sent st @ k_bytes (d_hb st) @ hb_to arr"

definition datas :: "arrivals2 \<Rightarrow> duo \<Rightarrow> byte list" where
  "datas arr st = d_got st @ k_bytes (d_data st) @ data_to arr"

definition ended :: "duo \<Rightarrow> bool" where
  "ended st \<longleftrightarrow> k_end (d_data st) \<noteq> None \<or> k_end (d_hb st) \<noteq> None"

lemma server_data_cases:
  assumes "data_set \<longleftrightarrow> readable (d_data st)"
  obtains (Turn) st' where "server_data data_set arr st = Turns arr st'" "d_count st' = 0" "seconds (T1 + T2) \<le> d_tv st'"
      "echoes arr st' = echoes arr st" "datas arr st' = datas arr st" "ended st' = ended st" "ahead arr st' \<le> ahead arr st"
      "data_set \<Longrightarrow> ahead arr st' < ahead arr st"
  | (End) e where "server_data data_set arr st = Ends e st" "e \<noteq> Dead"
proof (cases data_set)
  case False
  show thesis
    by (rule Turn [of "tv_sec (T1 + T2) (st\<lparr>d_count := 0\<rparr>)"])
      (use False in \<open>simp_all add: server_data_def tv_sec_def echoes_def datas_def ended_def ahead_def seconds_def\<close>)
next
  case True
  then have "readable (d_data st)" using assms by simp
  from recv2_sdata [OF _ this, of 1024 arr]
  have r: "case recv2 sdata 1024 arr st of
      Bytes bs arr' st' \<Rightarrow> bs \<noteq> [] \<and> bs @ k_bytes (d_data st') = k_bytes (d_data st) \<and> arr' = arr \<and> d_hb st' = d_hb st
        \<and> d_sent st' = d_sent st \<and> d_got st' = d_got st \<and> d_count st' = d_count st
    | Zero st' \<Rightarrow> st' = st | Minus_One st' \<Rightarrow> st' = st | Blocks_Forever st' \<Rightarrow> False" by simp
  show thesis
  proof (cases "recv2 sdata 1024 arr st")
    case (Bytes bs arr' st')
    let ?st = "tv_sec (T1 + T2) (st'\<lparr>d_got := d_got st' @ bs, d_count := 0\<rparr>)"
    have e: "k_end (d_data st') = k_end (d_data st)" using recv2_data_end [OF Bytes] \<open>readable (d_data st)\<close> .
    have "k_bytes (d_data st) = bs @ k_bytes (d_data st')" "bs \<noteq> []" using r Bytes by simp_all
    with r Bytes True e show thesis
      by (intro Turn [of ?st]) (simp_all add: server_data_def take_in_def tv_sec_def echoes_def datas_def ended_def ahead_def seconds_def)
  qed (use r True End in \<open>simp_all add: server_data_def take_in_def\<close>)
qed

lemma server_late2_cases:
  assumes "counting st"
  obtains (Wait) st' where "server_late2 arr st = Turns arr st'" "d_count st < 3" "d_count st' = d_count st + 1"
      "d_data st' = d_data st" "d_hb st' = d_hb st" "d_got st' = d_got st" "d_sent st' = d_sent st" "d_time st' = d_time st"
      "d_tv st' = seconds T2 + d_tv st mod 1000000"
  | (Dead) st' where "server_late2 arr st = Ends Dead st'" "d_count st = 3" "d_data st' = d_data st" "d_hb st' = d_hb st"
      "d_got st' = d_got st" "d_sent st' = d_sent st" "d_time st' = d_time st"
proof (cases "d_count st < 3")
  case True
  then show thesis
    by (intro Wait [of "tv_sec T2 (st\<lparr>d_count := d_count st + 1\<rparr>)"]) (simp_all add: server_late2_def tv_sec_def)
next
  case False
  then show thesis using assms
    by (intro Dead [of "st\<lparr>d_count := d_count st + 1\<rparr>"]) (simp_all add: server_late2_def counting_def)
qed

text \<open>The arrivals that are left after a wait that ends with nothing.\<close>

definition too_late :: "duo \<Rightarrow> arrivals2 \<Rightarrow> arrivals2 \<Rightarrow> bool" where
  "too_late st arr arr' \<longleftrightarrow> \<not> readable (d_data st) \<and> \<not> readable (d_hb st) \<and>
     (arr = [] \<and> arr' = [] \<or> (\<exists>gap hs rest. arr = (gap, hs) # rest \<and> d_tv st < gap \<and> arr' = (gap - d_tv st, hs) # rest))"

lemma too_late_same [simp]:
  assumes "too_late st arr arr'" "d_data st' = d_data st" "d_hb st' = d_hb st" "d_sent st' = d_sent st" "d_got st' = d_got st"
  shows "echoes arr' st' = echoes arr st" "datas arr' st' = datas arr st" "ahead arr' st' = ahead arr st"
  using assms by (auto simp: too_late_def echoes_def datas_def ahead_def)

fun ends_in :: "happening list \<Rightarrow> bool" where
  "ends_in [] \<longleftrightarrow> False"
| "ends_in (Data_End c # hs) \<longleftrightarrow> True"
| "ends_in (Hb_End c # hs) \<longleftrightarrow> True"
| "ends_in (_ # hs) \<longleftrightarrow> ends_in hs"

lemma ended_simps [simp]:
  "ended (happen (On_Data b bs) st) = ended st" "ended (happen (On_Hb b bs) st) = ended st"
  "ended (happen (Data_End c) st)" "ended (happen (Hb_End c) st)" "ended (st\<lparr>d_time := t, d_tv := v\<rparr>) = ended st"
  by (simp_all add: ended_def push_sock_def end_sock_def)

lemma ended_fold: "ended st \<Longrightarrow> ended (fold happen hs st)"
  using happen_ends by (auto simp: ended_def)

lemma happen_ended: "ended (fold happen hs st) \<longleftrightarrow> ended st \<or> ends_in hs"
  by (induction hs arbitrary: st rule: ends_in.induct) (simp_all add: ended_fold del: happen.simps)

definition will_end :: "arrivals2 \<Rightarrow> duo \<Rightarrow> bool" where
  "will_end arr st \<longleftrightarrow> ended st \<or> (\<exists>(g, hs)\<in>set arr. ends_in hs)"

lemma sel2_ready_end: "sel2 arr st = Ready arr' st' \<Longrightarrow> will_end arr st \<Longrightarrow> will_end arr' st'"
  by (auto simp: sel2_def will_end_def happen_ended Let_def split: if_splits list.splits prod.splits)

lemma sel2_bytes:
  "sel2 arr st = Ready arr' st' \<Longrightarrow> echoes arr' st' = echoes arr st \<and> datas arr' st' = datas arr st"
  by (auto simp: sel2_def echoes_def datas_def happen_bytes Let_def split: if_splits list.splits prod.splits)

lemma server_turn_cases:
  assumes "counting st"
  obtains (Wait) arr' st' where "server_turn send_ok arr st = Turns arr' st'" "too_late st arr arr'" "d_count st < 3"
      "d_count st' = d_count st + 1" "d_data st' = d_data st" "d_hb st' = d_hb st" "d_got st' = d_got st" "d_sent st' = d_sent st"
      "d_tv st' = seconds T2" "d_time st' = d_time st + d_tv st"
  | (Dead) arr' st' where "server_turn send_ok arr st = Ends Dead st'" "too_late st arr arr'" "d_count st = 3"
      "d_data st' = d_data st" "d_hb st' = d_hb st" "d_got st' = d_got st" "d_sent st' = d_sent st" "d_time st' = d_time st + d_tv st"
  | (Read) arr' st' where "server_turn send_ok arr st = Turns arr' st'" "d_count st' = 0" "seconds (T1 + T2) \<le> d_tv st'"
      "echoes arr' st' = echoes arr st" "datas arr' st' = datas arr st" "set arr' \<subseteq> set arr" "ahead arr' st' < ahead arr st"
      "will_end arr st \<Longrightarrow> will_end arr' st'"
  | (End) e st' x y where "server_turn send_ok arr st = Ends e st'" "e \<noteq> Dead"
      "d_sent st' @ x = echoes arr st" "d_got st' @ y = datas arr st"
proof (cases rule: sel2_cases [of arr st])
  case Late
  let ?st = "st\<lparr>d_time := d_time st + d_tv st, d_tv := 0\<rparr>"
  have tl: "too_late st arr []" using Late by (simp add: too_late_def)
  have "counting ?st" using assms by (simp add: counting_def)
  then show thesis
  proof (cases rule: server_late2_cases [where arr = "[]"])
    case (Wait st')
    then show thesis using that(1) [OF _ tl, of st'] Late by (simp add: server_turn_def)
  next
    case (Dead st')
    then show thesis using that(2) [OF _ tl, of st'] Late by (simp add: server_turn_def)
  qed
next
  case (Later gap hs rest)
  let ?st = "st\<lparr>d_time := d_time st + d_tv st, d_tv := 0\<rparr>" and ?arr = "(gap - d_tv st, hs) # rest"
  have tl: "too_late st arr ?arr" using Later by (simp add: too_late_def)
  have "counting ?st" using assms by (simp add: counting_def)
  then show thesis
  proof (cases rule: server_late2_cases [where arr = ?arr])
    case (Wait st')
    then show thesis using that(1) [OF _ tl, of st'] Later by (simp add: server_turn_def)
  next
    case (Dead st')
    then show thesis using that(2) [OF _ tl, of st'] Later by (simp add: server_turn_def)
  qed
next
  case (Interrupted st1)
  then show thesis using that(4) [of Bad_Select st1 "k_bytes (d_hb st) @ hb_to arr" "k_bytes (d_data st) @ data_to arr"] by (simp add: server_turn_def echoes_def datas_def)
next
  case (Ready arr1 st1)
  note b1 = sel2_bytes [OF Ready(1)]
  have a1: "ahead arr1 st1 \<le> ahead arr st" using Ready by (simp add: ahead_def)
  have w1: "will_end arr st \<Longrightarrow> will_end arr1 st1" by (rule sel2_ready_end [OF Ready(1)])
  show thesis
  proof (cases "readable (d_hb st1)")
    case False
    then have d: "True \<longleftrightarrow> readable (d_data st1)" and run: "server_turn send_ok arr st = server_data True arr1 st1"
      using Ready by (simp_all add: server_turn_def)
    from d show thesis
    proof (cases rule: server_data_cases [where arr = arr1])
      case (Turn st')
      then show thesis using that(3) [of arr1 st'] run b1 a1 w1 Ready by (auto simp: will_end_def)
    next
      case (End e)
      then show thesis using that(4) [of e st1 "k_bytes (d_hb st1) @ hb_to arr1" "k_bytes (d_data st1) @ data_to arr1"] run b1 by (simp add: echoes_def datas_def)
    qed
  next
    case True
    have run: "server_turn send_ok arr st = take_in Terminated_Hb (recv2 chb 1 arr1 st1) (\<lambda>bs arr st'.
        case send2 send_ok bs st' of None \<Rightarrow> Ends Bad_Send st' | Some st' \<Rightarrow> server_data (readable (d_data st1)) arr st')"
      using Ready True by (simp add: server_turn_def)
    from recv2_hb_now [of 1, OF _ True, of arr1]
    have r: "case recv2 chb 1 arr1 st1 of
        Bytes bs arr' st' \<Rightarrow> bs \<noteq> [] \<and> bs @ k_bytes (d_hb st') = k_bytes (d_hb st1) \<and> arr' = arr1 \<and> d_data st' = d_data st1
          \<and> k_end (d_hb st') = k_end (d_hb st1) \<and> d_sent st' = d_sent st1 \<and> d_got st' = d_got st1 \<and> d_count st' = d_count st1
      | Zero st' \<Rightarrow> st' = st1 | Minus_One st' \<Rightarrow> st' = st1 | Blocks_Forever st' \<Rightarrow> False" by simp
    show thesis
    proof (cases "recv2 chb 1 arr1 st1")
      case (Bytes bs arr2 st2)
      have taken: "bs @ k_bytes (d_hb st2) = k_bytes (d_hb st1)" and bs: "bs \<noteq> []"
        and st2: "arr2 = arr1" "d_data st2 = d_data st1" "k_end (d_hb st2) = k_end (d_hb st1)"
          "d_sent st2 = d_sent st1" "d_got st2 = d_got st1" using r Bytes by simp_all
      show thesis
      proof (cases "send_ok (length (d_sent st2))")
        case False
        have "echoes arr1 st1 = d_sent st2 @ k_bytes (d_hb st1) @ hb_to arr1" "datas arr1 st1 = d_got st2 @ k_bytes (d_data st1) @ data_to arr1"
          using st2 by (simp_all add: echoes_def datas_def)
        then show thesis using False that(4) [of Bad_Send st2 "k_bytes (d_hb st1) @ hb_to arr1" "k_bytes (d_data st1) @ data_to arr1"] run Bytes b1 by (simp add: take_in_def send2_def)
      next
        case True
        let ?st = "st2\<lparr>d_sent := d_sent st2 @ bs\<rparr>"
        have e: "echoes arr1 ?st = echoes arr1 st1" "datas arr1 ?st = datas arr1 st1" "ended ?st = ended st1" "ahead arr1 ?st < ahead arr1 st1"
          using st2 bs by (simp_all add: echoes_def datas_def ended_def ahead_def flip: taken)
        have run: "server_turn send_ok arr st = server_data (readable (d_data st1)) arr1 ?st"
          using run Bytes True st2 by (simp add: take_in_def send2_def)
        have d: "readable (d_data st1) \<longleftrightarrow> readable (d_data ?st)" using st2 by simp
        from d show thesis
        proof (cases rule: server_data_cases [where arr = arr1])
          case (Turn st')
          then show thesis using that(3) [of arr1 st'] run b1 a1 w1 e Ready by (auto simp: will_end_def)
        next
          case (End x)
          have "d_sent ?st @ k_bytes (d_hb ?st) @ hb_to arr1 = echoes arr st" "d_got ?st @ k_bytes (d_data ?st) @ data_to arr1 = datas arr st"
            using e(1,2) b1 by (simp_all only: echoes_def [symmetric] datas_def [symmetric])
          then show thesis using that(4) [of x ?st "k_bytes (d_hb ?st) @ hb_to arr1" "k_bytes (d_data ?st) @ data_to arr1"] run End by simp
        qed
      qed
    next
      case (Zero st2)
      then show thesis using that(4) [of Terminated_Hb st1 "k_bytes (d_hb st1) @ hb_to arr1" "k_bytes (d_data st1) @ data_to arr1"] run r b1 by (simp add: take_in_def echoes_def datas_def)
    next
      case (Minus_One st2)
      then show thesis using that(4) [of Bad_Recv st1 "k_bytes (d_hb st1) @ hb_to arr1" "k_bytes (d_data st1) @ data_to arr1"] run r b1 by (simp add: take_in_def echoes_def datas_def)
    next
      case (Blocks_Forever st2)
      then show thesis using r by simp
    qed
  qed
qed

interpretation s2: turning "server_turn send_ok" for send_ok
proof
  fix st arr arr' st'
  assume c: "counting st" and t: "server_turn send_ok arr st = Turns arr' st'"
  show "counting st' \<and> rank2 arr' st' < rank2 arr st"
    using c
  proof (cases rule: server_turn_cases [where send_ok = send_ok and arr = arr])
    case Wait
    then show ?thesis using t c rank2_wait by (simp add: counting_def)
  next
    case Read
    then show ?thesis using t c rank2_read by (simp add: counting_def)
  qed (use t in simp_all)
qed

text \<open>How long the server waits for the next arrival, and the arrivals it will not miss.\<close>

definition patience2 :: "duo \<Rightarrow> nat" where
  "patience2 st = d_tv st + nat (3 - d_count st) * seconds T2"

definition in_time2 :: "arrivals2 \<Rightarrow> duo \<Rightarrow> bool" where
  "in_time2 arr st \<longleftrightarrow> (\<forall>(g, hs)\<in>set arr. g \<le> seconds 100) \<and> will_end arr st \<and>
     (case arr of [] \<Rightarrow> True | (g, hs) # rest \<Rightarrow> readable (d_data st) \<or> readable (d_hb st) \<or> g \<le> patience2 st)"

lemma will_end_wait:
  assumes "too_late st arr arr'" "will_end arr st" "d_data st' = d_data st" "d_hb st' = d_hb st"
  shows "will_end arr' st'"
  using assms by (auto simp: too_late_def will_end_def ended_def)

lemma in_time2_step:
  assumes "counting st" "in_time2 arr st" "server_turn send_ok arr st = Turns arr' st'"
  shows "in_time2 arr' st'"
  using assms(1)
proof (cases rule: server_turn_cases [where send_ok = send_ok and arr = arr])
  case (Wait arr1 st1)
  then have eq: "arr1 = arr'" "st1 = st'" using assms(3) by simp_all
  have "will_end arr' st'" using will_end_wait [OF Wait(2)] Wait assms(2) by (simp add: in_time2_def eq)
  moreover have "(3 - d_count st) * 10000000 = (3 - d_count st') * 10000000 + 10000000" using Wait by (simp add: eq)
  then have "patience2 st = d_tv st + patience2 st'" using Wait assms(1)
    by (simp add: patience2_def eq counting_def seconds_def T2_def nat_diff_distrib)
  ultimately show ?thesis using Wait(2) assms(2) by (auto simp: in_time2_def too_late_def eq)
next
  case (Read arr1 st1)
  then have eq: "arr1 = arr'" "st1 = st'" using assms(3) by simp_all
  have "seconds 100 \<le> patience2 st'" using Read by (simp add: patience2_def eq seconds_def T1_def T2_def)
  then show ?thesis using Read assms(2) by (force simp: in_time2_def eq split: list.splits)
qed (use assms(3) in simp_all)

lemma in_time2_alive:
  assumes "counting st" "in_time2 arr st" "server_turn send_ok arr st = Ends e st'"
  shows "e \<noteq> Dead"
  using assms(1)
proof (cases rule: server_turn_cases [where send_ok = send_ok and arr = arr])
  case (Dead arr1 st1)
  then have "arr = [] \<Longrightarrow> ended st" "\<not> ended st"
    using assms(2) by (auto simp: in_time2_def will_end_def too_late_def ended_def readable_def)
  then show ?thesis using Dead(2,3) assms(2) by (auto simp: in_time2_def too_late_def patience2_def)
qed (use assms(3) in simp_all)

lemma fresh_duo_counting: "counting (fresh_duo n)"
  by (simp add: counting_def fresh_duo_def)

section \<open>Properties\<close>

text \<open>
  The server always comes to an end, and whatever the arrivals are, what it has sent back on the
  heartbeat connection is the beginning of what came there, byte for byte and in order, and what it
  received as data is the beginning of what came on the data connection.
\<close>
theorem server2_echoes:
  "\<exists>e st x y. server2 send_ok arr = Some (e, st) \<and> d_sent st @ x = hb_to arr \<and> d_got st @ y = data_to arr"
proof -
  let ?P = "\<lambda>arr' st. echoes arr' st = hb_to arr \<and> datas arr' st = data_to arr"
  have "\<exists>arr' st' e st. turns (server_turn send_ok) arr (fresh_duo (T1 + T2)) = Some (e, st) \<and> counting st' \<and> ?P arr' st'
      \<and> server_turn send_ok arr' st' = Ends e st"
  proof (rule s2.turns_ends [where P = ?P, OF fresh_duo_counting])
    show "?P arr (fresh_duo (T1 + T2))" by (simp add: echoes_def datas_def fresh_duo_def)
  next
    fix a st a' st'
    assume c: "counting st" and p: "?P a st" and t: "server_turn send_ok a st = Turns a' st'"
    from c show "?P a' st'"
      by (cases rule: server_turn_cases [where send_ok = send_ok and arr = a]) (use p t in auto)
  qed
  then obtain arr' st' e st where run: "server2 send_ok arr = Some (e, st)" "counting st'" "?P arr' st'"
    "server_turn send_ok arr' st' = Ends e st" by (auto simp: server2_def)
  from run(2) show ?thesis
  proof (cases rule: server_turn_cases [where send_ok = send_ok and arr = arr'])
    case (Dead arr1 st1)
    then have "echoes arr1 st = hb_to arr" "datas arr1 st = data_to arr" using run(3,4) by simp_all
    then show ?thesis using run(1) by (auto simp: echoes_def datas_def)
  next
    case (End e1 st1 x y)
    then show ?thesis using run by auto
  qed (use run(4) in simp_all)
qed

text \<open>
  As long as something arrives on either connection within 100 seconds and one of them is
  closed in the end, the server does not declare the client dead.
\<close>
theorem server2_in_time:
  assumes "\<forall>(g, hs)\<in>set arr. g \<le> seconds 100" "\<exists>(g, hs)\<in>set arr. ends_in hs"
  shows "\<exists>e st. server2 send_ok arr = Some (e, st) \<and> e \<noteq> Dead"
proof -
  have "patience2 (fresh_duo (T1 + T2)) = seconds 100" by (simp add: patience2_def fresh_duo_def seconds_def T1_def T2_def)
  then have "in_time2 arr (fresh_duo (T1 + T2))" using assms by (auto simp: in_time2_def will_end_def split: list.split)
  then have "\<exists>arr' st' e st''. turns (server_turn send_ok) arr (fresh_duo (T1 + T2)) = Some (e, st'') \<and> counting st'
      \<and> in_time2 arr' st' \<and> server_turn send_ok arr' st' = Ends e st''"
    by (rule s2.turns_ends [where P = in_time2, OF fresh_duo_counting]) (rule in_time2_step)
  then show ?thesis using in_time2_alive unfolding server2_def by blast
qed

lemma server2_in_time_witness:
  "\<exists>e st. server2 (\<lambda>_. True) [(90000000, [On_Hb 0 []]), (100000000, [On_Data 1 [2]]), (3, [Data_End Closed_By_Peer])] = Some (e, st) \<and> e \<noteq> Dead"
  by (rule server2_in_time) (simp_all add: seconds_def)

text \<open>
  C22. Data from the server kills the connection. Server and client start together; from the
  server's side data comes, the first of it before the client's first heartbeat is due, and
  nothing else until the server's process ends. The client waits all that time in a \<open>recv\<close> from
  the heartbeat connection, although it is the data connection that is readable: it sends no
  heartbeat and takes none of the data. So nothing arrives at the server, which after 100
  seconds declares the client dead and ends; its closing both connections is what ends the
  client at the same moment, with the message that the server has terminated.
\<close>
theorem data_kills_connection:
  assumes "g \<le> seconds 60" "only_data ((g, hs) # rest)" "span_of ((g, hs) # rest) \<le> seconds 100"
  shows "\<exists>sv cl. server2 send_ok' [] = Some (Dead, sv) \<and> d_time sv = seconds 100 \<and> d_sent sv = [] \<and>
    client2 send_ok (((g, hs) # rest) @ [both_close (d_time sv - span_of ((g, hs) # rest))]) = Some (Terminated_Data, cl) \<and>
    d_time cl = d_time sv \<and> d_sent cl = [] \<and> d_got cl = [] \<and> k_bytes (d_data cl) = data_to ((g, hs) # rest)"
proof -
  let ?st = "(fresh_duo T1)\<lparr>d_time := g, d_tv := seconds T1 - g\<rparr>"
  let ?st1 = "fold happen hs ?st" and ?gap = "seconds 100 - span_of ((g, hs) # rest)"
  have hs: "hs \<noteq> []" "\<forall>h\<in>set hs. \<exists>b bs. h = On_Data b bs" "only_data rest" using assms(2) by (auto simp: only_data_def)
  have hb: "d_hb ?st1 = \<lparr>k_bytes = [], k_end = None\<rparr>" using only_data_hb [OF hs(2)] by (simp add: fresh_duo_def)
  then have "\<not> readable (d_hb ?st1)" "readable (d_data ?st1)" using happen_readable [OF hs(1), of ?st] by (auto simp: readable_def)
  moreover have "sel2 (((g, hs) # rest) @ [both_close ?gap]) (fresh_duo T1) = Ready (rest @ [both_close ?gap]) ?st1"
    using assms(1) hs(1) by (simp add: sel2_def fresh_duo_def readable_def T1_def Let_def)
  ultimately have turn: "client_turn send_ok (((g, hs) # rest) @ [both_close ?gap]) (fresh_duo T1)
      = client_data True (rest @ [both_close ?gap]) ?st1"
    by (simp add: client_turn_def)
  obtain cl where cl: "recv2 chb 1024 (rest @ [both_close ?gap]) ?st1 = Zero cl" "d_sent cl = d_sent ?st1"
    "d_got cl = d_got ?st1" "d_time cl = d_time ?st1 + span_of rest + ?gap"
    "k_bytes (d_data cl) = k_bytes (d_data ?st1) @ data_to rest"
    using recv2_chb_waits [OF hs(3) hb] by blast
  have "client2 send_ok (((g, hs) # rest) @ [both_close ?gap]) = Some (Terminated_Data, cl)" unfolding client2_def
    by (subst turns.simps) (simp only: turn, simp only: client_data_def take_in_def cl(1) Let_def if_True received.case turn.case)
  moreover have "\<exists>sv. server2 send_ok' [] = Some (Dead, sv) \<and> d_sent sv = [] \<and> d_time sv = seconds 100"
    by (simp add: server2_def fresh_duo_def turns.simps server_turn_def sel2_def readable_def server_late2_def tv_sec_def
        seconds_def T1_def T2_def)
  moreover have "d_time cl = seconds 100" using cl(4) assms(3) by (simp add: fresh_duo_def)
  ultimately show ?thesis using cl(2,3,5) by (auto simp: happen_bytes fresh_duo_def)
qed

lemma data_kills_connection_witness:
  "\<exists>sv cl. server2 (\<lambda>_. True) [] = Some (Dead, sv) \<and>
    client2 (\<lambda>_. True) [(5000000, [On_Data 1 [2, 3]]), (1, [On_Data 4 []]), both_close 94999999] = Some (Terminated_Data, cl) \<and>
    d_sent cl = [] \<and> d_got cl = [] \<and> k_bytes (d_data cl) = [1, 2, 3, 4]"
proof -
  have "only_data [(5000000, [On_Data 1 [2, 3]]), (1, [On_Data 4 []])]" by (simp add: only_data_def)
  from data_kills_connection [OF _ this, of "\<lambda>_. True" "\<lambda>_. True"] show ?thesis
    by (auto simp: seconds_def)
qed

text \<open>
  From the moment data waits on its data connection the client sends no heartbeat any more and
  never takes the data: it ends, but not by declaring the server dead, whatever arrives.
\<close>
theorem client2_deaf:
  assumes "counting st" "k_bytes (d_data st) \<noteq> []"
  shows "\<exists>e st'. turns (client_turn send_ok) arr st = Some (e, st') \<and> e \<noteq> Dead \<and> d_sent st' = d_sent st
    \<and> (\<exists>x. k_bytes (d_data st') = k_bytes (d_data st) @ x)"
proof -
  let ?P = "\<lambda>arr' st'. d_sent st' = d_sent st \<and> (\<exists>x. k_bytes (d_data st') = k_bytes (d_data st) @ x)"
  have step: "?P a' s'" if c: "counting s" and p: "?P a s" and t: "client_turn send_ok a s = Turns a' s'" for a s a' s'
    using c
  proof (cases rule: client_turn_cases [where send_ok = send_ok and arr = a])
    case Wait
    then show ?thesis using p assms(2) by auto
  qed (use p t in auto)
  have "\<exists>arr' st' e st''. turns (client_turn send_ok) arr st = Some (e, st'') \<and> counting st' \<and> ?P arr' st'
      \<and> client_turn send_ok arr' st' = Ends e st''"
    by (rule c2.turns_ends [where P = ?P, OF assms(1)]) (auto dest: step)
  then obtain arr' st' e st'' where run: "turns (client_turn send_ok) arr st = Some (e, st'')" "counting st'" "?P arr' st'"
    "client_turn send_ok arr' st' = Ends e st''" by blast
  from run(2) show ?thesis
  proof (cases rule: client_turn_cases [where send_ok = send_ok and arr = arr'])
    case (End e1 st1)
    then show ?thesis using run assms(2) by auto
  qed (use run(4) in simp_all)
qed

lemma client2_deaf_witness:
  "\<exists>e st'. turns (client_turn (\<lambda>_. True)) [(7, [On_Hb 0 []])] (happen (On_Data 1 []) (fresh_duo T1)) = Some (e, st') \<and> e \<noteq> Dead \<and> d_sent st' = []"
  using client2_deaf [of "happen (On_Data 1 []) (fresh_duo T1)" "\<lambda>_. True" "[(7, [On_Hb 0 []])]"]
  by (auto simp: fresh_duo_def counting_def push_sock_def)

end
