(* ===== verification/LoadClient.thy ===== *)
theory LoadClient
  imports FdItems CopyLoops
begin

text \<open>
  The load generator of \<open>c1000kPracticeGuide/client\<close>: \<open>main\<close> opens many connections, puts them
  into one \<open>epoll\<close> and reads from them until they end; \<open>worker.cpp\<close> holds a thread, not started by
  \<open>main\<close>, that takes descriptors over a channel. The bytes that reading a descriptor returns are a
  script for each. \<open>timer_link\<close> has the text of the server's class \<open>TIMER\<close>, so the timers are those
  of the theory Timers; the client never sets one.
\<close>

section \<open>State\<close>

definition MAX_FD :: int where "MAX_FD = 6 * 10 * 1024"

definition EPOLLIN :: u32 where "EPOLLIN = 0x1"
definition EPOLLOUT :: u32 where "EPOLLOUT = 0x4"
definition EPOLLRDHUP :: u32 where "EPOLLRDHUP = 0x2000"
definition EPOLLET :: u32 where "EPOLLET = 0x80000000"

abbreviation (input) EINPROGRESS :: nat where "EINPROGRESS \<equiv> 115"

datatype callback = Order_Readfun | Client_Readfun | Client_Writefun | Client_Closefun

record FdProcess =
  m_readfun :: "callback option"
  m_writefun :: "callback option"
  m_closefun :: "callback option"
  m_lastread :: int
  m_activeclose :: bool

definition init :: FdProcess where
  "init = \<lparr>m_readfun = None, m_writefun = None, m_closefun = None, m_lastread = 0, m_activeclose = False\<rparr>"

record client =
  c_tab :: "int \<Rightarrow> FdProcess"       \<comment> \<open>\<open>gFdProcess\<close>\<close>
  c_epoll :: "(int \<times> u32) list"
  c_in :: "int \<Rightarrow> fdin"
  c_sumread :: "64 word"
  c_closed :: "int list"
  c_timer :: TIMER
  c_ub :: "ub list"

text \<open>An access to \<open>gFdProcess[fd]\<close>.\<close>

definition process :: "int \<Rightarrow> client \<Rightarrow> FdProcess cres" where
  "process fd c = (if 0 \<le> fd \<and> fd < MAX_FD then Inr (c_tab c fd) else Inl Out_Of_Bounds)"

definition set_process :: "int \<Rightarrow> (FdProcess \<Rightarrow> FdProcess) \<Rightarrow> client \<Rightarrow> client cres" where
  "set_process fd f c = cbind (process fd c) (\<lambda>p. Inr (c\<lparr>c_tab := (c_tab c)(fd := f p)\<rparr>))"

text \<open>What the system answers: whether \<open>fcntl\<close> works on a descriptor, and whether \<open>epoll_ctl\<close> refuses it.\<close>

record kernel =
  k_noblock :: "int \<Rightarrow> bool"
  k_refuses :: "int \<Rightarrow> bool"

definition set_noblock :: "kernel \<Rightarrow> int \<Rightarrow> client \<Rightarrow> client proceeds" where
  "set_noblock k fd c = (if k_noblock k fd then Goes c else Exits 1)"

definition epoll_add :: "kernel \<Rightarrow> int \<Rightarrow> u32 \<Rightarrow> client \<Rightarrow> client proceeds" where
  "epoll_add k fd ev c =
     (if k_refuses k fd \<or> fd \<in> fst ` set (c_epoll c) then Exits (- 1) else Goes (c\<lparr>c_epoll := c_epoll c @ [(fd, ev)]\<rparr>))"

definition epoll_mod :: "int \<Rightarrow> u32 \<Rightarrow> client \<Rightarrow> client proceeds" where
  "epoll_mod fd ev c =
     (if fd \<in> fst ` set (c_epoll c) then Goes (c\<lparr>c_epoll := map (\<lambda>(f, e). (f, if f = fd then ev else e)) (c_epoll c)\<rparr>)
      else Exits (- 1))"

text \<open>Closing a descriptor takes it out of the \<open>epoll\<close>.\<close>

definition close_fd :: "int \<Rightarrow> client \<Rightarrow> client" where
  "close_fd fd c = c\<lparr>c_closed := c_closed c @ [fd], c_epoll := filter (\<lambda>(f, e). f \<noteq> fd) (c_epoll c)\<rparr>"

section \<open>Connecting\<close>

text \<open>An attempt: the descriptor \<open>socket\<close> returns or -1, and the errno of \<open>connect\<close> if it fails.\<close>

record attempt =
  a_socket :: int
  a_connect :: "nat option"

definition Simconnect :: "kernel \<Rightarrow> attempt \<Rightarrow> client \<Rightarrow> (int \<times> client) proceeds" where
  "Simconnect k a c = (let clientfd = a_socket a in
     if clientfd \<le> 0 then Goes (- 1, c)
     else if clientfd \<ge> MAX_FD then Goes (- 2, close_fd clientfd c)
     else case set_noblock k clientfd c of
       Exits n \<Rightarrow> Exits n
     | Goes c \<Rightarrow> if a_connect a \<noteq> None \<and> a_connect a \<noteq> Some EINPROGRESS then Goes (- 1, close_fd clientfd c)
         else Goes (clientfd, c))"

definition add_epoll :: "kernel \<Rightarrow> int \<Rightarrow> bool \<Rightarrow> bool \<Rightarrow> bool \<Rightarrow> client \<Rightarrow> client proceeds" where
  "add_epoll k fd r w add_or_mod c =
     (let ev = EPOLLRDHUP;
          ev = (if r then or ev (or EPOLLIN EPOLLET) else ev);
          ev = (if w then or ev (or EPOLLOUT EPOLLET) else ev)
      in if add_or_mod then epoll_add k fd ev c else epoll_mod fd ev c)"

definition set_client :: "FdProcess \<Rightarrow> FdProcess" where
  "set_client p = p\<lparr>m_readfun := Some Client_Readfun, m_writefun := Some Client_Writefun, m_closefun := Some Client_Closefun\<rparr>"

text \<open>The loop of \<open>main\<close>, \<open>num\<close> attempts long.\<close>

fun connect_all :: "kernel \<Rightarrow> attempt list \<Rightarrow> client \<Rightarrow> client proceeds cres" where
  "connect_all k [] c = Inr (Goes c)"
| "connect_all k (a # as) c = pbind (Inr (Simconnect k a c)) (\<lambda>(fd, c).
     if fd < 0 then connect_all k as c
     else pbind (Inr (add_epoll k fd True True True c)) (\<lambda>c.
       cbind (set_process fd set_client c) (connect_all k as)))"

definition fresh_client :: "(int \<Rightarrow> fdin) \<Rightarrow> client" where
  "fresh_client ins = \<lparr>c_tab = \<lambda>_. init, c_epoll = [], c_in = ins, c_sumread = 0, c_closed = [],
     c_timer = \<lparr>timer_arg_time = [], timer_time_arg = []\<rparr>, c_ub = []\<rparr>"

section \<open>Reading and closing\<close>

text \<open>The loop of \<open>client_readfun\<close>: it ends with the first error, or at the end of the stream.\<close>

function read_rest :: "fdin \<Rightarrow> 64 word \<Rightarrow> bool \<times> 64 word \<times> fdin" where
  "read_rest s acc = (case sys_read 1023 s of
     (Inl e, s) \<Rightarrow> (False, acc, s)
   | (Inr got, s) \<Rightarrow> if got = [] then (True, acc, s) else read_rest s (acc + of_nat (length got)))"
  by pat_completeness auto
termination
proof (relation "measure (\<lambda>(s, acc). script_size s)", goal_cases)
  case 1
  show ?case by simp
next
  case (2 s acc p s' got)
  then have "sys_read 1023 s = (Inr got, s')" "got \<noteq> []" by simp_all
  from script_size_read(2) [OF this(1) refl this(2)] show ?case by simp
qed

declare read_rest.simps [simp del]

definition client_readfun :: "int \<Rightarrow> client \<Rightarrow> (int \<times> client) cres" where
  "client_readfun fd c = (case read_rest (c_in c fd) (c_sumread c) of (eof, acc, s) \<Rightarrow>
     let c = c\<lparr>c_in := (c_in c)(fd := s), c_sumread := acc\<rparr>
     in if eof then cbind (set_process fd (\<lambda>p. p\<lparr>m_activeclose := True\<rparr>) c) (\<lambda>c. Inr (- 1, c)) else Inr (1, c))"

definition client_writefun :: "int \<Rightarrow> client \<Rightarrow> int \<times> client" where
  "client_writefun fd c = (1, c)"

definition client_closefun :: "int \<Rightarrow> client \<Rightarrow> (int \<times> client) cres" where
  "client_closefun fd c = cbind (set_process fd (\<lambda>_. init) c) (\<lambda>c. Inr (1, close_fd fd c))"

section \<open>Events\<close>

type_synonym 'a run = "'a proceeds cres option"    \<comment> \<open>\<open>None\<close>: does not return\<close>

definition rbind :: "'a run \<Rightarrow> ('a \<Rightarrow> 'b run) \<Rightarrow> 'b run" where
  "rbind r f = (case r of None \<Rightarrow> None | Some (Inl e) \<Rightarrow> Some (Inl e) | Some (Inr (Exits n)) \<Rightarrow> Some (Inr (Exits n))
     | Some (Inr (Goes x)) \<Rightarrow> f x)"

definition goes :: "'a cres \<Rightarrow> 'a run" where
  "goes r = Some (cbind r (\<lambda>x. Inr (Goes x)))"

lemma rbind_simps [simp]:
  "rbind None f = None" "rbind (Some (Inl e)) f = Some (Inl e)" "rbind (Some (Inr (Exits n))) f = Some (Inr (Exits n))"
  "rbind (Some (Inr (Goes x))) f = f x"
  by (simp_all add: rbind_def)

lemma goes_simps [simp]: "goes (Inl e) = Some (Inl e)" "goes (Inr x) = Some (Inr (Goes x))"
  by (simp_all add: goes_def)

text \<open>
  The channel of a worker: \<open>process_order\<close> registers every complete descriptor in the buffer, and
  then moves what is left - from the wrong end: it copies the first bytes of the buffer behind the
  numbers that were processed.
\<close>

definition register_order :: "kernel \<Rightarrow> int \<Rightarrow> client \<Rightarrow> client proceeds cres" where
  "register_order k fd c = pbind (Inr (set_noblock k fd c)) (\<lambda>c.
     cbind (set_process fd set_client c) (\<lambda>c. Inr (epoll_add k fd (or EPOLLIN EPOLLET) c)))"

fun register_orders :: "kernel \<Rightarrow> byte list \<Rightarrow> client \<Rightarrow> client proceeds cres" where
  "register_orders k (x # y # z # w # bs) c = pbind (register_order k (dec_int [x, y, z, w]) c) (register_orders k bs)"
| "register_orders k bs c = Inr (Goes c)"

definition process_order :: "kernel \<Rightarrow> byte list \<Rightarrow> nat \<Rightarrow> client \<Rightarrow> (byte list \<times> nat \<times> client) proceeds cres" where
  "process_order k buff buffindex c =
     pbind (register_orders k (take buffindex buff) c) (\<lambda>c.
       let processed = 4 * (buffindex div 4)
       in if processed = buffindex then Inr (Goes (buff, 0, c))
          else cbind (mput buff processed (take (buffindex - processed) buff)) (\<lambda>buff. Inr (Goes (buff, processed, c))))"

text \<open>
  The loop of \<open>order_readfun\<close>: it ends with \<open>EAGAIN\<close> only. Bytes that do not make up a number are
  read again over their place; at the end of the stream it goes round without end.
\<close>

partial_function (option) order_loop :: "kernel \<Rightarrow> fdin \<Rightarrow> byte list \<Rightarrow> nat \<Rightarrow> client \<Rightarrow> (fdin \<times> client) run" where
  "order_loop k s buff buffindex c = (case sys_read (4096 - buffindex) s of
     (Inl e, s) \<Rightarrow> if e = EAGAIN then Some (Inr (Goes (s, c))) else order_loop k s buff buffindex c
   | (Inr got, s) \<Rightarrow>
       if got \<noteq> [] \<and> buffindex + length got \<ge> 4
       then (case cbind (mput buff buffindex got) (\<lambda>buff. process_order k buff (buffindex + length got) c) of
           Inl e \<Rightarrow> Some (Inl e)
         | Inr (Exits n) \<Rightarrow> Some (Inr (Exits n))
         | Inr (Goes (buff, buffindex, c)) \<Rightarrow> order_loop k s buff buffindex c)
       else (case mput buff buffindex got of
           Inl e \<Rightarrow> Some (Inl e)
         | Inr buff \<Rightarrow> order_loop k s buff buffindex c))"

definition order_readfun :: "kernel \<Rightarrow> int \<Rightarrow> client \<Rightarrow> (int \<times> client) run" where
  "order_readfun k fd c = rbind (order_loop k (c_in c fd) (replicate 4096 0) 0 c)
     (\<lambda>(s, c). Some (Inr (Goes (1, c\<lparr>c_in := (c_in c)(fd := s)\<rparr>))))"

definition call :: "kernel \<Rightarrow> callback \<Rightarrow> int \<Rightarrow> client \<Rightarrow> (int \<times> client) run" where
  "call k f fd c = (case f of
     Order_Readfun \<Rightarrow> order_readfun k fd c
   | Client_Readfun \<Rightarrow> goes (client_readfun fd c)
   | Client_Writefun \<Rightarrow> Some (Inr (Goes (client_writefun fd c)))
   | Client_Closefun \<Rightarrow> goes (client_closefun fd c))"

text \<open>One of the first two ifs of \<open>process_one_event\<close>.\<close>

definition call_on :: "kernel \<Rightarrow> bool \<Rightarrow> callback option \<Rightarrow> int \<Rightarrow> client \<Rightarrow> client run" where
  "call_on k ready f fd c = (case f of
     None \<Rightarrow> Some (Inr (Goes c))
   | Some f \<Rightarrow> if \<not> ready then Some (Inr (Goes c))
       else rbind (call k f fd c) (\<lambda>(r, c).
         if 0 > r then goes (set_process fd (\<lambda>p. p\<lparr>m_activeclose := True\<rparr>) c) else Some (Inr (Goes c))))"

definition process_one_event :: "kernel \<Rightarrow> int \<times> u32 \<Rightarrow> client \<Rightarrow> client run" where
  "process_one_event k ev c = (case ev of (fd, events) \<Rightarrow>
     rbind (goes (process fd c)) (\<lambda>p. rbind (call_on k (\<not> m_activeclose p \<and> and events EPOLLIN \<noteq> 0) (m_readfun p) fd c) (\<lambda>c.
     rbind (goes (process fd c)) (\<lambda>p. rbind (call_on k (\<not> m_activeclose p \<and> and events EPOLLOUT \<noteq> 0) (m_writefun p) fd c) (\<lambda>c.
     rbind (goes (process fd c)) (\<lambda>p. rbind (if \<not> m_activeclose p \<and> and events EPOLLRDHUP \<noteq> 0
         then goes (set_process fd (\<lambda>p. p\<lparr>m_activeclose := True\<rparr>) c) else Some (Inr (Goes c))) (\<lambda>c.
     rbind (goes (process fd c)) (\<lambda>p.
       if m_activeclose p
       then let c = c\<lparr>c_timer := remove_timer (Slot (nat fd)) (c_timer c)\<rparr>
            in (case m_closefun p of
                 None \<Rightarrow> Some (Inl Null_Deref)
               | Some f \<Rightarrow> rbind (call k f fd c) (\<lambda>(_, c). Some (Inr (Goes c))))
       else Some (Inr (Goes c))))))))))"

fun process_each :: "kernel \<Rightarrow> (int \<times> u32) list \<Rightarrow> client \<Rightarrow> client run" where
  "process_each k [] c = Some (Inr (Goes c))"
| "process_each k (ev # evs) c = rbind (process_one_event k ev c) (process_each k evs)"

text \<open>The timers that are due are taken out one by one; \<open>point\<close> is not used.\<close>

lemma get_timer_shrinks:
  "get_timer tnow t = Inr (u, point, t') \<Longrightarrow> point \<noteq> Null_Addr \<Longrightarrow> length (timer_time_arg t') < length (timer_time_arg t)"
  by (auto simp: get_timer_def Let_def split: list.splits if_splits option.splits)

function drop_due :: "int \<Rightarrow> client \<Rightarrow> client cres" where
  "drop_due tnow c = (case get_timer tnow (c_timer c) of
     Inl e \<Rightarrow> Inl e
   | Inr (u, point, t) \<Rightarrow>
       let c = c\<lparr>c_ub := c_ub c @ u, c_timer := t\<rparr>
       in if point = Null_Addr then Inr c else drop_due tnow c)"
  by pat_completeness auto
termination
  by (relation "measure (\<lambda>(tnow, c). length (timer_time_arg (c_timer c)))") (auto dest: get_timer_shrinks)

declare drop_due.simps [simp del]

definition process_event :: "kernel \<Rightarrow> (int \<times> u32) list \<Rightarrow> int \<Rightarrow> client \<Rightarrow> client run" where
  "process_event k evs tnow c = rbind (process_each k evs c) (\<lambda>c. goes (drop_due tnow c))"

definition mintimer :: int where "mintimer = 1000"

text \<open>The branches of \<open>get_mintimer\<close> come to the same.\<close>

definition get_mintimer :: "TIMER \<Rightarrow> int" where
  "get_mintimer t = (if timer_time_arg t = [] then mintimer else 1 * 1000)"

definition next_outime :: "client \<Rightarrow> int" where
  "next_outime c = (let outime = get_mintimer (c_timer c) in if 0 = outime then 1000 else outime)"

section \<open>A round of events\<close>

fun after_error :: "fdin \<Rightarrow> fdin" where
  "after_error [] = []"
| "after_error (RErr e # s) = s"
| "after_error (RData b bs # s) = after_error s"

lemma after_error_chunk [simp]: "after_error (chunk bs @ s) = after_error s"
  by (cases bs) (simp_all add: chunk_def)

lemma read_rest_all:
  "read_rest s acc = (error_of s = None, acc + of_nat (length (data_of s)), after_error s)"
proof (induction s acc rule: read_rest.induct)
  case (1 s acc)
  show ?case
  proof (cases s)
    case (Cons r t)
    show ?thesis
    proof (cases r)
      case (RData b bs)
      let ?got = "take 1023 (b # bs)" and ?s' = "chunk (drop 1023 (b # bs)) @ t"
      have "length (b # bs) = length ?got + length (drop 1023 (b # bs))" by (simp del: take_Cons' drop_Cons')
      then obtain got s' where r: "sys_read 1023 s = (Inr got, s')" "got \<noteq> []"
        and l: "length (data_of s) = length got + length (data_of s')" "error_of s = error_of s'" "after_error s = after_error s'"
        using that [of ?got ?s'] Cons RData by simp
      have "read_rest s acc = read_rest s' (acc + of_nat (length got))"
        using r by (simp add: read_rest.simps [of s])
      also have "\<dots> = (error_of s' = None, acc + of_nat (length got) + of_nat (length (data_of s')), after_error s')"
        by (rule 1 [OF r(1) [symmetric] refl r(2)])
      finally show ?thesis by (simp add: l add.assoc)
    qed (simp add: Cons read_rest.simps)
  qed (simp add: read_rest.simps)
qed

definition watched :: "client \<Rightarrow> int list" where
  "watched c = map fst (c_epoll c)"

definition load_ok :: "client \<Rightarrow> bool" where
  "load_ok c \<longleftrightarrow> distinct (watched c) \<and> (\<forall>fd\<in>set (watched c). 0 \<le> fd \<and> fd < MAX_FD) \<and> c_timer c = new_timer
     \<and> c_tab c = (\<lambda>fd. if fd \<in> set (watched c) then set_client init else init)"

definition hang_up :: "client \<Rightarrow> int \<times> u32 \<Rightarrow> bool" where
  "hang_up c ev \<longleftrightarrow> (case ev of (fd, e) \<Rightarrow> and e EPOLLIN \<noteq> 0 \<and> error_of (c_in c fd) = None \<or> and e EPOLLRDHUP \<noteq> 0)"

definition bytes_read :: "client \<Rightarrow> int \<times> u32 \<Rightarrow> nat" where
  "bytes_read c ev = (case ev of (fd, e) \<Rightarrow> if and e EPOLLIN \<noteq> 0 then length (data_of (c_in c fd)) else 0)"

text \<open>What an event comes to.\<close>

definition taken_in :: "int \<times> u32 \<Rightarrow> client \<Rightarrow> client" where
  "taken_in ev c = (case ev of (fd, e) \<Rightarrow>
     if and e EPOLLIN \<noteq> 0
     then c\<lparr>c_in := (c_in c)(fd := after_error (c_in c fd)), c_sumread := c_sumread c + of_nat (bytes_read c ev)\<rparr> else c)"

definition event_done :: "int \<times> u32 \<Rightarrow> client \<Rightarrow> client" where
  "event_done ev c = (let c' = taken_in ev c
     in if hang_up c ev then close_fd (fst ev) (c'\<lparr>c_tab := (c_tab c)(fst ev := init)\<rparr>) else c')"

lemma remove_new_timer: "remove_timer a new_timer = new_timer"
  by (simp add: remove_timer_def new_timer_def)

lemma set_process_ok: "0 \<le> fd \<Longrightarrow> fd < MAX_FD \<Longrightarrow> set_process fd f c = Inr (c\<lparr>c_tab := (c_tab c)(fd := f (c_tab c fd))\<rparr>)"
  by (simp add: set_process_def process_def)

lemma client_readfun_outcome:
  assumes "0 \<le> fd" "fd < MAX_FD" "and e EPOLLIN \<noteq> 0"
  shows "client_readfun fd c = (if error_of (c_in c fd) = None
    then Inr (- 1, (taken_in (fd, e) c)\<lparr>c_tab := (c_tab c)(fd := (c_tab c fd)\<lparr>m_activeclose := True\<rparr>)\<rparr>)
    else Inr (1, taken_in (fd, e) c))"
  using assms by (simp add: client_readfun_def read_rest_all taken_in_def bytes_read_def set_process_ok Let_def)

lemma set_client_fields [simp]:
  "m_readfun (set_client p) = Some Client_Readfun" "m_writefun (set_client p) = Some Client_Writefun"
  "m_closefun (set_client p) = Some Client_Closefun" "m_activeclose (set_client p) = m_activeclose p" "m_activeclose init = False"
  by (simp_all add: set_client_def init_def)

lemma taken_in_fields [simp]:
  "c_tab (taken_in ev c) = c_tab c" "c_epoll (taken_in ev c) = c_epoll c" "c_timer (taken_in ev c) = c_timer c"
  "c_closed (taken_in ev c) = c_closed c" "c_ub (taken_in ev c) = c_ub c"
  by (simp_all add: taken_in_def split: prod.split)

lemma taken_in_skip [simp]: "and e EPOLLIN = 0 \<Longrightarrow> taken_in (fd, e) c = c"
  by (simp add: taken_in_def)

text \<open>The last step of an event, on a descriptor that is to be closed and on one that is not.\<close>

lemma closing_step:
  assumes "0 \<le> fd" "fd < MAX_FD" "c_timer c = new_timer" "m_closefun (c_tab c fd) = Some Client_Closefun"
  shows "rbind (goes (process fd c)) (\<lambda>p.
       if m_activeclose p
       then let c = c\<lparr>c_timer := remove_timer (Slot (nat fd)) (c_timer c)\<rparr>
            in (case m_closefun p of
                 None \<Rightarrow> Some (Inl Null_Deref)
               | Some f \<Rightarrow> rbind (call k f fd c) (\<lambda>(_, c). Some (Inr (Goes c))))
       else Some (Inr (Goes c)))
    = Some (Inr (Goes (if m_activeclose (c_tab c fd) then close_fd fd (c\<lparr>c_tab := (c_tab c)(fd := init)\<rparr>) else c)))"
proof -
  have c: "c\<lparr>c_timer := remove_timer a (c_timer c)\<rparr> = c" for a using assms(3) by (cases c) (simp add: remove_new_timer)
  show ?thesis unfolding c Let_def using assms(1,2,4)
    by (simp add: process_def call_def client_closefun_def set_process_ok)
qed

lemma process_one_event_done:
  assumes "load_ok c" "fd \<in> set (watched c)"
  shows "process_one_event k (fd, e) c = Some (Inr (Goes (event_done (fd, e) c)))"
proof -
  have fd: "0 \<le> fd" "fd < MAX_FD" and tm: "c_timer c = new_timer" and tab: "c_tab c fd = set_client init"
    using assms by (auto simp: load_ok_def)
  let ?c = "taken_in (fd, e) c"
  show ?thesis
  proof (cases "and e EPOLLIN \<noteq> 0 \<and> error_of (c_in c fd) = None")
    case True
    then have r: "client_readfun fd c = Inr (- 1, ?c\<lparr>c_tab := (c_tab c)(fd := (c_tab c fd)\<lparr>m_activeclose := True\<rparr>)\<rparr>)"
      using client_readfun_outcome [OF fd, of e c] by simp
    let ?d = "?c\<lparr>c_tab := (c_tab c)(fd := (c_tab c fd)\<lparr>m_activeclose := True\<rparr>)\<rparr>"
    have first: "call_on k (\<not> m_activeclose (c_tab c fd) \<and> and e EPOLLIN \<noteq> 0) (m_readfun (c_tab c fd)) fd c = Some (Inr (Goes ?d))"
      using r tab True fd by (simp add: call_on_def call_def set_process_ok)
    have p: "process fd c = Inr (c_tab c fd)" "process fd ?d = Inr (c_tab ?d fd)" using fd by (simp_all add: process_def)
    have second: "call_on k (\<not> m_activeclose (c_tab ?d fd) \<and> and e EPOLLOUT \<noteq> 0) (m_writefun (c_tab ?d fd)) fd ?d = Some (Inr (Goes ?d))"
      using tab by (simp add: call_on_def)
    have third: "(if \<not> m_activeclose (c_tab ?d fd) \<and> and e EPOLLRDHUP \<noteq> 0
         then goes (set_process fd (\<lambda>p. p\<lparr>m_activeclose := True\<rparr>) ?d) else Some (Inr (Goes ?d))) = Some (Inr (Goes ?d))"
      by simp
    have "c_timer ?d = new_timer" "m_closefun (c_tab ?d fd) = Some Client_Closefun" using tm tab by simp_all
    note last = closing_step [OF fd this, unfolded p(2) goes_simps rbind_simps]
    have "process_one_event k (fd, e) c
      = Some (Inr (Goes (if m_activeclose (c_tab ?d fd) then close_fd fd (?d\<lparr>c_tab := (c_tab ?d)(fd := init)\<rparr>) else ?d)))"
      unfolding process_one_event_def prod.case p(1) goes_simps rbind_simps first
      unfolding p(2) goes_simps rbind_simps second third last by (rule refl)
    then show ?thesis using True by (simp add: event_done_def hang_up_def Let_def)
  next
    case False
    then have r: "and e EPOLLIN \<noteq> 0 \<Longrightarrow> client_readfun fd c = Inr (1, ?c)"
      using client_readfun_outcome [OF fd, of e c] by simp
    have first: "call_on k (\<not> m_activeclose (c_tab c fd) \<and> and e EPOLLIN \<noteq> 0) (m_readfun (c_tab c fd)) fd c = Some (Inr (Goes ?c))"
      using r tab by (cases "and e EPOLLIN = 0") (simp_all add: call_on_def call_def)
    have second: "call_on k (\<not> m_activeclose (c_tab ?c fd) \<and> and e EPOLLOUT \<noteq> 0) (m_writefun (c_tab ?c fd)) fd ?c = Some (Inr (Goes ?c))"
      using tab by (simp add: call_on_def call_def client_writefun_def)
    have p: "process fd c = Inr (c_tab c fd)" "process fd ?c = Inr (c_tab c fd)" using fd by (simp_all add: process_def)
    let ?d = "if and e EPOLLRDHUP \<noteq> 0 then ?c\<lparr>c_tab := (c_tab c)(fd := (c_tab c fd)\<lparr>m_activeclose := True\<rparr>)\<rparr> else ?c"
    have third: "(if \<not> m_activeclose (c_tab c fd) \<and> and e EPOLLRDHUP \<noteq> 0
         then goes (set_process fd (\<lambda>p. p\<lparr>m_activeclose := True\<rparr>) ?c) else Some (Inr (Goes ?c))) = Some (Inr (Goes ?d))"
      using tab fd by (simp add: set_process_ok)
    have "c_timer ?d = new_timer" "m_closefun (c_tab ?d fd) = Some Client_Closefun" using tm tab by simp_all
    note last = closing_step [OF fd this]
    have "process_one_event k (fd, e) c
      = Some (Inr (Goes (if m_activeclose (c_tab ?d fd) then close_fd fd (?d\<lparr>c_tab := (c_tab ?d)(fd := init)\<rparr>) else ?d)))"
      unfolding process_one_event_def prod.case p goes_simps rbind_simps first
      unfolding p goes_simps rbind_simps second[simplified] third last by (rule refl)
    moreover have "(if m_activeclose (c_tab ?d fd) then close_fd fd (?d\<lparr>c_tab := (c_tab ?d)(fd := init)\<rparr>) else ?d) = event_done (fd, e) c"
      using False tab by (auto simp: event_done_def hang_up_def Let_def)
    ultimately show ?thesis by simp
  qed
qed

lemma event_done_fields:
  "c_closed (event_done ev c) = c_closed c @ (if hang_up c ev then [fst ev] else [])"
  "watched (event_done ev c) = filter (\<lambda>fd. \<not> (hang_up c ev \<and> fd = fst ev)) (watched c)"
  "c_sumread (event_done ev c) = c_sumread c + of_nat (bytes_read c ev)"
  "fd \<noteq> fst ev \<Longrightarrow> c_in (event_done ev c) fd = c_in c fd"
  by (cases ev; simp add: event_done_def Let_def close_fd_def watched_def filter_map comp_def case_prod_unfold taken_in_def bytes_read_def)+

lemma event_done_ok:
  assumes "load_ok c" "fst ev \<in> set (watched c)"
  shows "load_ok (event_done ev c)"
proof -
  have "c_timer (event_done ev c) = c_timer c" by (simp add: event_done_def Let_def close_fd_def)
  moreover have "c_tab (event_done ev c) = (if hang_up c ev then (c_tab c)(fst ev := init) else c_tab c)"
    by (simp add: event_done_def Let_def close_fd_def)
  ultimately show ?thesis using assms by (auto simp: load_ok_def event_done_fields)
qed

lemma hang_up_other: "fst ev' \<noteq> fst ev \<Longrightarrow> hang_up (event_done ev c) ev' = hang_up c ev'"
    "fst ev' \<noteq> fst ev \<Longrightarrow> bytes_read (event_done ev c) ev' = bytes_read c ev'"
  by (cases ev'; simp add: hang_up_def bytes_read_def event_done_fields(4))+

lemma process_each_all:
  assumes "load_ok c" "distinct (map fst evs)" "set (map fst evs) \<subseteq> set (watched c)"
  shows "\<exists>c'. process_each k evs c = Some (Inr (Goes c')) \<and> load_ok c'
    \<and> c_closed c' = c_closed c @ map fst (filter (hang_up c) evs)
    \<and> watched c' = filter (\<lambda>fd. fd \<notin> fst ` set (filter (hang_up c) evs)) (watched c)
    \<and> c_sumread c' = c_sumread c + of_nat (sum_list (map (bytes_read c) evs))"
  using assms
proof (induction evs arbitrary: c)
  case Nil
  then show ?case by simp
next
  case (Cons ev evs)
  let ?c = "event_done ev c"
  have w: "fst ev \<in> set (watched c)" using Cons.prems(3) by simp
  have ne: "fst ev' \<noteq> fst ev" if "ev' \<in> set evs" for ev' using Cons.prems(2) that by (auto simp: image_iff)
  have step: "process_each k (ev # evs) c = process_each k evs ?c"
    using process_one_event_done [OF Cons.prems(1) w, of k "snd ev"] by simp
  have h: "filter (hang_up ?c) evs = filter (hang_up c) evs" "map (bytes_read ?c) evs = map (bytes_read c) evs"
    using hang_up_other ne by (auto cong: filter_cong)
  have "set (map fst evs) \<subseteq> set (watched ?c)" using Cons.prems(3) ne by (force simp: event_done_fields)
  then obtain c' where c': "process_each k evs ?c = Some (Inr (Goes c'))" "load_ok c'"
    "c_closed c' = c_closed ?c @ map fst (filter (hang_up ?c) evs)"
    "watched c' = filter (\<lambda>fd. fd \<notin> fst ` set (filter (hang_up ?c) evs)) (watched ?c)"
    "c_sumread c' = c_sumread ?c + of_nat (sum_list (map (bytes_read ?c) evs))"
    using Cons.IH [of ?c] event_done_ok [OF Cons.prems(1) w] Cons.prems(2) by auto
  then show ?case unfolding step h event_done_fields by (auto simp: add.assoc intro!: filter_cong)
qed

lemma drop_due_none: "c_timer c = new_timer \<Longrightarrow> drop_due tnow c = Inr (c\<lparr>c_ub := c_ub c @ [Deref_End]\<rparr>)"
  by (cases c) (simp add: drop_due.simps get_timer_def new_timer_def)

section \<open>Connecting and the channel\<close>

definition connects :: "attempt \<Rightarrow> bool" where
  "connects a \<longleftrightarrow> 0 < a_socket a \<and> a_socket a < MAX_FD \<and> (a_connect a = None \<or> a_connect a = Some EINPROGRESS)"

text \<open>\<open>socket\<close> never returns a number that is open.\<close>

fun fresh_numbers :: "int list \<Rightarrow> attempt list \<Rightarrow> bool" where
  "fresh_numbers live [] \<longleftrightarrow> True"
| "fresh_numbers live (a # as) \<longleftrightarrow> a_socket a \<notin> set live \<and> fresh_numbers (if connects a then live @ [a_socket a] else live) as"

definition willing :: "kernel \<Rightarrow> bool" where
  "willing k \<longleftrightarrow> (\<forall>fd. k_noblock k fd \<and> \<not> k_refuses k fd)"

lemma connect_all_ok:
  assumes "load_ok c" "willing k" "fresh_numbers (watched c) as"
  shows "\<exists>c'. connect_all k as c = Inr (Goes c') \<and> load_ok c'
    \<and> watched c' = watched c @ map a_socket (filter connects as)
    \<and> c_closed c' = c_closed c @ map a_socket (filter (\<lambda>a. 0 < a_socket a \<and> \<not> connects a) as)"
  using assms
proof (induction as arbitrary: c)
  case Nil
  then show ?case by simp
next
  case (Cons a as)
  have k: "k_noblock k fd" "\<not> k_refuses k fd" for fd using Cons.prems(2) by (simp_all add: willing_def)
  show ?case
  proof (cases "connects a")
    case True
    let ?fd = "a_socket a" and ?ev = "or (or EPOLLRDHUP (or EPOLLIN EPOLLET)) (or EPOLLOUT EPOLLET)"
    let ?c = "c\<lparr>c_epoll := c_epoll c @ [(?fd, ?ev)], c_tab := (c_tab c)(?fd := set_client (c_tab c ?fd))\<rparr>"
    have new: "?fd \<notin> set (watched c)" using Cons.prems(3) by simp
    then have "?fd \<notin> fst ` set (c_epoll c)" by (simp add: watched_def)
    then have step: "connect_all k (a # as) c = connect_all k as ?c" using True k
      by (auto simp: connects_def Simconnect_def set_noblock_def add_epoll_def epoll_add_def set_process_ok Let_def)
    have w: "watched ?c = watched c @ [?fd]" by (simp add: watched_def)
    have "c_tab c ?fd = init" using Cons.prems(1) new by (simp add: load_ok_def)
    then have "load_ok ?c" unfolding load_ok_def w using Cons.prems(1) True new by (auto simp: load_ok_def connects_def)
    moreover have "fresh_numbers (watched ?c) as" using Cons.prems(3) True w by simp
    ultimately show ?thesis using Cons.IH [of ?c] Cons.prems(2) step w True by auto
  next
    case False
    let ?c = "if 0 < a_socket a then close_fd (a_socket a) c else c"
    have new: "a_socket a \<notin> set (watched c)" using Cons.prems(3) by simp
    then have "\<forall>p\<in>set (c_epoll c). fst p \<noteq> a_socket a" unfolding watched_def by (metis image_eqI list.set_map)
    then have "filter (\<lambda>(f, e). f \<noteq> a_socket a) (c_epoll c) = c_epoll c" by (simp add: filter_id_conv case_prod_beta)
    then have w: "watched ?c = watched c" "c_tab ?c = c_tab c" "c_timer ?c = c_timer c" by (simp_all add: close_fd_def watched_def)
    have step: "connect_all k (a # as) c = connect_all k as ?c" using False k
      by (auto simp: connects_def Simconnect_def set_noblock_def Let_def)
    have "load_ok ?c" unfolding load_ok_def w using Cons.prems(1) by (simp add: load_ok_def)
    moreover have "fresh_numbers (watched ?c) as" using Cons.prems(3) False w by simp
    moreover have "c_closed ?c = c_closed c @ (if 0 < a_socket a then [a_socket a] else [])" by (simp add: close_fd_def)
    ultimately show ?thesis using Cons.IH [of ?c] Cons.prems(2) step w False by auto
  qed
qed

lemma register_order_ok:
  assumes "willing k" "0 \<le> fd" "fd < MAX_FD" "fd \<notin> set (watched c)"
  shows "register_order k fd c = Inr (Goes (c\<lparr>c_tab := (c_tab c)(fd := set_client (c_tab c fd)), c_epoll := c_epoll c @ [(fd, or EPOLLIN EPOLLET)]\<rparr>))"
  using assms by (auto simp: register_order_def set_noblock_def willing_def set_process_ok epoll_add_def watched_def)

lemma register_order_again:
  assumes "willing k" "0 \<le> fd" "fd < MAX_FD" "fd \<in> set (watched c)"
  shows "register_order k fd c = Inr (Exits (- 1))"
  using assms by (auto simp: register_order_def set_noblock_def willing_def set_process_ok epoll_add_def watched_def)

lemma enc_int_bytes: obtains p q r s where "enc_int x = [p, q, r, s]"
  by (simp add: enc_int_def)

lemma register_orders_enc: "register_orders k (enc_int fd @ bs) c = pbind (register_order k (dec_int (enc_int fd)) c) (register_orders k bs)"
  by (rule enc_int_bytes [of fd]) simp

section \<open>Properties\<close>

text \<open>
  A round of events on descriptors the \<open>epoll\<close> watches runs without a fault and keeps the table
  in step with the \<open>epoll\<close>: it closes and forgets exactly the connections that hang up or come to
  their end, in the order of their events, goes on watching the others, and counts every byte that
  was read, modulo \<open>2 ^ 64\<close>.
\<close>
theorem load_round:
  assumes "load_ok c" "distinct (map fst evs)" "set (map fst evs) \<subseteq> set (watched c)"
  shows "\<exists>c'. process_event k evs tnow c = Some (Inr (Goes c')) \<and> load_ok c'
    \<and> c_closed c' = c_closed c @ map fst (filter (hang_up c) evs)
    \<and> watched c' = filter (\<lambda>fd. fd \<notin> fst ` set (filter (hang_up c) evs)) (watched c)
    \<and> c_sumread c' = c_sumread c + of_nat (sum_list (map (bytes_read c) evs))"
proof -
  obtain c' where c': "process_each k evs c = Some (Inr (Goes c'))" "load_ok c'"
    "c_closed c' = c_closed c @ map fst (filter (hang_up c) evs)"
    "watched c' = filter (\<lambda>fd. fd \<notin> fst ` set (filter (hang_up c) evs)) (watched c)"
    "c_sumread c' = c_sumread c + of_nat (sum_list (map (bytes_read c) evs))"
    using process_each_all [OF assms] by blast
  let ?c = "c'\<lparr>c_ub := c_ub c' @ [Deref_End]\<rparr>"
  have "process_event k evs tnow c = Some (Inr (Goes ?c))"
    using c'(1,2) drop_due_none by (simp add: process_event_def load_ok_def)
  moreover have "load_ok ?c" using c'(2) by (simp add: load_ok_def watched_def)
  ultimately show ?thesis using c'(3-5) by (intro exI [of _ ?c]) (simp add: watched_def)
qed

definition two_clients :: client where
  "two_clients = (fresh_client (\<lambda>fd. if fd = 5 then [RData 1 [2, 3]] else [RData 4 [], RErr EAGAIN]))
     \<lparr>c_tab := \<lambda>fd. if fd \<in> {5, 6} then set_client init else init, c_epoll := [(5, 0), (6, 0)]\<rparr>"

lemma load_round_witness:
  "\<exists>c'. process_event \<lparr>k_noblock = \<lambda>_. True, k_refuses = \<lambda>_. False\<rparr> [(6, EPOLLIN), (5, EPOLLIN)] 0 two_clients = Some (Inr (Goes c'))
    \<and> c_closed c' = [5] \<and> watched c' = [6] \<and> c_sumread c' = 4"
proof -
  have "load_ok two_clients" by (auto simp: load_ok_def two_clients_def fresh_client_def watched_def new_timer_def MAX_FD_def)
  then show ?thesis
    using load_round [of two_clients "[(6, EPOLLIN), (5, EPOLLIN)]" "\<lparr>k_noblock = \<lambda>_. True, k_refuses = \<lambda>_. False\<rparr>" 0]
    by (auto simp: two_clients_def fresh_client_def watched_def hang_up_def bytes_read_def EPOLLIN_def EPOLLRDHUP_def)
qed

text \<open>
  When the system makes no difficulties, the connections that \<open>main\<close> watches after its loop are
  those of the attempts whose \<open>connect\<close> succeeded or is under way, in order, each with its three
  functions; every other socket it was given, except number 0, is closed.
\<close>
theorem main_connects:
  assumes "willing k" "fresh_numbers [] as"
  shows "\<exists>c. connect_all k as (fresh_client ins) = Inr (Goes c) \<and> load_ok c
    \<and> watched c = map a_socket (filter connects as)
    \<and> c_closed c = map a_socket (filter (\<lambda>a. 0 < a_socket a \<and> \<not> connects a) as)"
proof -
  have "load_ok (fresh_client ins)" "watched (fresh_client ins) = []" "c_closed (fresh_client ins) = []"
    by (simp_all add: load_ok_def watched_def fresh_client_def new_timer_def)
  with connect_all_ok [of "fresh_client ins" k as] assms show ?thesis by simp
qed

definition all_fine :: kernel where
  "all_fine = \<lparr>k_noblock = \<lambda>_. True, k_refuses = \<lambda>_. False\<rparr>"

lemma all_fine_willing: "willing all_fine"
  by (simp add: willing_def all_fine_def)

lemma main_connects_witness:
  "\<exists>c. connect_all all_fine [\<lparr>a_socket = 4, a_connect = Some EINPROGRESS\<rparr>, \<lparr>a_socket = 5, a_connect = Some 111\<rparr>,
      \<lparr>a_socket = 5, a_connect = None\<rparr>, \<lparr>a_socket = 70000, a_connect = None\<rparr>] (fresh_client (\<lambda>_. [])) = Inr (Goes c)
    \<and> watched c = [4, 5] \<and> c_closed c = [5, 70000]"
  using main_connects [OF all_fine_willing, of "[\<lparr>a_socket = 4, a_connect = Some EINPROGRESS\<rparr>, \<lparr>a_socket = 5, a_connect = Some 111\<rparr>,
      \<lparr>a_socket = 5, a_connect = None\<rparr>, \<lparr>a_socket = 70000, a_connect = None\<rparr>]" "\<lambda>_. []"]
  by (auto simp: connects_def MAX_FD_def)

lemma register_orders_short: "length bs < 4 \<Longrightarrow> register_orders k bs c = Inr (Goes c)"
  by (cases "(k, bs, c)" rule: register_orders.cases) auto

text \<open>
  A worker whose channel delivers one descriptor and a part of the next in one read registers
  the first again when more arrives: what is left over is copied from the wrong end of the buffer.
  \<open>epoll_ctl\<close> refuses, and the program exits with status -1.
\<close>
theorem split_order_exits:
  assumes "willing k" "0 \<le> fd" "fd < MAX_FD" "fd \<notin> set (watched c)"
    and "part \<noteq> []" "length part < 4" "new \<noteq> []" "length new \<le> 4092"
    and "c_in c orderfd = chunk (enc_int fd @ part) @ chunk new @ s"
  shows "order_readfun k orderfd c = Some (Inr (Exits (- 1)))"
proof -
  let ?got = "enc_int fd @ part" and ?c = "c\<lparr>c_tab := (c_tab c)(fd := set_client (c_tab c fd)), c_epoll := c_epoll c @ [(fd, or EPOLLIN EPOLLET)]\<rparr>"
  have dec: "dec_int (enc_int fd) = fd" using assms(2,3) by (intro dec_enc_int) (simp_all add: MAX_FD_def)
  have rd: "sys_read n (chunk bs @ t) = (Inr bs, t)" if "bs \<noteq> []" "length bs \<le> n" for n bs t
    using that by (cases bs) (simp_all add: chunk_def)
  let ?zeros = "replicate 4096 (0 :: byte)"
  let ?b0 = "?got @ drop (length ?got) ?zeros" and ?n = "4 + length part"
  have m0: "mput ?zeros 0 ?got = Inr ?b0" using assms(6) by (simp add: mput_def)
  have "register_orders k part ?c = Inr (Goes ?c)" using assms(6) by (rule register_orders_short)
  then have reg: "register_orders k (take ?n ?b0) c = Inr (Goes ?c)"
    using register_order_ok [OF assms(1-4)] by (simp add: register_orders_enc dec)
  have len: "?n div 4 = 1" "?n \<noteq> 4" using assms(5,6) by (simp_all add: div_add_self1)
  let ?left = "take (length part) ?b0"
  obtain b1 where m1: "mput ?b0 4 ?left = Inr b1" "length b1 = 4096" "take 4 b1 = enc_int fd"
    using assms(6) by (simp add: mput_def)
  have p0: "process_order k ?b0 ?n c = Inr (Goes (b1, 4, ?c))" using len m1(1) reg by (simp add: process_order_def)
  have first: "order_loop k (c_in c orderfd) ?zeros 0 c = order_loop k (chunk new @ s) b1 4 ?c"
    using assms(5,6,9) rd [of ?got 4096 "chunk new @ s"] m0 p0 by (subst order_loop.simps) simp
  let ?b2 = "take 4 b1 @ new @ drop (4 + length new) b1"
  have m2: "mput b1 4 new = Inr ?b2" using assms(8) m1(2) by (simp add: mput_def)
  have "fd \<in> set (watched ?c)" by (simp add: watched_def)
  then have "register_orders k (enc_int fd @ new) ?c = Inr (Exits (- 1))"
    using register_order_again [OF assms(1-3)] by (simp add: register_orders_enc dec)
  then have "process_order k ?b2 (4 + length new) ?c = Inr (Exits (- 1))" using m1(3) by (simp add: process_order_def)
  then have "order_loop k (chunk new @ s) b1 4 ?c = Some (Inr (Exits (- 1)))"
    using assms(7,8) rd [of new 4092 s] m2 by (subst order_loop.simps) simp
  then show ?thesis using first by (simp add: order_readfun_def)
qed

lemma split_order_exits_witness:
  "order_readfun all_fine 3 (fresh_client (\<lambda>_. [RData 9 [0, 0, 0, 10], RData 0 [0, 0], RErr EAGAIN])) = Some (Inr (Exits (- 1)))"
  using split_order_exits [OF all_fine_willing, of 9 "fresh_client (\<lambda>_. [RData 9 [0, 0, 0, 10], RData 0 [0, 0], RErr EAGAIN])" "[10]" "[0, 0, 0]" 3 "[RErr EAGAIN]"]
  by (simp add: MAX_FD_def watched_def fresh_client_def enc_int_def chunk_def)

text \<open>Once the stream is at its end, \<open>order_readfun\<close> goes round for ever.\<close>

lemma order_loop_eof:
  assumes "order_loop k s buff buffindex c = Some r"
  shows "\<not> (s = [] \<and> buffindex \<le> length buff)"
proof (rule order_loop.raw_induct [of "\<lambda>k s buff buffindex c r. \<not> (s = [] \<and> buffindex \<le> length buff)", OF _ assms])
  fix loop k s buff buffindex c r
  assume IH: "\<And>k s buff buffindex c r. loop k s buff buffindex c = Some r \<Longrightarrow> \<not> (s = [] \<and> buffindex \<le> length buff)"
    and run: "(case sys_read (4096 - buffindex) s of
     (Inl e, s) \<Rightarrow> if e = EAGAIN then Some (Inr (Goes (s, c))) else loop k s buff buffindex c
   | (Inr got, s) \<Rightarrow>
       if got \<noteq> [] \<and> buffindex + length got \<ge> 4
       then (case cbind (mput buff buffindex got) (\<lambda>buff. process_order k buff (buffindex + length got) c) of
           Inl e \<Rightarrow> Some (Inl e)
         | Inr (Exits n) \<Rightarrow> Some (Inr (Exits n))
         | Inr (Goes (buff, buffindex, c)) \<Rightarrow> loop k s buff buffindex c)
       else (case mput buff buffindex got of
           Inl e \<Rightarrow> Some (Inl e)
         | Inr buff \<Rightarrow> loop k s buff buffindex c)) = Some r"
  show "\<not> (s = [] \<and> buffindex \<le> length buff)"
  proof
    assume z: "s = [] \<and> buffindex \<le> length buff"
    then have "mput buff buffindex [] = Inr buff" by (simp add: mput_def)
    with run z have "loop k [] buff buffindex c = Some r" by simp
    from IH [OF this] z show False by blast
  qed
qed

text \<open>
  A worker whose channel is closed never returns from \<open>order_readfun\<close>: it ends with \<open>EAGAIN\<close>
  only, and at the end of the stream \<open>read\<close> returns 0 for ever.
\<close>
theorem closed_channel_spins:
  assumes "c_in c orderfd = []"
  shows "order_readfun k orderfd c = None"
  using order_loop_eof [of k "[]" "replicate 4096 0" 0 c] assms
  by (cases "order_loop k [] (replicate 4096 0) 0 c") (auto simp: order_readfun_def)

lemma closed_channel_spins_witness: "order_readfun all_fine 3 (fresh_client (\<lambda>_. [])) = None"
  by (rule closed_channel_spins) (simp add: fresh_client_def)

end
