(* ===== verification/Signals.thy ===== *)
theory Signals
  imports GetNum ErrorFunctions
begin

text \<open>
  The programs of \<open>signals\<close> and \<open>threads\<close> and the printing of signal sets in
  \<open>signals/src/signal_functions.c\<close>. A signal set is a predicate on the numbers 1 to 64, what the
  kernel answers is an argument, and all of them end through the functions of
  \<open>lib/src/error_functions.c\<close>; \<open>io\<close> is the errno that the output functions leave behind.
\<close>

section \<open>Signal sets\<close>

type_synonym sigset = "nat \<Rightarrow> bool"

abbreviation (input) NSIG :: nat where "NSIG \<equiv> 65"
abbreviation (input) SIGINT :: nat where "SIGINT \<equiv> 2"
abbreviation (input) SIGQUIT :: nat where "SIGQUIT \<equiv> 3"
abbreviation (input) SIGKILL :: nat where "SIGKILL \<equiv> 9"
abbreviation (input) SIGSTOP :: nat where "SIGSTOP \<equiv> 19"
abbreviation (input) ESRCH :: nat where "ESRCH \<equiv> 3"

definition sig_line :: "(nat \<Rightarrow> string) \<Rightarrow> string \<Rightarrow> nat \<Rightarrow> string" where
  "sig_line strsignal prefix sig = prefix @ decimal sig @ '' ('' @ strsignal sig @ '')'' @ [CHR 10]"

function sig_loop :: "(nat \<Rightarrow> string) \<Rightarrow> string \<Rightarrow> sigset \<Rightarrow> nat \<Rightarrow> nat \<Rightarrow> string \<Rightarrow> nat \<times> string" where
  "sig_loop strsignal prefix sigset sig cnt out =
     (if sig < NSIG
      then if sigset sig then sig_loop strsignal prefix sigset (sig + 1) (cnt + 1) (out @ sig_line strsignal prefix sig)
           else sig_loop strsignal prefix sigset (sig + 1) cnt out
      else (cnt, out))"
  by pat_completeness auto
termination by (relation "measure (\<lambda>(strsignal, prefix, sigset, sig, cnt, out). NSIG - sig)") auto

declare sig_loop.simps [simp del]

definition printSigset :: "(nat \<Rightarrow> string) \<Rightarrow> string \<Rightarrow> sigset \<Rightarrow> string \<Rightarrow> string" where
  "printSigset strsignal prefix sigset out =
     (case sig_loop strsignal prefix sigset 1 0 out of (cnt, out) \<Rightarrow>
        if cnt = 0 then out @ prefix @ ''<empty signal set>'' @ [CHR 10] else out)"

definition tabs :: string where "tabs = [CHR 9, CHR 9]"

text \<open>The mask or the pending signals; \<open>None\<close> when the system call fails.\<close>

definition print_signals :: "(nat \<Rightarrow> string) \<Rightarrow> sigset option \<Rightarrow> string option \<Rightarrow> string \<Rightarrow> int \<times> string" where
  "print_signals strsignal answer msg out =
     (let out = (case msg of None \<Rightarrow> out | Some m \<Rightarrow> out @ m)
      in case answer of None \<Rightarrow> (- 1, out) | Some sset \<Rightarrow> (0, printSigset strsignal tabs sset out))"

definition printSigMask :: "(nat \<Rightarrow> string) \<Rightarrow> sigset option \<Rightarrow> string option \<Rightarrow> string \<Rightarrow> int \<times> string" where
  "printSigMask = print_signals"

definition printPendingSigs :: "(nat \<Rightarrow> string) \<Rightarrow> sigset option \<Rightarrow> string option \<Rightarrow> string \<Rightarrow> int \<times> string" where
  "printPendingSigs = print_signals"

section \<open>\<open>signals/blockSigThenRestore.c\<close>\<close>

text \<open>\<open>SIGKILL\<close> and \<open>SIGSTOP\<close> cannot be blocked.\<close>

definition sig_block :: "sigset \<Rightarrow> sigset \<Rightarrow> sigset" where
  "sig_block sset blocked = (\<lambda>s. blocked s \<or> sset s \<and> s \<noteq> SIGKILL \<and> s \<noteq> SIGSTOP)"

definition sig_setmask :: "sigset \<Rightarrow> sigset" where
  "sig_setmask sset = (\<lambda>s. sset s \<and> s \<noteq> SIGKILL \<and> s \<noteq> SIGSTOP)"

text \<open>The masks after each of the three calls that succeeds, and the exit status; \<open>fails i\<close> is the answer of call \<open>i\<close>.\<close>

definition block_main :: "(nat \<Rightarrow> bool) \<Rightarrow> sigset \<Rightarrow> sigset list \<times> int" where
  "block_main fails blocked =
     (let blockSet = (\<lambda>_. False); blockSet = blockSet(SIGINT := True); prevMask = blocked
      in if fails 0 then ([], 1) else let m0 = sig_block blockSet blocked
      in if fails 1 then ([m0], 1) else let m1 = sig_setmask prevMask; blockSet = (\<lambda>s. 1 \<le> s \<and> s < NSIG)
      in if fails 2 then ([m0, m1], 1) else ([m0, m1, sig_block blockSet m1], 0))"

section \<open>\<open>signals/sigHandler.c\<close>\<close>

definition print :: "string \<Rightarrow> process \<Rightarrow> process" where
  "print msg p = p\<lparr>p_pending := p_pending p @ msg\<rparr>"

text \<open>The static \<open>count\<close> of the handler is part of the state.\<close>

definition sigHandler :: "nat \<Rightarrow> int \<times> process \<Rightarrow> int \<times> process + ending \<times> process" where
  "sigHandler sig st = (case st of (n, p) \<Rightarrow>
     if sig = SIGINT
     then let n = c_int (n + 1) in Inl (n, print (''Caught SIGINT ('' @ show_int n @ '')'' @ [CHR 10]) p)
     else Inr (Exited 0, flush_stdout (print (''Caught SIGQUIT - that''@ [CHR 39] @ ''s all of folks!'' @ [CHR 10]) p)))"

fun pauses :: "nat list \<Rightarrow> int \<times> process \<Rightarrow> int \<times> process + ending \<times> process" where
  "pauses [] st = Inl st"
| "pauses (sig # sigs) st = (case sigHandler sig st of Inl st \<Rightarrow> pauses sigs st | Inr r \<Rightarrow> Inr r)"

text \<open>Only the two signals the handler is established for are handled; \<open>None\<close>: both \<open>signal\<close> calls succeed.\<close>

definition sigHandler_main ::
    "(int \<Rightarrow> string) \<Rightarrow> int \<Rightarrow> nat option \<Rightarrow> nat list \<Rightarrow> process \<Rightarrow> (int \<times> process + ending \<times> process) cres" where
  "sigHandler_main strerr io failing sigs p = (case failing of
     Some e \<Rightarrow> cbind (errExit strerr io ''signal'' (p\<lparr>p_errno := int e\<rparr>)) (\<lambda>r. Inr (Inr r))
   | None \<Rightarrow> Inr (pauses (filter (\<lambda>s. s = SIGINT \<or> s = SIGQUIT) sigs) (0, p)))"

section \<open>\<open>signals/kill.c\<close>\<close>

text \<open>
  The signal sent, and the end of the process. \<open>argv\<close> is the name and the arguments, \<open>kern pid sig\<close>
  the errno of \<open>kill\<close> or \<open>None\<close>. The process number is a \<open>long\<close> where \<open>kill\<close> takes an \<open>int\<close>.
\<close>

definition gn_exit :: "string \<Rightarrow> process \<Rightarrow> ending \<times> process" where
  "gn_exit msg p = (Exited 1, flush_stdout (put_log Stderr msg p))"

definition kill_main :: "(int \<Rightarrow> string) \<Rightarrow> int \<Rightarrow> (int \<Rightarrow> int \<Rightarrow> nat option) \<Rightarrow> string list \<Rightarrow> process
    \<Rightarrow> ((int \<times> int) option \<times> ending \<times> process) cres" where
  "kill_main strerr io kern argv p =
     (if length argv \<noteq> 3 \<or> argv ! 1 = ''--help'' then Inr (None, usageErr (argv ! 0 @ '' sig-num pid'' @ [CHR 10]) p)
      else case getInt (Some (argv ! 2)) 0 (Some ''sig-num'') of
        Inl msg \<Rightarrow> Inr (None, gn_exit msg p)
      | Inr sig \<Rightarrow> (case getLong (Some (argv ! 1)) 0 (Some ''pid'') of
          Inl msg \<Rightarrow> Inr (None, gn_exit msg p)
        | Inr pid \<Rightarrow>
            let s = kern (c_int pid) sig; sent = Some (c_int pid, sig);
                bad = (\<lambda>e. cbind (errExit strerr io ''kill'' (p\<lparr>p_errno := int e\<rparr>)) (\<lambda>r. Inr (sent, r)));
                fine = (\<lambda>msg. Inr (sent, Exited 0, flush_stdout (print msg p)))
            in if sig \<noteq> 0 then (case s of Some e \<Rightarrow> bad e | None \<Rightarrow> fine [])
               else (case s of
                   None \<Rightarrow> fine (''Process exists and we can send it a signal'' @ [CHR 10])
                 | Some e \<Rightarrow>
                     if e = EPERM then fine (''Process exists, but we don'' @ [CHR 39] @ ''t havepermission to send it a signal'' @ [CHR 10])
                     else if e = ESRCH then fine (''Process does not exist'' @ [CHR 10])
                     else bad e)))"

section \<open>\<open>threads\<close>\<close>

text \<open>A chain of calls that return an error number, each followed by \<open>errExitEN\<close> when it is not 0.\<close>

fun chain :: "(int \<Rightarrow> string) \<Rightarrow> int \<Rightarrow> (int \<times> string) list \<Rightarrow> process \<Rightarrow> (ending \<times> process) cres" where
  "chain strerr io [] p = Inr (Exited 0, flush_stdout p)"
| "chain strerr io ((s, msg) # calls) p = (if s \<noteq> 0 then errExitEN strerr io s msg p else chain strerr io calls p)"

definition detached_main :: "(int \<Rightarrow> string) \<Rightarrow> int \<Rightarrow> int \<times> int \<times> int \<times> int \<times> int \<Rightarrow> process \<Rightarrow> (ending \<times> process) cres" where
  "detached_main strerr io answers p = (case answers of (a, b, c, d, e) \<Rightarrow>
     chain strerr io [(a, ''pthread_attr_init''), (b, ''pthread_attr_setdetachstate''), (c, ''pthread_create''),
       (d, ''pthread_attr_destroy''), (e, ''pthread_join failed as expected'')] p)"

text \<open>The thread prints before or after the message of \<open>main\<close>.\<close>

definition threadFunc :: "string \<Rightarrow> process \<Rightarrow> int \<times> process" where
  "threadFunc s p = (int (length s), print (s @ [CHR 10]) p)"

definition simple_main :: "(int \<Rightarrow> string) \<Rightarrow> int \<Rightarrow> int \<Rightarrow> int \<Rightarrow> bool \<Rightarrow> process \<Rightarrow> (ending \<times> process) cres" where
  "simple_main strerr io created joined first p =
     (if created \<noteq> 0 then errExitEN strerr io created ''pthread_create'' p
      else let s = ''Hello thread'' @ [CHR 10]; hello = print (''Message from main()'' @ [CHR 10]);
               (res, p) = (if first then (case threadFunc s p of (res, p) \<Rightarrow> (res, hello p)) else threadFunc s (hello p))
           in if joined \<noteq> 0 then errExitEN strerr io joined ''pthread_join'' p
              else Inr (Exited 0, flush_stdout (print (''Thread returned '' @ show_int res @ [CHR 10]) p)))"

section \<open>What is printed tells the sets apart\<close>

definition members :: "sigset \<Rightarrow> nat \<Rightarrow> nat list" where
  "members sigset sig = filter sigset [sig..<NSIG]"

lemma sig_loop_all:
  "sig_loop strsignal prefix sigset sig cnt out
    = (cnt + length (members sigset sig), out @ concat (map (sig_line strsignal prefix) (members sigset sig)))"
proof (induction strsignal prefix sigset sig cnt out rule: sig_loop.induct)
  case (1 strsignal prefix sigset sig cnt out)
  show ?case
  proof (cases "sig < NSIG")
    case True
    then have "members sigset sig = (if sigset sig then [sig] else []) @ members sigset (sig + 1)"
      by (simp add: members_def upt_conv_Cons del: upt_Suc)
    then show ?thesis using 1 True by (simp add: sig_loop.simps [of _ _ _ sig])
  qed (simp add: sig_loop.simps members_def)
qed

lemma printSigset_lines:
  "printSigset strsignal prefix sigset out = out @ (if members sigset 1 = [] then prefix @ ''<empty signal set>'' @ [CHR 10]
     else concat (map (sig_line strsignal prefix) (members sigset 1)))"
  by (simp add: printSigset_def sig_loop_all)

lemma decimal_inject:
  assumes "decimal m @ CHR '' '' # u = decimal n @ CHR '' '' # v"
  shows "m = n \<and> u = v"
proof -
  have stop: "takeWhile (\<lambda>c. c \<noteq> CHR '' '') (decimal k @ CHR '' '' # w) = decimal k"
    "dropWhile (\<lambda>c. c \<noteq> CHR '' '') (decimal k @ CHR '' '' # w) = CHR '' '' # w" for k w
    using decimal_head(1) [of "CHR '' ''" k]
    by (subst takeWhile_append2 dropWhile_append2; force simp: is_space_def)+
  have "decimal m = decimal n" using stop(1) assms by metis
  then have "int m = int n" by (metis digits_val_decimal)
  with stop(2) assms show ?thesis by (metis list.inject of_nat_eq_iff)
qed

lemma sig_line_inject:
  assumes "sig_line strsignal prefix m @ u = sig_line strsignal prefix n @ v"
  shows "m = n \<and> u = v"
proof -
  have "decimal m @ CHR '' '' # (CHR ''('' # strsignal m @ '')'' @ [CHR 10] @ u) = decimal n @ CHR '' '' # (CHR ''('' # strsignal n @ '')'' @ [CHR 10] @ v)"
    using assms by (simp add: sig_line_def)
  from decimal_inject [OF this] show ?thesis by auto
qed

lemma sig_lines_inject:
  "concat (map (sig_line strsignal prefix) ms) = concat (map (sig_line strsignal prefix) ns) \<Longrightarrow> ms = ns"
proof (induction ms arbitrary: ns)
  case Nil
  then show ?case by (cases ns) (auto simp: sig_line_def)
next
  case (Cons m ms)
  show ?case
  proof (cases ns)
    case Nil
    with Cons.prems show ?thesis by (simp add: sig_line_def)
  next
    case (Cons n ns')
    with Cons.prems have "m = n \<and> concat (map (sig_line strsignal prefix) ms) = concat (map (sig_line strsignal prefix) ns')"
      by (intro sig_line_inject) simp
    with Cons.IH [of ns'] Cons show ?thesis by simp
  qed
qed

lemma sig_lines_inject_iff:
  "concat (map (sig_line strsignal prefix) ms) = concat (map (sig_line strsignal prefix) ns) \<longleftrightarrow> ms = ns"
  using sig_lines_inject by metis

lemma not_empty_line: "prefix @ ''<empty signal set>'' @ [CHR 10] \<noteq> concat (map (sig_line strsignal prefix) (m # ms))"
proof
  assume "prefix @ ''<empty signal set>'' @ [CHR 10] = concat (map (sig_line strsignal prefix) (m # ms))"
  then have "CHR ''<'' = hd (decimal m @ '' ('')" by (cases "decimal m") (simp_all add: sig_line_def)
  then have "CHR ''<'' \<in> set (decimal m)" by (cases "decimal m") simp_all
  then obtain d where "d < 10" "CHR ''<'' = digit_char d" using decimal_digits by blast
  then have "digit_val (CHR ''<'') = Some d" using digit_val_char by simp
  then show False by (simp add: digit_val_def)
qed

lemma members_set: "members s 1 = members s' 1 \<longleftrightarrow> (\<forall>sig\<in>{1..64}. s sig = s' sig)"
proof
  have mem: "sig \<in> set (members t 1) \<longleftrightarrow> sig \<in> {1..64} \<and> t sig" for sig t
    unfolding members_def by (auto simp only: set_filter set_upt mem_Collect_eq atLeastLessThan_iff atLeastAtMost_iff)
  assume "members s 1 = members s' 1"
  then show "\<forall>sig\<in>{1..64}. s sig = s' sig" using mem by metis
next
  assume "\<forall>sig\<in>{1..64}. s sig = s' sig"
  then show "members s 1 = members s' 1" unfolding members_def
    by (intro filter_cong refl) (simp only: set_upt atLeastLessThan_iff atLeastAtMost_iff Ball_def less_Suc_eq_le [of _ 64, simplified])
qed

section \<open>What the programs do\<close>

text \<open>In the critical section \<open>SIGINT\<close> is blocked, then the mask is what it was, and in the end all that can be is blocked.\<close>

lemma block_main_masks:
  assumes "\<not> blocked SIGKILL" "\<not> blocked SIGSTOP"
  shows "block_main (\<lambda>_. False) blocked
    = ([blocked(SIGINT := True), blocked, \<lambda>s. blocked s \<or> 1 \<le> s \<and> s \<le> 64 \<and> s \<noteq> SIGKILL \<and> s \<noteq> SIGSTOP], 0)"
  using assms by (auto simp: block_main_def sig_block_def sig_setmask_def Let_def fun_eq_iff)

fun caught :: "nat \<Rightarrow> string" where
  "caught 0 = []"
| "caught (Suc n) = caught n @ ''Caught SIGINT ('' @ show_int (int (Suc n)) @ '')'' @ [CHR 10]"

lemma pauses_append: "pauses (xs @ ys) st = (case pauses xs st of Inl st \<Rightarrow> pauses ys st | Inr r \<Rightarrow> Inr r)"
  by (induction xs arbitrary: st) (simp_all split: sum.splits)

lemma pauses_ints: "int n \<le> INT_MAX \<Longrightarrow> pauses (replicate n SIGINT) (0, p) = Inl (int n, print (caught n) p)"
proof (induction n)
  case (Suc n)
  have "replicate (Suc n) SIGINT = replicate n SIGINT @ [SIGINT]" by (simp add: replicate_append_same)
  with Suc show ?case by (simp add: pauses_append sigHandler_def print_def Let_def add.commute del: replicate.simps)
qed (simp add: print_def)

text \<open>\<open>sigHandler\<close> counts the \<open>SIGINT\<close>s and ends with the first \<open>SIGQUIT\<close>, whatever follows.\<close>

lemma sigHandler_counts:
  assumes "int n \<le> INT_MAX"
  shows "\<exists>p'. sigHandler_main strerr io None (replicate n SIGINT @ SIGQUIT # rest) p = Inr (Inr (Exited 0, p'))
    \<and> p_log p' = p_log p @ [(Stdout, p_pending p @ caught n @ ''Caught SIGQUIT - that'' @ [CHR 39] @ ''s all of folks!'' @ [CHR 10])]"
  using pauses_ints [OF assms, of p]
  by (simp add: sigHandler_main_def pauses_append filter_replicate sigHandler_def flush_stdout_def put_log_def print_def)

lemma show_int_no_help: "show_int a \<noteq> ''--help''"
proof
  assume "show_int a = ''--help''"
  then have "CHR ''-'' \<in> set (decimal (nat \<bar>a\<bar>))" by (auto simp: show_int_def split: if_splits)
  then show False using decimal_head(2) by blast
qed

lemma getInt_show: "INT_MIN \<le> i \<Longrightarrow> i \<le> INT_MAX \<Longrightarrow> getInt (Some (show_int i)) 0 name = Inr i"
    "INT_MIN \<le> i \<Longrightarrow> i \<le> INT_MAX \<Longrightarrow> getLong (Some (show_int i)) 0 name = Inr i"
  using strtol_show_int [of i] by (simp_all add: show_int_def getLong_def getInt_def getNum_def gn_flags Let_def)

section \<open>Properties\<close>

text \<open>
  What \<open>printSigset\<close> prints for a set, whatever the names of the signals are, tells which of the
  64 signals are in it: two sets are printed alike exactly when they agree on them.
\<close>
theorem printSigset_tells_apart:
  "printSigset strsignal prefix s out = printSigset strsignal prefix s' out \<longleftrightarrow> (\<forall>sig\<in>{1..64}. s sig = s' sig)"
proof -
  have "printSigset strsignal prefix s out = printSigset strsignal prefix s' out \<longleftrightarrow> members s 1 = members s' 1"
  proof (cases "members s 1 = [] \<or> members s' 1 = []")
    case True
    then show ?thesis unfolding printSigset_lines same_append_eq
      by (cases "members s 1"; cases "members s' 1")
        (simp_all only: if_True if_False list.distinct not_empty_line not_empty_line [symmetric] simp_thms)
  next
    case False
    then show ?thesis unfolding printSigset_lines same_append_eq de_Morgan_disj
      by (elim conjE) (simp only: if_False sig_lines_inject_iff)
  qed
  then show ?thesis by (simp only: members_set)
qed

lemma printSigset_tells_apart_witness:
  "printSigset (\<lambda>_. ''?'') tabs (\<lambda>s. s = 2) [] \<noteq> printSigset (\<lambda>_. ''?'') tabs (\<lambda>s. s = 3) []"
  using printSigset_tells_apart [of "\<lambda>_. ''?''" tabs "\<lambda>s. s = 2" "[]" "\<lambda>s. s = 3"] by force

text \<open>
  \<open>kill\<close> takes its arguments in the order pid, signal, not in the order \<open>sig-num pid\<close> of its usage
  message; and it exits with status 0 exactly when the signal was sent, or when it was the null signal
  and the answer is that the process does not exist or may not be signalled.
\<close>
theorem kill_sends:
  assumes "- 2147483648 \<le> a" "a \<le> 2147483647" "- 2147483648 \<le> b" "b \<le> 2147483647"
  shows "\<exists>e p'. kill_main strerr io kern [name, show_int a, show_int b] p = Inr (Some (a, b), e, p')
    \<and> (e = Exited 0 \<longleftrightarrow> kern a b = None \<or> b = 0 \<and> (kern a b = Some EPERM \<or> kern a b = Some ESRCH))"
proof -
  note parse = getInt_show [OF assms(1,2)] getInt_show [OF assms(3,4)]
  have c: "c_int a = a" using assms(1,2) by simp
  have bad: "\<exists>p'. errExit strerr io ''kill'' (p\<lparr>p_errno := e\<rparr>) = Inr (end_of p, p')" for e
    using errExit_ends [of strerr io "''kill''" "p\<lparr>p_errno := e\<rparr>"] by (simp add: end_of_def)
  have run: "kill_main strerr io kern [name, show_int a, show_int b] p
      = (case kern a b of
           None \<Rightarrow> Inr (Some (a, b), Exited 0, flush_stdout (print (if b = 0 then ''Process exists and we can send it a signal'' @ [CHR 10] else []) p))
         | Some e \<Rightarrow>
             if b = 0 \<and> e = EPERM
             then Inr (Some (a, b), Exited 0, flush_stdout (print (''Process exists, but we don'' @ [CHR 39] @ ''t havepermission to send it a signal'' @ [CHR 10]) p))
             else if b = 0 \<and> e = ESRCH then Inr (Some (a, b), Exited 0, flush_stdout (print (''Process does not exist'' @ [CHR 10]) p))
             else cbind (errExit strerr io ''kill'' (p\<lparr>p_errno := int e\<rparr>)) (\<lambda>r. Inr (Some (a, b), r)))"
    using show_int_no_help [of a] by (simp add: kill_main_def parse c Let_def split: option.splits)
  show ?thesis
  proof (cases "kern a b")
    case None
    then show ?thesis unfolding run by simp
  next
    case (Some e)
    then show ?thesis unfolding run using bad [of "int e"] end_of_nonzero [of p] by auto
  qed
qed

lemma kill_sends_witness:
  "\<exists>e p'. kill_main (\<lambda>_. []) 0 (\<lambda>_ _. None) [''kill'', show_int 9, show_int 4711] \<lparr>p_log = [], p_pending = [], p_errno = 0, p_dumpcore = None\<rparr>
    = Inr (Some (9, 4711), e, p')"
  using kill_sends [of 9 4711 "\<lambda>_. []" 0 "\<lambda>_ _. None" "''kill''"
    "\<lparr>p_log = [], p_pending = [], p_errno = 0, p_dumpcore = None\<rparr>"] by auto

end
