(* ===== verification/SelectServer.thy ===== *)
theory SelectServer
  imports Sockets Streams
begin

text \<open>
  The \<open>select\<close> server, \<open>IOModels/select/serverModel.c\<close> and \<open>.h\<close>, the earlier text of the \<open>poll\<close>
  server. The source does not compile as it stands; where a name is misspelled it is read as the
  one that is declared (\<open>connections\<close> as the parameter \<open>connection\<close>, \<open>next_buffer\<close> as \<open>nextBuffer\<close>,
  \<open>closePending\<close> as \<open>PclosePending\<close>, \<open>pClients.[i]\<close> as \<open>pClients[i]\<close>, \<open>true = pClients[i].inUse\<close> as a
  comparison). The functions of another program it calls - the callbacks, the clock, the request
  parser, two cases of the state machine - are arguments. The kernel's answers are arguments too:
  what a socket takes of the bytes sent to it is a script. One thread runs all of this: the mutex that
  \<open>TransmitPending\<close> takes and gives back is left out.
\<close>

section \<open>Data\<close>

abbreviation (input) MAX_CONNECTIONS :: int where "MAX_CONNECTIONS \<equiv> 10"
abbreviation (input) NET_BUFFER_SIZE :: nat where "NET_BUFFER_SIZE \<equiv> 1024"
abbreviation (input) reserveConn :: nat where "reserveConn \<equiv> 4"
abbreviation (input) FD_SETSIZE :: int where "FD_SETSIZE \<equiv> 1024"

definition TCP_PORT :: int where "TCP_PORT = 49152"

datatype ConnectionState = eIdle | eNewConnection | eWaitForRecvData | eWaitForSendData
  | eProcessingRequest | eDataReceived | eDataSending | eFinishedRequest | eUnrecoverableFailureOrEnd

type_synonym sockaddr = nat

record Connection =
  c_usb :: bool
  c_tcp :: bool
  c_inUse :: bool
  c_socket :: int
  c_PclosePending :: bool
  c_peer :: sockaddr
  c_local :: sockaddr
  c_state :: ConnectionState
  c_idleTime :: int
  c_waitTickValid :: bool
  c_waitTickTime :: int
  c_pendingSendBuffer :: "byte list"
  c_partialSendBuffer :: "byte list"
  c_recvBuffer :: "byte list"
  c_clientCallback :: "nat option"            \<comment> \<open>the callbacks are numbered\<close>
  c_stackSize :: int
  c_callbackRunningNow :: bool
  c_handlingWrites :: bool

definition zero_conn :: Connection where
  "zero_conn = \<lparr>c_usb = False, c_tcp = False, c_inUse = False, c_socket = 0, c_PclosePending = False, c_peer = 0,
     c_local = 0, c_state = eIdle, c_idleTime = 0, c_waitTickValid = False, c_waitTickTime = 0,
     c_pendingSendBuffer = replicate NET_BUFFER_SIZE 0, c_partialSendBuffer = replicate NET_BUFFER_SIZE 0, c_recvBuffer = replicate NET_BUFFER_SIZE 0,
     c_clientCallback = None, c_stackSize = 0, c_callbackRunningNow = False, c_handlingWrites = False\<rparr>"

definition no_conn :: Connection where
  "no_conn = zero_conn\<lparr>c_socket := -1\<rparr>"

text \<open>
  \<open>maxConnections\<close> is the length of \<open>pClients\<close>: \<open>Initialize\<close> allocates that many and neither changes
  afterwards. \<open>s_out\<close> is the sending side of every socket.
\<close>

record server =
  pClients :: "Connection list"
  connectionsActive :: int
  s_net :: net
  s_out :: "int \<Rightarrow> fdout"

abbreviation maxConnections :: "server \<Rightarrow> nat" where
  "maxConnections s \<equiv> length (pClients s)"

definition set_conn :: "nat \<Rightarrow> Connection \<Rightarrow> server \<Rightarrow> server" where
  "set_conn i c s = s\<lparr>pClients := (pClients s)[i := c]\<rparr>"

definition Initialize :: "int \<Rightarrow> bool \<Rightarrow> server \<Rightarrow> server cres" where
  "Initialize desireMaxConnections allocated s =
     (let n = (if desireMaxConnections > 0 then desireMaxConnections else MAX_CONNECTIONS)
      in if allocated then Inr (s\<lparr>pClients := replicate (nat n) no_conn, connectionsActive := 0\<rparr>)
         else Inl Assert_Fail)"

section \<open>Opening and closing connections\<close>

definition CloseConnection :: "nat \<Rightarrow> server \<Rightarrow> server" where
  "CloseConnection i s =
     (if connectionsActive s = 0 then s
      else (set_conn i no_conn s)\<lparr>s_net := sys_close (c_socket (pClients s ! i)) (s_net s),
             connectionsActive := connectionsActive s - 1\<rparr>)"

text \<open>The search for the connection that has been idle longest: index and idle time so far.\<close>

fun find_stale :: "Connection list \<Rightarrow> nat \<Rightarrow> nat option \<Rightarrow> int \<Rightarrow> nat option" where
  "find_stale [] i staleIndex longestIdle = staleIndex"
| "find_stale (c # cs) i staleIndex longestIdle =
     (if longestIdle < c_idleTime c \<and> (c_state c = eIdle \<or> c_state c = eNewConnection) \<and> \<not> c_callbackRunningNow c
      then find_stale cs (Suc i) (Some i) (c_idleTime c)
      else find_stale cs (Suc i) staleIndex longestIdle)"

text \<open>
  The answer to \<open>accept\<close>: both addresses and how the new socket will take what is sent to it, or
  \<open>None\<close> when it fails.
\<close>

type_synonym accepted = "(sockaddr \<times> sockaddr \<times> wr list) option"

definition establish :: "bool \<Rightarrow> accepted \<Rightarrow> server \<Rightarrow> server" where
  "establish usbConnection acc s =
     (case find (\<lambda>i. \<not> c_inUse (pClients s ! i)) [reserveConn..<maxConnections s] of
        None \<Rightarrow> s
      | Some indexToUse \<Rightarrow> (case acc of
          None \<Rightarrow> s
        | Some (peer, local, script) \<Rightarrow>
            let thisSocket = fresh_fd (n_open (s_net s));
                c = zero_conn\<lparr>c_local := local, c_socket := thisSocket, c_inUse := True,
                      c_state := eNewConnection, c_usb := usbConnection\<rparr>
            in (set_conn indexToUse c s)\<lparr>
                 s_net := (s_net s)\<lparr>n_open := thisSocket # n_open (s_net s)\<rparr>,
                 s_out := (s_out s)(thisSocket := \<lparr>out_script = script, out_sent = []\<rparr>),
                 connectionsActive := connectionsActive s + 1\<rparr>))"

definition NewConnection :: "bool \<Rightarrow> accepted \<Rightarrow> server \<Rightarrow> server" where
  "NewConnection usbConnection acc s =
     (if connectionsActive s + int reserveConn \<ge> int (maxConnections s) then
        (case find_stale (drop reserveConn (pClients s)) reserveConn None 0 of
           None \<Rightarrow> s
         | Some staleIndex \<Rightarrow> establish usbConnection acc (CloseConnection staleIndex s))
      else establish usbConnection acc s)"

section \<open>Sets of descriptors\<close>

type_synonym fds = "int list"

definition FD_SET :: "int \<Rightarrow> fds \<Rightarrow> fds cres" where
  "FD_SET fd S = (if 0 \<le> fd \<and> fd < FD_SETSIZE then Inr (fd # S) else Inl Out_Of_Bounds)"

definition FD_ISSET :: "int \<Rightarrow> fds \<Rightarrow> bool cres" where
  "FD_ISSET fd S = (if 0 \<le> fd \<and> fd < FD_SETSIZE then Inr (fd \<in> set S) else Inl Out_Of_Bounds)"

fun each :: "(nat \<Rightarrow> server \<Rightarrow> server cres option) \<Rightarrow> nat list \<Rightarrow> server \<Rightarrow> server cres option" where
  "each f [] s = Some (Inr s)"
| "each f (i # is) s = (case f i s of None \<Rightarrow> None | Some (Inl e) \<Rightarrow> Some (Inl e) | Some (Inr s) \<Rightarrow> each f is s)"

section \<open>ReceiveLoop\<close>

text \<open>\<open>recv\<close> of a socket: \<open>None\<close> for an error, \<open>[]\<close> when the peer has closed.\<close>

definition receive_one :: "(int \<Rightarrow> byte list option) \<Rightarrow> fds \<Rightarrow> nat \<Rightarrow> server \<Rightarrow> server cres" where
  "receive_one recv fds i s = (let c = pClients s ! i in
     if c_socket c \<noteq> -1 \<and> c_inUse c then
       cbind (FD_ISSET (c_socket c) fds) (\<lambda>r.
         if \<not> r then Inr s
         else (case map_option (take NET_BUFFER_SIZE) (recv (c_socket c)) of
             Some (b # bs) \<Rightarrow> Inr (set_conn i (c\<lparr>c_recvBuffer := (b # bs) @ drop (Suc (length bs)) (c_recvBuffer c),
                 c_state := eDataReceived\<rparr>) s)
           | _ \<Rightarrow> Inr (CloseConnection i s)))
     else Inr s)"

definition ReceiveLoop :: "(int \<Rightarrow> byte list option) \<Rightarrow> fds \<Rightarrow> server \<Rightarrow> server cres option" where
  "ReceiveLoop recv fds s =
     (if connectionsActive s = 0 then Some (Inr s)
      else each (\<lambda>i s. Some (receive_one recv fds i s)) [0..<maxConnections s] s)"

section \<open>Sending\<close>

definition strlen :: "byte list \<Rightarrow> nat \<Rightarrow> nat cres" where
  "strlen buf p = (if 0 \<in> set (drop p buf) then Inr (length (takeWhile (\<lambda>b. b \<noteq> 0) (drop p buf)))
     else Inl Out_Of_Bounds)"

text \<open>
  One turn of the loop of \<open>TransmitPending\<close>, and the loop. The pointers into \<open>pendingSendBuffer\<close> are
  offsets: \<open>buffer\<close> is at \<open>p\<close>, and \<open>nextBuffer\<close> keeps its value when \<open>buffer\<close> is set to NULL after the last
  byte went out. An errno of 0 goes on; \<open>None\<close> is a loop that does not end.
\<close>

datatype turn = Leave bool "byte list" fdout | Go_On "byte list" "nat option" fdout

definition send_turn :: "bool \<Rightarrow> byte list \<Rightarrow> nat \<Rightarrow> nat option \<Rightarrow> fdout \<Rightarrow> turn cres" where
  "send_turn live buf p nextBuffer out = cbind (strlen buf p) (\<lambda>n.
     let (bytes, out) = (if live then sys_write (take (n + 1) (drop p buf)) out else (Inl EINVAL, out));
         q = (case bytes of Inl _ \<Rightarrow> p | Inr k \<Rightarrow> p + k)
     in cbind (strlen buf q) (\<lambda>m.
       let (buf, buffer, nextBuffer) =
             (if m = 0 then (replicate NET_BUFFER_SIZE 0, None, nextBuffer) else (buf, Some q, Some q))
       in case bytes of
            Inl e \<Rightarrow> Inr (if e = 0 then Go_On buf nextBuffer out
              else if e = EAGAIN then Leave True buf out
              else Leave False (if buffer \<noteq> None then replicate NET_BUFFER_SIZE 0 else buf) out)
          | Inr k \<Rightarrow> Inr (Go_On buf nextBuffer out)))"

partial_function (option) send_loop ::
    "bool \<Rightarrow> byte list \<Rightarrow> nat \<Rightarrow> nat option \<Rightarrow> fdout \<Rightarrow> (bool \<times> byte list \<times> fdout) cres option" where
  "send_loop live buf p nextBuffer out = (case send_turn live buf p nextBuffer out of
     Inl f \<Rightarrow> Some (Inl f)
   | Inr (Leave status buf out) \<Rightarrow> Some (Inr (status, buf, out))
   | Inr (Go_On buf None out) \<Rightarrow> Some (Inr (True, buf, out))
   | Inr (Go_On buf (Some p) out) \<Rightarrow> send_loop live buf p (Some p) out)"

definition TransmitPending :: "nat \<Rightarrow> server \<Rightarrow> (bool \<times> server) cres option" where
  "TransmitPending i s = (let c = pClients s ! i; fd = c_socket c in
     case send_loop (fd \<noteq> -1) (c_pendingSendBuffer c) 0 None (s_out s fd) of
       None \<Rightarrow> None
     | Some (Inl f) \<Rightarrow> Some (Inl f)
     | Some (Inr (status, buf, out)) \<Rightarrow>
         Some (Inr (status, (set_conn i (c\<lparr>c_pendingSendBuffer := buf\<rparr>) s)\<lparr>s_out := (s_out s)(fd := out)\<rparr>)))"

text \<open>
  \<open>pendingSendBuffer\<close> is an array: comparing it with NULL is always unequal. So the branch that sets a
  connection idle is never taken, and the one that closes is taken for every connection not in use.
\<close>

definition transmit_one :: "fds \<Rightarrow> nat \<Rightarrow> server \<Rightarrow> server cres option" where
  "transmit_one fds i s = (let c = pClients s ! i in
     if c_inUse c then
       (case FD_ISSET (c_socket c) fds of
          Inl f \<Rightarrow> Some (Inl f)
        | Inr r \<Rightarrow>
            if r then (case TransmitPending i s of
                None \<Rightarrow> None
              | Some (Inl f) \<Rightarrow> Some (Inl f)
              | Some (Inr (status, s)) \<Rightarrow> Some (Inr (if status then s else CloseConnection i s)))
            else Some (Inr s))
     else Some (Inr (CloseConnection i s)))"

definition TransmitPendingLoop :: "fds \<Rightarrow> server \<Rightarrow> server cres option" where
  "TransmitPendingLoop fds s = each (transmit_one fds) [0..<maxConnections s] s"

section \<open>ServerRun\<close>

text \<open>
  What the other program does: the callbacks, \<open>DetermineClientRequest\<close>, the clock in its own unit with
  \<open>MAX_WAITING_HTTP_CLIENT\<close>, and the cases \<open>eProcessingRequest\<close> and \<open>eUnrecoverableFailureOrEnd\<close>.
  \<open>o_create\<close> is what \<open>pthread_create\<close> returns.
\<close>

record outside =
  o_create :: int
  o_hook :: "nat \<Rightarrow> Connection \<Rightarrow> bool \<times> Connection"
  o_determine :: bool
  o_tick :: int
  o_max_waiting :: int
  o_case :: "nat \<Rightarrow> server \<Rightarrow> server cres"

text \<open>\<open>assert(result)\<close> demands that \<open>pthread_create\<close> return something other than 0.\<close>

definition SpawnHookThread :: "int \<Rightarrow> bool cres" where
  "SpawnHookThread create = (if create = 0 then Inl Assert_Fail else Inr True)"

definition HandleConnectionHook :: "outside \<Rightarrow> Connection \<Rightarrow> (bool \<times> Connection) cres" where
  "HandleConnectionHook out c =
     (if c_stackSize c \<noteq> 0 then
        cbind (SpawnHookThread (o_create out)) (\<lambda>ok. Inr (ok, c\<lparr>c_callbackRunningNow := ok\<rparr>))
      else (case c_clientCallback c of None \<Rightarrow> Inl Null_Deref | Some h \<Rightarrow> Inr (o_hook out h c)))"

definition data_received :: "outside \<Rightarrow> Connection \<Rightarrow> Connection cres" where
  "data_received out c =
     (if c_callbackRunningNow c then Inr c
      else let c = c\<lparr>c_waitTickValid := False\<rparr>
           in if c_clientCallback c \<noteq> None \<and> \<not> o_determine out then Inr c
              else cbind (HandleConnectionHook out c) (\<lambda>(_, c). Inr c))"

definition wait_for_data :: "outside \<Rightarrow> nat \<Rightarrow> server \<Rightarrow> server" where
  "wait_for_data out i s = (let c = pClients s ! i in
     if c_callbackRunningNow c then s
     else if c_waitTickValid c then
       let diffTime = (if o_tick out > c_waitTickTime c then o_tick out - c_waitTickTime c else 0)
       in if o_max_waiting out < diffTime then CloseConnection i s
          else if diffTime = 0 then set_conn i (c\<lparr>c_waitTickTime := o_tick out\<rparr>) s
          else s
     else set_conn i (c\<lparr>c_waitTickTime := o_tick out, c_waitTickValid := True\<rparr>) s)"

definition state_case :: "outside \<Rightarrow> nat \<Rightarrow> server \<Rightarrow> server cres" where
  "state_case out i s = (let c = pClients s ! i in
     case c_state c of
       eDataReceived \<Rightarrow> cbind (data_received out c) (\<lambda>c. Inr (set_conn i c s))
     | eDataSending \<Rightarrow> Inr s
     | eWaitForRecvData \<Rightarrow> Inr (wait_for_data out i s)
     | eUnrecoverableFailureOrEnd \<Rightarrow> o_case out i s
     | eProcessingRequest \<Rightarrow> if c_callbackRunningNow c then Inr s
         else o_case out i (set_conn i (c\<lparr>c_waitTickValid := False\<rparr>) s)
     | _ \<Rightarrow> Inr (set_conn i (c\<lparr>c_waitTickValid := False\<rparr>) s))"

partial_function (option) state_loop :: "outside \<Rightarrow> nat \<Rightarrow> server \<Rightarrow> server cres option" where
  "state_loop out i s = (case state_case out i s of
     Inl f \<Rightarrow> Some (Inl f)
   | Inr s' \<Rightarrow> if c_state (pClients s ! i) \<noteq> c_state (pClients s' ! i) then state_loop out i s' else Some (Inr s'))"

definition age :: "Connection \<Rightarrow> Connection" where
  "age c = (let c = (if c_callbackRunningNow c then c\<lparr>c_waitTickValid := False\<rparr> else c)
     in c\<lparr>c_idleTime := (if c_state c = eIdle \<or> c_state c = eNewConnection then c_int (c_idleTime c + 1) else 0)\<rparr>)"

definition run_one :: "outside \<Rightarrow> nat \<Rightarrow> server \<Rightarrow> server cres option" where
  "run_one out i s = (let c = pClients s ! i in
     if c_inUse c then state_loop out i (set_conn i (age c) s) else Some (Inr s))"

definition ServerRun :: "outside \<Rightarrow> server \<Rightarrow> server cres option" where
  "ServerRun out s = each (run_one out) [0..<maxConnections s] s"

section \<open>ServerModelMain\<close>

text \<open>
  One round of the main loop. \<open>select\<close> is given the descriptors collected in both sets and leaves
  those of them that are in \<open>k_rd\<close> and \<open>k_wr\<close>. (The source computes its first argument from two
  variables, \<open>maxSockfd\<close> and the undeclared \<open>maxSocket\<close>; that \<open>select\<close> looks at every descriptor of the
  sets is assumed here.)
\<close>

record kernel =
  k_outside :: outside
  k_gai :: "string \<Rightarrow> int + cand list"
  k_opt :: answer
  k_select_ok :: bool
  k_rd :: fds
  k_wr :: fds
  k_accept :: accepted
  k_recv :: "int \<Rightarrow> byte list option"

fun watch :: "Connection list \<Rightarrow> fds \<Rightarrow> fds \<Rightarrow> bool \<Rightarrow> (fds \<times> fds \<times> bool) cres" where
  "watch [] rd wr needWrite = Inr (rd, wr, needWrite)"
| "watch (c # cs) rd wr needWrite =
     (if c_inUse c then
        cbind (if \<not> c_callbackRunningNow c then FD_SET (c_socket c) rd else Inr rd) (\<lambda>rd.
          if \<not> (c_callbackRunningNow c \<and> c_handlingWrites c)
          then cbind (FD_SET (c_socket c) wr) (\<lambda>wr. watch cs rd wr True)
          else watch cs rd wr needWrite)
      else watch cs rd wr needWrite)"

definition listen_once :: "kernel \<Rightarrow> int \<times> server \<Rightarrow> (int \<times> server) cres" where
  "listen_once k m = (case m of (tcpSocket, s) \<Rightarrow>
     if tcpSocket < 0
     then cbind (CreateListeningSocket (k_gai k) (k_opt k) TCP_PORT (s_net s)) (\<lambda>(fd, net). Inr (fd, s\<lparr>s_net := net\<rparr>))
     else Inr (tcpSocket, s))"

definition obind :: "'a cres option \<Rightarrow> ('a \<Rightarrow> 'b cres option) \<Rightarrow> 'b cres option" where
  "obind r f = (case r of None \<Rightarrow> None | Some (Inl e) \<Rightarrow> Some (Inl e) | Some (Inr x) \<Rightarrow> f x)"

definition answered :: "kernel \<Rightarrow> int \<Rightarrow> fds \<Rightarrow> fds \<Rightarrow> bool \<Rightarrow> server \<Rightarrow> server cres option" where
  "answered k tcpSocket rd wr needWrite s =
     (let s = (if tcpSocket \<ge> 0 \<and> tcpSocket \<in> set rd \<and> connectionsActive s < int (maxConnections s)
               then NewConnection False (k_accept k) s else s)
      in obind (ReceiveLoop (k_recv k) rd s) (\<lambda>s. if needWrite then TransmitPendingLoop wr s else Some (Inr s)))"

definition main_round :: "kernel \<Rightarrow> int \<times> server \<Rightarrow> (int \<times> server) cres option" where
  "main_round k m = (case m of (tcpSocket, s) \<Rightarrow>
     obind (ServerRun (k_outside k) s) (\<lambda>s.
     obind (Some (listen_once k (tcpSocket, s))) (\<lambda>(tcpSocket, s).
     obind (Some (if tcpSocket \<ge> 0 then FD_SET tcpSocket [] else Inr [])) (\<lambda>rd.
     obind (Some (watch (pClients s) rd [] False)) (\<lambda>(rd, wr, needWrite).
     if \<not> k_select_ok k then Some (Inl Assert_Fail)
     else obind (answered k tcpSocket (filter (\<lambda>fd. fd \<in> set (k_rd k)) rd) (filter (\<lambda>fd. fd \<in> set (k_wr k)) wr) needWrite s)
            (\<lambda>s. Some (Inr (tcpSocket, s))))))))"

fun rounds :: "kernel list \<Rightarrow> int \<times> server \<Rightarrow> (int \<times> server) cres option" where
  "rounds [] m = Some (Inr m)"
| "rounds (k # ks) m = obind (main_round k m) (rounds ks)"

definition ServerModelMain :: "kernel list \<Rightarrow> bool \<Rightarrow> server \<Rightarrow> (int \<times> server) cres option" where
  "ServerModelMain ks allocated s = obind (Some (Initialize MAX_CONNECTIONS allocated s)) (\<lambda>s. rounds ks (-1, s))"

declare send_loop.simps [code] state_loop.simps [code]

section \<open>The table of connections\<close>

lemma obind_cases [simp]: "obind None f = None" "obind (Some (Inl e)) f = Some (Inl e)" "obind (Some (Inr x)) f = f x"
  by (simp_all add: obind_def)

lemma obind_Inr: "obind r f = Some (Inr y) \<longleftrightarrow> (\<exists>x. r = Some (Inr x) \<and> f x = Some (Inr y))"
  by (auto simp: obind_def split: option.splits sum.splits)

lemma each_append: "each f (xs @ ys) s = obind (each f xs s) (each f ys)"
  by (induction xs arbitrary: s) (auto simp: obind_def split: option.splits sum.splits)

lemma each_keeps:
  assumes "\<And>i s s'. i \<in> set is \<Longrightarrow> P s \<Longrightarrow> f i s = Some (Inr s') \<Longrightarrow> P s'" "P s" "each f is s = Some (Inr s')"
  shows "P s'"
  using assms
proof (induction "is" arbitrary: s)
  case (Cons i "is")
  then show ?case by (auto split: option.splits sum.splits)
qed simp

definition used :: "server \<Rightarrow> nat" where
  "used s = size (picks c_inUse c_socket (pClients s))"

text \<open>What a connection is as long as no callback was ever registered for one.\<close>

definition plain :: "Connection \<Rightarrow> bool" where
  "plain c \<longleftrightarrow> c_clientCallback c = None \<and> c_stackSize c = 0 \<and> \<not> c_callbackRunningNow c
     \<and> c_pendingSendBuffer c = replicate NET_BUFFER_SIZE 0
     \<and> (c_state c = eIdle \<or> c_state c = eNewConnection \<or> c_state c = eDataReceived)
     \<and> (\<not> c_inUse c \<longrightarrow> c = no_conn)"

definition table_ok :: "server \<Rightarrow> bool" where
  "table_ok s \<longleftrightarrow> maxConnections s = 10 \<and> (\<forall>i<reserveConn. pClients s ! i = no_conn)
     \<and> (\<forall>c\<in>set (pClients s). plain c) \<and> 0 \<le> connectionsActive s \<and> connectionsActive s \<le> int (used s)"

lemma set_conn_simps [simp]:
  "pClients (set_conn i c s) = (pClients s)[i := c]" "connectionsActive (set_conn i c s) = connectionsActive s"
  "s_net (set_conn i c s) = s_net s" "s_out (set_conn i c s) = s_out s"
  by (simp_all add: set_conn_def)

lemma plain_no_conn [simp]: "plain no_conn" "\<not> c_inUse no_conn" "c_socket no_conn = -1"
  by (simp_all add: plain_def no_conn_def zero_conn_def)

lemma used_update:
  assumes "pClients s' = (pClients s)[i := c]" "i < maxConnections s"
  shows "used s' + (if c_inUse (pClients s ! i) then 1 else 0) = used s + (if c_inUse c then 1 else 0)"
  using arg_cong [OF picks_update [OF assms(2), of c_inUse c_socket c], of size] assms(1)
  by (auto simp: used_def)

lemma used_same: "pClients s' = pClients s \<Longrightarrow> used s' = used s"
  by (simp add: used_def)

lemma table_ok_update:
  assumes "table_ok s" "pClients s' = (pClients s)[i := c]" "i < 10" "plain c" "i < reserveConn \<Longrightarrow> c = no_conn"
    and "0 \<le> connectionsActive s'" "connectionsActive s' \<le> int (used s')"
  shows "table_ok s'"
proof -
  have "\<forall>j<reserveConn. pClients s' ! j = no_conn"
    using assms(1-3,5) by (auto simp: table_ok_def nth_list_update)
  moreover have "\<forall>c\<in>set (pClients s'). plain c"
    using assms(1,2,4) set_update_subset_insert [of "pClients s" i c] by (auto simp: table_ok_def)
  ultimately show ?thesis using assms by (simp add: table_ok_def)
qed

lemma table_ok_conn: "table_ok s \<Longrightarrow> i < 10 \<Longrightarrow> plain (pClients s ! i)"
  by (simp add: table_ok_def)

lemma table_ok_used: "table_ok s \<Longrightarrow> c_inUse (pClients s ! i) \<Longrightarrow> reserveConn \<le> i"
  by (rule ccontr) (simp add: table_ok_def)

lemma close_active:
  assumes "table_ok s" "i < 10"
  shows "connectionsActive (CloseConnection i s) = max 0 (connectionsActive s - 1)"
    "int (used (CloseConnection i s)) = int (used s) - (if connectionsActive s \<noteq> 0 \<and> c_inUse (pClients s ! i) then 1 else 0)"
    "table_ok (CloseConnection i s)"
proof -
  have len: "i < maxConnections s" and a: "0 \<le> connectionsActive s" "connectionsActive s \<le> int (used s)"
    using assms by (simp_all add: table_ok_def)
  then show 1: "connectionsActive (CloseConnection i s) = max 0 (connectionsActive s - 1)"
    by (auto simp: CloseConnection_def)
  show 2: "int (used (CloseConnection i s)) = int (used s) - (if connectionsActive s \<noteq> 0 \<and> c_inUse (pClients s ! i) then 1 else 0)"
  proof (cases "connectionsActive s = 0")
    case False
    then have p: "pClients (CloseConnection i s) = (pClients s)[i := no_conn]" by (simp add: CloseConnection_def)
    from used_update [OF p len] False show ?thesis by auto
  qed (simp add: CloseConnection_def)
  show "table_ok (CloseConnection i s)"
  proof (cases "connectionsActive s = 0")
    case False
    then have p: "pClients (CloseConnection i s) = (pClients s)[i := no_conn]" by (simp add: CloseConnection_def)
    show ?thesis using a 1 2 by (intro table_ok_update [OF assms(1) p assms(2)]) auto
  qed (simp add: CloseConnection_def assms)
qed

lemma find_stale_range:
  "find_stale cs i b li = Some k \<Longrightarrow> b = Some k \<or> i \<le> k \<and> k < i + length cs"
  by (induction cs i b li rule: find_stale.induct) (fastforce split: if_splits)+

lemma establish_ok:
  assumes "table_ok s"
  shows "table_ok (establish usb acc s)"
proof (cases "\<exists>i peer local script. find (\<lambda>i. \<not> c_inUse (pClients s ! i)) [reserveConn..<maxConnections s] = Some i \<and> acc = Some (peer, local, script)")
  case True
  then obtain i peer local script where f: "find (\<lambda>i. \<not> c_inUse (pClients s ! i)) [reserveConn..<maxConnections s] = Some i"
    and acc: "acc = Some (peer, local, script)" by blast
  from f have i: "\<not> c_inUse (pClients s ! i)" "reserveConn \<le> i" "i < maxConnections s"
    by (auto simp: find_Some_iff)
  let ?c = "zero_conn\<lparr>c_local := local, c_socket := fresh_fd (n_open (s_net s)), c_inUse := True,
      c_state := eNewConnection, c_usb := usb\<rparr>"
  have p: "pClients (establish usb acc s) = (pClients s)[i := ?c]"
    "connectionsActive (establish usb acc s) = connectionsActive s + 1"
    by (simp_all add: establish_def f acc Let_def)
  have "plain ?c" by (simp add: plain_def zero_conn_def)
  moreover have "used (establish usb acc s) = used s + 1"
    using used_update [OF p(1) i(3)] i(1) by simp
  ultimately show ?thesis using assms i(2,3) p(2)
    by (intro table_ok_update [OF assms p(1)]) (simp_all add: table_ok_def)
next
  case False
  then have "establish usb acc s = s"
    by (auto simp: establish_def split: option.splits)
  then show ?thesis using assms by simp
qed

lemma NewConnection_ok:
  assumes "table_ok s"
  shows "table_ok (NewConnection usb acc s)"
proof (cases "find_stale (drop reserveConn (pClients s)) reserveConn None 0")
  case (Some k)
  from find_stale_range [OF this] assms have "k < 10" by (simp add: table_ok_def)
  with Some assms show ?thesis by (simp add: NewConnection_def establish_ok close_active)
qed (simp add: NewConnection_def establish_ok assms)

lemma receive_one_ok:
  assumes "table_ok s" "i < 10" "receive_one recv fds i s = Inr s'"
  shows "table_ok s'"
proof -
  let ?c = "pClients s ! i"
  have a: "0 \<le> connectionsActive s" "connectionsActive s \<le> int (used s)" and len: "i < maxConnections s"
    using assms by (simp_all add: table_ok_def)
  have upd: "table_ok (set_conn i (?c\<lparr>c_recvBuffer := r, c_state := eDataReceived\<rparr>) s)" if u: "c_inUse ?c" for r
  proof (rule table_ok_update [OF assms(1) set_conn_simps(1) assms(2)])
    show "plain (?c\<lparr>c_recvBuffer := r, c_state := eDataReceived\<rparr>)"
      using table_ok_conn [OF assms(1,2)] u by (simp add: plain_def)
    show "i < reserveConn \<Longrightarrow> ?c\<lparr>c_recvBuffer := r, c_state := eDataReceived\<rparr> = no_conn"
      using table_ok_used [OF assms(1) u] by simp
    show "connectionsActive (set_conn i (?c\<lparr>c_recvBuffer := r, c_state := eDataReceived\<rparr>) s)
        \<le> int (used (set_conn i (?c\<lparr>c_recvBuffer := r, c_state := eDataReceived\<rparr>) s))"
      using used_update [OF set_conn_simps(1) len, of "?c\<lparr>c_recvBuffer := r, c_state := eDataReceived\<rparr>"] u a by simp
  qed (simp add: a)
  show ?thesis using assms upd close_active(3) [OF assms(1,2)]
    by (auto simp: receive_one_def Let_def split: if_splits option.splits list.splits)
qed

section \<open>Sending\<close>

abbreviation (input) zeros :: "byte list" where "zeros \<equiv> replicate NET_BUFFER_SIZE 0"

lemma strlen_zeros [simp]: "p < NET_BUFFER_SIZE \<Longrightarrow> strlen zeros p = Inr 0"
  by (auto simp: strlen_def drop_replicate takeWhile_replicate)

text \<open>What the end of the loop means to \<open>TransmitPending\<close>: no error, or flow control.\<close>

definition took :: "nat + nat \<Rightarrow> bool" where
  "took bytes = (case bytes of Inl e \<Rightarrow> e = 0 \<or> e = EAGAIN | Inr _ \<Rightarrow> True)"

lemma sys_write_bound: "sys_write bs out = (Inr k, out') \<Longrightarrow> k \<le> length bs"
  by (auto simp: sys_write_def split: list.splits wr.splits)

lemma send_zeros:
  "send_loop live zeros 0 None out = (case (if live then sys_write [0] out else (Inl EINVAL, out)) of
     (bytes, out') \<Rightarrow> Some (Inr (took bytes, zeros, out')))"
proof -
  obtain bytes out' where w: "(if live then sys_write [0] out else (Inl EINVAL, out)) = (bytes, out')"
    by fastforce
  have w': "(if live then sys_write (take (0 + 1) (drop 0 zeros)) out else (Inl EINVAL, out)) = (bytes, out')"
    using w by (cases live) simp_all
  show ?thesis
  proof (cases bytes)
    case (Inl e)
    have "strlen zeros 0 = Inr 0" by simp
    then show ?thesis using w w' Inl
      by (subst send_loop.simps) (simp add: send_turn_def took_def)
  next
    case (Inr k)
    have "k \<le> 1" using w Inr sys_write_bound [of "[0]" out k out'] by (auto split: if_splits)
    then have "strlen zeros 0 = Inr 0" "strlen zeros (0 + k) = Inr 0" by simp_all
    then show ?thesis using w w' Inr
      by (subst send_loop.simps) (simp add: send_turn_def took_def)
  qed
qed

lemma TransmitPending_plain:
  assumes "plain (pClients s ! i)"
  shows "TransmitPending i s = (let fd = c_socket (pClients s ! i) in
    case (if fd \<noteq> -1 then sys_write [0] (s_out s fd) else (Inl EINVAL, s_out s fd)) of
      (bytes, out) \<Rightarrow> Some (Inr (took bytes, s\<lparr>s_out := (s_out s)(fd := out)\<rparr>)))"
proof -
  have "(pClients s ! i)\<lparr>c_pendingSendBuffer := zeros\<rparr> = pClients s ! i"
    using assms by (cases "pClients s ! i") (simp add: plain_def)
  then have "set_conn i ((pClients s ! i)\<lparr>c_pendingSendBuffer := zeros\<rparr>) s = s"
    by (simp add: set_conn_def)
  with assms show ?thesis
    by (simp add: TransmitPending_def plain_def Let_def send_zeros split: prod.split)
qed

text \<open>
  One step of \<open>TransmitPendingLoop\<close> on such a table: the connection stays as it is, or it is closed.
\<close>

lemma transmit_one_cases:
  assumes "table_ok s" "i < 10" "transmit_one fds i s = Some (Inr s')"
  obtains (stays) out where "c_inUse (pClients s ! i)" "s' = s\<lparr>s_out := out\<rparr>"
  | (closed) out where "s' = CloseConnection i (s\<lparr>s_out := out\<rparr>)"
proof (cases "c_inUse (pClients s ! i)")
  case True
  from assms(3) True obtain r where r: "FD_ISSET (c_socket (pClients s ! i)) fds = Inr r"
    by (auto simp: transmit_one_def Let_def split: sum.splits)
  show ?thesis
  proof (cases r)
    case False
    with assms(3) True r have "s' = s\<lparr>s_out := s_out s\<rparr>" by (simp add: transmit_one_def)
    then show ?thesis by (rule stays [OF True])
  next
    case r2: True
    from TransmitPending_plain [OF table_ok_conn [OF assms(1,2)]] obtain st out
      where t: "TransmitPending i s = Some (Inr (st, s\<lparr>s_out := out\<rparr>))"
      by (auto simp: Let_def split: prod.splits)
    with assms(3) True r r2 have s': "s' = (if st then s\<lparr>s_out := out\<rparr> else CloseConnection i (s\<lparr>s_out := out\<rparr>))"
      by (simp add: transmit_one_def)
    then show ?thesis using stays [OF True] closed by (cases st) simp_all
  qed
next
  case False
  with assms(3) have "s' = CloseConnection i (s\<lparr>s_out := s_out s\<rparr>)" by (simp add: transmit_one_def)
  then show ?thesis by (rule closed)
qed

lemma table_ok_out [simp]: "table_ok (s\<lparr>s_out := out\<rparr>) = table_ok s" "used (s\<lparr>s_out := out\<rparr>) = used s"
  by (simp_all add: table_ok_def used_def)

lemma transmit_one_ok:
  assumes "table_ok s" "i < 10" "transmit_one fds i s = Some (Inr s')"
  shows "table_ok s'"
  using assms
proof (cases rule: transmit_one_cases)
  case (closed out)
  then show ?thesis using assms(1) close_active(3) [OF _ assms(2), of "s\<lparr>s_out := out\<rparr>"] by simp
qed (simp add: assms(1))

text \<open>The four reserved places cost four of the count, and the others keep what is left of it.\<close>

lemma transmit_one_reserved:
  assumes "table_ok s" "i < reserveConn" "transmit_one fds i s = Some (Inr s')"
  shows "connectionsActive s' = max 0 (connectionsActive s - 1) \<and> used s' = used s"
proof -
  have "\<not> c_inUse (pClients s ! i)" using table_ok_used [OF assms(1), of i] assms(2) by auto
  moreover have "i < 10" using assms(2) by simp
  ultimately show ?thesis using close_active [OF assms(1), of i] assms(3)
    by (simp add: transmit_one_def)
qed

definition four_lost :: "server \<Rightarrow> bool" where
  "four_lost s \<longleftrightarrow> connectionsActive s \<le> max 0 (int (used s) - 4)"

lemma transmit_one_lost:
  assumes "table_ok s" "four_lost s" "i < 10" "transmit_one fds i s = Some (Inr s')"
  shows "four_lost s'"
  using assms(1,3,4)
proof (cases rule: transmit_one_cases)
  case (stays out)
  with assms(2) show ?thesis by (simp add: four_lost_def)
next
  case (closed out)
  have "table_ok (s\<lparr>s_out := out\<rparr>)" using assms(1) by simp
  from close_active [OF this assms(3)] show ?thesis using assms(1,2) closed
    by (auto simp: four_lost_def table_ok_def)
qed

lemma TransmitPendingLoop_loses:
  assumes "table_ok s" "TransmitPendingLoop fds s = Some (Inr s')"
  shows "table_ok s' \<and> four_lost s'"
proof -
  have len: "maxConnections s = 10" using assms(1) by (simp add: table_ok_def)
  have split: "[0..<10] = [0..<4] @ [4..<10::nat]" by (simp add: upt_conv_Cons)
  from assms(2) len obtain s1 where s1: "each (transmit_one fds) [0..<4] s = Some (Inr s1)"
    and s2: "each (transmit_one fds) [4..<10] s1 = Some (Inr s')"
    by (auto simp: TransmitPendingLoop_def split each_append obind_Inr simp del: upt_rec_numeral)
  have go: "table_ok s' \<and> connectionsActive s' = max 0 (connectionsActive s - int (length is)) \<and> used s' = used s"
    if "each (transmit_one fds) is s = Some (Inr s')" "set is \<subseteq> {..<4}" "table_ok s" for "is" s s'
    using that
  proof (induction "is" arbitrary: s)
    case Nil
    then show ?case by (simp add: table_ok_def)
  next
    case (Cons i "is")
    then obtain s1 where s1: "transmit_one fds i s = Some (Inr s1)" "each (transmit_one fds) is s1 = Some (Inr s')"
      by (auto split: option.splits sum.splits)
    have "i < reserveConn" "i < 10" using Cons.prems(2) by auto
    then show ?case
      using Cons.IH [OF s1(2)] Cons.prems transmit_one_ok [OF Cons.prems(3) _ s1(1)]
        transmit_one_reserved [OF Cons.prems(3) _ s1(1)] by auto
  qed
  have "table_ok s1" "connectionsActive s1 = max 0 (connectionsActive s - 4)" "used s1 = used s"
    using go [OF s1 _ assms(1)] by (simp_all add: lessThan_atLeast0)
  then have "table_ok s1 \<and> four_lost s1"
    using assms(1) by (auto simp: four_lost_def table_ok_def)
  then show ?thesis
    using each_keeps [where P = "\<lambda>s. table_ok s \<and> four_lost s", OF _ _ s2]
      transmit_one_ok transmit_one_lost by (metis atLeastLessThan_iff set_upt)
qed

section \<open>A round\<close>

lemma state_loop_settled:
  assumes "state_case out i s = Inr s'" "c_state (pClients s' ! i) = c_state (pClients s ! i)"
  shows "state_loop out i s = Some (Inr s')"
  using assms by (subst state_loop.simps) simp

text \<open>Data without a callback: \<open>HandleConnectionHook\<close> calls a NULL pointer.\<close>

definition stops :: "server \<Rightarrow> nat \<Rightarrow> bool" where
  "stops s i \<longleftrightarrow> c_inUse (pClients s ! i) \<and> c_state (pClients s ! i) = eDataReceived"

lemma run_one_idle:
  assumes "i < maxConnections s" "c_inUse (pClients s ! i)" "\<not> c_callbackRunningNow (pClients s ! i)"
    and "c_state (pClients s ! i) = eIdle \<or> c_state (pClients s ! i) = eNewConnection"
  shows "run_one out i s = Some (Inr (set_conn i ((age (pClients s ! i))\<lparr>c_waitTickValid := False\<rparr>) s))"
proof -
  let ?c = "age (pClients s ! i)"
  have aged: "c_state ?c = c_state (pClients s ! i)" using assms(3) by (simp add: age_def Let_def)
  have "state_case out i (set_conn i ?c s) = Inr (set_conn i (?c\<lparr>c_waitTickValid := False\<rparr>) s)"
    using aged assms by (auto simp: state_case_def set_conn_def Let_def)
  then show ?thesis using aged assms
    by (simp add: run_one_def) (intro state_loop_settled; simp)
qed

lemma run_one_plain:
  assumes "table_ok s" "i < 10"
  shows "if stops s i then run_one out i s = Some (Inl Null_Deref)
    else \<exists>s'. run_one out i s = Some (Inr s') \<and> table_ok s' \<and> used s' = used s \<and> connectionsActive s' = connectionsActive s
      \<and> s_net s' = s_net s \<and> stops s' = stops s"
proof (cases "c_inUse (pClients s ! i)")
  case False
  then show ?thesis using assms by (simp add: stops_def run_one_def)
next
  case True
  let ?c = "pClients s ! i"
  have len: "i < maxConnections s" and p: "plain ?c" and i4: "reserveConn \<le> i"
    using assms True table_ok_used [OF assms(1) True] by (simp_all add: table_ok_def)
  have aged: "c_state (age ?c) = c_state ?c" "c_inUse (age ?c)" "plain (age ?c)"
    using p True by (simp_all add: age_def Let_def plain_def)
  have r: "run_one out i s = state_loop out i (set_conn i (age ?c) s)" using True by (simp add: run_one_def)
  have get: "pClients (set_conn i (age ?c) s) ! i = age ?c" using len by simp
  show ?thesis
  proof (cases "c_state ?c = eDataReceived")
    case d: True
    have "state_case out i (set_conn i (age ?c) s) = Inl Null_Deref"
      using aged d len by (simp add: state_case_def data_received_def plain_def HandleConnectionHook_def)
    then have "run_one out i s = Some (Inl Null_Deref)" by (simp add: r state_loop.simps)
    then show ?thesis using True d by (simp add: stops_def)
  next
    case d: False
    let ?c' = "(age ?c)\<lparr>c_waitTickValid := False\<rparr>" let ?s = "set_conn i ?c' s"
    have "run_one out i s = Some (Inr ?s)"
      using d p True by (intro run_one_idle [OF len]) (auto simp: plain_def)
    moreover have "table_ok ?s"
    proof (rule table_ok_update [OF assms(1) set_conn_simps(1) assms(2)])
      show "plain ?c'" using aged by (simp add: plain_def)
      show "i < reserveConn \<Longrightarrow> ?c' = no_conn" using i4 by simp
      show "connectionsActive ?s \<le> int (used ?s)" "0 \<le> connectionsActive ?s"
        using used_update [OF set_conn_simps(1) len, of ?c'] aged True assms(1) by (simp_all add: table_ok_def)
    qed
    moreover have "used ?s = used s" using used_update [OF set_conn_simps(1) len, of ?c'] aged True by simp
    moreover have "stops ?s = stops s" using aged len True by (auto simp: stops_def nth_list_update fun_eq_iff)
    ultimately show ?thesis using d by (auto simp: stops_def)
  qed
qed

lemma ServerRun_plain:
  assumes "table_ok s"
  shows "if \<exists>i<10. stops s i then ServerRun out s = Some (Inl Null_Deref)
    else \<exists>s'. ServerRun out s = Some (Inr s') \<and> table_ok s' \<and> used s' = used s \<and> connectionsActive s' = connectionsActive s
      \<and> s_net s' = s_net s"
proof -
  have go: "if \<exists>i\<in>set is. stops s i then each (run_one out) is s = Some (Inl Null_Deref)
    else \<exists>s'. each (run_one out) is s = Some (Inr s') \<and> table_ok s' \<and> used s' = used s
      \<and> connectionsActive s' = connectionsActive s \<and> s_net s' = s_net s"
    if "table_ok s" "set is \<subseteq> {..<10}" for "is" s
    using that
  proof (induction "is" arbitrary: s)
    case (Cons i "is")
    then have "i < 10" by simp
    note one = run_one_plain [OF Cons.prems(1) this, of out]
    show ?case
    proof (cases "stops s i")
      case False
      with one obtain s1 where s1: "run_one out i s = Some (Inr s1)" "table_ok s1" "used s1 = used s"
        "connectionsActive s1 = connectionsActive s" "s_net s1 = s_net s" "stops s1 = stops s" by auto
      then show ?thesis using Cons.IH [OF s1(2)] Cons.prems(2) False by auto
    qed (use one in simp)
  qed simp
  have "maxConnections s = 10" using assms by (simp add: table_ok_def)
  with go [OF assms, of "[0..<10]"] show ?thesis by (auto simp: ServerRun_def atLeast0LessThan Bex_def)
qed

lemma watch_needs:
  assumes "\<forall>c\<in>set cs. plain c" "watch cs rd wr need = Inr (rd', wr', need')"
  shows "need' \<longleftrightarrow> need \<or> (\<exists>c\<in>set cs. c_inUse c)"
  using assms
proof (induction cs arbitrary: rd wr need)
  case (Cons c cs)
  have c: "\<not> c_callbackRunningNow c" using Cons.prems(1) by (simp add: plain_def)
  show ?case
  proof (cases "c_inUse c")
    case True
    with Cons.prems(2) c obtain rd1 wr1 where "watch cs rd1 wr1 True = Inr (rd', wr', need')" by auto
    with Cons.IH [OF _ this] Cons.prems(1) True show ?thesis by simp
  next
    case False
    with Cons show ?thesis by simp
  qed
qed simp

lemma used_0_iff: "used s = 0 \<longleftrightarrow> \<not> (\<exists>c\<in>set (pClients s). c_inUse c)"
  by (simp add: used_def size_picks filter_empty_conv)

lemma table_ok_net [simp]: "table_ok (s\<lparr>s_net := n\<rparr>) = table_ok s" "used (s\<lparr>s_net := n\<rparr>) = used s"
  by (simp_all add: table_ok_def used_def)

lemma ReceiveLoop_ok:
  assumes "table_ok s" "ReceiveLoop recv fds s = Some (Inr s')"
  shows "table_ok s'"
proof (cases "connectionsActive s = 0")
  case False
  have "maxConnections s = 10" using assms(1) by (simp add: table_ok_def)
  with assms(2) False have "each (\<lambda>i s. Some (receive_one recv fds i s)) [0..<10] s = Some (Inr s')"
    by (simp add: ReceiveLoop_def del: upt_rec_numeral)
  from each_keeps [where P = table_ok, OF _ assms(1) this] receive_one_ok show ?thesis by auto
qed (use assms in \<open>simp add: ReceiveLoop_def\<close>)

lemma answered_ok:
  assumes "table_ok s" "answered k tcp rd wr need s = Some (Inr s')"
  shows "table_ok s' \<and> (need \<longrightarrow> four_lost s')"
proof -
  obtain s3 where s3: "s3 = (if tcp \<ge> 0 \<and> tcp \<in> set rd \<and> connectionsActive s < int (maxConnections s)
    then NewConnection False (k_accept k) s else s)" by blast
  from assms(2) have "obind (ReceiveLoop (k_recv k) rd s3) (\<lambda>s. if need then TransmitPendingLoop wr s else Some (Inr s)) = Some (Inr s')"
    unfolding answered_def Let_def s3 .
  then obtain s4 where 4: "ReceiveLoop (k_recv k) rd s3 = Some (Inr s4)"
    and 5: "(if need then TransmitPendingLoop wr s4 else Some (Inr s4)) = Some (Inr s')"
    unfolding obind_Inr by blast
  have "table_ok s3" using assms(1) NewConnection_ok by (simp add: s3)
  from ReceiveLoop_ok [OF this 4] have "table_ok s4" .
  with 5 TransmitPendingLoop_loses [OF this] show ?thesis by (cases need) auto
qed

lemma main_round_ok:
  assumes "table_ok s" "main_round k (tcp, s) = Some (Inr (tcp', s'))"
  shows "table_ok s'" "used s \<noteq> 0 \<Longrightarrow> four_lost s'"
proof -
  from assms(2) obtain s1 t2 s2 rd1 rd wr need rd' wr' where
    1: "ServerRun (k_outside k) s = Some (Inr s1)" and 2: "listen_once k (tcp, s1) = Inr (t2, s2)"
    and 3: "watch (pClients s2) rd1 [] False = Inr (rd, wr, need)"
    and 4: "answered k t2 rd' wr' need s2 = Some (Inr s')"
    unfolding main_round_def by (auto simp: obind_Inr split: if_splits)
  from ServerRun_plain [OF assms(1), of "k_outside k"] 1 have s1: "table_ok s1" "used s1 = used s"
    by (auto split: if_splits)
  from 2 have s2: "table_ok s2" "used s2 = used s" "pClients s2 = pClients s1"
    using s1 by (auto simp: listen_once_def split: if_splits)
  note ok = answered_ok [OF s2(1) 4]
  then show "table_ok s'" by blast
  assume "used s \<noteq> 0"
  then have "\<exists>c\<in>set (pClients s2). c_inUse c" using s2(2) by (metis used_0_iff)
  moreover have "\<forall>c\<in>set (pClients s2). plain c" using s2(1) by (simp add: table_ok_def)
  ultimately have need using watch_needs [OF _ 3] by blast
  with ok show "four_lost s'" by blast
qed

lemma ServerModelMain_ok:
  assumes "ServerModelMain ks allocated s0 = Some (Inr (tcp, s))"
  shows "table_ok s"
proof -
  have "table_ok s" if "rounds ks (t, s1) = Some (Inr (tcp, s))" "table_ok s1" for t s1
    using that
  proof (induction ks arbitrary: t s1)
    case (Cons k ks)
    from Cons.prems(1) obtain t2 s2 where "main_round k (t, s1) = Some (Inr (t2, s2))" "rounds ks (t2, s2) = Some (Inr (tcp, s))"
      by (auto simp: obind_Inr)
    then show ?case using Cons.IH main_round_ok(1) Cons.prems(2) by blast
  qed simp
  moreover have "table_ok (s0\<lparr>pClients := replicate 10 no_conn, connectionsActive := 0\<rparr>)"
    by (simp add: table_ok_def)
  ultimately show ?thesis using assms
    by (auto simp: ServerModelMain_def Initialize_def obind_Inr split: if_splits)
qed

section \<open>Two rounds\<close>

definition idle_program :: outside where
  "idle_program = \<lparr>o_create = 0, o_hook = (\<lambda>_ c. (True, c)), o_determine = False, o_tick = 0, o_max_waiting = 0, o_case = (\<lambda>_. Inr)\<rparr>"

definition round_with :: "fds \<Rightarrow> fds \<Rightarrow> kernel" where
  "round_with rd wr = \<lparr>k_outside = idle_program, k_gai = (\<lambda>_. Inr [\<lparr>ca_len = 16, ca_socket = None, ca_opt = None, ca_bind = None, ca_listen = None, ca_connect = None\<rparr>]),
     k_opt = None, k_select_ok = True, k_rd = rd, k_wr = wr, k_accept = Some (1, 2, []), k_recv = (\<lambda>_. Some [65])\<rparr>"

definition power_on :: server where
  "power_on = \<lparr>pClients = [], connectionsActive = 0, s_net = \<lparr>n_open = [0, 1, 2], n_listening = [], n_errno = 0\<rparr>, s_out = (\<lambda>_. \<lparr>out_script = [], out_sent = []\<rparr>)\<rparr>"

definition client_at_4 :: Connection where
  "client_at_4 = zero_conn\<lparr>c_local := 2, c_socket := 4, c_inUse := True, c_state := eNewConnection, c_usb := False\<rparr>"

definition with_client :: "Connection \<Rightarrow> int \<Rightarrow> byte list \<Rightarrow> server" where
  "with_client c active sent = \<lparr>pClients = [no_conn, no_conn, no_conn, no_conn, c, no_conn, no_conn, no_conn, no_conn, no_conn],
     connectionsActive = active, s_net = \<lparr>n_open = [4, 3, 0, 1, 2], n_listening = [3], n_errno = 0\<rparr>,
     s_out = (\<lambda>_. \<lparr>out_script = [], out_sent = []\<rparr>)(4 := \<lparr>out_script = [], out_sent = sent\<rparr>)\<rparr>"

text \<open>The first round accepts a client, the second receives a message or sends what is pending.\<close>

lemma unused_run: "\<not> c_inUse (pClients s ! i) \<Longrightarrow> run_one out i s = Some (Inr s)"
  by (simp add: run_one_def)

lemma accepting_round: "main_round (round_with [3] []) (- 1, \<lparr>pClients = replicate 10 no_conn, connectionsActive = 0,
    s_net = \<lparr>n_open = [0, 1, 2], n_listening = [], n_errno = 0\<rparr>, s_out = (\<lambda>_. \<lparr>out_script = [], out_sent = []\<rparr>)\<rparr>)
   = Some (Inr (3, with_client client_at_4 1 []))"
proof -
  have r: "replicate 10 no_conn = [no_conn, no_conn, no_conn, no_conn, no_conn, no_conn, no_conn, no_conn, no_conn, no_conn]"
    by (simp add: numeral_eq_Suc)
  have u: "[0..<10] = [0, 1, 2, 3, 4, 5, 6, 7, 8, 9::nat]" "[4..<10] = [4, 5, 6, 7, 8, 9::nat]" by (simp_all add: upt_conv_Cons)
  show ?thesis
    unfolding r main_round_def
    by (simp add: ServerRun_def u unused_run listen_once_def CreateListeningSocket_def round_with_def
      listening_attempt_def sys_socket_def sys_call_def sys_listen_def fresh_fd_def FD_SET_def FD_ISSET_def answered_def NewConnection_def establish_def
      ReceiveLoop_def receive_one_def set_conn_def with_client_def client_at_4_def Let_def)
qed

lemma c_simps: "\<not> c_callbackRunningNow client_at_4" "c_inUse client_at_4" "c_state client_at_4 = eNewConnection" "c_socket client_at_4 = 4"
    "c_idleTime client_at_4 = 0" "c_recvBuffer client_at_4 = zeros" "plain client_at_4"
  by (simp_all add: client_at_4_def zero_conn_def plain_def)

lemma reading_round: "main_round (round_with [4] []) (3, with_client client_at_4 1 [])
   = Some (Inr (3, with_client (client_at_4\<lparr>c_idleTime := 1, c_recvBuffer := 65 # replicate 1023 0, c_state := eDataReceived, c_waitTickValid := False\<rparr>) 0 []))"
proof -
  have u: "[0..<10] = [0, 1, 2, 3, 4, 5, 6, 7, 8, 9::nat]" "[4..<10] = [4, 5, 6, 7, 8, 9::nat]" by (simp_all add: upt_conv_Cons)
  show ?thesis
    unfolding with_client_def main_round_def
    by (simp add: ServerRun_def u unused_run run_one_idle c_simps age_def listen_once_def round_with_def
      FD_SET_def FD_ISSET_def answered_def ReceiveLoop_def receive_one_def set_conn_def Let_def
      TransmitPendingLoop_def transmit_one_def CloseConnection_def sys_close_def)
qed

lemma writing_round: "main_round (round_with [] [4]) (3, with_client client_at_4 1 [])
   = Some (Inr (3, with_client (client_at_4\<lparr>c_idleTime := 1, c_waitTickValid := False\<rparr>) 0 [0]))"
proof -
  have u: "[0..<10] = [0, 1, 2, 3, 4, 5, 6, 7, 8, 9::nat]" by (simp add: upt_conv_Cons)
  have p: "plain (client_at_4\<lparr>c_idleTime := 1, c_waitTickValid := False\<rparr>)"
    by (simp add: client_at_4_def zero_conn_def plain_def)
  show ?thesis
    unfolding with_client_def main_round_def
    by (simp add: ServerRun_def u unused_run run_one_idle c_simps age_def listen_once_def round_with_def p
      FD_SET_def FD_ISSET_def answered_def ReceiveLoop_def receive_one_def set_conn_def Let_def
      TransmitPendingLoop_def transmit_one_def CloseConnection_def sys_close_def TransmitPending_plain sys_write_def took_def)
qed
definition talking :: "wr list \<Rightarrow> server" where
  "talking script = (with_client (client_at_4\<lparr>c_pendingSendBuffer := [65, 66] @ 0 # 0 # replicate 1020 0\<rparr>) 1 [])
     \<lparr>s_out := (\<lambda>_. \<lparr>out_script = [], out_sent = []\<rparr>)(4 := \<lparr>out_script = script, out_sent = []\<rparr>)\<rparr>"

section \<open>Properties\<close>

text \<open>
  C26. The first message stops the server. Nothing registers a callback, so in whatever state the main
  loop can be, \<open>ServerRun\<close> calls a NULL pointer as soon as one connection in use has received data; otherwise it
  returns.
\<close>

theorem data_stops_server:
  assumes "ServerModelMain ks allocated s0 = Some (Inr (tcp, s))"
  shows "if \<exists>c\<in>set (pClients s). c_inUse c \<and> c_state c = eDataReceived then ServerRun out s = Some (Inl Null_Deref)
    else \<exists>s'. ServerRun out s = Some (Inr s')"
proof -
  have ok: "table_ok s" using assms by (rule ServerModelMain_ok)
  then have "maxConnections s = 10" by (simp add: table_ok_def)
  then have "(\<exists>c\<in>set (pClients s). c_inUse c \<and> c_state c = eDataReceived) \<longleftrightarrow> (\<exists>i<10. stops s i)"
    by (simp add: stops_def) (metis in_set_conv_nth)
  with ServerRun_plain [OF ok, of out] show ?thesis by auto
qed

lemma data_stops_server_witness:
  "ServerRun idle_program (with_client (client_at_4\<lparr>c_idleTime := 1, c_recvBuffer := 65 # replicate 1023 0,
     c_state := eDataReceived, c_waitTickValid := False\<rparr>) 0 []) = Some (Inl Null_Deref)"
proof -
  have "ServerModelMain [round_with [3] [], round_with [4] []] True power_on
    = Some (Inr (3, with_client (client_at_4\<lparr>c_idleTime := 1, c_recvBuffer := 65 # replicate 1023 0,
     c_state := eDataReceived, c_waitTickValid := False\<rparr>) 0 []))"
    using accepting_round reading_round by (simp add: ServerModelMain_def Initialize_def power_on_def)
  from data_stops_server [OF this, of idle_program] show ?thesis
    by (simp add: with_client_def c_simps)
qed

text \<open>
  A round with a connection in it forgets four connections: afterwards the count is at most the
  number of connections in use less four, so with up to four clients it is zero, and \<open>ReceiveLoop\<close> reads
  from none of them.
\<close>

theorem round_loses_four:
  assumes "ServerModelMain ks allocated s0 = Some (Inr (tcp, s))" "\<exists>c\<in>set (pClients s). c_inUse c"
    and "main_round k (tcp, s) = Some (Inr (tcp', s'))"
  shows "connectionsActive s' \<le> max 0 (int (length (filter c_inUse (pClients s'))) - 4)"
proof -
  have "used s \<noteq> 0" using assms(2) by (simp add: used_0_iff)
  from main_round_ok(2) [OF ServerModelMain_ok [OF assms(1)] assms(3) this] show ?thesis
    by (simp add: four_lost_def used_def size_picks)
qed

lemma round_loses_four_witness:
  "connectionsActive (with_client (client_at_4\<lparr>c_idleTime := 1, c_waitTickValid := False\<rparr>) 0 [0]) \<le> 0"
proof -
  have "ServerModelMain [round_with [3] []] True power_on = Some (Inr (3, with_client client_at_4 1 []))"
    using accepting_round by (simp add: ServerModelMain_def Initialize_def power_on_def)
  from round_loses_four [OF this _ writing_round] show ?thesis
    by (simp add: with_client_def c_simps)
qed

lemma zeros_turn:
  assumes "p < 1023"
  shows "strlen zeros p = Inr 0" "strlen zeros (Suc p) = Inr 0" "take (Suc 0) (drop p zeros) = [0]"
    "min (1024 - p) (Suc 0) = Suc 0"
proof -
  have "min (Suc 0) (1024 - p) = Suc 0" using assms by simp
  then show "take (Suc 0) (drop p zeros) = [0]" by (simp add: take_replicate)
qed (use assms in simp_all)

lemma flood_endless:
  assumes "send_loop live buf p next out = Some r"
  shows "\<not> (live \<and> buf = zeros \<and> next = Some p \<and> p < 1023 \<and> out_script out = [])"
proof (rule send_loop.raw_induct [of "\<lambda>live buf p next out r. \<not> (live \<and> buf = zeros \<and> next = Some p \<and> p < 1023 \<and> out_script out = [])", OF _ assms])
  fix loop live buf p "next" out r
  assume IH: "\<And>live buf p next out r. loop live buf p next out = Some r \<Longrightarrow>
      \<not> (live \<and> buf = zeros \<and> next = Some p \<and> p < 1023 \<and> out_script out = [])"
    and run: "(case send_turn live buf p next out of
     Inl f \<Rightarrow> Some (Inl f)
   | Inr (Leave status buf out) \<Rightarrow> Some (Inr (status, buf, out))
   | Inr (Go_On buf None out) \<Rightarrow> Some (Inr (True, buf, out))
   | Inr (Go_On buf (Some p) out) \<Rightarrow> loop live buf p (Some p) out) = Some r"
  show "\<not> (live \<and> buf = zeros \<and> next = Some p \<and> p < 1023 \<and> out_script out = [])"
  proof
    assume a: "live \<and> buf = zeros \<and> next = Some p \<and> p < 1023 \<and> out_script out = []"
    then have z: "p < 1023" by blast
    have "send_turn live buf p next out = Inr (Go_On zeros (Some p) (out\<lparr>out_sent := out_sent out @ [0]\<rparr>))"
      using a zeros_turn [OF z] by (simp add: send_turn_def sys_write_def del: drop_replicate take_replicate)
    with run have "loop live zeros p (Some p) (out\<lparr>out_sent := out_sent out @ [0]\<rparr>) = Some r" by simp
    from IH [OF this] a show False by simp
  qed
qed

lemma flood_until_full:
  assumes "p < 1023"
  shows "send_loop True zeros p (Some p) \<lparr>out_script = replicate j (WTake 1024) @ [WErr EAGAIN], out_sent = x\<rparr>
    = Some (Inr (True, zeros, \<lparr>out_script = [], out_sent = x @ replicate j 0\<rparr>))"
proof (induction j arbitrary: x)
  case 0
  show ?case using zeros_turn [OF assms]
    by (subst send_loop.simps) (simp add: send_turn_def sys_write_def del: drop_replicate take_replicate)
next
  case (Suc j)
  then show ?case using zeros_turn [OF assms]
    by (subst send_loop.simps) (simp add: send_turn_def sys_write_def del: drop_replicate take_replicate)
qed

text \<open>The first \<open>send\<close> takes a part of the message, the second the rest.\<close>

lemma two_parts:
  assumes "0 \<notin> set m" "length (m @ 0 # 0 # rest) = NET_BUFFER_SIZE" "0 < k" "k < length m"
    and "sys_write (drop k m @ [0]) \<lparr>out_script = t, out_sent = x @ take k m\<rparr> = (Inr (Suc (length m - k)), out)"
  shows "send_loop True (m @ 0 # 0 # rest) 0 None \<lparr>out_script = WTake k # t, out_sent = x\<rparr> = send_loop True zeros k (Some k) out"
proof -
  let ?buf = "m @ 0 # 0 # rest"
  have len: "strlen ?buf p = Inr (length m - p)" if "p \<le> length m" for p
  proof -
    have "\<forall>b\<in>set (drop p m). b \<noteq> 0" using assms(1) by (auto dest: in_set_dropD)
    then have "takeWhile (\<lambda>b. b \<noteq> 0) (drop p m @ 0 # 0 # rest) = drop p m" by (simp add: takeWhile_append2)
    then show ?thesis using that by (simp add: strlen_def)
  qed
  have past: "strlen ?buf (Suc (length m)) = Inr 0"
    by (simp add: strlen_def)
  have w1: "sys_write (take (length m + 1) ?buf) \<lparr>out_script = WTake k # t, out_sent = x\<rparr>
      = (Inr k, \<lparr>out_script = t, out_sent = x @ take k m\<rparr>)"
    using assms(4) by (simp add: sys_write_def)
  have one: "send_turn True ?buf 0 None \<lparr>out_script = WTake k # t, out_sent = x\<rparr>
      = Inr (Go_On ?buf (Some k) \<lparr>out_script = t, out_sent = x @ take k m\<rparr>)"
    using assms(4) w1 len [of 0] len [of k] by (simp add: send_turn_def del: append_Cons)
  have "take (length m - k + 1) (drop k ?buf) = drop k m @ [0]" using assms(4) by simp
  then have two: "send_turn True ?buf k (Some k) \<lparr>out_script = t, out_sent = x @ take k m\<rparr> = Inr (Go_On zeros (Some k) out)"
    using assms(4,5) len [of k] past by (simp add: send_turn_def)
  show ?thesis
    by (subst send_loop.simps, subst one, simp del: append_Cons) (subst send_loop.simps, subst two, simp)
qed

text \<open>
  C27. A message that goes out in two parts is followed by zero bytes until the socket is full: when
  \<open>send\<close> takes a part of the message and then the rest, \<open>nextBuffer\<close> still points into the cleared buffer. If the
  peer keeps taking what it is sent, \<open>TransmitPending\<close> does not return, and holds the mutex.
\<close>

theorem partial_send_floods:
  assumes "0 \<notin> set m" "length (m @ 0 # 0 # rest) = NET_BUFFER_SIZE" "0 < k" "k < length m"
    and "c_pendingSendBuffer (pClients s ! i) = m @ 0 # 0 # rest" "c_socket (pClients s ! i) = fd" "fd \<noteq> -1"
  shows "TransmitPending i (s\<lparr>s_out := (s_out s)(fd := \<lparr>out_script = [WTake k], out_sent = x\<rparr>)\<rparr>) = None
    \<and> (\<exists>s'. TransmitPending i (s\<lparr>s_out := (s_out s)(fd :=
          \<lparr>out_script = WTake k # WTake 1024 # replicate j (WTake 1024) @ [WErr EAGAIN], out_sent = x\<rparr>)\<rparr>) = Some (Inr (True, s'))
        \<and> out_sent (s_out s' fd) = x @ m @ [0] @ replicate j 0)"
proof -
  let ?out = "\<lparr>out_script = [], out_sent = x @ m @ [0]\<rparr>"
  have all: "x @ take k m @ drop k m @ [0] = x @ m @ [0]" by simp
  have k: "k < 1023" using assms(2,4) by simp
  have "send_loop True (m @ 0 # 0 # rest) 0 None \<lparr>out_script = [WTake k], out_sent = x\<rparr> = send_loop True zeros k (Some k) ?out"
    using assms(4) by (intro two_parts assms) (simp add: sys_write_def)
  also have "\<dots> = None" using flood_endless [of True zeros k "Some k" ?out] k by (cases "send_loop True zeros k (Some k) ?out") auto
  finally have a: "send_loop True (m @ 0 # 0 # rest) 0 None \<lparr>out_script = [WTake k], out_sent = x\<rparr> = None" .
  let ?t = "replicate j (WTake 1024) @ [WErr EAGAIN]"
  have "send_loop True (m @ 0 # 0 # rest) 0 None \<lparr>out_script = WTake k # WTake 1024 # ?t, out_sent = x\<rparr>
      = send_loop True zeros k (Some k) \<lparr>out_script = ?t, out_sent = x @ m @ [0]\<rparr>"
    using assms(2,4) by (intro two_parts assms) (simp add: sys_write_def)
  with flood_until_full [OF k, of j "x @ m @ [0]"] a assms(5-7) show ?thesis
    by (simp add: TransmitPending_def)
qed

lemma partial_send_floods_witness:
  "TransmitPending 4 (talking [WTake 1]) = None
    \<and> (\<exists>s'. TransmitPending 4 (talking [WTake 1, WTake 1024, WTake 1024, WTake 1024, WErr EAGAIN]) = Some (Inr (True, s'))
      \<and> out_sent (s_out s' 4) = [65, 66, 0, 0, 0])"
  using partial_send_floods [of "[65, 66]" "replicate 1020 0" 1 "talking []" 4 4 "[]" "Suc (Suc 0)"]
  by (simp add: talking_def with_client_def c_simps)

end
