(* ===== verification/PollMain.thy ===== *)
theory PollMain
  imports PollLoops Sockets
begin

text \<open>
  \<open>ServerModelMain\<close> of \<open>IOModels/poll/serverModel.c\<close> as a whole: the set-up, made of \<open>Initialize\<close> and
  \<open>CreateListeningSocket\<close>, and any number of rounds of the main loop.
\<close>

definition poll_start ::
    "(nat \<Rightarrow> pollfd) \<Rightarrow> (nat \<Rightarrow> nat option) \<Rightarrow> (string \<Rightarrow> int + cand list) \<Rightarrow> answer \<Rightarrow> net \<Rightarrow> (int \<times> server \<times> net) cres" where
  "poll_start junk malloc gai opt net =
     cbind (Initialize junk malloc) (\<lambda>s.
     cbind (CreateListeningSocket gai opt PORT1 net) (\<lambda>(tcpListeningfd, net).
       if tcpListeningfd \<noteq> -1
       then cbind (aget (sv_watched s) 0) (\<lambda>w.
            cbind (aset (sv_watched s) 0 (w\<lparr>pf_fd := tcpListeningfd, pf_events := POLLIN\<rparr>)) (\<lambda>watched.
              Inr (tcpListeningfd, s\<lparr>sv_watched := watched\<rparr>, net)))
       else Inr (tcpListeningfd, s, net)))"

fun poll_rounds :: "int \<Rightarrow> round list \<Rightarrow> server \<Rightarrow> server cres option" where
  "poll_rounds listening [] s = Some (Inr s)"
| "poll_rounds listening (r # rs) s = (case main_round listening r s of
     None \<Rightarrow> None | Some (Inl f) \<Rightarrow> Some (Inl f) | Some (Inr s) \<Rightarrow> poll_rounds listening rs s)"

definition ServerModelMain ::
    "(nat \<Rightarrow> pollfd) \<Rightarrow> (nat \<Rightarrow> nat option) \<Rightarrow> (string \<Rightarrow> int + cand list) \<Rightarrow> answer \<Rightarrow> net \<Rightarrow> round list \<Rightarrow> server cres option" where
  "ServerModelMain junk malloc gai opt net rs = (case poll_start junk malloc gai opt net of
     Inl f \<Rightarrow> Some (Inl f) | Inr (fd, s, net) \<Rightarrow> poll_rounds fd rs s)"

section \<open>No callback\<close>

definition quiet_conn :: "Connection \<Rightarrow> bool" where
  "quiet_conn c \<longleftrightarrow> cn_clientCallback c = None \<and> \<not> cn_callbackRunning c"

definition quiet :: "server \<Rightarrow> bool" where
  "quiet s \<longleftrightarrow> (\<forall>c\<in>set (sv_clients s). quiet_conn c)"

lemma quiet_blank [simp]: "quiet_conn (zero_conn\<lparr>cn_socket := -1\<rparr>)"
  by (simp add: quiet_conn_def zero_conn_def)

lemma updated: "c \<in> set (xs[i := v]) \<Longrightarrow> c = v \<or> c \<in> set xs"
  using set_update_subset_insert [of xs i v] by auto

lemma aget_in: "aget xs i = Inr x \<Longrightarrow> x \<in> set xs"
  by (auto simp: aget_def split: if_splits)

lemma quiet_conn_update:
  "quiet_conn c \<Longrightarrow> quiet_conn (c\<lparr>cn_recvBuffer := b, cn_state := st\<rparr>)"
  "quiet_conn c \<Longrightarrow> quiet_conn (c\<lparr>cn_pendingSendBuffer := b\<rparr>)"
  "quiet_conn c \<Longrightarrow> quiet_conn (c\<lparr>cn_waitTickValid := w\<rparr>)"
  "quiet_conn c \<Longrightarrow> quiet_conn (c\<lparr>cn_idleTime := n\<rparr>)"
  by (simp_all add: quiet_conn_def)

lemma CloseConnection_quiet: "quiet s \<Longrightarrow> CloseConnection i s = Inr s' \<Longrightarrow> quiet s'"
  by (auto simp: CloseConnection_def quiet_def split: if_splits dest!: updated)

lemma accept_quiet:
  assumes "quiet s" "serverSocket \<noteq> PORT1" "accept_connection serverSocket acc s = Inr (fd, s')"
  shows "quiet s'"
proof -
  from assms(3) obtain idx where idx: "find_from reserveConn MAX_CONNECTIONS (\<lambda>c. \<not> cn_inUse c) (sv_clients s) = Inr idx"
    by (auto simp: accept_connection_def)
  show ?thesis
  proof (cases "idx = None \<or> acc = None")
    case True
    with assms(1,3) idx show ?thesis by (auto simp: accept_connection_def split: option.splits)
  next
    case False
    then obtain k p peer l where "idx = Some k" "acc = Some (p, peer, l)" by auto
    with assms(2,3) idx have "sv_clients s' = (sv_clients s)[k := zero_conn\<lparr>cn_local := l, cn_socket := p, cn_inUse := True, cn_state := eNewConnection\<rparr>]"
      by (auto simp: accept_connection_def Let_def)
    with assms(1) show ?thesis
      by (auto simp: quiet_def quiet_conn_def zero_conn_def dest!: updated)
  qed
qed

lemma NewConnection_quiet:
  assumes "quiet s" "serverSocket \<noteq> PORT1" "NewConnection serverSocket acc s = Inr (fd, s')"
  shows "quiet s'"
  using assms(1,3)
  by (auto simp: NewConnection_def split: if_splits option.splits
      dest: CloseConnection_quiet [OF assms(1)] accept_quiet [rotated 2, OF _ _ assms(2)])

lemma receive_one_quiet:
  assumes "quiet s" "receive_one recv i s = Inr s'"
  shows "quiet s'"
proof -
  from assms(2) obtain c where c: "aget (sv_clients s) (int i) = Inr c" by (auto simp: receive_one_def)
  then have "quiet_conn c" using assms(1) aget_in by (force simp: quiet_def)
  with assms c CloseConnection_quiet [OF assms(1)] show ?thesis
    by (auto simp: receive_one_def Let_def quiet_def quiet_conn_update split: if_splits option.splits list.splits
        dest!: updated)
qed

lemma each_client_quiet:
  "(\<And>i s s'. quiet s \<Longrightarrow> f i s = Inr s' \<Longrightarrow> quiet s') \<Longrightarrow> quiet s \<Longrightarrow> each_client f is s = Inr s' \<Longrightarrow> quiet s'"
  by (induction "is" arbitrary: s) auto

lemma ReceiveLoop_quiet:
  assumes "quiet s" "ReceiveLoop recv s = Inr s'"
  shows "quiet s'"
proof (cases "sv_active s = 0")
  case False
  with assms(2) have "each_client (receive_one recv) [0..<MAX_CONNECTIONS] s = Inr s'"
    by (simp add: ReceiveLoop_def del: upt_rec_numeral)
  from each_client_quiet [OF receive_one_quiet assms(1) this] show ?thesis .
qed (use assms in \<open>simp add: ReceiveLoop_def\<close>)

lemma TransmitPending_keeps:
  "TransmitPending tx c = Some (Inr (st, c')) \<Longrightarrow> quiet_conn c \<Longrightarrow> quiet_conn c'"
  by (auto simp: TransmitPending_def quiet_conn_update split: if_splits sum.splits option.splits)

lemma transmit_one_quiet:
  assumes "quiet s" "transmit_one tx i s = Some (Inr s')"
  shows "quiet s'"
proof -
  from assms(2) obtain c where c: "aget (sv_clients s) (int i) = Inr c"
    by (auto simp: transmit_one_def split: sum.splits)
  then have q: "quiet_conn c" using assms(1) aget_in by (force simp: quiet_def)
  have u: "quiet (s\<lparr>sv_clients := (sv_clients s)[i := c']\<rparr>)" if "quiet_conn c'" for c'
    using assms(1) that by (auto simp: quiet_def dest!: updated)
  show ?thesis
    using assms c
    by (auto simp: transmit_one_def Let_def split: if_splits sum.splits option.splits
        dest: CloseConnection_quiet [OF u [OF TransmitPending_keeps [OF _ q]], rotated] CloseConnection_quiet [OF assms(1)]
        intro: u [OF TransmitPending_keeps [OF _ q]])
qed

lemma transmit_all_quiet:
  assumes "quiet s" "transmit_all tx is s = Some (Inr s')"
  shows "quiet s'"
  using assms
  by (induction tx "is" s rule: transmit_all.induct) (auto split: option.splits sum.splits dest: transmit_one_quiet)

lemma run_client_quiet:
  assumes "quiet_conn c" "run_client create c = Some (Inr c')"
  shows "quiet_conn c' \<and> cn_state c' = cn_state c"
proof -
  have "state_loop k c1 = Some (Inr (c1\<lparr>cn_waitTickValid := False\<rparr>))" if "quiet_conn c1" for k c1
    using that by (subst state_loop.simps)
      (auto simp: state_case_def quiet_conn_def Let_def split: ConnectionState.split)
  with assms show ?thesis
    by (auto simp: run_client_def Let_def quiet_conn_update split: if_splits)
qed

lemma run_clients_quiet:
  assumes "\<forall>c\<in>set cs. quiet_conn c" "run_clients create cs = Some (Inr cs')"
  shows "\<forall>c\<in>set cs'. quiet_conn c"
  using assms
proof (induction cs arbitrary: cs')
  case (Cons c cs)
  from Cons.prems(2) obtain d ds where
    d: "run_client create c = Some (Inr d)" "run_clients create cs = Some (Inr ds)" "cs' = d # ds"
    by (auto split: option.splits sum.splits)
  have "quiet_conn d" using run_client_quiet [OF _ d(1)] Cons.prems(1) by simp
  moreover have "\<forall>c\<in>set ds. quiet_conn c" using Cons.prems(1) by (intro Cons.IH [OF _ d(2)]) simp
  ultimately show ?case by (simp add: d(3))
qed simp

lemma main_round_quiet:
  assumes "quiet s" "listening \<noteq> PORT1" "main_round listening r s = Some (Inr s')"
  shows "quiet s'"
proof -
  from assms(3) obtain s1 where 1: "ServerRun (rd_create r) s = Some (Inr s1)"
    by (auto simp: main_round_def split: option.splits sum.splits)
  then obtain cs where cs: "run_clients (rd_create r) (sv_clients s) = Some (Inr cs)" "s1 = s\<lparr>sv_clients := cs\<rparr>"
    by (auto simp: ServerRun_def split: option.splits sum.splits)
  have q1: "quiet s1" using run_clients_quiet [OF _ cs(1)] assms(1) by (simp add: cs(2) quiet_def)
  from assms(3) 1 obtain s2 s3 where
    2: "(if listening \<noteq> -1 \<and> rd_pending r \<and> sv_active s1 < int MAX_CONNECTIONS
         then cbind (NewConnection listening (kernel_accept (rd_accept r) s1) s1) (\<lambda>(fd, s). Inr s) else Inr s1) = Inr s2"
    and 3: "ReceiveLoop (rd_recv r) s2 = Inr s3" and 4: "TransmitPendingLoop (rd_send r) s3 = Some (Inr s')"
    by (auto simp: main_round_def split: if_splits sum.splits)
  from 2 q1 have "quiet s2"
    by (auto split: if_splits dest: NewConnection_quiet [OF q1 assms(2)])
  from ReceiveLoop_quiet [OF this 3] have "quiet s3" .
  from transmit_all_quiet [OF this 4 [unfolded TransmitPendingLoop_def]] show ?thesis .
qed

section \<open>Properties\<close>

text \<open>
  C29. The server never handles a request. \<open>NewConnection\<close> compares the listening descriptor with the
  number of the port, so unless the descriptor happens to be 50000 no connection ever gets a callback, whatever the rounds
  bring: no thread is started for any of them.
\<close>

theorem poll_never_handles:
  assumes "poll_start junk malloc gai opt net = Inr (fd, s0, net')" "fd \<noteq> 50000"
    and "ServerModelMain junk malloc gai opt net rs = Some (Inr s)"
  shows "\<forall>c\<in>set (sv_clients s). cn_clientCallback c = None \<and> \<not> cn_callbackRunning c"
proof -
  have "quiet s" if "poll_rounds fd rs s1 = Some (Inr s)" "quiet s1" for s1
    using that
  proof (induction rs arbitrary: s1)
    case (Cons r rs)
    from Cons.prems(1) obtain s2 where r: "main_round fd r s1 = Some (Inr s2)" "poll_rounds fd rs s2 = Some (Inr s)"
      by (auto split: option.splits sum.splits)
    have "fd \<noteq> PORT1" using assms(2) by (simp add: PORT1_def)
    from Cons.IH [OF r(2) main_round_quiet [OF Cons.prems(2) this r(1)]] show ?case .
  qed simp
  moreover have "quiet s0"
  proof -
    from assms(1) obtain si where "Initialize junk malloc = Inr si" "sv_clients s0 = sv_clients si"
      by (auto simp: poll_start_def split: if_splits)
    then show ?thesis by (auto simp: Initialize_def quiet_def split: option.splits if_splits)
  qed
  ultimately have "quiet s" using assms(1,3) by (simp add: ServerModelMain_def)
  then show ?thesis by (simp add: quiet_def quiet_conn_def)
qed

definition idle_round :: round where
  "idle_round = \<lparr>rd_create = (\<lambda>_. 0), rd_poll_ok = True, rd_pending = False, rd_accept = None, rd_recv = (\<lambda>_. None), rd_send = (\<lambda>_ _. Takes 1)\<rparr>"

definition one_address :: "string \<Rightarrow> int + cand list" where
  "one_address _ = Inr [\<lparr>ca_len = 16, ca_socket = None, ca_opt = None, ca_bind = None, ca_listen = None, ca_connect = None\<rparr>]"

definition booted :: server where
  "booted = \<lparr>sv_watched = (replicate MAX_WATCHEDFD (zero_pollfd\<lparr>pf_fd := -1\<rparr>))[0 := zero_pollfd\<lparr>pf_fd := 3, pf_events := POLLIN\<rparr>],
     sv_clients = replicate MAX_CONNECTIONS (zero_conn\<lparr>cn_socket := -1\<rparr>), sv_active = 0, sv_open = []\<rparr>"

lemma booting: "poll_start (\<lambda>_. zero_pollfd) (\<lambda>_. Some 40000) one_address None \<lparr>n_open = [0, 1, 2], n_listening = [], n_errno = 0\<rparr>
  = Inr (3, booted, \<lparr>n_open = [3, 0, 1, 2], n_listening = [3], n_errno = 0\<rparr>)"
  by (simp add: poll_start_def Initialize_def CreateListeningSocket_def one_address_def listening_attempt_def sys_socket_def
    sys_call_def sys_listen_def fresh_fd_def aget_def aset_def booted_def watched_request_def sizeof_Connection_def
    map_replicate_const)

lemma unused_ones: "run_clients f (replicate n (zero_conn\<lparr>cn_socket := -1\<rparr>)) = Some (Inr (replicate n (zero_conn\<lparr>cn_socket := -1\<rparr>)))"
  by (induction n) (simp_all add: run_client_def zero_conn_def)

lemma idle_rounds: "main_round 3 idle_round booted = Some (Inr booted)"
proof -
  have a: "aget (sv_clients booted) (int i) = Inr (zero_conn\<lparr>cn_socket := -1\<rparr>)" if "i < 10" for i
    using that by (simp add: booted_def aget_def)
  have c: "sv_active booted = 0" by (simp add: booted_def)
  have one: "transmit_one f i booted = Some (Inr booted)" if "i < 10" for f i
    using a [OF that] c by (simp add: transmit_one_def CloseConnection_def zero_conn_def)
  have "transmit_all f is booted = Some (Inr booted)" if "\<forall>i\<in>set is. i < 10" for f "is"
    using that by (induction "is") (simp_all add: one)
  then have t: "TransmitPendingLoop f booted = Some (Inr booted)" for f by (simp add: TransmitPendingLoop_def del: upt_rec_numeral)
  have "ServerRun f booted = Some (Inr booted)" for f
    using unused_ones [of f 10] by (simp add: ServerRun_def booted_def)
  with t c show ?thesis by (simp add: main_round_def idle_round_def ReceiveLoop_def)
qed

text \<open>A client that connects and sends two bytes in the first round.\<close>

definition hello_round :: round where
  "hello_round = idle_round\<lparr>rd_pending := True, rd_accept := Some (7, 6, 2), rd_recv := (\<lambda>_. Some [104, 105])\<rparr>"

definition greeted :: server where
  "greeted = booted\<lparr>sv_clients := (sv_clients booted)[2 := accepted 7 2],
     sv_watched := (sv_watched booted)[3 := zero_pollfd\<lparr>pf_fd := 7, pf_events := POLLIN OR POLLOUT\<rparr>], sv_open := [7], sv_active := 1\<rparr>"

lemma two_updates:
  "(replicate 10 c)[2 := d] = replicate 2 c @ d # replicate 7 c"
  "(replicate 13 c)[0 := d, 3 := e] = d # replicate 2 c @ e # replicate 9 c"
  by (simp_all add: eval_nat_numeral)

lemma greeted_tables: "sv_clients greeted = replicate 2 blank @ accepted 7 2 # replicate 7 blank"
  "drop 3 (sv_watched greeted) = zero_pollfd\<lparr>pf_fd := 7, pf_events := POLLIN OR POLLOUT\<rparr> # replicate 9 (zero_pollfd\<lparr>pf_fd := -1\<rparr>)"
  "length (sv_watched greeted) = 13" "sv_open greeted = [7]" "sv_active greeted = 1"
  by (simp_all add: greeted_def booted_def two_updates blank_def)

lemma greeting: "NewConnection 3 (Some (7, 6, 2)) booted = Inr (7, greeted)"
proof -
  have "find_from 2 10 (\<lambda>c. \<not> cn_inUse c) (sv_clients booted) = Inr (Some 2)"
    by (subst find_from.simps) (simp add: booted_def aget_def zero_conn_def)
  moreover have "find_from 3 13 (\<lambda>w. pf_fd w = - 1) (sv_watched booted) = Inr (Some 3)"
    by (subst find_from.simps) (simp add: booted_def aget_def zero_pollfd_def)
  ultimately show ?thesis unfolding NewConnection_def accept_connection_def
    by (simp add: booted_def greeted_def Let_def PORT1_def accepted_def)
qed

lemma greeted_ok: "sync greeted" "counted greeted"
  by (auto simp: sync_def counted_def greeted_tables accepted_def)

lemma hello: "\<exists>s. main_round 3 hello_round booted = Some (Inr s) \<and> sv_open s = [7] \<and> map cn_inUse (sv_clients s) = map cn_inUse (sv_clients greeted)"
proof -
  let ?recv = "\<lambda>_. Some [104, 105]" and ?tx = "\<lambda>_ _. Takes 1"
  obtain s3 where r: "ReceiveLoop ?recv greeted = Inr s3" "sync s3" "counted s3"
    "sv_clients s3 = map (receive_result ?recv) (sv_clients greeted)" using ReceiveLoop_spec [OF greeted_ok] by blast
  note c = greeted_tables(1)
  have "sends_ok ?tx (receive_result ?recv c)" if "c \<in> set (sv_clients greeted)" for c
    using that transmit_blank_buffer [of "receive_result ?recv (accepted 7 2)"]
    by (auto simp: c sends_ok_def receive_result_def accepted_def zero_conn_def)
  then have all: "\<forall>c\<in>set (sv_clients s3). sends_ok ?tx c" by (auto simp: r(4))
  have "length (sv_clients s3) = 10" by (simp add: r(4) c)
  then have "\<forall>i\<in>set [0..<MAX_CONNECTIONS]. i < MAX_CONNECTIONS \<and> sends_ok ?tx (sv_clients s3 ! i)" using all by simp
  with transmit_all_spec [OF r(2), of "[0..<MAX_CONNECTIONS]" ?tx] r(3) obtain s4 where
    "TransmitPendingLoop ?tx s3 = Some (Inr s4)" "sv_open s4 = sv_open s3" "map cn_inUse (sv_clients s4) = map cn_inUse (sv_clients s3)"
    by (auto simp: TransmitPendingLoop_def counted_def simp del: upt_rec_numeral)
  moreover have "map cn_inUse (sv_clients s3) = map cn_inUse (sv_clients greeted)"
    by (simp add: r(4) c receive_result_def accepted_def)
  moreover have "sv_open s3 = [7]"
  proof -
    have "mset (sv_open s3) = client_fds s3" using r(2) by (simp add: sync_def)
    also have "\<dots> = {#7#}" by (simp add: r(4) c receive_result_def accepted_def zero_conn_def blank_def)
    finally show ?thesis by simp
  qed
  moreover have "ServerRun f booted = Some (Inr booted)" for f
    using unused_ones [of f 10] by (simp add: ServerRun_def booted_def)
  moreover have "kernel_accept (Some (7, 6, 2)) booted = Some (7, 6, 2)" "sv_active booted = 0"
    by (simp_all add: kernel_accept_def fresh_accept_def booted_def)
  ultimately show ?thesis using r(1) by (simp add: main_round_def hello_round_def idle_round_def greeting)
qed

lemma poll_never_handles_witness:
  "\<exists>s. ServerModelMain (\<lambda>_. zero_pollfd) (\<lambda>_. Some 40000) one_address None \<lparr>n_open = [0, 1, 2], n_listening = [], n_errno = 0\<rparr> [hello_round] = Some (Inr s)
    \<and> cn_inUse (sv_clients s ! 2) \<and> cn_clientCallback (sv_clients s ! 2) = None"
proof -
  obtain s where s: "main_round 3 hello_round booted = Some (Inr s)"
    "map cn_inUse (sv_clients s) = map cn_inUse (sv_clients greeted)" using hello by blast
  then have m: "ServerModelMain (\<lambda>_. zero_pollfd) (\<lambda>_. Some 40000) one_address None \<lparr>n_open = [0, 1, 2], n_listening = [], n_errno = 0\<rparr> [hello_round]
      = Some (Inr s)" by (simp add: ServerModelMain_def booting)
  have len: "length (sv_clients s) = 10" using arg_cong [OF s(2), of length] by (simp add: greeted_def booted_def)
  then have "cn_inUse (sv_clients s ! 2)" using s(2) nth_map [of 2 "sv_clients s" cn_inUse]
    by (simp add: greeted_def booted_def accepted_def)
  moreover from len have "sv_clients s ! 2 \<in> set (sv_clients s)" by simp
  with poll_never_handles [OF booting _ m] have "cn_clientCallback (sv_clients s ! 2) = None" by simp
  ultimately show ?thesis using m by blast
qed

end
