(* ===== verification/PollRun.thy ===== *)
theory PollRun
  imports PollMain
begin

text \<open>
  What the main loop of \<open>IOModels/poll/serverModel.c\<close> makes of the connection table over any number of rounds,
  whatever the kernel and the peers do: the tables stay in step, but the count of active connections
  is 0 after every round, so that clients are read only in a round that accepts one.
\<close>

section \<open>Between rounds\<close>

definition idle_buffers :: "server \<Rightarrow> bool" where
  "idle_buffers s \<longleftrightarrow> (\<forall>c\<in>set (sv_clients s). cn_pendingSendBuffer c = replicate NET_BUFFER_SIZE 0)"

definition tables :: "server \<Rightarrow> bool" where
  "tables s \<longleftrightarrow> sync s \<and> quiet s \<and> idle_buffers s \<and> \<not> cn_inUse (sv_clients s ! 0) \<and> \<not> cn_inUse (sv_clients s ! 1)"

text \<open>What can be seen of a connection: whose it is, and what was received from it.\<close>

definition seen :: "Connection \<Rightarrow> bool \<times> int \<times> byte list \<times> ConnectionState" where
  "seen c = (cn_inUse c, cn_socket c, cn_recvBuffer c, cn_state c)"

lemma tablesD:
  assumes "tables s"
  shows "sync s" "quiet s" "idle_buffers s" "length (sv_watched s) = MAX_WATCHEDFD" "length (sv_clients s) = MAX_CONNECTIONS"
    "\<not> cn_inUse (sv_clients s ! 0)" "\<not> cn_inUse (sv_clients s ! 1)"
  using assms by (simp_all add: tables_def sync_def)

text \<open>Storing a connection in one of the slots from 2 on, or an unused one anywhere.\<close>

lemma idle_buffers_update:
  "idle_buffers s \<Longrightarrow> cn_pendingSendBuffer c = replicate NET_BUFFER_SIZE 0 \<Longrightarrow> sv_clients s' = (sv_clients s)[i := c] \<Longrightarrow> idle_buffers s'"
  by (auto simp: idle_buffers_def dest!: updated)

lemma reserved_update:
  assumes "tables s" "sv_clients s' = (sv_clients s)[i := c]" "2 \<le> i \<or> \<not> cn_inUse c"
  shows "\<not> cn_inUse (sv_clients s' ! 0)" "\<not> cn_inUse (sv_clients s' ! 1)"
  using tablesD [OF assms(1)] assms(2,3)
  by (cases "i < length (sv_clients s)"; auto simp: nth_list_update)+

lemma used_slot:
  assumes "tables s" "cn_inUse (sv_clients s ! i)"
  shows "2 \<le> i"
proof (rule ccontr)
  assume "\<not> 2 \<le> i"
  then have "i = 0 \<or> i = 1" by auto
  with tablesD(6,7) [OF assms(1)] assms(2) show False by auto
qed

lemma at_most_eight:
  assumes "tables s"
  shows "size (client_fds s) \<le> 8"
proof -
  note t = tablesD [OF assms]
  obtain a b cs where c: "sv_clients s = a # b # cs" "length cs = 8"
    using t(5) by (cases "sv_clients s" rule: remdups_adj.cases) auto
  with t(6,7) have "size (client_fds s) = size (picks cn_inUse cn_socket cs)" by simp
  also have "\<dots> \<le> 8" using c(2) length_filter_le [of cn_inUse cs] by (simp add: size_picks)
  finally show ?thesis .
qed

section \<open>\<open>ServerRun\<close>\<close>

lemma aged_simps [simp]:
  "cn_inUse (aged c) = cn_inUse c" "cn_socket (aged c) = cn_socket c" "cn_clientCallback (aged c) = cn_clientCallback c"
  "cn_callbackRunning (aged c) = cn_callbackRunning c" "cn_pendingSendBuffer (aged c) = cn_pendingSendBuffer c" "seen (aged c) = seen c"
  by (simp_all add: aged_def seen_def)

lemma aged_unused: "\<not> cn_inUse c \<Longrightarrow> aged c = c"
  by (simp add: aged_def)

lemma picks_aged [simp]: "picks cn_inUse cn_socket (map aged cs) = picks cn_inUse cn_socket cs"
  by (induction cs) simp_all

definition older :: "server \<Rightarrow> server" where
  "older s = s\<lparr>sv_clients := map aged (sv_clients s)\<rparr>"

lemma older_simps [simp]:
  "sv_clients (older s) = map aged (sv_clients s)" "sv_watched (older s) = sv_watched s"
  "sv_open (older s) = sv_open s" "sv_active (older s) = sv_active s" "map seen (map aged cs) = map seen cs"
  by (simp_all add: older_def)

lemma older_tables:
  assumes "tables s"
  shows "tables (older s)"
proof -
  note t = tablesD [OF assms]
  have "\<forall>c\<in>set (sv_clients (older s)). cn_inUse c \<or> c = blank"
    using t(1) aged_unused by (auto simp: sync_def)
  then have "sync (older s)" using t(1) by (simp add: sync_def)
  then show ?thesis using t by (simp add: tables_def quiet_def quiet_conn_def idle_buffers_def)
qed

lemma ServerRun_older:
  assumes "tables s"
  shows "ServerRun create s = Some (Inr (older s))"
proof -
  have "\<forall>c\<in>set (sv_clients s). cn_clientCallback c = None"
    using tablesD(2) [OF assms] by (simp add: quiet_def quiet_conn_def)
  then have "run_clients create cs = Some (Inr (map aged cs))" if "set cs \<subseteq> set (sv_clients s)" for cs
    using that by (induction cs) (simp_all add: run_client_aged)
  from this [of "sv_clients s"] show ?thesis by (simp add: ServerRun_def older_def)
qed

section \<open>Accepting\<close>

lemma accept_tables:
  assumes t: "tables s" and "sv_active s = 0" and port: "srv \<noteq> PORT1"
  obtains (Refused) "NewConnection srv (kernel_accept acc s) s = Inr (-1, s)"
      "kernel_accept acc s = None \<or> size (client_fds s) = 8"
  | (Taken) fd s' where "NewConnection srv (kernel_accept acc s) s = Inr (fd, s')" "tables s'" "sv_active s' = 1"
      "sv_open s' = fd # sv_open s" "acc \<noteq> None" "size (client_fds s) < 8"
proof -
  have new: "NewConnection srv a s = accept_connection srv a s" for a
    using assms(2) by (simp add: NewConnection_def)
  note t' = tablesD [OF t]
  show thesis
    using t'(1) kernel_accept_fresh port
  proof (cases rule: accept_connection_spec [where acc = "kernel_accept acc s"])
    case Refused
    have "size (client_fds s) = 8" if all: "\<forall>k. 2 \<le> k \<and> k < MAX_CONNECTIONS \<longrightarrow> cn_inUse (sv_clients s ! k)"
    proof -
      have "\<forall>c\<in>set (drop 2 (sv_clients s)). cn_inUse c" using all t'(5) by (auto simp: in_set_conv_nth)
      then have "filter cn_inUse (drop 2 (sv_clients s)) = drop 2 (sv_clients s)" by (simp add: filter_id_conv)
      moreover have "length (filter cn_inUse (drop 2 (sv_clients s))) \<le> length (filter cn_inUse (sv_clients s))"
        using append_take_drop_id [of 2 "sv_clients s"] filter_append [of cn_inUse "take 2 (sv_clients s)" "drop 2 (sv_clients s)"]
        by (metis le_add2 length_append)
      ultimately have "8 \<le> size (client_fds s)" using t'(5) by (simp add: size_picks)
      with at_most_eight [OF t] show ?thesis by simp
    qed
    then show thesis using Refused that(1) new by auto
  next
    case (Taken fd peer addr k s')
    have c: "cn_pendingSendBuffer (accepted fd addr) = replicate NET_BUFFER_SIZE 0" "quiet_conn (accepted fd addr)"
      by (simp_all add: accepted_def zero_conn_def quiet_conn_def)
    have "quiet s'" using t'(2) c(2) Taken(8) by (auto simp: quiet_def dest!: updated)
    with Taken(3,5) idle_buffers_update [OF t'(3) c(1) Taken(8)] reserved_update [OF t Taken(8)]
    have t'': "tables s'" by (simp add: tables_def)
    have "size (client_fds s') = Suc (size (client_fds s))"
      using picks_update [of k "sv_clients s" cn_inUse cn_socket "accepted fd addr"] Taken(6,7,8) t'(5)
      by (simp add: accepted_def)
    with at_most_eight [OF t''] have "size (client_fds s) < 8" by simp
    moreover have "acc \<noteq> None" using Taken(1) by (auto simp: kernel_accept_def split: if_splits)
    ultimately show thesis using that(2) new Taken t'' assms(2) by auto
  qed
qed

section \<open>Receiving\<close>

text \<open>Between calls of \<open>CloseConnection\<close> the open descriptors and the count go down together.\<close>

lemma close_tables:
  assumes t: "tables s" and i: "i < MAX_CONNECTIONS" and n: "0 \<le> sv_active s"
  obtains s' where "CloseConnection i s = Inr s'" "tables s'" "0 \<le> sv_active s'" "sv_active s' \<le> sv_active s"
    "int (length (sv_open s')) - sv_active s' \<ge> int (length (sv_open s)) - sv_active s" "set (sv_open s') \<subseteq> set (sv_open s)"
proof (cases "sv_active s = 0")
  case True
  then show thesis using that [of s] t by (simp add: CloseConnection_def)
next
  case False
  note t' = tablesD [OF t]
  show thesis
  proof (cases "cn_inUse (sv_clients s ! i)")
    case True
    obtain s' where s': "CloseConnection i s = Inr s'" "sync s'" "sv_active s' = sv_active s - 1"
      "sv_clients s' = (sv_clients s)[i := blank]" "sv_open s' = remove1 (cn_socket (sv_clients s ! i)) (sv_open s)"
      using CloseConnection_in_use [OF t'(1) False i True] by metis
    have "cn_socket (sv_clients s ! i) \<in> set (sv_open s)" by (rule sync_client(2) [OF t'(1) i True])
    then have "length (sv_open s) = Suc (length (sv_open s'))" using s'(5) by (auto simp: length_remove1 dest: length_pos_if_in_set)
    moreover have "tables s'"
      using s'(2) CloseConnection_quiet [OF t'(2) s'(1)] reserved_update [OF t s'(4)] idle_buffers_update [OF t'(3) _ s'(4)]
      by (simp add: tables_def blank_def zero_conn_def)
    ultimately show thesis using that [OF s'(1)] s'(3,5) n False by (simp add: set_remove1_subset)
  next
    case unused: False
    obtain s' where s': "CloseConnection i s = Inr s'" "sync s'" "sv_clients s' = sv_clients s"
      "sv_open s' = sv_open s" "sv_active s' = (if sv_active s = 0 then 0 else sv_active s - 1)"
      by (rule CloseConnection_unused [OF t'(1) i unused])
    then show thesis using that [OF s'(1)] t n False
      by (simp add: tables_def quiet_def idle_buffers_def)
  qed
qed

lemma receive_tables:
  assumes t: "tables s" and i: "i < MAX_CONNECTIONS" and n: "0 \<le> sv_active s"
  obtains s' where "receive_one recv i s = Inr s'" "tables s'" "0 \<le> sv_active s'" "sv_active s' \<le> sv_active s"
    "int (length (sv_open s')) - sv_active s' \<ge> int (length (sv_open s)) - sv_active s" "set (sv_open s') \<subseteq> set (sv_open s)"
proof -
  let ?c = "sv_clients s ! i"
  note t' = tablesD [OF t]
  have get: "aget (sv_clients s) (int i) = Inr ?c" using i t'(5) by (simp add: aget_ok)
  show thesis
  proof (cases "cn_inUse ?c")
    case False
    then show thesis using that [of s] t n by (simp add: receive_one_def get)
  next
    case use: True
    note c = sync_client [OF t'(1) i use]
    have rdy: "ready POLLIN (cn_socket ?c) (sv_watched s) = Inr True"
      by (rule ready_spec [OF t'(4) c(3,1)]) (simp add: POLLIN_def)
    show thesis
    proof (cases "\<exists>b bs. recv (cn_socket ?c) = Some (b # bs)")
      case True
      then obtain b bs where bs: "recv (cn_socket ?c) = Some (b # bs)" by blast
      let ?got = "take NET_BUFFER_SIZE (b # bs)"
      let ?d = "?c\<lparr>cn_recvBuffer := ?got @ drop (length ?got) (cn_recvBuffer ?c), cn_state := eDataReceived\<rparr>"
      let ?s = "s\<lparr>sv_clients := (sv_clients s)[i := ?d]\<rparr>"
      have run: "receive_one recv i s = Inr ?s"
        using use by (simp add: receive_one_def get rdy bs Let_def)
      have "client_fds ?s = client_fds s"
        using picks_update [of i "sv_clients s" cn_inUse cn_socket ?d] i t'(5) use by simp
      moreover have "\<forall>c\<in>set (sv_clients ?s). cn_inUse c \<or> c = blank"
        using t'(1) set_update_subset_insert [of "sv_clients s" i ?d] use by (auto simp: sync_def)
      ultimately have "sync ?s" using t'(1) by (simp add: sync_def)
      moreover have "?c \<in> set (sv_clients s)" using i t'(5) by simp
      then have "cn_pendingSendBuffer ?d = replicate NET_BUFFER_SIZE 0" using t'(3) by (simp add: idle_buffers_def)
      ultimately have "tables ?s"
        using receive_one_quiet [OF t'(2) run] idle_buffers_update [OF t'(3), of ?d ?s i]
          reserved_update [OF t, of ?s i ?d] used_slot [OF t use] by (simp add: tables_def)
      then show thesis using that [OF run] n by simp
    next
      case False
      then have "receive_one recv i s = CloseConnection i s"
        using use by (auto simp: receive_one_def get rdy split: option.splits list.splits)
      then show thesis using close_tables [OF t i n] that by metis
    qed
  qed
qed

lemma each_client_tables:
  assumes "tables s" "0 \<le> sv_active s" "\<forall>i\<in>set is. i < MAX_CONNECTIONS"
  shows "\<exists>s'. each_client (receive_one recv) is s = Inr s' \<and> tables s' \<and> 0 \<le> sv_active s' \<and> sv_active s' \<le> sv_active s \<and>
    int (length (sv_open s')) - sv_active s' \<ge> int (length (sv_open s)) - sv_active s \<and> set (sv_open s') \<subseteq> set (sv_open s)"
  using assms
proof (induction "is" arbitrary: s)
  case (Cons i "is")
  have "i < MAX_CONNECTIONS" "\<forall>i\<in>set is. i < MAX_CONNECTIONS" using Cons.prems(3) by simp_all
  from receive_tables [OF Cons.prems(1) this(1) Cons.prems(2)] obtain s1 where
    s1: "receive_one recv i s = Inr s1" "tables s1" "0 \<le> sv_active s1" "sv_active s1 \<le> sv_active s"
      "int (length (sv_open s1)) - sv_active s1 \<ge> int (length (sv_open s)) - sv_active s" "set (sv_open s1) \<subseteq> set (sv_open s)"
    by metis
  from Cons.IH [OF s1(2,3) \<open>\<forall>i\<in>set is. i < MAX_CONNECTIONS\<close>] s1 show ?case by fastforce
qed simp

lemma ReceiveLoop_tables:
  assumes "tables s" "0 \<le> sv_active s"
  shows "\<exists>s'. ReceiveLoop recv s = Inr s' \<and> tables s' \<and> 0 \<le> sv_active s' \<and> sv_active s' \<le> sv_active s \<and>
    int (length (sv_open s')) - sv_active s' \<ge> int (length (sv_open s)) - sv_active s \<and> set (sv_open s') \<subseteq> set (sv_open s)"
  using each_client_tables [OF assms, of "[0..<MAX_CONNECTIONS]" recv] assms
  by (simp add: ReceiveLoop_def del: upt_rec_numeral)

section \<open>Sending\<close>

text \<open>There is never anything to send but the zero byte of an empty string.\<close>

definition progresses :: "sender \<Rightarrow> bool" where
  "progresses tx \<longleftrightarrow> (\<exists>k. 0 < taken tx k)"

lemma TransmitPending_empty:
  assumes "cn_socket c \<noteq> -1" "cn_pendingSendBuffer c = replicate NET_BUFFER_SIZE 0"
  shows "(\<exists>st. TransmitPending tx c = Some (Inr (st, c))) \<or> \<not> progresses tx \<and> TransmitPending tx c = None"
proof -
  have b: "c_string (cn_pendingSendBuffer c) = Inr [0]" by (simp add: assms(2) c_string_def)
  have eq: "c\<lparr>cn_pendingSendBuffer := replicate NET_BUFFER_SIZE 0\<rparr> = c" by (simp flip: assms(2))
  have go: "\<exists>r. transmit_loop tx 0 [0] 0 True = Some r" if p: "progresses tx"
  proof -
    from p obtain k where k: "0 < taken tx k" by (auto simp: progresses_def)
    have "taken tx k \<le> sum_list (map (taken tx) [0..<0 + Suc k])" by (rule member_le_sum_list) (auto intro!: imageI)
    with k have "length [0 :: byte] \<le> sum_list (map (taken tx) [0..<0 + Suc k])" unfolding list.size by linarith
    from transmit_loop_returns [OF this] show ?thesis .
  qed
  have eq2: "TransmitPending tx c = (case transmit_loop tx 0 [0] 0 True of
      None \<Rightarrow> None | Some (st, k) \<Rightarrow> Some (Inr (st, c)))"
    unfolding TransmitPending_def b eq using assms(1) by simp
  show ?thesis
  proof (cases "transmit_loop tx 0 [0] 0 True")
    case None
    with go eq2 show ?thesis by auto
  next
    case (Some r)
    obtain st k where "r = (st, k)" by (cases r)
    with Some eq2 show ?thesis by simp
  qed
qed

text \<open>With a count of 0 a pass over the connections changes nothing.\<close>

lemma transmit_one_deaf:
  assumes t: "tables s" and "sv_active s = 0" and i: "i < MAX_CONNECTIONS"
  shows "transmit_one tx i s = Some (Inr s) \<or> (\<exists>fd. \<not> progresses (tx fd)) \<and> transmit_one tx i s = None"
proof -
  let ?c = "sv_clients s ! i"
  note t' = tablesD [OF t]
  have get: "aget (sv_clients s) (int i) = Inr ?c" using i t'(5) by (simp add: aget_ok)
  have close: "CloseConnection i s = Inr s" using assms(2) by (simp add: CloseConnection_def)
  show ?thesis
  proof (cases "cn_inUse ?c")
    case False
    then show ?thesis by (simp add: transmit_one_def get close)
  next
    case True
    note c = sync_client [OF t'(1) i True]
    have rdy: "ready POLLOUT (cn_socket ?c) (sv_watched s) = Inr True"
      by (rule ready_spec [OF t'(4) c(3,1)]) (simp add: POLLOUT_def)
    have same: "s\<lparr>sv_clients := (sv_clients s)[i := ?c]\<rparr> = s" by simp
    have "?c \<in> set (sv_clients s)" using i t'(5) by simp
    then have "cn_pendingSendBuffer ?c = replicate NET_BUFFER_SIZE 0" using t'(3) by (simp add: idle_buffers_def)
    from TransmitPending_empty [OF _ this, of "tx (cn_socket ?c)"] c(1)
    consider st where "TransmitPending (tx (cn_socket ?c)) ?c = Some (Inr (st, ?c))"
      | "\<not> progresses (tx (cn_socket ?c))" "TransmitPending (tx (cn_socket ?c)) ?c = None" by force
    then show ?thesis
    proof cases
      case 1
      then show ?thesis using True by (simp add: transmit_one_def get rdy same close)
    next
      case 2
      then show ?thesis using True by (auto simp: transmit_one_def get rdy)
    qed
  qed
qed

lemma transmit_all_deaf:
  assumes t: "tables s" and "sv_active s = 0" and "\<forall>i\<in>set is. i < MAX_CONNECTIONS"
  shows "transmit_all tx is s = Some (Inr s) \<or> (\<exists>fd. \<not> progresses (tx fd)) \<and> transmit_all tx is s = None"
  using assms(3)
proof (induction "is")
  case (Cons i "is")
  then have "transmit_one tx i s = Some (Inr s) \<or> (\<exists>fd. \<not> progresses (tx fd)) \<and> transmit_one tx i s = None"
    by (intro transmit_one_deaf [OF t assms(2)]) simp
  with Cons show ?case by auto
qed simp

text \<open>The first slot is never in use, and closing it brings a count of 1 down to 0.\<close>

lemma TransmitPendingLoop_tables:
  assumes t: "tables s" and n: "0 \<le> sv_active s" "sv_active s \<le> 1"
  obtains s' where "tables s'" "sv_active s' = 0" "sv_open s' = sv_open s" "sv_clients s' = sv_clients s"
    "sv_active s = 0 \<Longrightarrow> s' = s"
    "TransmitPendingLoop tx s = Some (Inr s') \<or> (\<exists>fd. \<not> progresses (tx fd)) \<and> TransmitPendingLoop tx s = None"
proof -
  note t' = tablesD [OF t]
  have get: "aget (sv_clients s) (int 0) = Inr (sv_clients s ! 0)" using t'(5) by (simp add: aget_ok)
  obtain s' where s': "CloseConnection 0 s = Inr s'" "sync s'" "sv_clients s' = sv_clients s"
    "sv_open s' = sv_open s" "sv_active s' = (if sv_active s = 0 then 0 else sv_active s - 1)"
    using CloseConnection_unused [OF t'(1) _ t'(6)] by auto
  have "sv_active s' = 0" using s'(5) n by auto
  moreover have ts: "tables s'" using t s'(2,3) by (simp add: tables_def quiet_def idle_buffers_def)
  moreover have "sv_active s = 0 \<Longrightarrow> s' = s" using s'(1) by (simp add: CloseConnection_def)
  moreover have "transmit_one tx 0 s = Some (Inr s')" using get t'(6) s'(1) by (simp add: transmit_one_def)
  moreover have "[0..<MAX_CONNECTIONS] = 0 # [Suc 0..<MAX_CONNECTIONS]" by (rule upt_conv_Cons) simp
  moreover have "\<forall>i\<in>set [Suc 0..<MAX_CONNECTIONS]. i < MAX_CONNECTIONS" by simp
  note transmit_all_deaf [OF ts \<open>sv_active s' = 0\<close> this, of tx]
  ultimately show thesis using that [of s'] s'(3,4)
    by (simp add: TransmitPendingLoop_def del: upt_rec_numeral)
qed

section \<open>Rounds\<close>

definition between :: "server \<Rightarrow> bool" where
  "between s \<longleftrightarrow> tables s \<and> sv_active s = 0"

text \<open>No connection is accepted in a round: none is pending, \<open>accept\<close> fails, or there are eight already.\<close>

definition accepts_none :: "round \<Rightarrow> server \<Rightarrow> bool" where
  "accepts_none r s \<longleftrightarrow> \<not> rd_pending r \<or> rd_accept r = None \<or> size (client_fds s) = 8"

definition round_to :: "round \<Rightarrow> server \<Rightarrow> server \<Rightarrow> bool" where
  "round_to r s s' \<longleftrightarrow> between s' \<and> length (sv_open s) \<le> length (sv_open s') \<and>
     (accepts_none r s \<longrightarrow> sv_open s' = sv_open s \<and> map seen (sv_clients s') = map seen (sv_clients s))"

lemma main_round_between:
  assumes b: "between s" and port: "listening \<noteq> PORT1" and ok: "rd_poll_ok r"
  obtains s' where "round_to r s s'"
    "main_round listening r s = Some (Inr s') \<or> (\<exists>fd. \<not> progresses (rd_send r fd)) \<and> main_round listening r s = None"
proof -
  have t: "tables s" and n: "sv_active s = 0" using b by (simp_all add: between_def)
  let ?s = "older s"
  note o = older_tables [OF t]
  have n': "sv_active ?s = 0" using n by simp
  let ?new = "if listening \<noteq> -1 \<and> rd_pending r \<and> sv_active ?s < int MAX_CONNECTIONS
    then cbind (NewConnection listening (kernel_accept (rd_accept r) ?s) ?s) (\<lambda>(fd, s). Inr s) else Inr ?s"
  have run: "main_round listening r s = (case ?new of Inl f \<Rightarrow> Some (Inl f)
      | Inr s2 \<Rightarrow> (case ReceiveLoop (rd_recv r) s2 of
          Inl f \<Rightarrow> Some (Inl f) | Inr s3 \<Rightarrow> TransmitPendingLoop (rd_send r) s3))"
    using ok by (simp add: main_round_def ServerRun_older [OF t])
  have "?new = Inr ?s \<or> (\<exists>fd s2. ?new = Inr s2 \<and> tables s2 \<and> sv_active s2 = 1 \<and> sv_open s2 = fd # sv_open s \<and> \<not> accepts_none r s)"
    using o n' port
  proof (cases rule: accept_tables [where acc = "rd_accept r"])
    case Refused
    then show ?thesis by auto
  next
    case (Taken fd s')
    then show ?thesis using n by (auto simp: accepts_none_def)
  qed
  then show thesis
  proof
    assume new: "?new = Inr ?s"
    have "ReceiveLoop (rd_recv r) ?s = Inr ?s" using n by (simp add: ReceiveLoop_def)
    then have "main_round listening r s = TransmitPendingLoop (rd_send r) ?s" using run new by simp
    moreover have "TransmitPendingLoop (rd_send r) ?s = Some (Inr ?s) \<or>
        (\<exists>fd. \<not> progresses (rd_send r fd)) \<and> TransmitPendingLoop (rd_send r) ?s = None"
      using TransmitPendingLoop_tables [OF o, of "rd_send r"] n by (metis older_simps(4) order_refl zero_le_one)
    moreover have "round_to r s ?s" using o n by (simp add: round_to_def between_def)
    ultimately show thesis using that [of ?s] by simp
  next
    assume "\<exists>fd s2. ?new = Inr s2 \<and> tables s2 \<and> sv_active s2 = 1 \<and> sv_open s2 = fd # sv_open s \<and> \<not> accepts_none r s"
    then obtain fd s2 where s2: "?new = Inr s2" "tables s2" "sv_active s2 = 1" "sv_open s2 = fd # sv_open s" "\<not> accepts_none r s"
      by blast
    obtain s3 where s3: "ReceiveLoop (rd_recv r) s2 = Inr s3" "tables s3" "0 \<le> sv_active s3" "sv_active s3 \<le> sv_active s2"
      "int (length (sv_open s3)) - sv_active s3 \<ge> int (length (sv_open s2)) - sv_active s2"
      using ReceiveLoop_tables [OF s2(2), of "rd_recv r"] s2(3) by auto
    have "sv_active s3 \<le> 1" using s3(4) s2(3) by simp
    from TransmitPendingLoop_tables [OF s3(2,3) this, of "rd_send r"] obtain s4 where
      s4: "tables s4" "sv_active s4 = 0" "sv_open s4 = sv_open s3"
        "TransmitPendingLoop (rd_send r) s3 = Some (Inr s4) \<or> (\<exists>fd. \<not> progresses (rd_send r fd)) \<and> TransmitPendingLoop (rd_send r) s3 = None"
      by metis
    have "length (sv_open s) \<le> length (sv_open s4)" using s3(3,5) s2(3,4) s4(3) by simp
    then have "round_to r s s4" using s4(1,2) s2(5) by (simp add: round_to_def between_def)
    moreover have "main_round listening r s = TransmitPendingLoop (rd_send r) s3" using run s2(1) s3(1) by simp
    ultimately show thesis using that [of s4] s4(4) by simp
  qed
qed

lemma main_round_no_poll:
  assumes "between s" "\<not> rd_poll_ok r"
  shows "main_round listening r s = Some (Inl Assert_Fail)"
  using assms by (simp add: main_round_def between_def ServerRun_older)

text \<open>Any number of rounds.\<close>

definition rounds_result :: "round list \<Rightarrow> server \<Rightarrow> server cres option \<Rightarrow> bool" where
  "rounds_result rs s res \<longleftrightarrow> (case res of
     None \<Rightarrow> \<exists>r\<in>set rs. \<exists>fd. \<not> progresses (rd_send r fd)
   | Some (Inl f) \<Rightarrow> f = Assert_Fail \<and> (\<exists>r\<in>set rs. \<not> rd_poll_ok r)
   | Some (Inr s') \<Rightarrow> between s' \<and> length (sv_open s) \<le> length (sv_open s') \<and>
       (length (sv_open s) = 8 \<or> (\<forall>r\<in>set rs. \<not> rd_pending r \<or> rd_accept r = None) \<longrightarrow>
          sv_open s' = sv_open s \<and> map seen (sv_clients s') = map seen (sv_clients s)))"

lemma open_clients: "tables s \<Longrightarrow> length (sv_open s) = size (client_fds s)"
  by (simp add: tables_def sync_def)

lemma poll_rounds_between:
  assumes "between s" "listening \<noteq> PORT1"
  shows "rounds_result rs s (poll_rounds listening rs s)"
  using assms(1)
proof (induction rs arbitrary: s)
  case Nil
  then show ?case by (simp add: rounds_result_def)
next
  case (Cons r rs)
  show ?case
  proof (cases "rd_poll_ok r")
    case False
    then show ?thesis using main_round_no_poll [OF Cons.prems] by (simp add: rounds_result_def)
  next
    case True
    obtain s1 where s1: "round_to r s s1"
      "main_round listening r s = Some (Inr s1) \<or> (\<exists>fd. \<not> progresses (rd_send r fd)) \<and> main_round listening r s = None"
      by (rule main_round_between [OF Cons.prems assms(2) True])
    from s1(2) show ?thesis
    proof
      assume "(\<exists>fd. \<not> progresses (rd_send r fd)) \<and> main_round listening r s = None"
      then show ?thesis by (auto simp: rounds_result_def)
    next
      assume run: "main_round listening r s = Some (Inr s1)"
      have b: "between s1" "length (sv_open s) \<le> length (sv_open s1)"
        "accepts_none r s \<longrightarrow> sv_open s1 = sv_open s \<and> map seen (sv_clients s1) = map seen (sv_clients s)"
        using s1(1) by (simp_all add: round_to_def)
      have "accepts_none r s" if "length (sv_open s) = 8 \<or> \<not> rd_pending r \<or> rd_accept r = None"
        using that open_clients [of s] Cons.prems by (auto simp: accepts_none_def between_def)
      with b Cons.IH [OF b(1)] run show ?thesis
        by (auto simp: rounds_result_def split: option.splits sum.splits)
    qed
  qed
qed

lemma started_between:
  assumes "poll_start junk malloc gai opt net = Inr (fd, s, net')"
  shows "between s"
proof -
  from assms obtain si where si: "Initialize junk malloc = Inr si" "sv_clients s = sv_clients si"
    "sv_open s = sv_open si" "sv_active s = sv_active si"
    "drop MAX_SERVICE (sv_watched s) = drop MAX_SERVICE (sv_watched si)" "length (sv_watched s) = length (sv_watched si)"
    by (auto simp: poll_start_def aget_def aset_def split: if_splits)
  note t = Initialize_tables [OF si(1)]
  have "sync s" using Initialize_sync [OF si(1)] si(2,3,5,6) by (simp add: sync_def)
  then show ?thesis using t si(2,4)
    by (simp add: between_def tables_def quiet_def idle_buffers_def quiet_conn_def blank_def zero_conn_def)
qed

section \<open>Properties\<close>


text \<open>A client connects, and sends again when nobody else connects; then its end is closed.\<close>

definition more_data :: round where
  "more_data = idle_round\<lparr>rd_recv := (\<lambda>_. Some [109, 111])\<rparr>"



text \<open>
  C30. The server is deaf except in the rounds that accept a connection. \<open>TransmitPendingLoop\<close> closes every connection
  that is not in use, each time taking one off \<open>connectionsActive\<close>, so the count is 0 at the end of every round, and
  in the next one \<open>ReceiveLoop\<close> returns at once, and \<open>CloseConnection\<close> too, unless a connection was accepted
  before. So in any rounds, after any others, in which none is pending (or \<open>accept\<close> fails), nobody is read and nobody
  closed, whatever arrives, whoever closes and however sends fail; with eight clients connected the same is true of all
  rounds from then on, as no newcomer is accepted. In any rounds the number of open connections never falls.
\<close>
theorem poll_goes_deaf:
  assumes "poll_start junk malloc gai opt net = Inr (fd, s0, net')" "fd \<noteq> 50000"
    and "poll_rounds fd rs s0 = Some (Inr s)" "poll_rounds fd rs' s = Some (Inr s')"
  shows "length (sv_open s) \<le> length (sv_open s') \<and>
    (length (sv_open s) = 8 \<or> (\<forall>r\<in>set rs'. \<not> rd_pending r \<or> rd_accept r = None) \<longrightarrow>
      sv_open s' = sv_open s \<and> map seen (sv_clients s') = map seen (sv_clients s))"
proof -
  have port: "fd \<noteq> PORT1" using assms(2) by (simp add: PORT1_def)
  from poll_rounds_between [OF started_between [OF assms(1)] this, of rs] assms(3)
  have "between s" by (simp add: rounds_result_def)
  from poll_rounds_between [OF this port, of rs'] assms(4) show ?thesis by (simp add: rounds_result_def)
qed

theorem poll_goes_deaf_witness:
  "\<exists>s s'. poll_rounds 3 [hello_round] booted = Some (Inr s) \<and> poll_rounds 3 [more_data, idle_round] s = Some (Inr s') \<and>
     sv_open s' = [7] \<and> map cn_recvBuffer (sv_clients s') = map cn_recvBuffer (sv_clients s)"
proof -
  obtain s where s: "main_round 3 hello_round booted = Some (Inr s)" "sv_open s = [7]" using hello by blast
  then have 1: "poll_rounds 3 [hello_round] booted = Some (Inr s)" by simp
  have port: "(3 :: int) \<noteq> PORT1" by (simp add: PORT1_def)
  have "between s" using poll_rounds_between [OF started_between [OF booting] port, of "[hello_round]"] 1
    by (simp add: rounds_result_def)
  from poll_rounds_between [OF this port, of "[more_data, idle_round]"]
  have "\<exists>s'. poll_rounds 3 [more_data, idle_round] s = Some (Inr s')"
    by (auto simp: rounds_result_def more_data_def idle_round_def progresses_def taken_def
        simp del: poll_rounds.simps split: option.splits sum.splits)
  then obtain s' where 2: "poll_rounds 3 [more_data, idle_round] s = Some (Inr s')" by blast
  from poll_goes_deaf [OF booting _ 1 2] s(2) have
    "sv_open s' = [7]" "map seen (sv_clients s') = map seen (sv_clients s)"
    by (simp_all add: more_data_def idle_round_def)
  moreover have "cn_recvBuffer = fst \<circ> Product_Type.snd \<circ> Product_Type.snd \<circ> seen" by (simp add: fun_eq_iff seen_def)
  ultimately have "map cn_recvBuffer (sv_clients s') = map cn_recvBuffer (sv_clients s)"
    by (metis (no_types, lifting) map_map)
  with 1 2 \<open>sv_open s' = [7]\<close> show ?thesis by blast
qed

end
