(* ===== verification/LogDaemon.thy ===== *)
theory LogDaemon
  imports Daemon GetNum
begin

text \<open>
  The daemon of \<open>daemonapi/src/daemon_SIGHUP.c\<close>: it counts intervals of 15 seconds in a log file
  and on \<open>SIGHUP\<close> opens the file again and reads its configuration. Two names are misspelled in the
  source: \<open>hupReceive\<close> and \<open>hupReceived\<close> are read as one variable, \<open>arglist\<close> as \<open>argList\<close>. What happens
  during a turn of the main loop is an argument: how \<open>sleep\<close> returns, when \<open>SIGHUP\<close> arrives, whether the
  log can be opened, what the configuration file holds and what \<open>strftime\<close> makes of the time.
\<close>

section \<open>The log\<close>

definition SLEEP_TIME :: nat where "SLEEP_TIME = 15"

definition logMessage :: "string option \<Rightarrow> string \<Rightarrow> string list \<Rightarrow> string list" where
  "logMessage stamp msg log =
     log @ [(case stamp of None \<Rightarrow> ''???Unknown time????: '' | Some t \<Rightarrow> t @ '': '') @ msg]"

text \<open>The mask that \<open>umask\<close> sets while the file is created is set back; a failure ends the process.\<close>

definition logOpen :: "bool \<Rightarrow> string option \<Rightarrow> string list \<Rightarrow> int + string list" where
  "logOpen opens stamp log = (if opens then Inr (logMessage stamp ''Opened log file'' log) else Inl 1)"

definition logClose :: "string option \<Rightarrow> string list \<Rightarrow> string list" where
  "logClose stamp log = logMessage stamp ''Closing log file'' log"

section \<open>The configuration\<close>

abbreviation (input) newline :: char where "newline \<equiv> CHR 0x0A"
abbreviation (input) SBUF_SIZE :: nat where "SBUF_SIZE \<equiv> 100"

definition fgets :: "nat \<Rightarrow> string \<Rightarrow> string option" where
  "fgets n s = (if s = [] then None else
     Some (take (n - 1) (takeWhile (\<lambda>c. c \<noteq> newline) s @ take 1 (dropWhile (\<lambda>c. c \<noteq> newline) s))))"

text \<open>\<open>str\<close> after \<open>readConfigFile\<close> took off its last character.\<close>

definition config_text :: "string \<Rightarrow> string cres" where
  "config_text s = (case fgets SBUF_SIZE s of
     None \<Rightarrow> Inr ''''
   | Some line \<Rightarrow> let str = takeWhile (\<lambda>c. c \<noteq> CHR 0x00) line
       in if str = [] then Inl Out_Of_Bounds else Inr (butlast str))"

definition readConfigFile :: "string option \<Rightarrow> string option \<Rightarrow> string list \<Rightarrow> string list cres" where
  "readConfigFile config stamp log = (case config of
     None \<Rightarrow> Inr log
   | Some s \<Rightarrow> cbind (config_text s) (\<lambda>str. Inr (logMessage stamp (''Read config file: '' @ str) log)))"

section \<open>The main loop\<close>

record log_daemon =
  ld_hupReceived :: bool
  ld_count :: int
  ld_unslept :: nat
  ld_log :: "string list"

record turn =
  tn_unslept :: nat           \<comment> \<open>what \<open>sleep\<close> returns\<close>
  tn_hup :: bool              \<comment> \<open>\<open>SIGHUP\<close> arrives before \<open>hupReceived\<close> is tested\<close>
  tn_late :: bool             \<comment> \<open>\<open>SIGHUP\<close> arrives after that, before the next \<open>sleep\<close>\<close>
  tn_opens :: bool
  tn_config :: "string option"
  tn_stamp :: "string option"

text \<open>\<open>Inr (Inl n)\<close>: the process ended with status \<open>n\<close>.\<close>

type_synonym 'a process = "(int + 'a) cres"

definition go_on :: "'a process \<Rightarrow> ('a \<Rightarrow> 'b process) \<Rightarrow> 'b process" where
  "go_on r f = cbind r (\<lambda>r. case r of Inl n \<Rightarrow> Inr (Inl n) | Inr x \<Rightarrow> f x)"

definition open_and_read :: "turn \<Rightarrow> string list \<Rightarrow> string list process" where
  "open_and_read t log = go_on (Inr (logOpen (tn_opens t) (tn_stamp t) log))
     (\<lambda>log. cbind (readConfigFile (tn_config t) (tn_stamp t) log) (\<lambda>log. Inr (Inr log)))"

definition one_turn :: "turn \<Rightarrow> log_daemon \<Rightarrow> log_daemon process" where
  "one_turn t d = go_on
     (if ld_hupReceived d \<or> tn_hup t then open_and_read t (logClose (tn_stamp t) (ld_log d)) else Inr (Inr (ld_log d)))
     (\<lambda>log. Inr (Inr (
        if tn_unslept t = 0 then
          let count = c_int (ld_count d + 1)
          in \<lparr>ld_hupReceived = tn_late t, ld_count = count, ld_unslept = SLEEP_TIME,
              ld_log = logMessage (tn_stamp t) (''Main: '' @ show_int count) log\<rparr>
        else \<lparr>ld_hupReceived = tn_late t, ld_count = ld_count d, ld_unslept = tn_unslept t, ld_log = log\<rparr>)))"

fun turns :: "turn list \<Rightarrow> log_daemon \<Rightarrow> log_daemon process" where
  "turns [] d = Inr (Inr d)"
| "turns (t # ts) d = go_on (one_turn t d) (turns ts)"

text \<open>The daemon from \<open>logOpen\<close> on; of the first turn's record the start uses what concerns the log.\<close>

definition log_daemon_run :: "turn \<Rightarrow> turn list \<Rightarrow> string list \<Rightarrow> log_daemon process" where
  "log_daemon_run t ts log = go_on (open_and_read t log) (\<lambda>log.
     turns ts \<lparr>ld_hupReceived = tn_hup t, ld_count = 0, ld_unslept = SLEEP_TIME, ld_log = log\<rparr>)"

text \<open>
  \<open>main\<close>: what became of each process, the caller first. The processes whose \<open>becomeDaemon\<close> returns
  -1 end in \<open>errExit\<close>, as does the caller when \<open>sigaction\<close> fails.
\<close>

datatype ending = Exit_0 | Error_Exit | Runs "log_daemon process"

definition daemon_main :: "bool \<Rightarrow> kernel \<Rightarrow> proc \<Rightarrow> turn \<Rightarrow> turn list \<Rightarrow> string list \<Rightarrow> (ending \<times> proc) list" where
  "daemon_main sigaction_ok k p t ts log =
     (if \<not> sigaction_ok then [(Error_Exit, p)]
      else map (\<lambda>(f, q). (case f of Exit_Success \<Rightarrow> Exit_0
          | Returned r \<Rightarrow> if r = -1 then Error_Exit else Runs (log_daemon_run t ts log), q)) (becomeDaemon k 0 p))"

section \<open>Time and signals\<close>

lemma go_on_simps [simp]: "go_on (Inl f) g = Inl f" "go_on (Inr (Inl n)) g = Inr (Inl n)" "go_on (Inr (Inr x)) g = g x"
  by (simp_all add: go_on_def)

lemma go_on_Inr: "go_on r f = Inr (Inr y) \<longleftrightarrow> (\<exists>x. r = Inr (Inr x) \<and> f x = Inr (Inr y))"
  by (auto simp: go_on_def cbind_def split: sum.splits)

text \<open>\<open>sleep\<close> returns at most what it was asked for; the seconds that all calls slept.\<close>

fun sleeps :: "nat \<Rightarrow> turn list \<Rightarrow> bool" where
  "sleeps u [] = True"
| "sleeps u (t # ts) = (tn_unslept t \<le> u \<and> sleeps (if tn_unslept t = 0 then SLEEP_TIME else tn_unslept t) ts)"

fun slept :: "nat \<Rightarrow> turn list \<Rightarrow> nat" where
  "slept u [] = 0"
| "slept u (t # ts) = u - tn_unslept t + slept (if tn_unslept t = 0 then SLEEP_TIME else tn_unslept t) ts"

text \<open>How often the log is opened again: once for all signals between two tests.\<close>

fun answered :: "bool \<Rightarrow> turn list \<Rightarrow> turn list" where
  "answered hup [] = []"
| "answered hup (t # ts) = (if hup \<or> tn_hup t then [t] else []) @ answered (tn_late t) ts"

definition opening_lines :: "turn \<Rightarrow> nat" where
  "opening_lines t = 1 + (if tn_config t = None then 0 else 1)"

lemma open_and_read_length: "open_and_read t log = Inr (Inr log') \<Longrightarrow> length log' = length log + opening_lines t"
  by (auto simp: open_and_read_def logOpen_def readConfigFile_def logMessage_def opening_lines_def
    split: if_splits option.splits)

lemma turns_account:
  assumes "turns ts d = Inr (Inr d')" "sleeps (ld_unslept d) ts" "ld_unslept d \<le> SLEEP_TIME"
    and "0 \<le> ld_count d" "ld_count d + int (length ts) \<le> INT_MAX"
  shows "ld_unslept d' \<le> SLEEP_TIME
    \<and> 15 * ld_count d' + (15 - int (ld_unslept d')) = 15 * ld_count d + (15 - int (ld_unslept d)) + int (slept (ld_unslept d) ts)
    \<and> int (length (ld_log d')) = int (length (ld_log d)) + (ld_count d' - ld_count d)
        + (\<Sum>t\<leftarrow>answered (ld_hupReceived d) ts. 1 + int (opening_lines t))"
  using assms
proof (induction ts arbitrary: d)
  case (Cons t ts)
  from Cons.prems(1) obtain e where e: "one_turn t d = Inr (Inr e)" "turns ts e = Inr (Inr d')"
    by (auto simp: go_on_Inr)
  from e(1) obtain log where log: "(if ld_hupReceived d \<or> tn_hup t then open_and_read t (logClose (tn_stamp t) (ld_log d)) else Inr (Inr (ld_log d))) = Inr (Inr log)"
    and f: "e = (if tn_unslept t = 0
        then \<lparr>ld_hupReceived = tn_late t, ld_count = c_int (ld_count d + 1), ld_unslept = SLEEP_TIME,
              ld_log = logMessage (tn_stamp t) (''Main: '' @ show_int (c_int (ld_count d + 1))) log\<rparr>
        else \<lparr>ld_hupReceived = tn_late t, ld_count = ld_count d, ld_unslept = tn_unslept t, ld_log = log\<rparr>)"
    unfolding one_turn_def go_on_Inr Let_def by blast
  have n: "int (length log) = int (length (ld_log d)) + (if ld_hupReceived d \<or> tn_hup t then 1 + int (opening_lines t) else 0)"
    using log open_and_read_length [of t "logClose (tn_stamp t) (ld_log d)" log]
    by (auto simp: logClose_def logMessage_def split: if_splits)
  have c: "c_int (ld_count d + 1) = ld_count d + 1" using Cons.prems(4,5) by simp
  have u: "ld_unslept e = (if tn_unslept t = 0 then SLEEP_TIME else tn_unslept t)"
    and lc: "ld_count e = ld_count d + (if tn_unslept t = 0 then 1 else 0)" and h: "ld_hupReceived e = tn_late t"
    and ll: "int (length (ld_log e)) = int (length log) + (if tn_unslept t = 0 then 1 else 0)"
    using f c by (simp_all add: logMessage_def)
  have le: "tn_unslept t \<le> ld_unslept d" using Cons.prems(2) by simp
  have "ld_unslept e \<le> SLEEP_TIME" using u le Cons.prems(3) by simp
  from Cons.IH [OF e(2) _ this] have "ld_unslept d' \<le> SLEEP_TIME
    \<and> 15 * ld_count d' + (15 - int (ld_unslept d')) = 15 * ld_count e + (15 - int (ld_unslept e)) + int (slept (ld_unslept e) ts)
    \<and> int (length (ld_log d')) = int (length (ld_log e)) + (ld_count d' - ld_count e)
        + (\<Sum>t\<leftarrow>answered (ld_hupReceived e) ts. 1 + int (opening_lines t))"
    using Cons.prems u lc by simp
  then show ?case using u lc h ll n le by (auto simp: SLEEP_TIME_def)
qed simp

text \<open>
  C39. The daemon keeps time whatever interrupts its sleep, and the log accounts for all of it: fifteen
  seconds for every interval counted, and what was slept of the current one, make up the time slept; the log has
  grown by a line for every interval and, for the start and for every turn that finds a \<open>SIGHUP\<close> - those
  since the last test count once -, by the lines of closing, opening and reading.
\<close>

theorem daemon_keeps_time:
  assumes "log_daemon_run t ts log = Inr (Inr d)" "sleeps SLEEP_TIME ts" "int (length ts) \<le> INT_MAX"
  shows "15 * ld_count d + (15 - int (ld_unslept d)) = int (slept SLEEP_TIME ts)
    \<and> int (length (ld_log d)) = int (length log) + int (opening_lines t) + ld_count d
        + (\<Sum>t\<leftarrow>answered (tn_hup t) ts. 1 + int (opening_lines t))"
proof -
  from assms(1) obtain log' where o: "open_and_read t log = Inr (Inr log')"
    and r: "turns ts \<lparr>ld_hupReceived = tn_hup t, ld_count = 0, ld_unslept = SLEEP_TIME, ld_log = log'\<rparr> = Inr (Inr d)"
    by (auto simp: log_daemon_run_def go_on_Inr)
  from turns_account [OF r] assms(2,3) open_and_read_length [OF o] show ?thesis by (simp add: SLEEP_TIME_def)
qed

definition quiet_turn :: "nat \<Rightarrow> bool \<Rightarrow> turn" where
  "quiet_turn u hup = \<lparr>tn_unslept = u, tn_hup = hup, tn_late = False, tn_opens = True, tn_config = None, tn_stamp = None\<rparr>"

lemma daemon_keeps_time_witness:
  "\<exists>d. log_daemon_run (quiet_turn 0 False) [quiet_turn 0 False, quiet_turn 4 True, quiet_turn 0 False] [] = Inr (Inr d)
    \<and> ld_count d = 2 \<and> length (ld_log d) = 5"
proof -
  let ?ts = "[quiet_turn 0 False, quiet_turn 4 True, quiet_turn 0 False]"
  obtain d where d: "log_daemon_run (quiet_turn 0 False) ?ts [] = Inr (Inr d)" "ld_unslept d = 15"
    by (simp add: log_daemon_run_def open_and_read_def logOpen_def readConfigFile_def one_turn_def quiet_turn_def SLEEP_TIME_def Let_def)
  from daemon_keeps_time [OF d(1)] d show ?thesis
    by (simp add: quiet_turn_def SLEEP_TIME_def opening_lines_def)
qed

text \<open>
  What \<open>readConfigFile\<close> makes of the first line: a line that ends is logged up to its 98th character,
  the last line of a file without a newline loses its last character, and a file that begins with a zero byte makes it
  write in front of its buffer.
\<close>

theorem config_text_cases:
  assumes "newline \<notin> set line" "CHR 0x00 \<notin> set line"
  shows "config_text (line @ newline # rest) = Inr (take 98 line)
    \<and> config_text line = Inr (butlast (take 99 line))
    \<and> config_text (CHR 0x00 # rest) = Inl Out_Of_Bounds"
proof -
  have all: "c \<in> set line \<Longrightarrow> c \<noteq> newline" for c using assms(1) by blast
  have nl: "takeWhile (\<lambda>c. c \<noteq> newline) (line @ newline # rest) = line" "dropWhile (\<lambda>c. c \<noteq> newline) (line @ newline # rest) = newline # rest"
    "takeWhile (\<lambda>c. c \<noteq> newline) line = line" "dropWhile (\<lambda>c. c \<noteq> newline) line = []"
    using takeWhile_append2 [OF all] dropWhile_append2 [OF all] all by (simp_all add: takeWhile_eq_all_conv)
  have nul: "takeWhile (\<lambda>c. c \<noteq> CHR 0x00) (take n line) = take n line"
    "takeWhile (\<lambda>c. c \<noteq> CHR 0x00) (take n (line @ [newline])) = take n (line @ [newline])" for n
    using assms(2) by (auto simp: takeWhile_eq_all_conv dest!: in_set_takeD)
  have "butlast (take 99 (line @ [newline])) = take 98 line"
    by (auto simp: butlast_take butlast_append)
  moreover have "fgets SBUF_SIZE (line @ newline # rest) = Some (take 99 (line @ [newline]))" by (simp add: fgets_def nl)
  moreover have "take 99 (line @ [newline]) \<noteq> []" by simp
  ultimately have "config_text (line @ newline # rest) = Inr (take 98 line)"
    by (simp only: config_text_def Let_def option.case nul(2) if_False)
  moreover have "config_text line = Inr (butlast (take 99 line))"
  proof (cases "line = []")
    case False
    then have "fgets SBUF_SIZE line = Some (take 99 line)" by (simp only: fgets_def nl if_False) simp
    moreover have "take 99 line \<noteq> []" using False by simp
    ultimately show ?thesis by (simp only: config_text_def Let_def option.case nul(1) if_False)
  qed (simp add: config_text_def fgets_def)
  moreover have "config_text (CHR 0x00 # rest) = Inl Out_Of_Bounds"
    by (simp add: config_text_def fgets_def Let_def)
  ultimately show ?thesis by blast
qed

lemma config_text_cases_witness:
  "config_text (''debug=1'' @ CHR 0x0A # []) = Inr ''debug=1'' \<and> config_text ''debug=1'' = Inr ''debug=''"
  using config_text_cases [of "''debug=1''" "[]"] by simp

end
