(* ===== verification/QueueTests.thy ===== *)
theory QueueTests
  imports QueueArray QueueLinkList GetNum
begin

text \<open>
  The two programs in \<open>dataStruct/queue/test\<close>. Both fill a queue until an element is refused and then
  empty it, printing what happens; what they print is proved once for any queue that satisfies the
  contract, and then for the array queue and the linked queue.
\<close>

section \<open>The two loops\<close>

definition full_line :: "nat \<Rightarrow> string" where
  "full_line i = ''The queue is full, times = '' @ show_int (int i + 1)"

definition empty_line :: string where
  "empty_line = ''The queue is empty''"

definition value_line :: "int \<Rightarrow> string" where
  "value_line v = ''get the head value = '' @ show_int v"

text \<open>\<open>item\<close> and \<open>line\<close> say what is put in for \<open>i\<close> and what is printed for an element.\<close>

fun fill_loop :: "(nat \<Rightarrow> 'a) \<Rightarrow> ('q \<Rightarrow> 'a \<Rightarrow> ('q \<times> bool) cres) \<Rightarrow> nat \<Rightarrow> nat \<Rightarrow> 'q \<Rightarrow> ('q \<times> string list) cres" where
  "fill_loop item enq i 0 q = Inr (q, [])"
| "fill_loop item enq i (Suc n) q = cbind (enq q (item i)) (\<lambda>(q, res).
     if \<not> res then Inr (q, [full_line i]) else fill_loop item enq (Suc i) n q)"

text \<open>\<open>stop\<close>: the program for the linked queue leaves its loop when the queue is empty.\<close>

fun drain_loop :: "('a \<Rightarrow> string) \<Rightarrow> ('q \<Rightarrow> ('q \<times> 'a option) cres) \<Rightarrow> bool \<Rightarrow> nat \<Rightarrow> 'q \<Rightarrow> ('q \<times> string list) cres" where
  "drain_loop line deq stop 0 q = Inr (q, [])"
| "drain_loop line deq stop (Suc n) q = cbind (deq q) (\<lambda>(q, res).
     case res of
       Some v \<Rightarrow> cbind (drain_loop line deq stop n q) (\<lambda>(q, out). Inr (q, line v # out))
     | None \<Rightarrow>
         if stop then Inr (q, [empty_line])
         else cbind (drain_loop line deq stop n q) (\<lambda>(q, out). Inr (q, empty_line # out)))"

definition print_run :: "('q \<Rightarrow> int \<Rightarrow> ('q \<times> bool) cres) \<Rightarrow> ('q \<Rightarrow> ('q \<times> int option) cres) \<Rightarrow> nat \<Rightarrow> nat \<Rightarrow> bool \<Rightarrow> 'q \<times> bool
    \<Rightarrow> string list cres" where
  "print_run enq deq n m stop init = (case init of (q, res) \<Rightarrow>
     if \<not> res then Inr [''Init_Queue fail'']
     else cbind (fill_loop int enq 0 n q) (\<lambda>(q, full). cbind (drain_loop value_line deq stop m q) (\<lambda>(q, out).
       Inr (''Init_Queue success'' # full @ out))))"

section \<open>The two programs\<close>

text \<open>
  The result of the first \<open>malloc\<close> is used unchecked in both. \<open>h\<close> and \<open>t\<close> are what the memory of the
  array queue holds.
\<close>

definition testQueueArr :: "(nat \<Rightarrow> bool) \<Rightarrow> int \<Rightarrow> int \<Rightarrow> string list cres" where
  "testQueueArr malloc h t =
     (if \<not> malloc 24 then Inl Null_Deref
      else let Q = \<lparr>qa_head = h, qa_tail = t, qa_item = None, qa_QLen = 5\<rparr>
           in cbind (InitQueue_arr malloc (Some Q)) (\<lambda>(Q, res).
                print_run qa_enq qa_deq (nat (qa_QLen Q)) (nat (qa_QLen Q)) False (Q, res)))"

definition testQueueLnk :: "bool \<Rightarrow> QNode heap \<Rightarrow> string list cres" where
  "testQueueLnk granted heap =
     (if \<not> granted then cbind (InitQueue_lnk None) (\<lambda>_. Inr [])
      else cbind (InitQueue_lnk (Some \<lparr>lq_head = Junk, lq_tail = Junk, lq_heap = heap\<rparr>))
             (print_run lq_enq lq_deq 5 10 True))"

section \<open>What the loops print\<close>

context fifo
begin

lemma drain_prints:
  "valid q \<Longrightarrow> \<exists>q'. drain_loop line deq stop n q = Inr (q', map line (take n (contents q))
     @ replicate (if stop then min 1 (n - length (contents q)) else n - length (contents q)) empty_line)"
proof (induction n arbitrary: q)
  case 0
  then show ?case by simp
next
  case (Suc n)
  from Suc.prems show ?case
  proof (cases rule: deqE)
    case (Empty q')
    with Suc.IH [of q'] show ?thesis by (cases stop) auto
  next
    case (Item q' x xs)
    with Suc.IH [of q'] show ?thesis by auto
  qed
qed

lemma fill_prints:
  "valid q \<Longrightarrow> \<exists>q' m. m \<le> n \<and> fill_loop item enq i n q = Inr (q', if m < n then [full_line (i + m)] else []) \<and> valid q'
     \<and> contents q' = contents q @ map item [i..<i + m]"
proof (induction n arbitrary: q i)
  case 0
  then show ?case by (intro exI [of _ q] exI [of _ 0]) simp
next
  case (Suc n)
  obtain q' ok where e: "enq q (item i) = Inr (q', ok)" "valid q'"
    "contents q' = (if ok then contents q @ [item i] else contents q)"
    using enqE [OF Suc.prems] by metis
  show ?case
  proof (cases ok)
    case True
    from Suc.IH [OF e(2), of "Suc i"] obtain q'' m where r: "m \<le> n" "valid q''"
      "fill_loop item enq (Suc i) n q' = Inr (q'', if m < n then [full_line (Suc i + m)] else [])"
      "contents q'' = contents q' @ map item [Suc i..<Suc i + m]" by blast
    have "[i..<i + Suc m] = i # [Suc i..<Suc i + m]" by (simp add: upt_conv_Cons)
    with r True e show ?thesis by (intro exI [of _ q''] exI [of _ "Suc m"]) simp
  next
    case False
    with e show ?thesis by (intro exI [of _ q'] exI [of _ 0]) simp
  qed
qed

end

context bounded_fifo
begin

lemma fill_prints_bounded:
  "valid q \<Longrightarrow> \<exists>q'. fill_loop item enq i n q
      = Inr (q', if capacity q - length (contents q) < n then [full_line (i + (capacity q - length (contents q)))] else []) \<and> valid q'
     \<and> contents q' = contents q @ map item [i..<i + min n (capacity q - length (contents q))]"
proof (induction n arbitrary: q i)
  case 0
  then show ?case by simp
next
  case (Suc n)
  obtain q' ok where e: "enq q (item i) = Inr (q', ok)" "valid q'"
    "contents q' = (if ok then contents q @ [item i] else contents q)"
    using enqE [OF Suc.prems] by metis
  note c = enq_capacity [OF Suc.prems e(1)]
  show ?case
  proof (cases ok)
    case True
    with c have room: "capacity q - length (contents q) = Suc (capacity q' - length (contents q'))"
      using e(3) True by (simp add: Suc_diff_Suc)
    have "[i..<i + Suc k] = i # [Suc i..<Suc i + k]" for k by (simp add: upt_conv_Cons)
    with room True e Suc.IH [OF e(2), of "Suc i"] show ?thesis by auto
  next
    case False
    with c have "capacity q - length (contents q) = 0" by simp
    with False e show ?thesis by simp
  qed
qed

end

section \<open>Properties\<close>

text \<open>
  The program for the array queue prints that the queue is full at the fifth of five elements, then the first
  four in order, and that the queue is empty; it uses a NULL pointer when either \<open>malloc\<close> fails.
\<close>

theorem testQueueArr_prints:
  "testQueueArr malloc h t =
     (if malloc 24 \<and> malloc 20
      then Inr ([''Init_Queue success'', full_line 4] @ map value_line [0, 1, 2, 3] @ [empty_line])
      else Inl Null_Deref)"
proof (cases "malloc 24 \<and> malloc 20")
  case True
  let ?Q = "\<lparr>qa_head = h, qa_tail = t, qa_item = None, qa_QLen = 5\<rparr>"
  obtain Q res where init: "InitQueue_arr malloc (Some ?Q) = Inr (Q, res)" by (simp add: InitQueue_arr_def Let_def)
  from qa_fresh [of ?Q malloc Q res] True init have q: "res" "qa_valid Q" "qa_contents Q = []" "qa_capacity Q = 4"
    by simp_all
  have len: "qa_QLen Q = 5" using init by (auto simp: InitQueue_arr_def Let_def)
  from qa.fill_prints_bounded [OF q(2), of int 0 5] obtain q' where
    f: "fill_loop int qa_enq 0 5 Q = Inr (q', [full_line 4])" "qa_valid q'" "qa_contents q' = map int [0..<4]"
    unfolding q(3,4) by (simp del: upt_rec_numeral) blast
  have four: "map int [0..<4] = [0, 1, 2, 3]" by (simp add: upt_conv_Cons)
  from qa.drain_prints [OF f(2), of value_line False 5] obtain q'' where
    "drain_loop value_line qa_deq False 5 q' = Inr (q'', map value_line [0, 1, 2, 3] @ [empty_line])"
    unfolding f(3) four by auto
  with True init q len f(1) show ?thesis by (simp add: testQueueArr_def print_run_def)
next
  case False
  show ?thesis
  proof (cases "malloc 24")
    case True
    with False have n: "\<not> malloc 20" by simp
    have "fill_loop int qa_enq 0 5 \<lparr>qa_head = 0, qa_tail = 0, qa_item = None, qa_QLen = 5\<rparr> = Inl Null_Deref"
      using fill_loop.simps(2) [of int qa_enq 0 4] by (simp add: qa_enq_def EnQueue_arr_def QueueFull_arr_def c_rem_def qa_store_def)
    with True n show ?thesis
      by (simp add: testQueueArr_def InitQueue_arr_def c_size_def print_run_def Let_def)
  qed (simp add: testQueueArr_def)
qed

text \<open>
  The program for the linked queue never faults once its first \<open>malloc\<close> is granted, whatever the others
  answer: it prints the elements that could be put in, in order, where one was refused and then that the queue is empty.
\<close>

theorem testQueueLnk_prints:
  assumes "heap_ok heap" "h_cells heap = (\<lambda>_. None)"
  shows "testQueueLnk True heap = Inr [''Init_Queue fail'']
    \<or> (\<exists>m\<le>5. testQueueLnk True heap = Inr (''Init_Queue success'' # (if m < 5 then [full_line m] else [])
        @ map value_line (map int [0..<m]) @ [empty_line]))"
proof -
  let ?Q = "\<lparr>lq_head = Junk, lq_tail = Junk, lq_heap = heap\<rparr>"
  obtain Q res where init: "InitQueue_lnk (Some ?Q) = Inr (Q, res)"
  proof -
    have "\<exists>r. InitQueue_lnk (Some ?Q) = Inr r"
    proof (rule halloc_cases [OF assms(1), of fresh_node])
      assume "halloc heap fresh_node = (heap\<lparr>h_calls := Suc (h_calls heap)\<rparr>, NULL)"
      then show ?thesis by (auto simp: InitQueue_lnk_def)
    next
      fix a
      assume "halloc heap fresh_node = (heap\<lparr>h_calls := Suc (h_calls heap), h_cells := (h_cells heap)(a \<mapsto> fresh_node)\<rparr>, Ptr a)"
      then show ?thesis by (auto simp: InitQueue_lnk_def hstore_Ptr)
    qed
    then show thesis using that by fast
  qed
  show ?thesis
  proof (cases res)
    case True
    from lq_init [of ?Q heap Q] assms init True obtain a where "lq_rep Q [a]" by auto
    then have v: "lq_valid Q" "lq_contents Q = []" by (auto simp: lq_valid_def deq_empty)
    from lq.fill_prints [OF v(1), of 5 int 0] v(2) obtain q' m where f: "m \<le> 5" "lq_valid q'"
      "fill_loop int lq_enq 0 5 Q = Inr (q', if m < 5 then [full_line m] else [])" "lq_contents q' = map int [0..<m]" by auto
    from lq.drain_prints [OF f(2), of value_line True 10] f(1,4) obtain q'' where
      "drain_loop value_line lq_deq True 10 q' = Inr (q'', map value_line (map int [0..<m]) @ [empty_line])" by auto
    with f(1,3) init True have "testQueueLnk True heap = Inr (''Init_Queue success'' # (if m < 5 then [full_line m] else [])
        @ map value_line (map int [0..<m]) @ [empty_line])"
      by (simp add: testQueueLnk_def print_run_def)
    with f(1) show ?thesis by blast
  qed (simp add: testQueueLnk_def print_run_def init)
qed

lemma testQueueLnk_prints_witness:
  "testQueueLnk True bump_heap = Inr [''Init_Queue fail'']
    \<or> (\<exists>m\<le>5. testQueueLnk True bump_heap = Inr (''Init_Queue success'' # (if m < 5 then [full_line m] else [])
        @ map value_line (map int [0..<m]) @ [empty_line]))"
  by (rule testQueueLnk_prints [OF heap_ok_bump]) (simp add: bump_heap_def)

end
