(* ===== verification/Demos.thy ===== *)
theory Demos
  imports CopyLoops Uart GetNum
begin

text \<open>
  Test programs and a demo with a loop of their own: the echo server and client of \<open>sockapi/test\<close>,
  the program that writes to a serial port and reads back (\<open>serialPortapi/test/uartTest.c\<close>), and the reading of
  a terminal on \<open>SIGIO\<close> (\<open>IOModels/sigio/demo_sigio.c\<close>). The loops need not end: \<open>None\<close> is a program that
  does not come to its end.
\<close>

section \<open>Echo server and client\<close>

text \<open>
  Both have a buffer of 100 bytes, whose memory is an argument, that is printed as a text. A turn of the server receives, prints and
  sends the whole buffer; one of the client sends, receives and prints. The number of bytes received is only compared
  with 0 for an error. \<open>Inr (Some n)\<close> is the exit with status \<open>n\<close>, \<open>Inr None\<close> the return from a loop that was
  never entered, because the descriptor is 0.
\<close>

type_synonym talk = "string list \<times> fdout"

definition text_in :: "byte list \<Rightarrow> string" where
  "text_in buf = map (\<lambda>b. char_of (unat b)) (takeWhile (\<lambda>b. b \<noteq> 0) buf)"

definition texted :: "byte list \<Rightarrow> string cres" where
  "texted buf = (if 0 \<in> set buf then Inr (text_in buf) else Inl Out_Of_Bounds)"

definition server_turn :: "fdin \<Rightarrow> byte list \<Rightarrow> talk \<Rightarrow> (talk + fdin \<times> byte list \<times> talk) cres" where
  "server_turn s buf t = (case (sys_read 100 s, t) of
     ((Inl e, s), out) \<Rightarrow> Inr (Inl out)
   | ((Inr got, s), (printed, fd)) \<Rightarrow>
       cbind (mput buf 0 got) (\<lambda>buf.
       cbind (texted buf) (\<lambda>txt. case sys_write buf fd of
            (Inl e, fd) \<Rightarrow> Inr (Inl (printed @ [txt], fd))
          | (Inr k, fd) \<Rightarrow> Inr (Inr (s, buf, printed @ [txt], fd)))))"

partial_function (option) server_loop :: "fdin \<Rightarrow> byte list \<Rightarrow> talk \<Rightarrow> talk cres option" where
  "server_loop s buf t = (case server_turn s buf t of
     Inl f \<Rightarrow> Some (Inl f)
   | Inr (Inl t) \<Rightarrow> Some (Inr t)
   | Inr (Inr (s, buf, t)) \<Rightarrow> server_loop s buf t)"

definition server_run :: "int \<Rightarrow> fdin \<Rightarrow> byte list \<Rightarrow> fdout \<Rightarrow> (int option \<times> talk) cres option" where
  "server_run cskt s junk fd =
     (if cskt = 0 then Some (Inr (None, [], fd))
      else map_option (map_sum id (\<lambda>t. (Some 1, t))) (server_loop s junk ([], fd)))"

definition client_turn :: "fdin \<Rightarrow> byte list \<Rightarrow> talk \<Rightarrow> (talk + fdin \<times> byte list \<times> talk) cres" where
  "client_turn s buf t = (case t of (printed, fd) \<Rightarrow> (case sys_write buf fd of
     (Inl e, fd) \<Rightarrow> Inr (Inl (printed, fd))
   | (Inr k, fd) \<Rightarrow> (case sys_read 100 s of
       (Inl e, s) \<Rightarrow> Inr (Inl (printed, fd))
     | (Inr got, s) \<Rightarrow>
         cbind (mput buf 0 got) (\<lambda>buf.
         cbind (texted buf) (\<lambda>txt. Inr (Inr (s, buf, printed @ [txt], fd)))))))"

partial_function (option) client_loop :: "fdin \<Rightarrow> byte list \<Rightarrow> talk \<Rightarrow> talk cres option" where
  "client_loop s buf t = (case client_turn s buf t of
     Inl f \<Rightarrow> Some (Inl f)
   | Inr (Inl t) \<Rightarrow> Some (Inr t)
   | Inr (Inr (s, buf, t)) \<Rightarrow> client_loop s buf t)"

text \<open>\<open>memcpy(buf, "hello", 6)\<close>; the rest of the buffer is not written.\<close>

definition hello :: "byte list" where
  "hello = [104, 101, 108, 108, 111, 0]"

definition client_run :: "int \<Rightarrow> fdin \<Rightarrow> byte list \<Rightarrow> fdout \<Rightarrow> (int option \<times> talk) cres option" where
  "client_run client_socket s junk fd =
     (if client_socket = 0 then Some (Inr (None, [], fd))
      else case mput junk 0 hello of
          Inl f \<Rightarrow> Some (Inl f)
        | Inr buf \<Rightarrow> map_option (map_sum id (\<lambda>t. (Some 1, t))) (client_loop s buf ([], fd)))"

declare server_loop.simps [code] client_loop.simps [code]

text \<open>
  The server for datagrams: what \<open>recvfrom\<close> returns - an error, or a message and its sender - with the errno of the
  answer, if it fails. It ends with status 1 or waits for the next datagram.
\<close>

fun udp_server_run :: "((nat + byte list \<times> 'c) \<times> nat option) list \<Rightarrow> byte list \<Rightarrow> string list \<Rightarrow> ('c \<times> byte list) list
    \<Rightarrow> (int option \<times> string list \<times> ('c \<times> byte list) list) cres" where
  "udp_server_run [] buf printed answers = Inr (None, printed, answers)"
| "udp_server_run ((Inl e, a) # ds) buf printed answers = Inr (Some 1, printed, answers)"
| "udp_server_run ((Inr (m, peer), a) # ds) buf printed answers =
     cbind (mput buf 0 (take 100 m)) (\<lambda>buf.
     cbind (texted buf) (\<lambda>txt. case a of
           Some e \<Rightarrow> Inr (Some 1, printed @ [txt], answers)
         | None \<Rightarrow> udp_server_run ds buf (printed @ [txt]) (answers @ [(peer, buf)])))"

section \<open>The serial port\<close>

text \<open>The reading loop of \<open>uartTest.c\<close>: the buffer and the length of the last \<open>read\<close>, or an error; \<open>n\<close> is \<open>count\<close>.\<close>

partial_function (option) uart_loop :: "fdin \<Rightarrow> byte list \<Rightarrow> nat \<Rightarrow> nat \<Rightarrow> (byte list \<times> nat) option cres option" where
  "uart_loop s ucBuf len n =
     (if n < 255 then (case sys_read (255 - n) s of
        (Inl e, s) \<Rightarrow> Some (Inr None)
      | (Inr got, s) \<Rightarrow> (case mput ucBuf n got of
          Inl f \<Rightarrow> Some (Inl f)
        | Inr ucBuf \<Rightarrow> uart_loop s ucBuf (length got) (n + length got)))
      else Some (Inr (Some (ucBuf, len))))"

declare uart_loop.simps [code]

text \<open>
  What \<open>main\<close> returns and, when it comes to its end, the bytes it prints. The results of \<open>open_uart\<close>
  and \<open>set_uart_attr\<close> are not looked at: the calls on the descriptor fail when it is -1.
\<close>

definition uart_main :: "fdout \<Rightarrow> fdin \<Rightarrow> (int \<times> byte list) cres option" where
  "uart_main fd s =
     (let ucBuf = map of_nat [0..<1000] in case sys_write (take 255 ucBuf) fd of
        (Inl e, fd) \<Rightarrow> Some (Inr (-1, []))
      | (Inr k, fd) \<Rightarrow> (case uart_loop s ucBuf 0 0 of
          None \<Rightarrow> None
        | Some (Inl f) \<Rightarrow> Some (Inl f)
        | Some (Inr None) \<Rightarrow> Some (Inr (-1, []))
        | Some (Inr (Some (ucBuf, len))) \<Rightarrow> Some (Inr (0, take len ucBuf))))"

section \<open>Reading on \<open>SIGIO\<close>\<close>

text \<open>
  The input that waits at the terminal, \<open>gotSigio\<close>, and the lines printed. Input raises \<open>SIGIO\<close> when it
  arrives; the handler sets the flag.
\<close>

record tty =
  ty_input :: string
  ty_gotSigio :: bool
  ty_lines :: "(int \<times> char) list"

definition arrive :: "string \<Rightarrow> tty \<Rightarrow> tty" where
  "arrive s t = (if s = [] then t else t\<lparr>ty_input := ty_input t @ s, ty_gotSigio := True\<rparr>)"

fun drain :: "int \<Rightarrow> bool \<Rightarrow> string \<Rightarrow> (int \<times> char) list \<Rightarrow> string \<times> bool \<times> (int \<times> char) list" where
  "drain cnt finished [] out = ([], finished, out)"
| "drain cnt finished (c # rest) out =
     (if finished then (rest, finished, out) else drain cnt (c = CHR ''#'') rest (out @ [(cnt, c)]))"

text \<open>
  A turn of the main loop: \<open>before\<close> arrives before the flag is tested, \<open>meanwhile\<close> between the \<open>read\<close> that finds
  nothing, or the test, and the end of the turn. The flag is cleared after reading.
\<close>

definition sigio_turn :: "int \<Rightarrow> string \<Rightarrow> string \<Rightarrow> tty \<Rightarrow> tty \<times> bool" where
  "sigio_turn cnt before meanwhile t =
     (let t = arrive before t
      in if ty_gotSigio t then
           (case drain cnt False (ty_input t) (ty_lines t) of (rest, finished, out) \<Rightarrow>
              ((arrive meanwhile (t\<lparr>ty_input := rest, ty_lines := out\<rparr>))\<lparr>ty_gotSigio := False\<rparr>, finished))
         else (arrive meanwhile t, False))"

fun sigio_loop :: "int \<Rightarrow> (string \<times> string) list \<Rightarrow> tty \<Rightarrow> tty \<times> bool" where
  "sigio_loop cnt [] t = (t, False)"
| "sigio_loop cnt ((before, meanwhile) # arrivals) t = (case sigio_turn cnt before meanwhile t of
     (t, finished) \<Rightarrow> if finished then (t, True) else sigio_loop (c_int (cnt + 1)) arrivals t)"

section \<open>The echo server\<close>

text \<open>The buffer after a block was stored at its start, and the buffers that are sent.\<close>

definition received :: "byte list \<Rightarrow> byte list \<Rightarrow> byte list" where
  "received got buf = got @ drop (length got) buf"

lemma mput_received: "length got \<le> length buf \<Longrightarrow> mput buf 0 got = Inr (received got buf)"
  by (simp add: mput_def received_def)

lemma length_received [simp]: "length got \<le> length buf \<Longrightarrow> length (received got buf) = length buf"
  by (simp add: received_def)

fun replies :: "byte list \<Rightarrow> byte list list \<Rightarrow> byte list list" where
  "replies buf [] = []"
| "replies buf (c # cs) = received c buf # replies (received c buf) cs"

text \<open>
  The buffers of the first \<open>k\<close> turns of the server: one for every block that is received, and then, when
  \<open>recv\<close> goes on returning 0, the last one again.
\<close>

fun rounds :: "byte list \<Rightarrow> byte list list \<Rightarrow> nat \<Rightarrow> byte list list" where
  "rounds buf cs 0 = []"
| "rounds buf [] (Suc k) = buf # rounds buf [] k"
| "rounds buf (c # cs) (Suc k) = received c buf # rounds (received c buf) cs k"

lemma rounds_replies: "rounds buf cs (length cs) = replies buf cs"
  by (induction buf cs rule: replies.induct) simp_all

text \<open>Which \<open>send\<close> is the first that fails, and the number of turns, if there is a last one.\<close>

fun first_fail :: "wr list \<Rightarrow> nat option" where
  "first_fail [] = None"
| "first_fail (WErr e # ws) = Some 0"
| "first_fail (WTake k # ws) = map_option Suc (first_fail ws)"

definition last_turn :: "byte list list \<Rightarrow> nat option \<Rightarrow> wr list \<Rightarrow> nat option" where
  "last_turn cs err ws = (case first_fail ws of
     Some n \<Rightarrow> Some (if err \<noteq> None \<and> length cs \<le> n then length cs else Suc n)
   | None \<Rightarrow> if err \<noteq> None then Some (length cs) else None)"

definition sends :: "byte list list \<Rightarrow> fdout \<Rightarrow> fdout" where
  "sends bufs fd = fold (\<lambda>b fd. Product_Type.snd (sys_write b fd)) bufs fd"

definition echo_outcome :: "byte list \<Rightarrow> byte list list \<Rightarrow> nat option \<Rightarrow> talk \<Rightarrow> talk cres option" where
  "echo_outcome buf cs err t =
     (let turns = last_turn cs err (out_script (Product_Type.snd t));
          bufs = rounds buf cs (case turns of Some k \<Rightarrow> k | None \<Rightarrow> Suc (length cs))
      in if \<exists>b\<in>set bufs. 0 \<notin> set b then Some (Inl Out_Of_Bounds)
         else case turns of None \<Rightarrow> None
            | Some k \<Rightarrow> Some (Inr (fst t @ map text_in bufs, sends bufs (Product_Type.snd t))))"

lemma sys_write_cases:
  obtains (Fails) e ws where "out_script fd = WErr e # ws" "sys_write b fd = (Inl e, fd\<lparr>out_script := ws\<rparr>)"
    "first_fail (out_script fd) = Some 0"
  | (Takes) k fd' where "sys_write b fd = (Inr k, fd')"
    "first_fail (out_script fd) = map_option Suc (first_fail (out_script fd'))"
proof (cases "out_script fd")
  case Nil
  then show thesis using Takes [of "length b" "fd\<lparr>out_sent := out_sent fd @ b\<rparr>"] by (simp add: sys_write_def)
next
  case (Cons w ws)
  show thesis
  proof (cases w)
    case (WTake k)
    with Cons show thesis
      using Takes [of "min k (length b)" "\<lparr>out_script = ws, out_sent = out_sent fd @ take k b\<rparr>"]
      by (simp add: sys_write_def)
  next
    case (WErr e)
    with Cons show thesis using Fails [of e ws] by (simp add: sys_write_def)
  qed
qed

lemma sends_simps [simp]: "sends [] fd = fd" "sends (b # bs) fd = sends bs (Product_Type.snd (sys_write b fd))"
  by (simp_all add: sends_def)

text \<open>The outcome, turn by turn: an error of \<open>recv\<close>, a block, and the end of file.\<close>

lemma echo_outcome_err: "echo_outcome buf [] (Some e) (p, fd) = Some (Inr (p, fd))"
  by (simp add: echo_outcome_def last_turn_def split: option.split)

lemma last_turn_fails:
  "first_fail ws = Some 0 \<Longrightarrow> cs \<noteq> [] \<or> err = None \<Longrightarrow> last_turn cs err ws = Some (Suc 0)"
  by (auto simp: last_turn_def)

lemma last_turn_block:
  "first_fail ws = map_option Suc (first_fail ws') \<Longrightarrow> last_turn (c # cs) err ws = map_option Suc (last_turn cs err ws')"
  by (auto simp: last_turn_def split: option.split)

lemma last_turn_eof:
  "first_fail ws = map_option Suc (first_fail ws') \<Longrightarrow> last_turn [] None ws = map_option Suc (last_turn [] None ws')"
  by (auto simp: last_turn_def split: option.split)

lemma echo_outcome_block:
  "echo_outcome buf (c # cs) err (p, fd) = (let b = received c buf in
     if 0 \<notin> set b then Some (Inl Out_Of_Bounds)
     else case sys_write b fd of
         (Inl e, fd) \<Rightarrow> Some (Inr (p @ [text_in b], fd))
       | (Inr k, fd) \<Rightarrow> echo_outcome b cs err (p @ [text_in b], fd))"
proof (cases rule: sys_write_cases [where fd = fd and b = "received c buf"])
  case (Fails e ws)
  then show ?thesis by (simp add: echo_outcome_def last_turn_fails Let_def)
next
  case (Takes k fd')
  note lt = last_turn_block [OF Takes(2)]
  show ?thesis
    by (cases "last_turn cs err (out_script fd')") (use Takes(1) in \<open>auto simp: echo_outcome_def lt Let_def\<close>)
qed

lemma echo_outcome_eof:
  "echo_outcome buf [] None (p, fd) =
     (if 0 \<notin> set buf then Some (Inl Out_Of_Bounds)
      else case sys_write buf fd of
          (Inl e, fd) \<Rightarrow> Some (Inr (p @ [text_in buf], fd))
        | (Inr k, fd) \<Rightarrow> echo_outcome buf [] None (p @ [text_in buf], fd))"
proof (cases rule: sys_write_cases [where fd = fd and b = buf])
  case (Fails e ws)
  then show ?thesis by (simp add: echo_outcome_def last_turn_fails Let_def)
next
  case (Takes k fd')
  note lt = last_turn_eof [OF Takes(2)]
  show ?thesis
    by (cases "last_turn [] None (out_script fd')") (use Takes(1) in \<open>auto simp: echo_outcome_def lt Let_def\<close>)
qed

lemma server_turn_got:
  assumes "sys_read 100 s = (Inr got, s')" "length buf = 100"
  shows "server_turn s buf (p, fd) = (let b = received got buf in
     if 0 \<notin> set b then Inl Out_Of_Bounds
     else case sys_write b fd of
         (Inl e, fd) \<Rightarrow> Inr (Inl (p @ [text_in b], fd))
       | (Inr k, fd) \<Rightarrow> Inr (Inr (s', b, p @ [text_in b], fd)))"
proof -
  have "length got \<le> length buf" using sys_read_measure(3) [OF assms(1) refl] assms(2) by simp
  with assms(1) show ?thesis by (simp add: server_turn_def mput_received texted_def Let_def)
qed

text \<open>After the client has closed.\<close>

lemma server_loop_closed:
  assumes "server_loop s buf t = Some r"
  shows "\<not> (s = [] \<and> length buf = 100 \<and> 0 \<in> set buf \<and> first_fail (out_script (Product_Type.snd t)) = None)"
proof (rule server_loop.raw_induct
    [of "\<lambda>s buf t r. \<not> (s = [] \<and> length buf = 100 \<and> 0 \<in> set buf \<and> first_fail (out_script (Product_Type.snd t)) = None)", OF _ assms])
  fix loop s buf t r
  assume IH: "\<And>s buf t r. loop s buf t = Some r \<Longrightarrow>
      \<not> (s = [] \<and> length buf = 100 \<and> 0 \<in> set buf \<and> first_fail (out_script (Product_Type.snd t)) = None)"
    and run: "(case server_turn s buf t of
     Inl f \<Rightarrow> Some (Inl f)
   | Inr (Inl t) \<Rightarrow> Some (Inr t)
   | Inr (Inr (s, buf, t)) \<Rightarrow> loop s buf t) = Some (r :: talk cres)"
  show "\<not> (s = [] \<and> length buf = 100 \<and> 0 \<in> set buf \<and> first_fail (out_script (Product_Type.snd t)) = None)"
  proof
    assume a: "s = [] \<and> length buf = 100 \<and> 0 \<in> set buf \<and> first_fail (out_script (Product_Type.snd t)) = None"
    obtain p fd where t: "t = (p, fd)" by (cases t)
    have turn: "server_turn [] buf (p, fd) = (case sys_write buf fd of
         (Inl e, fd) \<Rightarrow> Inr (Inl (p @ [text_in buf], fd))
       | (Inr k, fd) \<Rightarrow> Inr (Inr ([], buf, p @ [text_in buf], fd)))"
      using server_turn_got [of "[]" "[]" "[]" buf p fd] a by (simp add: received_def)
    show False
    proof (cases rule: sys_write_cases [where fd = fd and b = buf])
      case (Fails e ws)
      then show False using a t by simp
    next
      case (Takes k fd')
      then have "loop [] buf (p @ [text_in buf], fd') = Some r" using run turn a t by simp
      from IH [OF this] Takes(2) a t show False by simp
    qed
  qed
qed

lemma server_loop_eof:
  assumes "length buf = 100"
  shows "server_loop [] buf (p, fd) = echo_outcome buf [] None (p, fd)"
proof (cases "first_fail (out_script fd)")
  case None
  show ?thesis
  proof (cases "0 \<in> set buf")
    case True
    then have "server_loop [] buf (p, fd) = None"
      using server_loop_closed [of "[]" buf "(p, fd)"] assms None
      by (cases "server_loop [] buf (p, fd)") auto
    with True None show ?thesis by (simp add: echo_outcome_def last_turn_def)
  next
    case False
    with assms server_turn_got [of "[]" "[]" "[]" buf p fd] show ?thesis
      by (subst server_loop.simps) (simp add: echo_outcome_eof [of _ _ fd] received_def)
  qed
next
  case (Some n)
  then show ?thesis
  proof (induction n arbitrary: p fd)
    case 0
    show ?case
    proof (cases rule: sys_write_cases [where fd = fd and b = buf])
      case (Fails e ws)
      with assms server_turn_got [of "[]" "[]" "[]" buf p fd] show ?thesis
        by (subst server_loop.simps) (simp add: echo_outcome_eof [of _ _ fd] received_def)
    next
      case (Takes k fd')
      with 0 show ?thesis by simp
    qed
  next
    case (Suc n)
    show ?case
    proof (cases rule: sys_write_cases [where fd = fd and b = buf])
      case (Fails e ws)
      with Suc.prems show ?thesis by simp
    next
      case (Takes k fd')
      with Suc.prems have "first_fail (out_script fd') = Some n" by auto
      note ih = Suc.IH [OF this]
      from assms server_turn_got [of "[]" "[]" "[]" buf p fd] Takes(1) ih show ?thesis
        by (subst server_loop.simps) (simp add: echo_outcome_eof [of _ _ fd] received_def)
    qed
  qed
qed

lemma server_loop_outcome:
  "length buf = 100 \<Longrightarrow>
     server_loop s buf (p, fd) = echo_outcome buf (fst (blocks 100 s)) (Product_Type.snd (blocks 100 s)) (p, fd)"
proof (induction "100 :: nat" s arbitrary: buf p fd rule: blocks.induct)
  case (1 s)
  show ?case
  proof (cases "sys_read 100 s")
    case (Pair r s')
    show ?thesis
    proof (cases r)
      case (Inl e)
      with Pair show ?thesis
        by (subst server_loop.simps) (simp add: server_turn_def blocks.simps [of 100 s] echo_outcome_err)
    next
      case (Inr got)
      show ?thesis
      proof (cases "got = []")
        case True
        then have "s = []" using Pair Inr by (cases "(100 :: nat, s)" rule: sys_read.cases) auto
        then show ?thesis using server_loop_eof [OF 1(2)] by (simp add: blocks.simps [of 100 "[]"])
      next
        case False
        have b: "blocks 100 s = (got # fst (blocks 100 s'), Product_Type.snd (blocks 100 s'))"
          using Pair Inr False by (simp add: blocks.simps [of 100 s] split: prod.split)
        have got: "sys_read 100 s = (Inr got, s')" using Pair Inr by simp
        have "length got \<le> length buf" using sys_read_measure(3) [OF got refl] 1(2) by simp
        then have len: "length (received got buf) = 100" using 1(2) by simp
        note ih = 1(1) [OF Pair [symmetric] Inr False len]
        show ?thesis
          by (subst server_loop.simps)
            (simp add: server_turn_got [OF got 1(2)] b echo_outcome_block ih Let_def split: prod.split sum.split)
      qed
    qed
  qed
qed

text \<open>
  C40. The echo server answers every block with its whole buffer of 100 bytes, the block in front and what
  earlier blocks left behind it, and only an error ends it, with status 1: the first failing \<open>recv\<close> or
  \<open>send\<close>, whichever comes first. It does not notice that the client has closed: it goes on printing and
  sending the last buffer, until a \<open>send\<close> fails, which after a real close one soon does (with the
  default action of \<open>SIGPIPE\<close> the process then dies in the \<open>send\<close> itself); and if none did, it would
  never return. If a buffer that it prints has no zero byte, \<open>printf\<close> reads on behind it.
  \<open>last_turn\<close> is the number of turns, and \<open>rounds\<close> the buffers of these turns.
\<close>

theorem echo_server_outcome:
  assumes "cskt \<noteq> 0" "length junk = 100"
  shows "server_run cskt s junk fd =
    (let cs = fst (blocks 100 s); turns = last_turn cs (error_of s) (out_script fd);
         bufs = rounds junk cs (case turns of Some k \<Rightarrow> k | None \<Rightarrow> Suc (length cs))
     in if \<exists>b\<in>set bufs. 0 \<notin> set b then Some (Inl Out_Of_Bounds)
        else case turns of None \<Rightarrow> None
           | Some k \<Rightarrow> Some (Inr (Some 1, map text_in bufs, sends bufs fd)))"
proof -
  have "Product_Type.snd (blocks 100 s) = error_of s" using blocks_cut [of 100 s] by simp
  with server_loop_outcome [OF assms(2), of s "[]" fd] assms(1) show ?thesis
    by (simp add: server_run_def echo_outcome_def Let_def split: option.split)
qed

text \<open>
  Runs: two messages and then an error; the same two messages, after which the client closes and the
  fourth \<open>send\<close> fails; and one that no \<open>send\<close> would end.
\<close>

lemma echo_server_outcome_witness:
  "server_run 4 [RData 72 [105], RData 79 [], RErr 104] (replicate 100 0) \<lparr>out_script = [], out_sent = []\<rparr>
    = Some (Inr (Some 1, [''Hi'', ''Oi''], \<lparr>out_script = [],
        out_sent = [72, 105] @ replicate 98 0 @ [79, 105] @ replicate 98 0\<rparr>)) \<and>
   server_run 4 [RData 72 [105], RData 79 []] (replicate 100 0)
      \<lparr>out_script = [WTake 2, WTake 0, WTake 2, WErr 32], out_sent = []\<rparr>
    = Some (Inr (Some 1, [''Hi'', ''Oi'', ''Oi'', ''Oi''], \<lparr>out_script = [], out_sent = [72, 105, 79, 105]\<rparr>)) \<and>
   server_run 4 [RData 72 [105], RData 79 []] (replicate 100 0) \<lparr>out_script = [], out_sent = []\<rparr> = None"
proof -
  let ?junk = "replicate 100 0 :: byte list"
  have b: "blocks 100 [RData 72 [105], RData 79 [], RErr 104] = ([[72, 105], [79]], Some 104)"
    "blocks 100 [RData 72 [105], RData 79 []] = ([[72, 105], [79]], None)"
    by (simp_all add: blocks.simps [of 100 "_ # _"] blocks.simps [of 100 "[]"] chunk_def)
  have c: "char_of (72 :: nat) = CHR ''H''" "char_of (105 :: nat) = CHR ''i''" "char_of (79 :: nat) = CHR ''O''" by code_simp+
  define A where "A = [72, 105] @ replicate 98 (0 :: byte)"
  define B where "B = [79, 105] @ replicate 98 (0 :: byte)"
  have rec: "received [72, 105] ?junk = A" "received [79] A = B" by (simp_all add: received_def A_def B_def)
  have t: "text_in A = ''Hi''" "text_in B = ''Oi''" by (simp_all add: text_in_def c A_def B_def)
  have z: "0 \<in> set A" "0 \<in> set B" by (simp_all add: A_def B_def)
  have turns: "last_turn [[72, 105], [79]] (Some 104) [] = Some (Suc (Suc 0))"
    "last_turn [[72, 105], [79]] None [WTake 2, WTake 0, WTake 2, WErr 32] = Some (Suc (Suc (Suc (Suc 0))))"
    "last_turn [[72, 105], [79]] None [] = None"
    by (simp_all add: last_turn_def)
  have sent: "sends [A, B] \<lparr>out_script = [], out_sent = []\<rparr> = \<lparr>out_script = [], out_sent = A @ B\<rparr>"
    "sends [A, B, B, B] \<lparr>out_script = [WTake 2, WTake 0, WTake 2, WErr 32], out_sent = []\<rparr>
      = \<lparr>out_script = [], out_sent = [72, 105, 79, 105]\<rparr>"
    unfolding sends_simps sys_write_def A_def B_def by simp_all
  note echo = echo_server_outcome [where cskt = 4 and junk = ?junk, unfolded Let_def]
  have 1: "server_run 4 [RData 72 [105], RData 79 [], RErr 104] ?junk \<lparr>out_script = [], out_sent = []\<rparr>
      = Some (Inr (Some 1, [''Hi'', ''Oi''], \<lparr>out_script = [], out_sent = A @ B\<rparr>))"
    by (subst echo) (simp_all add: b turns rec t z sent del: sends_simps)
  have 2: "server_run 4 [RData 72 [105], RData 79 []] ?junk
      \<lparr>out_script = [WTake 2, WTake 0, WTake 2, WErr 32], out_sent = []\<rparr>
      = Some (Inr (Some 1, [''Hi'', ''Oi'', ''Oi'', ''Oi''], \<lparr>out_script = [], out_sent = [72, 105, 79, 105]\<rparr>))"
    by (subst echo) (simp_all add: b turns rec t z sent del: sends_simps)
  have 3: "server_run 4 [RData 72 [105], RData 79 []] ?junk \<lparr>out_script = [], out_sent = []\<rparr> = None"
    by (subst echo) (simp_all add: b turns rec z)
  show ?thesis using 1 2 3 by (simp add: A_def B_def)
qed

text \<open>
  The server for datagrams sends every sender its whole buffer: the message, cut after 100 bytes, and behind a shorter
  one what earlier messages, of anybody, left there.
\<close>

theorem udp_server_answers:
  assumes "\<forall>r\<in>set (replies junk (map (take 100 \<circ> fst) ms)). 0 \<in> set r" "length junk = 100"
  shows "udp_server_run (map (\<lambda>m. (Inr m, None)) ms) junk printed answers
    = Inr (None, printed @ map text_in (replies junk (map (take 100 \<circ> fst) ms)),
        answers @ zip (map snd ms) (replies junk (map (take 100 \<circ> fst) ms)))"
  using assms
proof (induction ms arbitrary: junk printed answers)
  case (Cons m ms)
  then show ?case by (cases m) (simp add: texted_def mput_received)
qed simp

lemma udp_server_answers_witness:
  "udp_server_run (map (\<lambda>m. (Inr m, None)) [([83, 69, 67], ''a''), ([72], ''b'')]) (replicate 100 0) [] []
    = Inr (None, [text_in ([83, 69, 67] @ replicate 97 0), text_in ([72, 69, 67] @ replicate 97 0)],
        [(''a'', [83, 69, 67] @ replicate 97 0), (''b'', [72, 69, 67] @ replicate 97 0)])"
  using udp_server_answers [of "replicate 100 0" "[([83, 69, 67], ''a''), ([72], ''b'')]" "[]" "[]"]
  by (simp add: received_def)

text \<open>
  The first thing the client sends is its whole buffer: \<open>hello\<close> with its zero byte, and 94 bytes of memory that was
  never written.
\<close>

theorem client_sends_junk:
  assumes "client_socket \<noteq> 0" "length junk = 100"
  shows "client_run client_socket [RErr e] junk \<lparr>out_script = [], out_sent = []\<rparr>
    = Some (Inr (Some 1, [], \<lparr>out_script = [], out_sent = hello @ drop 6 junk\<rparr>))"
  using assms by (simp add: client_run_def client_loop.simps client_turn_def sys_write_def mput_def hello_def eval_nat_numeral)

lemma client_sends_junk_witness:
  "client_run 3 [RErr 104] (replicate 100 7) \<lparr>out_script = [], out_sent = []\<rparr>
    = Some (Inr (Some 1, [], \<lparr>out_script = [], out_sent = [104, 101, 108, 108, 111, 0] @ replicate 94 7\<rparr>))"
  using client_sends_junk [of 3 "replicate 100 7" 104] by (simp add: hello_def)

section \<open>Reading back\<close>

lemma data_read:
  assumes "sys_read n s = (Inr got, s')"
  shows "data_of s = got @ data_of s'" "error_of s = error_of s'"
  using assms by (cases "(n, s)" rule: sys_read.cases; auto simp flip: append_assoc simp del: take_Cons' drop_Cons')+

lemma uart_loop_end: "\<not> n < 255 \<Longrightarrow> uart_loop s buf len n = Some (Inr (Some (buf, len)))"
  by (subst uart_loop.simps) simp

lemma uart_loop_eof:
  assumes "uart_loop s buf len n = Some r"
  shows "\<not> (s = [] \<and> n < 255 \<and> n \<le> length buf)"
proof (rule uart_loop.raw_induct [of "\<lambda>s buf len n r. \<not> (s = [] \<and> n < 255 \<and> n \<le> length buf)", OF _ assms])
  fix loop s ucBuf len n r
  assume IH: "\<And>s ucBuf len n r. loop s ucBuf len n = Some r \<Longrightarrow> \<not> (s = [] \<and> n < 255 \<and> n \<le> length ucBuf)"
    and run: "(if n < 255 then (case sys_read (255 - n) s of
        (Inl e, s) \<Rightarrow> Some (Inr None)
      | (Inr got, s) \<Rightarrow> (case mput ucBuf n got of
          Inl f \<Rightarrow> Some (Inl f)
        | Inr ucBuf \<Rightarrow> loop s ucBuf (length got) (n + length got)))
      else Some (Inr (Some (ucBuf, len)))) = Some (r :: (byte list \<times> nat) option cres)"
  show "\<not> (s = [] \<and> n < 255 \<and> n \<le> length ucBuf)"
  proof
    assume a: "s = [] \<and> n < 255 \<and> n \<le> length ucBuf"
    with run have "loop [] ucBuf 0 n = Some r" by (simp add: mput_def)
    from IH [OF this] a show False by simp
  qed
qed

lemma uart_loop_reads:
  assumes "n < 255" "length buf = 1000"
  shows "if 255 - n \<le> length (data_of s)
    then \<exists>len. 0 < len \<and> len \<le> 255 \<and> uart_loop s buf l n = Some (Inr (Some (filled buf n (take (255 - n) (data_of s)), len)))
    else uart_loop s buf l n = (case error_of s of Some e \<Rightarrow> Some (Inr None) | None \<Rightarrow> None)"
  using assms
proof (induction s arbitrary: n buf l rule: measure_induct_rule [of script_size])
  case (less s)
  show ?case
  proof (cases "(255 - n, s)" rule: sys_read.cases)
    case (1 k)
    then have s: "s = []" by simp
    have "uart_loop s buf l n = None" using uart_loop_eof [of s buf l n] less.prems s by (cases "uart_loop s buf l n") auto
    moreover have "\<not> 255 - n \<le> 0" using less.prems(1) by simp
    ultimately show ?thesis by (simp add: s)
  next
    case (2 k e t)
    then have "sys_read (255 - n) s = (Inl e, t)" and d: "data_of s = []" "error_of s = Some e" by simp_all
    then have "uart_loop s buf l n = Some (Inr None)" using less.prems(1) by (subst uart_loop.simps) simp
    moreover have "\<not> 255 - n \<le> 0" using less.prems(1) by simp
    ultimately show ?thesis by (simp add: d)
  next
    case (3 k b bs t)
    define got where "got = take (255 - n) (b # bs)"
    define s' where "s' = chunk (drop (255 - n) (b # bs)) @ t"
    have r: "sys_read (255 - n) s = (Inr got, s')" using 3 by (simp add: got_def s'_def)
    have ne: "got \<noteq> []" "length got \<le> 255 - n" using less.prems by (auto simp: got_def)
    note d = data_read [OF r]
    have step: "uart_loop s buf l n = uart_loop s' (filled buf n got) (length got) (n + length got)"
      using less.prems r ne by (subst uart_loop.simps) (simp add: mput_filled)
    show ?thesis
    proof (cases "n + length got < 255")
      case False
      then have "n + length got = 255" using ne less.prems by simp
      with d step ne uart_loop_end [of 255 s' "filled buf n got" "length got"] show ?thesis by auto
    next
      case True
      have l: "length (filled buf n got) = 1000" using less.prems ne by simp
      from less.IH [OF script_size_read(2) [OF r refl ne(1)] True l, of "length got"]
      have ih: "if 255 - (n + length got) \<le> length (data_of s')
        then \<exists>len. 0 < len \<and> len \<le> 255 \<and> uart_loop s buf l n = Some (Inr (Some (filled (filled buf n got) (n + length got) (take (255 - (n + length got)) (data_of s')), len)))
        else uart_loop s buf l n = (case error_of s' of Some e \<Rightarrow> Some (Inr None) | None \<Rightarrow> None)"
        unfolding step .
      have "filled (filled buf n got) (n + length got) (take (255 - (n + length got)) (data_of s')) = filled buf n (take (255 - n) (data_of s))"
        using filled_filled [of n got "take (255 - (n + length got)) (data_of s')" buf] less.prems True d by simp
      moreover have "255 - (n + length got) \<le> length (data_of s') \<longleftrightarrow> 255 - n \<le> length (data_of s)"
        using d True by auto
      ultimately show ?thesis using ih by (simp only: d(2))
    qed
  qed
qed

text \<open>
  The program at the serial port comes to its end only when 255 bytes arrive, however they are cut; a read
  error ends it with -1, and when reads return nothing any more it goes on reading for ever. It prints only the
  beginning of what it received, as many bytes as the last \<open>read\<close> returned.
\<close>

theorem uart_reads_back:
  "if 255 \<le> length (data_of s)
   then \<exists>len. 0 < len \<and> len \<le> 255 \<and> uart_main \<lparr>out_script = [], out_sent = x\<rparr> s = Some (Inr (0, take len (data_of s)))
   else uart_main \<lparr>out_script = [], out_sent = x\<rparr> s = (case error_of s of Some e \<Rightarrow> Some (Inr (-1, [])) | None \<Rightarrow> None)"
proof -
  let ?buf = "map of_nat [0..<1000] :: byte list"
  have "take len (filled ?buf 0 (take 255 (data_of s))) = take len (data_of s)" if "len \<le> 255" "255 \<le> length (data_of s)" for len
    using that by (simp add: filled_def min_def)
  then show ?thesis using uart_loop_reads [of 0 ?buf s 0]
    by (auto simp: uart_main_def sys_write_def Let_def split: option.split if_splits simp del: upt_rec_numeral)
qed

section \<open>Input at the terminal\<close>

lemma drain_all: "CHR ''#'' \<notin> set s \<Longrightarrow> drain cnt False s out = ([], False, out @ map (Pair cnt) s)"
  by (induction s arbitrary: out) auto

lemma quiet_turns:
  "\<not> ty_gotSigio t \<Longrightarrow> sigio_loop cnt (replicate n ([], [])) t = (t, False)"
  by (induction n arbitrary: cnt) (simp_all add: sigio_turn_def arrive_def)

text \<open>
  A wake-up can be lost: input that arrives after the last \<open>read\<close> of a turn, and before the flag is cleared, is not
  read however long the program goes on, until something else arrives.
\<close>

theorem sigio_lost_wakeup:
  assumes "ty_gotSigio t \<or> before \<noteq> []" "CHR ''#'' \<notin> set (ty_input t @ before)" "meanwhile \<noteq> []"
  shows "\<exists>t'. sigio_loop cnt ((before, meanwhile) # replicate n ([], [])) t = (t', False)
    \<and> ty_input t' = meanwhile \<and> ty_lines t' = ty_lines t @ map (Pair cnt) (ty_input t @ before)"
proof -
  let ?t = "arrive before t"
  have a: "ty_gotSigio ?t" "ty_input ?t = ty_input t @ before" "ty_lines ?t = ty_lines t"
    using assms(1) by (auto simp: arrive_def)
  let ?u = "(arrive meanwhile (?t\<lparr>ty_input := [], ty_lines := ty_lines t @ map (Pair cnt) (ty_input t @ before)\<rparr>))\<lparr>ty_gotSigio := False\<rparr>"
  have "sigio_turn cnt before meanwhile t = (?u, False)"
    using a drain_all [OF assms(2)] by (simp add: sigio_turn_def)
  then have "sigio_loop cnt ((before, meanwhile) # replicate n ([], [])) t = (?u, False)"
    using quiet_turns [of ?u] by simp
  moreover have "ty_input ?u = meanwhile" "ty_lines ?u = ty_lines t @ map (Pair cnt) (ty_input t @ before)"
    using assms(3) by (simp_all add: arrive_def)
  ultimately show ?thesis by blast
qed

lemma sigio_lost_wakeup_witness:
  "\<exists>t'. sigio_loop 0 ((''ab'', ''#'') # replicate 5 ([], [])) \<lparr>ty_input = [], ty_gotSigio = False, ty_lines = []\<rparr> = (t', False)
    \<and> ty_input t' = ''#'' \<and> ty_lines t' = [(0, CHR ''a''), (0, CHR ''b'')]"
  using sigio_lost_wakeup [of "\<lparr>ty_input = [], ty_gotSigio = False, ty_lines = []\<rparr>" "''ab''" "''#''" 0 5] by simp

text \<open>The character behind a hash sign is read and lost when it is there already.\<close>

theorem hash_takes_one_more:
  assumes "CHR ''#'' \<notin> set s"
  shows "drain cnt False (s @ CHR ''#'' # c # rest) out = (rest, True, out @ map (Pair cnt) (s @ ''#''))"
  using assms by (induction s arbitrary: out) auto

lemma hash_takes_one_more_witness: "drain 7 False ''a#bc'' [] = (''c'', True, [(7, CHR ''a''), (7, CHR ''#'')])"
  using hash_takes_one_more [of "''a''" 7 "CHR ''b''" "''c''" "[]"] by simp

end
