(* ===== verification/NetPrograms.thy ===== *)
theory NetPrograms
  imports Demos Sockets LineIO
begin

text \<open>
  The programs of \<open>sockapi/test\<close> and \<open>sockapi/demo/keepalive\<close> around the loops: the accepting loop of \<open>tcpserver.c\<close>,
  \<open>udpclient.c\<close>, and \<open>keep.c\<close>, which prints the lines it receives. Two names of \<open>keep.c\<close> are not declared:
  \<open>isvaldsock\<close> is read as \<open>isvalidsock\<close>, and \<open>argv\<close> as the argument of \<open>main\<close>.
\<close>

section \<open>The accepting loop\<close>

text \<open>
  What \<open>accept\<close> returns, one by one: an error, or a client - what it will send, the memory the buffer happens
  to lie in, and what its socket takes. \<open>Inr (Some n, \<dots>)\<close> is the exit with status \<open>n\<close>, \<open>Inr (None, \<dots>)\<close> the
  wait in \<open>accept\<close> and \<open>None\<close> a \<open>server_run\<close> that does not return.
\<close>

type_synonym caller = "fdin \<times> byte list \<times> fdout"

fun accepting :: "(nat + caller) list \<Rightarrow> net \<Rightarrow> talk list \<Rightarrow> (int option \<times> talk list) cres option" where
  "accepting [] st ts = Some (Inr (None, ts))"
| "accepting (Inl e # cs) st ts = Some (Inr (Some 1, ts))"
| "accepting (Inr (s, junk, fd) # cs) st ts = (case sys_socket None st of (client_socket, st) \<Rightarrow>
     (case server_run client_socket s junk fd of
        None \<Rightarrow> None
      | Some (Inl f) \<Rightarrow> Some (Inl f)
      | Some (Inr (Some n, t)) \<Rightarrow> Some (Inr (Some n, ts @ [t]))
      | Some (Inr (None, t)) \<Rightarrow> accepting cs (sys_close client_socket st) (ts @ [t])))"

definition tcpserver_main ::
    "name_env \<Rightarrow> (sockaddr_in \<Rightarrow> cand) \<Rightarrow> string list \<Rightarrow> (nat + caller) list \<Rightarrow> net \<Rightarrow> (int option \<times> talk list) cres option" where
  "tcpserver_main env ask args cs st = (case args of
     [port] \<Rightarrow> (case tcp_server env ask None port st of
         (Inl msg, st) \<Rightarrow> Some (Inr (Some 1, []))
       | (Inr server_socket, st) \<Rightarrow> if server_socket \<noteq> 0 then accepting cs st [] else Some (Inr (Some 0, [])))
   | _ \<Rightarrow> Some (Inr (Some (-1), [])))"

section \<open>\<open>udpclient.c\<close>\<close>

text \<open>
  A turn is what \<open>sendto\<close> answers and what \<open>recvfrom\<close> returns: an error, or a message and its sender, whose address
  replaces that of the server. After the last turn the program is still running.
\<close>

fun udp_client_loop :: "(nat option \<times> (nat + byte list \<times> 'c)) list \<Rightarrow> byte list \<Rightarrow> 'c \<Rightarrow> string list \<Rightarrow> ('c \<times> byte list) list
    \<Rightarrow> (int option \<times> string list \<times> ('c \<times> byte list) list) cres" where
  "udp_client_loop [] buf peer printed sent = Inr (None, printed, sent)"
| "udp_client_loop ((Some e, r) # ts) buf peer printed sent = Inr (Some 1, printed, sent)"
| "udp_client_loop ((None, Inl e) # ts) buf peer printed sent = Inr (Some 1, printed, sent @ [(peer, buf)])"
| "udp_client_loop ((None, Inr (m, from)) # ts) buf peer printed sent =
     cbind (mput buf 0 (take 100 m)) (\<lambda>buf'.
     cbind (texted buf') (\<lambda>txt. udp_client_loop ts buf' from (printed @ [txt]) (sent @ [(peer, buf)])))"

definition udpclient_main ::
    "name_env \<Rightarrow> (sockaddr_in \<Rightarrow> cand) \<Rightarrow> string list \<Rightarrow> byte list \<Rightarrow> (nat option \<times> (nat + byte list \<times> sockaddr_in)) list \<Rightarrow> net
      \<Rightarrow> (int option \<times> string list \<times> (sockaddr_in \<times> byte list) list) cres" where
  "udpclient_main env ask args junk ts st = (case args of
     [host, port] \<Rightarrow> (case udp_client env ask (Some host) port st of
         (Inl msg, st) \<Rightarrow> Inr (Some 1, [], [])
       | (Inr (client_socket, peer), st) \<Rightarrow>
           if client_socket \<noteq> 0 then cbind (mput junk 0 hello) (\<lambda>buf. udp_client_loop ts buf peer [] [])
           else Inr (Some 0, [], []))
   | _ \<Rightarrow> Inr (Some (-1), [], []))"

section \<open>\<open>keep.c\<close>\<close>

text \<open>How the program ends, and what it has written; the result of \<open>write\<close> is not looked at.\<close>

datatype keep_end = No_Server string | Accept_Failure | Setsockopt_Failure | Peer_Disconnected | Recv_Failure nat

partial_function (option) keep_loop :: "byte list \<Rightarrow> io \<Rightarrow> fdout \<Rightarrow> (keep_end \<times> fdout) cres option" where
  "keep_loop buf io out = (case readline buf 0 120 io of
     Inl f \<Rightarrow> Some (Inl f)
   | Inr (rc, buf, io) \<Rightarrow>
       if rc = 0 then Some (Inr (Peer_Disconnected, out))
       else if rc < 0 then Some (Inr (Recv_Failure (io_errno io), out))
       else keep_loop buf io (snd (sys_write (take (nat rc) buf) out)))"

declare keep_loop.simps [code]

definition keep_main ::
    "name_env \<Rightarrow> (sockaddr_in \<Rightarrow> cand) \<Rightarrow> answer \<Rightarrow> answer \<Rightarrow> string \<Rightarrow> byte list \<Rightarrow> io \<Rightarrow> fdout \<Rightarrow> net
      \<Rightarrow> (keep_end \<times> fdout) cres option" where
  "keep_main env ask acc opt port junk io out st = (case tcp_server env ask None port st of
     (Inl msg, st) \<Rightarrow> Some (Inr (No_Server msg, out))
   | (Inr s, st) \<Rightarrow> (case sys_socket acc st of (s1, st) \<Rightarrow>
       if \<not> s1 \<ge> 0 then Some (Inr (Accept_Failure, out))
       else if fst (sys_call opt st) \<noteq> 0 then Some (Inr (Setsockopt_Failure, out))
       else keep_loop junk io out))"

section \<open>One client only\<close>

lemma server_run_no_return: "c \<noteq> 0 \<Longrightarrow> server_run c s junk fd \<noteq> Some (Inr (None, t))"
  by (auto simp: server_run_def map_sum_def id_def split: sum.splits)

text \<open>
  The server serves one client only: while its standard input is open, what it does is settled by the first caller;
  nobody who connects later is ever accepted.
\<close>

theorem one_client_only:
  assumes "0 \<in> set (n_open st)"
  shows "tcpserver_main env ask [port] (Inr c # cs) st = tcpserver_main env ask [port] [Inr c] st"
proof -
  have keeps: "0 \<in> set (n_open st')" if "tcp_server env ask None port st = (Inr s, st')" for s st'
    using that assms by (auto simp: tcp_server_def failed_def sys_socket_def sys_call_def sys_listen_def Let_def
        split: sum.splits option.splits if_splits)
  have "accepting (Inr c # cs) st' ts = accepting [Inr c] st' ts" if "0 \<in> set (n_open st')" for st' ts
  proof -
    obtain s junk fd where c: "c = (s, junk, fd)" by (cases c)
    have "fresh_fd (n_open st') \<noteq> 0" using fresh_fd(1) [of "n_open st'"] that by metis
    with c show ?thesis
      by (auto simp: sys_socket_def server_run_no_return split: option.split sum.split)
  qed
  with keeps show ?thesis by (auto simp: tcpserver_main_def split: sum.split prod.split)
qed

section \<open>Whoever answers\<close>

lemma udp_client_loop_turns:
  assumes "\<forall>r\<in>set (replies buf (map (take 100 \<circ> fst) ms)). 0 \<in> set r" "length buf = 100"
  shows "udp_client_loop (map (\<lambda>m. (None, Inr m)) ms) buf peer printed sent
    = Inr (None, printed @ map text_in (replies buf (map (take 100 \<circ> fst) ms)),
        sent @ zip (peer # map snd ms) (butlast (buf # replies buf (map (take 100 \<circ> fst) ms))))"
  using assms
proof (induction ms arbitrary: buf peer printed sent)
  case (Cons m ms)
  then show ?case by (cases m) (simp add: texted_def mput_received)
qed simp

text \<open>
  The client for datagrams talks to whoever answers: every datagram after the first goes to the sender of the last answer,
  and holds the whole buffer, with the answer in front and what was there before behind it.
\<close>

theorem udp_client_follows:
  assumes "udp_client env ask (Some host) port st = (Inr (client_socket, peer), st')" "client_socket \<noteq> 0"
    and "length junk = 100" "\<forall>r\<in>set (replies (received hello junk) (map (take 100 \<circ> fst) ms)). 0 \<in> set r"
  shows "udpclient_main env ask [host, port] junk (map (\<lambda>m. (None, Inr m)) ms) st
    = Inr (None, map text_in (replies (received hello junk) (map (take 100 \<circ> fst) ms)),
        zip (peer # map snd ms) (butlast (received hello junk # replies (received hello junk) (map (take 100 \<circ> fst) ms))))"
proof -
  have "length hello \<le> length junk" using assms(3) by (simp add: hello_def)
  with udp_client_loop_turns [OF assms(4)] assms(1-3) show ?thesis
    by (simp add: udpclient_main_def mput_received)
qed

section \<open>First lines\<close>

lemma keep_loop_eof: "io_in io = [] \<Longrightarrow> keep_loop buf io out = Some (Inr (Peer_Disconnected, out))"
  by (simp add: keep_loop.simps readline_def readline_loop.simps [of 0 119] rl_refill_def)

text \<open>
  The program prints of every chunk it receives the first line only; when the peer closes it ends.
\<close>

theorem keep_prints_first_lines:
  assumes "\<forall>(l, extra)\<in>set cs. NEWLINE \<notin> set l \<and> length l \<le> 118 \<and> length extra \<le> 1000"
    and "length buf = 120" "io_in io = concat (map (\<lambda>(l, extra). chunk (l @ NEWLINE # extra)) cs)"
  shows "keep_loop buf io \<lparr>out_script = [], out_sent = x\<rparr>
    = Some (Inr (Peer_Disconnected, \<lparr>out_script = [], out_sent = x @ concat (map (\<lambda>(l, extra). l @ [NEWLINE]) cs)\<rparr>))"
  using assms
proof (induction cs arbitrary: buf io x)
  case Nil
  then show ?case by (simp add: keep_loop_eof)
next
  case (Cons c cs)
  obtain l extra where c: "c = (l, extra)" by (cases c)
  with Cons.prems have l: "NEWLINE \<notin> set l" "length l + 1 < 120" "length l + 1 + length extra \<le> 1500"
    "io_in io = chunk (l @ NEWLINE # extra) @ concat (map (\<lambda>(l, extra). chunk (l @ NEWLINE # extra)) cs)" by auto
  from readline_loses_second_line [OF l(1-3) _ _ _ l(4), of 0 buf] Cons.prems(2) obtain io' where
    r: "readline buf 0 120 io = Inr (int (length l + 1), filled buf 0 (l @ [NEWLINE, 0]), io')"
    "io_in io' = concat (map (\<lambda>(l, extra). chunk (l @ NEWLINE # extra)) cs)" by auto
  let ?buf = "filled buf 0 (l @ [NEWLINE, 0])"
  have b: "length ?buf = 120" "take (length l + 1) ?buf = l @ [NEWLINE]"
    using l(2) Cons.prems(2) by (simp_all add: filled_def)
  have "keep_loop buf io \<lparr>out_script = [], out_sent = x\<rparr> = keep_loop ?buf io' \<lparr>out_script = [], out_sent = x @ l @ [NEWLINE]\<rparr>"
    using r(1) b(2) by (subst keep_loop.simps) (simp add: sys_write_def nat_add_distrib)
  with Cons.IH [OF _ b(1) r(2)] Cons.prems(1) c show ?case by simp
qed

section \<open>Examples\<close>

definition localhost :: name_env where
  "localhost = \<lparr>ne_aton = (\<lambda>_. Some [127, 0, 0, 1]), ne_gethostbyname = (\<lambda>_. None), ne_getservbyname = (\<lambda>_ _. None)\<rparr>"

definition all_granted :: "sockaddr_in \<Rightarrow> cand" where
  "all_granted _ = \<lparr>ca_len = 16, ca_socket = None, ca_opt = None, ca_bind = None, ca_listen = None, ca_connect = None\<rparr>"

definition std_open :: net where
  "std_open = \<lparr>n_open = [0, 1, 2], n_listening = [], n_errno = 0\<rparr>"

lemma one_client_only_witness:
  "tcpserver_main localhost all_granted [''4000''] [Inr ([RErr 104], [0], \<lparr>out_script = [], out_sent = []\<rparr>), Inl 4] std_open
    = tcpserver_main localhost all_granted [''4000''] [Inr ([RErr 104], [0], \<lparr>out_script = [], out_sent = []\<rparr>)] std_open"
  by (rule one_client_only) (simp add: std_open_def)

definition at_port :: "byte \<times> byte \<Rightarrow> sockaddr_in" where
  "at_port p = \<lparr>sin_addr = [127, 0, 0, 1], sin_port = p\<rparr>"

lemma udp_client_follows_witness:
  "\<exists>out. udpclient_main localhost all_granted [''localhost'', ''4000''] (replicate 100 0) [(None, Inr ([72, 105, 0], at_port (1, 1))), (None, Inr ([79, 107], at_port (2, 2)))] std_open
    = Inr (None, out, [(at_port (15, 160), hello @ replicate 94 0), (at_port (1, 1), [72, 105, 0, 108, 111, 0] @ replicate 94 0)])"
proof -
  have "udp_client localhost all_granted (Some ''localhost'') ''4000'' std_open
      = (Inr (3, at_port (15, 160)), \<lparr>n_open = [3, 0, 1, 2], n_listening = [], n_errno = 0\<rparr>)" by code_simp
  from udp_client_follows [OF this, of "replicate 100 0" "[([72, 105, 0], at_port (1, 1)), ([79, 107], at_port (2, 2))]"]
  show ?thesis by (simp add: hello_def received_def)
qed

lemma keep_prints_first_lines_witness:
  "keep_loop (replicate 120 0) \<lparr>io_in = [RData 65 [10], RData 66 [10, 67, 10]], io_errno = 0\<rparr> \<lparr>out_script = [], out_sent = []\<rparr>
    = Some (Inr (Peer_Disconnected, \<lparr>out_script = [], out_sent = [65, 10, 66, 10]\<rparr>))"
  using keep_prints_first_lines [of "[([65], []), ([66], [67, 10])]" "replicate 120 0"
      "\<lparr>io_in = [RData 65 [10], RData 66 [10, 67, 10]], io_errno = 0\<rparr>" "[]"]
  by (simp add: chunk_def)

end
