(* ===== verification/HbStart.thy ===== *)
theory HbStart
  imports Sockets StreamIO
begin

text \<open>
  How the two programs of \<open>sockapi/demo/heartBeat2\<close> come to their connections, before the loops of the theory
  \<open>Heartbeat2\<close>: the client listens on a port the system chooses, connects to the server and sends the number of
  that port; the server reads it and connects back to the address the client came from. What the
  system calls answer is an argument, and so are the client's arguments and the port chosen. A failure ends a program with a
  message.
\<close>

section \<open>The client\<close>

text \<open>The two sockets, the two bytes sent - or as many as \<open>send\<close> took - and the listening socket, which stays open.\<close>

record hb_started =
  hs_listen :: int
  hs_data :: int
  hs_beat :: int

definition hb_client_start ::
    "name_env \<Rightarrow> (sockaddr_in \<Rightarrow> cand) \<Rightarrow> nat + byte \<times> byte \<Rightarrow> answer \<Rightarrow> string \<Rightarrow> string \<Rightarrow> fdout \<Rightarrow> net
      \<Rightarrow> (string + hb_started) \<times> fdout \<times> net" where
  "hb_client_start env ask sockname acc host port out st =
     (case tcp_server env ask None ''0'' st of
        (Inl msg, st) \<Rightarrow> (Inl msg, out, st)
      | (Inr slisten, st) \<Rightarrow> (case sockname of
          Inl e \<Rightarrow> (Inl ''getsockname failure'', out, st)
        | Inr hbport \<Rightarrow> (case tcp_client env ask (Some host) port st of
            (Inl msg, st) \<Rightarrow> (Inl msg, out, st)
          | (Inr sdata, st) \<Rightarrow> (case sys_write [fst hbport, snd hbport] out of
              (Inl e, out) \<Rightarrow> (Inl ''send failure sending port'', out, st)
            | (Inr rc, out) \<Rightarrow> (case sys_socket acc st of (chb, st) \<Rightarrow>
                if \<not> chb \<ge> 0 then (Inl ''accept failure'', out, st)
                else (Inr \<lparr>hs_listen = slisten, hs_data = sdata, hs_beat = chb\<rparr>, out, st))))))"

section \<open>The server\<close>

text \<open>
  \<open>accept\<close> fills in the address of the peer, and \<open>readn\<close> reads over its port. The address connected to is returned
  with the sockets.
\<close>

definition hb_server_start ::
    "name_env \<Rightarrow> (sockaddr_in \<Rightarrow> cand) \<Rightarrow> answer \<Rightarrow> sockaddr_in \<Rightarrow> answer \<Rightarrow> string \<Rightarrow> io \<Rightarrow> net
      \<Rightarrow> ((string + hb_started \<times> sockaddr_in) \<times> io \<times> net) cres" where
  "hb_server_start env ask acc peer sock port io st =
     (case tcp_server env ask None port st of
        (Inl msg, st) \<Rightarrow> Inr (Inl msg, io, st)
      | (Inr s, st) \<Rightarrow> (case sys_socket acc st of (sdata, st) \<Rightarrow>
          if \<not> sdata \<ge> 0 then Inr (Inl ''accept failed'', io, st)
          else cbind (readn [fst (sin_port peer), snd (sin_port peer)] 0 2 io) (\<lambda>(rc, mem, io).
            if rc < 0 then Inr (Inl ''errno reading port number'', io, st)
            else (let peer = peer\<lparr>sin_port := (mem ! 0, mem ! 1)\<rparr>
              in case sys_socket sock st of (shb, st) \<Rightarrow>
                if \<not> shb \<ge> 0 then Inr (Inl ''shb socket failure'', io, st)
                else (case sys_call (ca_connect (ask peer)) st of (rc, st) \<Rightarrow>
                  if rc \<noteq> 0 then Inr (Inl ''shb connect error'', io, st)
                  else Inr (Inr (\<lparr>hs_listen = s, hs_data = sdata, hs_beat = shb\<rparr>, peer), io, st))))))"

section \<open>Who connects to whom\<close>

lemma sys_socket_answer: "0 \<le> fst (sys_socket a st) \<longleftrightarrow> a = None"
  using fresh_fd(2) [of "n_open st"] by (auto simp: sys_socket_def split: option.splits)

lemma client_started:
  assumes "hb_client_start env ask sockname acc host port out st = (Inr r, out', st')"
  shows "\<exists>p n. sockname = Inr p \<and> fst (sys_write [fst p, snd p] out) = Inr n \<and> out' = snd (sys_write [fst p, snd p] out)"
  using assms by (auto simp: hb_client_start_def split: sum.splits prod.splits if_splits)

text \<open>The port after \<open>k\<close> bytes of the stream have come in over the one \<open>accept\<close> filled in.\<close>

definition port_read :: "byte list \<Rightarrow> byte \<times> byte \<Rightarrow> byte \<times> byte" where
  "port_read bs p = (case bs of [] \<Rightarrow> p | [h] \<Rightarrow> (h, snd p) | h # l # _ \<Rightarrow> (h, l))"

lemma readn_port:
  assumes "length bs \<ge> 2 \<or> broken (io_in io) = None" "stream (io_in io) = bs"
  shows "\<exists>rc mem io'. readn [fst p, snd p] 0 2 io = Inr (rc, mem, io') \<and> 0 \<le> rc \<and> (mem ! 0, mem ! 1) = port_read bs p
    \<and> stream (io_in io') = drop 2 bs"
proof -
  obtain r io' where r: "readn [fst p, snd p] 0 2 io = Inr (r, filled [fst p, snd p] 0 (take 2 bs), io')"
    "readn_post 2 0 bs (broken (io_in io)) r io'"
    using readn_spec [of 0 2 "[fst p, snd p]" io] assms(2) by auto
  have "0 \<le> r \<and> stream (io_in io') = drop 2 bs"
    using r(2) assms(1) by (cases "length bs < 2") (auto simp: readn_post_def)
  moreover have "(filled [fst p, snd p] 0 (take 2 bs) ! 0, filled [fst p, snd p] 0 (take 2 bs) ! 1) = port_read bs p"
    by (auto simp: filled_def port_read_def numeral_2_eq_2 split: list.split)
  ultimately show ?thesis using r(1) by blast
qed

lemma server_started:
  assumes "length (stream (io_in io)) \<ge> 2 \<or> broken (io_in io) = None"
    and "tcp_server env ask None port st = (Inr s, st1)"
    and "port_read (stream (io_in io)) (sin_port peer) = p" "ca_connect (ask (peer\<lparr>sin_port := p\<rparr>)) = None"
  shows "\<exists>io' r st'. hb_server_start env ask None peer None port io st = Inr (Inr (r, peer\<lparr>sin_port := p\<rparr>), io', st')
    \<and> stream (io_in io') = drop 2 (stream (io_in io))"
proof -
  obtain sdata st2 where 2: "sys_socket None st1 = (sdata, st2)" "sdata \<ge> 0"
    using sys_socket_answer [of None st1] by (cases "sys_socket None st1") simp
  obtain shb st3 where 3: "sys_socket None st2 = (shb, st3)" "shb \<ge> 0"
    using sys_socket_answer [of None st2] by (cases "sys_socket None st2") simp
  from readn_port [OF assms(1) refl, of "sin_port peer"] obtain rc mem io' where
    "readn [fst (sin_port peer), snd (sin_port peer)] 0 2 io = Inr (rc, mem, io')" "0 \<le> rc"
    "(mem ! 0, mem ! 1) = p" "stream (io_in io') = drop 2 (stream (io_in io))" using assms(3) by blast
  with assms(2,4) 2 3 show ?thesis
    by (simp add: hb_server_start_def sys_call_def Let_def)
qed

text \<open>
  The server connects back to where the client listens: when the client's set-up has come through and its two bytes
  have been taken, the server, however the bytes are cut on their way, connects to the client's address with the port the system had
  chosen, and no other byte of the stream is read.
\<close>

theorem heartbeat_connects_back:
  assumes "hb_client_start env ask (Inr p) acc host cport \<lparr>out_script = [], out_sent = []\<rparr> st = (Inr r, out, st')"
    and "stream (io_in io) = out_sent out @ data"
    and "tcp_server env' ask' None port sst = (Inr s, sst1)" "ca_connect (ask' (peer\<lparr>sin_port := p\<rparr>)) = None"
  shows "\<exists>io' r sst'. hb_server_start env' ask' None peer None port io sst = Inr (Inr (r, peer\<lparr>sin_port := p\<rparr>), io', sst')
    \<and> stream (io_in io') = data"
proof -
  from client_started [OF assms(1)] have "out_sent out = [fst p, snd p]" by (auto simp: sys_write_def)
  with assms(2) have "stream (io_in io) = fst p # snd p # data" by simp
  with server_started [OF _ assms(3), of io peer p] assms(4) show ?thesis by (auto simp: port_read_def)
qed

text \<open>
  A client that closes its connection after one byte of the port, or before the first, is not noticed: \<open>readn\<close> is only
  tested for -1, and the server connects to a port made of what it got and of the port the client came from.
\<close>

theorem short_port_unnoticed:
  assumes "stream (io_in io) = [h]" "broken (io_in io) = None" "tcp_server env ask None port st = (Inr s, st1)"
    and "ca_connect (ask (peer\<lparr>sin_port := (h, snd (sin_port peer))\<rparr>)) = None"
  shows "\<exists>io' r st'. hb_server_start env ask None peer None port io st
    = Inr (Inr (r, peer\<lparr>sin_port := (h, snd (sin_port peer))\<rparr>), io', st')"
  using server_started [OF _ assms(3) _ assms(4), of io] assms(1,2) by (auto simp: port_read_def)

section \<open>An example\<close>

definition no_names :: name_env where
  "no_names = \<lparr>ne_aton = (\<lambda>_. Some [127, 0, 0, 1]), ne_gethostbyname = (\<lambda>_. None), ne_getservbyname = (\<lambda>_ _. None)\<rparr>"

definition all_well :: "sockaddr_in \<Rightarrow> cand" where
  "all_well _ = \<lparr>ca_len = 16, ca_socket = None, ca_opt = None, ca_bind = None, ca_listen = None, ca_connect = None\<rparr>"

definition std_fds :: net where
  "std_fds = \<lparr>n_open = [0, 1, 2], n_listening = [], n_errno = 0\<rparr>"

lemma server_example: "tcp_server no_names all_well None ''0'' std_fds = (Inr 3, \<lparr>n_open = [3, 0, 1, 2], n_listening = [3], n_errno = 0\<rparr>)"
  by code_simp

definition hb_peer :: sockaddr_in where
  "hb_peer = \<lparr>sin_addr = [127, 0, 0, 1], sin_port = (200, 13)\<rparr>"

lemma client_example:
  "\<exists>r st'. hb_client_start no_names all_well (Inr (156, 64)) None ''localhost'' ''0'' \<lparr>out_script = [], out_sent = []\<rparr> std_fds
    = (Inr r, \<lparr>out_script = [], out_sent = [156, 64]\<rparr>, st')"
proof -
  have "fst (hb_client_start no_names all_well (Inr (156, 64)) None ''localhost'' ''0'' \<lparr>out_script = [], out_sent = []\<rparr> std_fds)
      = Inr \<lparr>hs_listen = 3, hs_data = 4, hs_beat = 5\<rparr>" by code_simp
  with client_started show ?thesis
    by (cases "hb_client_start no_names all_well (Inr (156, 64)) None ''localhost'' ''0'' \<lparr>out_script = [], out_sent = []\<rparr> std_fds")
      (fastforce simp: sys_write_def)
qed

lemma heartbeat_connects_back_witness:
  "\<exists>io' r st'. hb_server_start no_names all_well None hb_peer None ''0''
      \<lparr>io_in = [RData 156 [], RData 64 [], RData 72 [105]], io_errno = 0\<rparr> std_fds
    = Inr (Inr (r, hb_peer\<lparr>sin_port := (156, 64)\<rparr>), io', st') \<and> stream (io_in io') = [72, 105]"
proof -
  from client_example obtain r st' where
    c: "hb_client_start no_names all_well (Inr (156, 64)) None ''localhost'' ''0'' \<lparr>out_script = [], out_sent = []\<rparr> std_fds
      = (Inr r, \<lparr>out_script = [], out_sent = [156, 64]\<rparr>, st')" by blast
  show ?thesis by (rule heartbeat_connects_back [OF c _ server_example]) (simp_all add: all_well_def)
qed

lemma short_port_unnoticed_witness:
  "\<exists>io' r st'. hb_server_start no_names all_well None hb_peer None ''0'' \<lparr>io_in = [RData 156 []], io_errno = 0\<rparr> std_fds
    = Inr (Inr (r, hb_peer\<lparr>sin_port := (156, 13)\<rparr>), io', st')"
  using short_port_unnoticed [of "\<lparr>io_in = [RData 156 []], io_errno = 0\<rparr>" 156, OF _ _ server_example, of hb_peer]
  by (simp add: hb_peer_def all_well_def)

end
