(* ===== verification/ProcessGroups.thy ===== *)
theory ProcessGroups
  imports Prelude
begin

text \<open>
  The two programs of \<open>pgsjc\<close> about process groups and \<open>SIGHUP\<close>. A process is its identifier, its
  group, whether it has a handler for \<open>SIGHUP\<close>, and what it has printed; the processes a program has made are
  a list, the first one in front. The identifiers \<open>fork\<close> returns are an argument, \<open>None\<close> where it
  fails. The limit of 60 seconds and the output at the start are left out.
\<close>

section \<open>Processes\<close>

record process =
  pr_pid :: nat
  pr_pgid :: nat
  pr_handler :: bool
  pr_caught :: nat            \<comment> \<open>how often it has printed that it caught the signal\<close>

datatype outcome = Waiting "process list" | Failed "process list"

definition child_of :: "process \<Rightarrow> nat \<Rightarrow> process" where
  "child_of p pid = p\<lparr>pr_pid := pid\<rparr>"

text \<open>\<open>setpgid(0, 0)\<close> in a process that has just been made cannot fail.\<close>

definition setpgid :: "process \<Rightarrow> process" where
  "setpgid p = p\<lparr>pr_pgid := pr_pid p\<rparr>"

section \<open>\<open>disc_SIGHUP.c\<close>\<close>

text \<open>
  The loop over the arguments: every child installs its handler and leaves the loop, the parent goes on. When
  \<open>fork\<close> fails the parent ends; the children it has made stay.
\<close>

fun disc_loop :: "(string \<times> nat option) list \<Rightarrow> process \<Rightarrow> process list \<Rightarrow> outcome" where
  "disc_loop [] parent children = Waiting (parent # children)"
| "disc_loop ((arg, None) # args) parent children = Failed children"
| "disc_loop ((arg, Some pid) # args) parent children =
     (let c = child_of parent pid;
          c = (if arg \<noteq> [] \<and> hd arg = CHR ''d'' then setpgid c else c);
          c = c\<lparr>pr_handler := True\<rparr>
      in disc_loop args parent (children @ [c]))"

definition disc_main :: "(string \<times> nat option) list \<Rightarrow> process \<Rightarrow> outcome" where
  "disc_main args parent = (if args = [] \<or> fst (hd args) = ''--help'' then Failed [] else disc_loop args parent [])"

section \<open>\<open>catch_SIGHUP.c\<close>\<close>

text \<open>The handler is installed before \<open>fork\<close>; with an argument the child moves to a group of its own.\<close>

definition catch_main :: "bool \<Rightarrow> nat option \<Rightarrow> process \<Rightarrow> outcome" where
  "catch_main has_arg fork p =
     (let p = p\<lparr>pr_handler := True\<rparr>
      in case fork of None \<Rightarrow> Failed []
         | Some pid \<Rightarrow> let c = child_of p pid in Waiting [p, if has_arg then setpgid c else c])"

section \<open>\<open>SIGHUP\<close> for a group\<close>

text \<open>Without a handler the signal ends a process.\<close>

definition hang_up :: "nat \<Rightarrow> process list \<Rightarrow> process list" where
  "hang_up g ps = concat (map (\<lambda>p. if pr_pgid p \<noteq> g then [p]
     else if pr_handler p then [p\<lparr>pr_caught := pr_caught p + 1\<rparr>] else []) ps)"

lemma disc_loop_children:
  assumes "\<forall>(arg, pid)\<in>set args. pid \<noteq> None"
  shows "disc_loop args parent children = Waiting (parent # children @ map (\<lambda>(arg, pid).
     parent\<lparr>pr_pid := the pid, pr_pgid := (if arg \<noteq> [] \<and> hd arg = CHR ''d'' then the pid else pr_pgid parent), pr_handler := True\<rparr>) args)"
  using assms
proof (induction args arbitrary: children)
  case (Cons a args)
  then obtain arg pid where "a = (arg, Some pid)" by (cases a) auto
  with Cons show ?case by (cases parent) (simp add: Let_def child_of_def setpgid_def)
qed simp

text \<open>
  When the parent's group is told to hang up, the parent dies, having no handler; of its children exactly those
  whose argument does not begin with \<open>d\<close> catch the signal, and all of them stay, in the order of the arguments.
\<close>

theorem disc_hang_up:
  assumes "args \<noteq> []" "fst (hd args) \<noteq> ''--help''" "\<forall>(arg, pid)\<in>set args. \<exists>n. pid = Some n \<and> n \<noteq> pr_pgid parent"
    and "\<not> pr_handler parent" "pr_caught parent = 0"
  shows "\<exists>ps. disc_main args parent = Waiting ps
    \<and> map (\<lambda>p. (pr_pid p, pr_caught p)) (hang_up (pr_pgid parent) ps)
      = map (\<lambda>(arg, pid). (the pid, if arg \<noteq> [] \<and> hd arg = CHR ''d'' then 0 else 1)) args"
proof -
  have all: "\<forall>(arg, pid)\<in>set args. pid \<noteq> None" using assms(3) by auto
  let ?ps = "map (\<lambda>(arg, pid). parent\<lparr>pr_pid := the pid,
     pr_pgid := (if arg \<noteq> [] \<and> hd arg = CHR ''d'' then the pid else pr_pgid parent), pr_handler := True\<rparr>) args"
  have "map (\<lambda>p. (pr_pid p, pr_caught p)) (hang_up (pr_pgid parent) ?ps)
      = map (\<lambda>(arg, pid). (the pid, if arg \<noteq> [] \<and> hd arg = CHR ''d'' then 0 else 1)) args"
    using assms(3)
  proof (induction args)
    case (Cons a args)
    then obtain arg n where "a = (arg, Some n)" "n \<noteq> pr_pgid parent" by (cases a) auto
    with Cons assms(5) show ?case by (simp add: hang_up_def)
  qed (simp add: hang_up_def)
  moreover have "hang_up (pr_pgid parent) (parent # ?ps) = hang_up (pr_pgid parent) ?ps"
    using assms(4) by (simp add: hang_up_def)
  ultimately show ?thesis using assms(1,2) disc_loop_children [OF all, of parent "[]"]
    by (simp add: disc_main_def)
qed

definition shell_job :: process where
  "shell_job = \<lparr>pr_pid = 100, pr_pgid = 100, pr_handler = False, pr_caught = 0\<rparr>"

lemma disc_hang_up_witness:
  "\<exists>ps. disc_main [(''d'', Some 101), (''s'', Some 102), (''s'', Some 103)] shell_job = Waiting ps
    \<and> map (\<lambda>p. (pr_pid p, pr_caught p)) (hang_up 100 ps) = [(101, 0), (102, 1), (103, 1)]"
  using disc_hang_up [of "[(''d'', Some 101), (''s'', Some 102), (''s'', Some 103)]" shell_job]
  by (simp add: shell_job_def)

text \<open>Both processes of \<open>catch_SIGHUP\<close> live on; the child catches the signal unless it was given an argument.\<close>

theorem catch_hang_up:
  assumes "pid \<noteq> pr_pgid p"
  shows "\<exists>ps. catch_main has_arg (Some pid) p = Waiting ps
    \<and> map (\<lambda>q. (pr_pid q, pr_caught q)) (hang_up (pr_pgid p) ps)
      = [(pr_pid p, pr_caught p + 1), (pid, pr_caught p + (if has_arg then 0 else 1))]"
  using assms by (simp add: catch_main_def hang_up_def child_of_def setpgid_def Let_def)

lemma catch_hang_up_witness:
  "\<exists>ps. catch_main True (Some 101) shell_job = Waiting ps
    \<and> map (\<lambda>q. (pr_pid q, pr_caught q)) (hang_up 100 ps) = [(100, 1), (101, 0)]"
  using catch_hang_up [of 101 shell_job True] by (simp add: shell_job_def)

end
