(* ===== verification/LoadRun.thy ===== *)
theory LoadRun
  imports LoadClient
begin

text \<open>
  The load generator as a whole (\<open>main\<close> and \<open>main_thread\<close> of \<open>client/src/main.cc\<close>): the attempts to connect and then any
  number of rounds of events. The scripts of what reading a descriptor returns span the whole run; an error, as
  \<open>EAGAIN\<close>, separates what is there at one time from what comes later.
\<close>

section \<open>The main thread\<close>

definition jobs :: int where "jobs = 0"

text \<open>A round is what \<open>epoll_wait\<close> reports and the time then; the result is the next time-out and the state.\<close>

fun main_thread :: "kernel \<Rightarrow> ((int \<times> u32) list \<times> int) list \<Rightarrow> int \<Rightarrow> client \<Rightarrow> (int \<times> client) run" where
  "main_thread k [] outime c = Some (Inr (Goes (outime, c)))"
| "main_thread k ((evs, tnow) # rs) outime c = rbind (process_event k evs tnow c) (\<lambda>c.
     let outime = next_outime c
     in if jobs < 0 then Some (Inr (Goes (outime, c))) else main_thread k rs outime c)"

definition load_main :: "kernel \<Rightarrow> attempt list \<Rightarrow> ((int \<times> u32) list \<times> int) list \<Rightarrow> (int \<Rightarrow> fdin) \<Rightarrow> (int \<times> client) run" where
  "load_main k as rs ins = rbind (Some (connect_all k as (fresh_client ins))) (main_thread k rs 1000)"

section \<open>What is conserved\<close>

text \<open>All bytes of a script, and those that a set of descriptors has not given yet.\<close>

fun whole :: "fdin \<Rightarrow> byte list" where
  "whole [] = []"
| "whole (RErr e # s) = whole s"
| "whole (RData b bs # s) = b # bs @ whole s"

lemma whole_parts: "length (whole s) = length (data_of s) + length (whole (after_error s))"
  by (induction s rule: whole.induct) auto

definition unread_bytes :: "int set \<Rightarrow> client \<Rightarrow> nat" where
  "unread_bytes F c = (\<Sum>fd\<in>F. length (whole (c_in c fd)))"

lemma unread_event:
  assumes "finite F" "fd \<in> F"
  shows "unread_bytes F c = bytes_read c (fd, e) + unread_bytes F (event_done (fd, e) c)"
proof -
  have same: "c_in (event_done (fd, e) c) = c_in (taken_in (fd, e) c)" by (simp add: event_done_def Let_def close_fd_def)
  have "(\<Sum>f\<in>F - {fd}. length (whole (c_in (taken_in (fd, e) c) f))) = (\<Sum>f\<in>F - {fd}. length (whole (c_in c f)))"
    by (intro sum.cong) (auto simp: taken_in_def)
  moreover have "length (whole (c_in c fd)) = bytes_read c (fd, e) + length (whole (c_in (taken_in (fd, e) c) fd))"
    using whole_parts [of "c_in c fd"] by (simp add: taken_in_def bytes_read_def)
  ultimately show ?thesis using assms by (simp add: unread_bytes_def same sum.remove [of F fd])
qed

text \<open>
  What no event changes: the table fits the \<open>epoll\<close>, every descriptor is watched or closed, and every byte is counted or
  still to be read.
\<close>

definition kept :: "int set \<Rightarrow> client \<Rightarrow> client \<Rightarrow> bool" where
  "kept F c c' \<longleftrightarrow> load_ok c' \<and> set (watched c') \<subseteq> F
     \<and> mset (watched c') + mset (c_closed c') = mset (watched c) + mset (c_closed c)
     \<and> c_sumread c' + of_nat (unread_bytes F c') = c_sumread c + of_nat (unread_bytes F c)"

lemma connecting_in:
  "Simconnect k a c = Goes (fd, c') \<Longrightarrow> c_in c' = c_in c \<and> c_sumread c' = c_sumread c"
  "add_epoll k fd x y True c = Goes c' \<Longrightarrow> c_in c' = c_in c \<and> c_sumread c' = c_sumread c"
  "set_process fd f c = Inr c' \<Longrightarrow> c_in c' = c_in c \<and> c_sumread c' = c_sumread c"
  by (auto simp: Simconnect_def set_noblock_def add_epoll_def epoll_add_def close_fd_def set_process_def process_def Let_def
      split: if_splits)

lemma connect_all_in:
  "connect_all k as c = Inr (Goes c') \<Longrightarrow> c_in c' = c_in c \<and> c_sumread c' = c_sumread c"
proof (induction as arbitrary: c)
  case (Cons a as)
  from Cons.prems obtain fd c1 where 1: "Simconnect k a c = Goes (fd, c1)"
    and r: "(if fd < 0 then connect_all k as c1 else pbind (Inr (add_epoll k fd True True True c1)) (\<lambda>c.
       cbind (set_process fd set_client c) (connect_all k as))) = Inr (Goes c')"
    by (auto simp: pbind_Goes_iff)
  show ?case
  proof (cases "fd < 0")
    case True
    with r Cons.IH connecting_in(1) [OF 1] show ?thesis by simp
  next
    case False
    with r obtain c2 c3 where s: "add_epoll k fd True True True c1 = Goes c2" "set_process fd set_client c2 = Inr c3"
      "connect_all k as c3 = Inr (Goes c')" by (auto simp: pbind_Goes_iff cbind_Inr_iff)
    from Cons.IH [OF s(3)] connecting_in(1) [OF 1] connecting_in(2) [OF s(1)] connecting_in(3) [OF s(2)] show ?thesis by simp
  qed
qed simp

lemma kept_trans: "kept F c c' \<Longrightarrow> kept F c' c'' \<Longrightarrow> kept F c c''"
  by (simp add: kept_def)

lemma mset_take_out: "distinct xs \<Longrightarrow> x \<in> set xs \<Longrightarrow> add_mset x (mset (filter (\<lambda>y. y \<noteq> x) xs)) = mset xs"
proof (induction xs)
  case (Cons y ys)
  moreover have "filter (\<lambda>y. y \<noteq> x) ys = ys" if "x \<notin> set ys" using that by (auto simp: filter_id_conv)
  ultimately show ?case by (cases "y = x") (auto simp: add_mset_commute simp del: mset_filter)
qed simp

lemma event_kept:
  assumes "load_ok c" "fd \<in> set (watched c)" "set (watched c) \<subseteq> F" "finite F"
  shows "kept F c (event_done (fd, e) c)"
proof -
  have "load_ok (event_done (fd, e) c)" using event_done_ok [OF assms(1), of "(fd, e)"] assms(2) by simp
  moreover have "mset (watched (event_done (fd, e) c)) + mset (c_closed (event_done (fd, e) c)) = mset (watched c) + mset (c_closed c)"
    using assms(1,2) mset_take_out [of "watched c" fd] by (simp add: event_done_fields load_ok_def)
  moreover have "unread_bytes F c = bytes_read c (fd, e) + unread_bytes F (event_done (fd, e) c)"
    using assms by (intro unread_event) auto
  ultimately show ?thesis using assms(3) by (auto simp: kept_def event_done_fields)
qed

lemma process_each_kept:
  assumes "load_ok c" "distinct (map fst evs)" "set (map fst evs) \<subseteq> set (watched c)" "set (watched c) \<subseteq> F" "finite F"
  shows "\<exists>c'. process_each k evs c = Some (Inr (Goes c')) \<and> kept F c c'"
  using assms
proof (induction evs arbitrary: c)
  case Nil
  then show ?case by (simp add: kept_def)
next
  case (Cons ev evs)
  obtain fd e where ev: "ev = (fd, e)" by (cases ev)
  let ?c = "event_done (fd, e) c"
  have w: "fd \<in> set (watched c)" using Cons.prems(3) ev by simp
  note k = event_kept [OF Cons.prems(1) w Cons.prems(4,5), of e]
  have d: "distinct (map fst evs)" "fd \<notin> set (map fst evs)" using Cons.prems(2) ev by simp_all
  have "set (map fst evs) \<subseteq> set (watched ?c)" using Cons.prems(3) d(2) by (auto simp: event_done_fields)
  with Cons.IH [of ?c] k d(1) Cons.prems(5) obtain c' where "process_each k evs ?c = Some (Inr (Goes c'))" "kept F ?c c'"
    by (auto simp: kept_def)
  with kept_trans [OF k] process_one_event_done [OF Cons.prems(1) w, of k e] ev show ?case by auto
qed

lemma process_event_kept:
  assumes "load_ok c" "distinct (map fst evs)" "set (map fst evs) \<subseteq> set (watched c)" "set (watched c) \<subseteq> F" "finite F"
  shows "\<exists>c'. process_event k evs tnow c = Some (Inr (Goes c')) \<and> kept F c c'"
proof -
  obtain c' where c': "process_each k evs c = Some (Inr (Goes c'))" "kept F c c'" using process_each_kept [OF assms] by blast
  let ?c = "c'\<lparr>c_ub := c_ub c' @ [Deref_End]\<rparr>"
  have "process_event k evs tnow c = Some (Inr (Goes ?c))"
    using c' drop_due_none by (simp add: process_event_def kept_def load_ok_def)
  moreover have "kept F c ?c" using c'(2) by (simp add: kept_def load_ok_def watched_def unread_bytes_def)
  ultimately show ?thesis by blast
qed

text \<open>\<open>epoll_wait\<close> reports descriptors that are watched, each at most once.\<close>

fun reported :: "kernel \<Rightarrow> ((int \<times> u32) list \<times> int) list \<Rightarrow> client \<Rightarrow> bool" where
  "reported k [] c = True"
| "reported k ((evs, tnow) # rs) c = (distinct (map fst evs) \<and> set (map fst evs) \<subseteq> set (watched c)
     \<and> (case process_event k evs tnow c of Some (Inr (Goes c)) \<Rightarrow> reported k rs c | _ \<Rightarrow> True))"

lemma main_thread_kept:
  assumes "load_ok c" "reported k rs c" "set (watched c) \<subseteq> F" "finite F"
  shows "\<exists>c'. main_thread k rs 1000 c = Some (Inr (Goes (1000, c'))) \<and> kept F c c'"
  using assms
proof (induction rs arbitrary: c)
  case Nil
  then show ?case by (simp add: kept_def)
next
  case (Cons r rs)
  obtain evs tnow where r: "r = (evs, tnow)" by (cases r)
  with Cons.prems(2) have ev: "distinct (map fst evs)" "set (map fst evs) \<subseteq> set (watched c)" by simp_all
  from process_event_kept [OF Cons.prems(1) this Cons.prems(3,4)] obtain c1 where
    c1: "process_event k evs tnow c = Some (Inr (Goes c1))" "kept F c c1" by blast
  have "next_outime c1 = 1000" by (simp add: next_outime_def get_mintimer_def mintimer_def)
  moreover from Cons.IH [of c1] c1 Cons.prems(2,4) r obtain c2 where
    "main_thread k rs 1000 c1 = Some (Inr (Goes (1000, c2)))" "kept F c1 c2" by (auto simp: kept_def)
  moreover note kept_trans [OF c1(2)]
  ultimately show ?case using c1(1) r by (auto simp: jobs_def)
qed

text \<open>
  C15. The load generator from its start through any number of rounds: it neither faults nor ends, waits a second at most
  for events, and keeps its table in step with its \<open>epoll\<close>; every socket it was given, except number 0, is watched or has
  been closed, each once; and the bytes counted, modulo \<open>2 ^ 64\<close>, are those that the connections have given so far.
\<close>

theorem load_runs:
  assumes "willing k" "fresh_numbers [] as"
    and "\<And>c. connect_all k as (fresh_client ins) = Inr (Goes c) \<Longrightarrow> reported k rs c"
  shows "\<exists>c. load_main k as rs ins = Some (Inr (Goes (1000, c))) \<and> load_ok c
    \<and> mset (watched c) + mset (c_closed c) = mset (filter (\<lambda>fd. 0 < fd) (map a_socket as))
    \<and> (let F = set (map a_socket (filter connects as)) in
        c_sumread c + of_nat (\<Sum>fd\<in>F. length (whole (c_in c fd))) = of_nat (\<Sum>fd\<in>F. length (whole (ins fd))))"
proof -
  let ?F = "set (map a_socket (filter connects as))"
  have f: "load_ok (fresh_client ins)" "watched (fresh_client ins) = []" "c_closed (fresh_client ins) = []"
    by (simp_all add: load_ok_def watched_def fresh_client_def new_timer_def)
  then obtain c where c: "connect_all k as (fresh_client ins) = Inr (Goes c)" "load_ok c" "watched c = map a_socket (filter connects as)"
    "c_closed c = map a_socket (filter (\<lambda>a. 0 < a_socket a \<and> \<not> connects a) as)" "c_in c = ins" "c_sumread c = 0"
    using connect_all_ok [of "fresh_client ins" k as] assms connect_all_in [of k as "fresh_client ins"]
    by (auto simp: fresh_client_def)
  from main_thread_kept [OF c(2) assms(3) [OF c(1)], of ?F] c(3) obtain c' where
    m: "main_thread k rs 1000 c = Some (Inr (Goes (1000, c')))" "kept ?F c c'" by auto
  have "mset (map a_socket (filter connects as)) + mset (map a_socket (filter (\<lambda>a. 0 < a_socket a \<and> \<not> connects a) as))
      = mset (filter (\<lambda>fd. 0 < fd) (map a_socket as))"
    by (induction as) (auto simp: connects_def)
  with m(2) c have "mset (watched c') + mset (c_closed c') = mset (filter (\<lambda>fd. 0 < fd) (map a_socket as))"
    by (simp add: kept_def)
  moreover have "c_sumread c' + of_nat (unread_bytes ?F c') = of_nat (unread_bytes ?F c)"
    using m(2) c(6) by (simp add: kept_def)
  ultimately show ?thesis using m c(1,5)
    by (simp add: load_main_def kept_def unread_bytes_def Let_def)
qed

definition two_servers :: "attempt list" where
  "two_servers = [\<lparr>a_socket = 4, a_connect = Some EINPROGRESS\<rparr>, \<lparr>a_socket = 5, a_connect = Some 111\<rparr>, \<lparr>a_socket = 5, a_connect = None\<rparr>]"

definition some_data :: "int \<Rightarrow> fdin" where
  "some_data fd = (if fd = 4 then [RData 1 [2, 3], RErr EAGAIN, RData 4 []] else [RData 5 []])"

lemma load_runs_witness:
  "\<exists>c. load_main all_fine two_servers [([(5, EPOLLIN), (4, EPOLLIN)], 0), ([(4, EPOLLIN)], 7)] some_data = Some (Inr (Goes (1000, c)))
    \<and> mset (watched c) + mset (c_closed c) = {#4, 5, 5#}"
proof -
  let ?rs = "[([(5, EPOLLIN), (4, EPOLLIN)], 0), ([(4, EPOLLIN)], 7)]"
  have n: "fresh_numbers [] two_servers" by (simp add: two_servers_def connects_def MAX_FD_def)
  have r: "reported all_fine ?rs c" if c: "connect_all all_fine two_servers (fresh_client some_data) = Inr (Goes c)" for c
  proof -
    have "load_ok (fresh_client some_data)" "watched (fresh_client some_data) = []" "c_in c = some_data"
      using connect_all_in [OF c] by (simp_all add: load_ok_def watched_def fresh_client_def new_timer_def)
    with connect_all_ok [of "fresh_client some_data" all_fine two_servers] n all_fine_willing c have
      ok: "load_ok c" "watched c = [4, 5]" "c_in c = some_data" by (auto simp: two_servers_def connects_def MAX_FD_def)
    then obtain c' where "process_event all_fine [(5, EPOLLIN), (4, EPOLLIN)] 0 c = Some (Inr (Goes c'))"
      "watched c' = filter (\<lambda>fd. fd \<notin> fst ` set (filter (hang_up c) [(5, EPOLLIN), (4, EPOLLIN)])) (watched c)"
      using load_round [of c "[(5, EPOLLIN), (4, EPOLLIN)]" all_fine 0] by auto
    moreover have "\<not> hang_up c (4, EPOLLIN)" using ok(3) by (simp add: hang_up_def some_data_def EPOLLIN_def EPOLLRDHUP_def)
    ultimately show ?thesis using ok(2) by (auto split: option.split sum.split proceeds.split)
  qed
  from load_runs [OF all_fine_willing n r] show ?thesis by (auto simp: two_servers_def add_mset_commute)
qed

end
