(* ===== verification/Spec2Isabelle.thy ===== *)
theory Spec2Isabelle
  imports Crc16 Crc32 QueueArray QueueLinkList ThreadPoolProps StreamIO LineIO GetNum PollLoops
    Bitree EpollServer Sockets ErrorFunctions Heartbeat Accounts Uart Daemon ServerStart
    MsgQueue UnixDgram Heartbeat2 LoadClient Signals SelectServer PollRun LogDaemon
    QueueTests Demos NetPrograms HbStart ProcessGroups
    LoadRun
begin
text \<open>
  A model in HOL of the programs of the repository linuxPrograms, a collection of small
  C and C++ programs about Linux system programming: servers on \<open>select\<close>, \<open>poll\<close> and \<open>epoll\<close>, a thread
  pool, socket helpers and their demos, queues, check sums, daemons, signals, timers. The programs do not form
  one system; where they share code, the theories share definitions. All paths below are under \<open>src\<close>.

  \<^bold>\<open>How the code is read.\<close> A struct is a record, an enum a datatype, an integer a word of its width, or an \<open>int\<close> brought back
  into range by \<open>c_int\<close>, \<open>c_short\<close> or \<open>c_size\<close> of the theory \<open>Prelude\<close> where the source would wrap. An operation that can run into a failed
  assertion, a NULL pointer, an index outside an array, a division by zero or memory never written returns
  \<open>'a cres\<close>, \<open>Inl\<close> the fault or \<open>Inr\<close> the result; \<open>cbind\<close> is the semicolon. What the operating system answers is an argument: a script of
  chunks and errors for reading (\<open>fdin\<close>), one of accepted lengths for writing (\<open>fdout\<close>, both in \<open>Streams\<close>), the errno of a call, a list of
  arrivals with the time between them. A theorem for every argument is one for every behaviour of the system. Memory that
  is allocated and freed is a heap with an oracle for \<open>malloc\<close> (\<open>CHeap\<close>). Threads that share state are steps of an
  interleaving relation (\<open>ThreadPoolConc\<close>, \<open>MsgQueue\<close>), each with the atomicity the locks of the source give.

  \<^bold>\<open>Termination.\<close> Loops over data are \<open>fun\<close>, or \<open>function\<close> with a measure - the rest of the input script, the
  free places, the distance to the end. A loop that the code does not bound is a \<open>partial_function (option)\<close>: \<open>None\<close> means
  that it does not return, so that returning, and not returning, are theorems (\<open>hb_loop\<close>, \<open>send_loop\<close>, \<open>server_loop\<close>, \<open>discard\<close> and
  others). Main loops written as \<open>while(1)\<close> are functions of the list of their rounds; a statement holds after any
  number of them. No fuel is used. The bounds are those of the sources: ten connections, of which two or four are kept in reserve, and buffers of 1024
  bytes in the \<open>poll\<close> and \<open>select\<close> servers, 100 bytes in the echo programs, 61440 descriptors in the C++ server.

  \<^bold>\<open>Check sums\<close> (\<open>crc\<close>). \<open>CrcCore\<close> defines the bitwise CRC and the locale \<open>reflected_crc\<close>, what a table must satisfy to replace eight
  shifts; \<open>Crc16\<close> (\<open>crc16.c\<close>) and \<open>Crc32\<close> (\<open>crc32.c\<close>) interpret it on the tables of the source. Shown: equality with the
  bitwise definition for every input, reads behind a short frame, residues, detection of a changed byte, checking in parts.

  \<^bold>\<open>Queues\<close> (\<open>dataStruct/queue\<close>, \<open>dataStruct/bitree\<close>). \<open>QueueSpec\<close> holds the contract \<open>fifo\<close> and its extension \<open>bounded_fifo\<close>, with the
  lemmas on any run of operations. It is interpreted on the ring of \<open>queueArray.c\<close> (\<open>qa\<close> in \<open>QueueArray\<close>), the chain of \<open>queueLinkList.c\<close> on the
  heap (\<open>lq\<close> in \<open>QueueLinkList\<close>) and the task ring of the thread pool (\<open>tq\<close> in \<open>ThreadPool\<close>). \<open>QueueTests\<close> proves what the two test programs
  print, once inside the contract. \<open>Bitree\<close>: insertion through a pointer to a pointer refines insertion into
  a set, the traversals, deletion frees every node.

  \<^bold>\<open>Thread pool and epoll server\<close> (\<open>IOModels/epoll/epollTcpServer\<close>). \<open>ThreadPool\<close> has the critical sections of
  \<open>threadpool.c\<close>, \<open>ThreadPoolConc\<close> the interleaving of creator, workers and callers with the invariant \<open>pool_inv\<close> kept by
  every event, \<open>ThreadPoolProps\<close> what follows: the ledger of tasks, freedom from faults, progress, and that destruction
  completes within a computed number of steps, with the exceptions: a second call of \<open>threadpool_destroy\<close>, or a failing broadcast, unlock or join. \<open>EpollClients\<close> and \<open>EpollServer\<close> are \<open>op_epoll.c\<close> and the handler of
  \<open>test.c\<close>: the main loop feeds the pool with addresses into the array of events, which the next round overwrites.

  \<^bold>\<open>The C++ server and its load generator\<close> (\<open>IOModels/epoll/c1000kPracticeGuide\<close>). \<open>Timers\<close>: the class \<open>TIMER\<close> with its two
  multimaps implements an agenda, the locale \<open>timer_queue\<close>. \<open>FdItems\<close>: the table of descriptors and the bytes of a descriptor's
  number. \<open>Dispatch\<close> (\<open>listenfd.cc\<close>), \<open>Workers\<close> (\<open>worker.cc\<close>), \<open>EventLoop\<close> (\<open>process_event.cc\<close> and the functions of a client) and
  \<open>ServerStart\<close> (\<open>main.cc\<close>): a connection goes from \<open>accept\<close> through a batch and a worker's channel into that worker's
  \<open>epoll\<close>; shown step by step and, in \<open>Workers\<close>, end to end; the state of a thread stays well formed, due timers are served
  once. \<open>LoadClient\<close> is the client program, \<open>LoadRun\<close> its run as a whole.

  \<^bold>\<open>poll and select servers\<close> (\<open>IOModels/poll\<close>, \<open>IOModels/select\<close>). \<open>PollServer\<close> (tables of connections and watched
  descriptors), \<open>PollLoops\<close> (sending, the state machine, a round), \<open>PollMain\<close> (set-up and all rounds), \<open>PollRun\<close> (what holds between the rounds); \<open>SelectServer\<close> is
  the earlier text. Shown: the tables stay in step through the main loop, and what the sources make of their loops:
  a count of connections that is 0 after every round, so that nobody is read until the next one connects, connections that are never served,
  a NULL callback, a message followed by zeros without end.

  \<^bold>\<open>Streams, lines and sockets\<close> (\<open>sockapi/libsrc\<close>, \<open>lib\<close>). \<open>StreamIO\<close> (\<open>readn\<close>, \<open>writen\<close>, \<open>readvrec\<close>), \<open>LineIO\<close> (\<open>readline\<close>, \<open>readLine\<close>),
  \<open>GetNum\<close> (\<open>get_num.c\<close> on \<open>strtol\<close>), \<open>Sockets\<close> (opening sockets; the locale \<open>address_attempt\<close> is the contract of a try at one address,
  interpreted for the three loops), \<open>ErrorFunctions\<close> (\<open>error_functions.c\<close>). Shown: exact counts and round trips however the kernel
  cuts the stream, and the descriptors left open on every path.

  \<^bold>\<open>Demos over sockets\<close> (\<open>sockapi/demo\<close>, \<open>sockapi/test\<close>). \<open>Heartbeat\<close> and \<open>Heartbeat2\<close> have time: the locales \<open>heartbeat\<close> and \<open>turning\<close>,
  each interpreted for client and server, give termination and when a silent peer is noticed; \<open>HbStart\<close> is how the second pair finds
  its two connections. \<open>CopyLoops\<close> is the loop \<open>while((n = read(...)) > 0)\<close> with the locale \<open>passing_on\<close>, and \<open>test/simpleCopy.c\<close> and
  \<open>test/myTee.c\<close> on it; \<open>UnixXfer\<close> and \<open>UnixDgram\<close> are the Unix-domain programs, \<open>Demos\<close> and \<open>NetPrograms\<close> the echo programs, the
  keep-alive demo, \<open>uartTest.c\<close> and \<open>demo_sigio.c\<close>.

  \<^bold>\<open>Processes, signals, users, devices.\<close> \<open>Daemon\<close> (\<open>becomeDaemon.c\<close>), \<open>LogDaemon\<close> (\<open>daemon_SIGHUP.c\<close>), \<open>MsgQueue\<close> (\<open>mqueue/posix_mq.c\<close>),
  \<open>Signals\<close> (\<open>signals\<close>, \<open>threads\<close>), \<open>ProcessGroups\<close> (\<open>pgsjc\<close>), \<open>Accounts\<close> (\<open>users_groups\<close>), \<open>Uart\<close> (\<open>serialPortapi/uart.c\<close>).

  \<^bold>\<open>The numbered properties.\<close> C1 to C6 are about the thread pool, C7 to C15 about the C++ server and its client, C16 to C22 about the
  message queue and the programs over Unix sockets and heartbeats, C23 to C25 about the linked queue and the check sums,
  C26 to C30 about the \<open>select\<close> and \<open>poll\<close> servers, C31 to C33 about reading records, lines and numbers, C34 to C40 about the epoll
  server, the tree, the heartbeats, the daemons, the password check and the echo server. Each stands behind a
  text with its number in the theory of its component; a property with hypotheses is followed by an instance at a concrete input.
  Every locale is interpreted on the definitions that model the code.

  \<^bold>\<open>Not modelled.\<close> \<open>test/myCp.c\<close> writes to a descriptor that is not declared and reads from \<open>argv[1]\<close>; \<open>dataStruct/list\<close> is not C; \<open>main\<close> of
  \<open>bitree.c\<close> calls functions that do not exist. Where only the spelling of a name is wrong (\<open>select\<close> server,
  \<open>daemon_SIGHUP.c\<close>, \<open>keep.c\<close>) it is read as the declared one. In \<open>ServerRun\<close> of the \<open>poll\<close> server the cases for enumerators
  that do not exist are left out, in that of the \<open>select\<close> server the cases written with another program's functions are arguments; its
  \<open>httpHook\<close> is named nowhere. \<open>worker_thread\<close> of the load generator is started by nothing. \<open>signals/signal.c\<close> only prints, \<open>test_become_daemon.c\<close> only calls, \<open>verify_vfork.c\<close> and
  \<open>stdioCache.c\<close> show effects of the kernel and the C library that their text does not define. Headers with
  nothing but prototypes, build files and documentation hold no code of the models. Terminal set-up, processor affinity, thread priorities and the
  texts of debugging output are left out throughout.
\<close>

end
